(* ===== verification/Prelude.thy ===== *)
theory Prelude
  imports Main "HOL-Library.Word" "HOL-Library.Signed_Division"
begin

text \<open>
  What every component shares: Go's integer arithmetic on HOL's \<open>int\<close>, decimal text,
  and small facts on lists and words.

  Go's \<open>/\<close> and \<open>%\<close> truncate towards zero, unlike HOL's \<open>div\<close> and \<open>mod\<close>.
  They are \<open>sdiv\<close> and \<open>smod\<close> of HOL-Library.Signed_Division; the lemmas in the collection
  \<open>go_arith\<close> turn them into \<open>div\<close> and \<open>mod\<close> where the signs are known.
  \<open>strconv.Itoa\<close>, \<open>strconv.Atoi\<close> and the \<open>%02d\<close> verb of \<open>fmt.Sprintf\<close> are
  library calls of the source; they are defined here the way the Go library documents them.
\<close>

unbundle bit_operations_syntax

named_theorems go_arith "Go's truncating division where the sign of the dividend is known"

type_synonym u64 = "64 word"
type_synonym u32 = "32 word"
type_synonym u16 = "16 word"
type_synonym u8 = "8 word"

section \<open>Truncating division\<close>

lemma sdiv_nonneg [go_arith]: "0 \<le> a \<Longrightarrow> 0 < b \<Longrightarrow> a sdiv b = a div (b :: int)"
  by (cases "a = 0") (simp_all add: signed_divide_int_def sgn_if)

lemma sdiv_neg [go_arith]: "a < 0 \<Longrightarrow> 0 < b \<Longrightarrow> a sdiv b = - ((- a) div (b :: int))"
  by (simp add: signed_divide_int_def sgn_if)

lemma smod_nonneg [go_arith]: "0 \<le> a \<Longrightarrow> 0 < b \<Longrightarrow> a smod b = a mod (b :: int)"
  by (cases "a = 0") (simp_all add: signed_modulo_int_def sdiv_nonneg minus_div_mult_eq_mod)

lemma smod_neg [go_arith]: "a < 0 \<Longrightarrow> 0 < b \<Longrightarrow> a smod b = - ((- a) mod (b :: int))"
  by (simp add: signed_modulo_int_def sdiv_neg algebra_simps minus_mult_div_eq_mod)

lemma smod_eq_0_iff: "0 < b \<Longrightarrow> a smod b = 0 \<longleftrightarrow> a mod (b :: int) = 0"
  by (cases "a < 0") (simp_all add: smod_neg smod_nonneg mod_eq_0_iff_dvd)

text \<open>Division by a positive number, one step at a time, and the interval a value lies in.\<close>

lemma ceil_neg_div: "0 < n \<Longrightarrow> (n - 1 - a) div n = - (a div (n::int))"
proof -
  assume n: "0 < n"
  have x: "a = n * (a div n) + a mod n" by simp
  have r: "0 \<le> a mod n" "a mod n < n" using n by simp_all
  show ?thesis
    by (rule int_div_pos_eq [where r = "n - 1 - a mod n"]) (use x n r in \<open>auto simp: algebra_simps\<close>)
qed
lemma trunc_floor: "0 < n \<Longrightarrow> k = n - 1 \<Longrightarrow> (if a < 0 then (a - k) sdiv n else a sdiv n) = a div (n::int)"
  using ceil_neg_div [of n a] by (auto simp add: go_arith)
lemma div_step: "0 < n \<Longrightarrow> x div n = (x - 1) div n + (if x mod n = 0 then 1 else (0::int))"
proof -
  assume n: "0 < n"
  have x: "x = n * (x div n) + x mod n" by simp
  have r: "0 \<le> x mod n" "x mod n < n" using n by simp_all
  show ?thesis
  proof (cases "x mod n = 0")
    case True
    have "(x - 1) div n = x div n - 1"
      by (rule int_div_pos_eq [where r = "n - 1"]) (use True x n in \<open>auto simp: algebra_simps\<close>)
    with True show ?thesis by simp
  next
    case False
    have "(x - 1) div n = x div n"
      by (rule int_div_pos_eq [where r = "x mod n - 1"]) (use False x n r in \<open>auto simp: algebra_simps\<close>)
    with False show ?thesis by simp
  qed
qed

lemma interval_step:
  fixes f :: "int \<Rightarrow> int"
  assumes "f lo \<le> x" "x < f hi" "lo < hi"
  obtains y where "lo \<le> y" "y < hi" "f y \<le> x" "x < f (y + 1)"
proof -
  have "\<exists>y. lo \<le> y \<and> y < lo + int n \<and> f y \<le> x \<and> x < f (y + 1)"
    if "x < f (lo + int n)" "0 < n" for n
    using that
  proof (induction n)
    case 0
    then show ?case by simp
  next
    case (Suc n)
    show ?case
    proof (cases "x < f (lo + int n)")
      case True
      then have "0 < n" using assms(1) by (cases n) auto
      with Suc.IH True show ?thesis by fastforce
    next
      case False
      with Suc.prems show ?thesis
        by (intro exI [of _ "lo + int n"]) (auto simp: algebra_simps)
    qed
  qed
  from this [of "nat (hi - lo)"] assms(2,3) that show ?thesis by auto
qed

section \<open>Month loops\<close>

text \<open>
  The loop \<open>for m < lim && rest >= len(m) { rest -= len(m); m++ }\<close> that several calendars use to
  find the month of a day of the year, and the loop that adds up the months before one.
\<close>

function walkMonths :: "(int \<Rightarrow> int) \<Rightarrow> int \<Rightarrow> int \<Rightarrow> int \<Rightarrow> int \<times> int" where
  "walkMonths len lim m rest =
     (if m < lim \<and> len m \<le> rest then walkMonths len lim (m + 1) (rest - len m) else (m, rest))"
  by pat_completeness auto
termination
  by (relation "measure (\<lambda>(len, lim, m, rest). nat (lim - m))") auto

declare walkMonths.simps [simp del]

function sumMonths :: "(int \<Rightarrow> int) \<Rightarrow> int \<Rightarrow> int \<Rightarrow> int \<Rightarrow> int" where
  "sumMonths len i m n = (if i < m then sumMonths len (i + 1) m (n + len i) else n)"
  by pat_completeness auto
termination
  by (relation "measure (\<lambda>(len, i, m, n). nat (m - i))") auto

declare sumMonths.simps [simp del]

lemma sumMonths_add: "sumMonths len i m (n + k) = sumMonths len i m n + k"
proof (induction len i m n rule: sumMonths.induct)
  case (1 len i m n)
  have e: "n + k + len i = n + len i + k" by simp
  show ?case
    using 1 by (subst (1 2) sumMonths.simps) (simp add: e)
qed

lemma sumMonths_step: "i \<le> m \<Longrightarrow> sumMonths len i (m + 1) n = sumMonths len i m n + len m"
proof (induction len i m n rule: sumMonths.induct)
  case (1 len i m n)
  show ?case
  proof (cases "i < m")
    case True
    with 1 show ?thesis by (subst (1 2) sumMonths.simps) simp
  next
    case False
    with 1 have "i = m" by simp
    then show ?thesis
      by (simp add: sumMonths.simps [of len m "m + 1"] sumMonths.simps [of len m m]
          sumMonths.simps [of len "m + 1" "m + 1"])
  qed
qed

lemma sumMonths_mono:
  assumes "\<And>k. 0 \<le> len k" "i \<le> m" "m \<le> m'"
  shows "sumMonths len i m n \<le> sumMonths len i m' n"
proof -
  have "sumMonths len i m n \<le> sumMonths len i (m + int j) n" for j
  proof (induction j)
    case (Suc j)
    then show ?case
      using sumMonths_step [of i "m + int j" len n] assms(1) [of "m + int j"] assms(2)
      by (simp add: algebra_simps)
  qed simp
  from this [of "nat (m' - m)"] assms(3) show ?thesis by simp
qed

lemma sumMonths_none [simp]: "m \<le> i \<Longrightarrow> sumMonths len i m n = n"
  by (simp add: sumMonths.simps)

text \<open>The month found is the one whose span of days, by a running total \<open>S\<close>, holds the day.\<close>

lemma walkMonths_spec:
  assumes "walkMonths len lim m rest = (m', rest')" "0 \<le> rest" "m \<le> lim"
    and "\<And>k. m \<le> k \<Longrightarrow> k < lim \<Longrightarrow> S (k + 1) = S k + len k"
  shows "m \<le> m' \<and> m' \<le> lim \<and> 0 \<le> rest' \<and> (m' < lim \<longrightarrow> rest' < len m') \<and>
    S m' + rest' = S m + rest"
  using assms
proof (induction len lim m rest rule: walkMonths.induct)
  case (1 len lim m rest)
  show ?case
  proof (cases "m < lim \<and> len m \<le> rest")
    case True
    with "1.prems"(1) have w: "walkMonths len lim (m + 1) (rest - len m) = (m', rest')"
      by (subst (asm) walkMonths.simps) simp
    have "m + 1 \<le> m' \<and> m' \<le> lim \<and> 0 \<le> rest' \<and> (m' < lim \<longrightarrow> rest' < len m') \<and>
        S m' + rest' = S (m + 1) + (rest - len m)"
      using "1.IH" [OF True w] True "1.prems"(4) by simp
    then show ?thesis using "1.prems"(4) [of m] True by auto
  next
    case False
    with "1.prems"(1) have "m' = m" "rest' = rest"
      by (subst (asm) walkMonths.simps; auto)+
    with False "1.prems" show ?thesis by auto
  qed
qed

section \<open>Decimal text\<close>

text \<open>The digit characters, and the decimal digits of a natural number.\<close>

definition digit_char :: "nat \<Rightarrow> char" where
  "digit_char d = char_of (48 + d)"

definition is_digit :: "char \<Rightarrow> bool" where
  "is_digit c \<longleftrightarrow> 48 \<le> (of_char c :: nat) \<and> (of_char c :: nat) \<le> 57"

definition digit_val :: "char \<Rightarrow> nat" where
  "digit_val c = of_char c - 48"

fun ndigits :: "nat \<Rightarrow> string" where
  "ndigits n = (if n < 10 then [digit_char n] else ndigits (n div 10) @ [digit_char (n mod 10)])"

declare ndigits.simps [simp del]

definition digits_val :: "string \<Rightarrow> nat" where
  "digits_val s = foldl (\<lambda>a c. 10 * a + digit_val c) 0 s"

text \<open>\<open>strconv.Itoa\<close>.\<close>

definition itoa :: "int \<Rightarrow> string" where
  "itoa n = (if n < 0 then CHR ''-'' # ndigits (nat (- n)) else ndigits (nat n))"

text \<open>
  \<open>strconv.Atoi\<close>: an optional sign, then one or more digits, the value inside the 64-bit
  range; None is its error.
\<close>

definition udigits :: "string \<Rightarrow> int option" where
  "udigits s = (if s \<noteq> [] \<and> list_all is_digit s then Some (int (digits_val s)) else None)"

definition atoi_range :: "int \<Rightarrow> int option" where
  "atoi_range n = (if - (2 ^ 63) \<le> n \<and> n < 2 ^ 63 then Some n else None)"

definition atoi :: "string \<Rightarrow> int option" where
  "atoi s = (case s of
       [] \<Rightarrow> None
     | c # r \<Rightarrow>
         (if c = CHR ''-'' then Option.bind (udigits r) (\<lambda>n. atoi_range (- n))
          else if c = CHR ''+'' then Option.bind (udigits r) atoi_range
          else Option.bind (udigits s) atoi_range))"

text \<open>\<open>fmt.Sprintf("%02d", n)\<close>: at least two characters, the sign counted, zeros filled in.\<close>

definition sprintf_02d :: "int \<Rightarrow> string" where
  "sprintf_02d n = (if 0 \<le> n \<and> n < 10 then CHR ''0'' # itoa n else itoa n)"

lemma digit_char_digit: "d < 10 \<Longrightarrow> is_digit (digit_char d)"
  by (simp add: is_digit_def digit_char_def)

lemma digit_val_char [simp]: "d < 10 \<Longrightarrow> digit_val (digit_char d) = d"
  by (simp add: digit_val_def digit_char_def)

lemma digit_char_val: "is_digit a \<Longrightarrow> digit_char (digit_val a) = a"
  by (simp add: digit_char_def digit_val_def is_digit_def)

lemma digits_val_append [simp]: "digits_val (s @ [c]) = 10 * digits_val s + digit_val c"
  by (simp add: digits_val_def)

lemma ndigits_nonempty [simp]: "ndigits n \<noteq> []"
  by (subst ndigits.simps) simp

lemma ndigits_digits: "list_all is_digit (ndigits n)"
proof (induction n rule: ndigits.induct)
  case (1 n)
  then show ?case by (subst ndigits.simps) (simp add: digit_char_digit)
qed

lemma digits_val_ndigits [simp]: "digits_val (ndigits n) = n"
proof (induction n rule: ndigits.induct)
  case (1 n)
  show ?case
  proof (cases "n < 10")
    case True
    then show ?thesis by (subst ndigits.simps) (simp add: digits_val_def)
  next
    case False
    with 1 show ?thesis by (subst ndigits.simps) simp
  qed
qed

lemma ndigits_small: "n < 10 \<Longrightarrow> ndigits n = [digit_char n]"
  by (subst ndigits.simps) simp

lemma ndigits_two: "10 \<le> n \<Longrightarrow> n < 100 \<Longrightarrow> ndigits n = [digit_char (n div 10), digit_char (n mod 10)]"
  by (subst ndigits.simps) (simp add: ndigits_small)

lemma udigits_ndigits [simp]: "udigits (ndigits n) = Some (int n)"
  by (simp add: udigits_def ndigits_digits)

lemma ndigits_hd: "is_digit (hd (ndigits n))"
  using ndigits_digits [of n] ndigits_nonempty [of n] by (cases "ndigits n") auto

lemma ndigits_length: "n < 10 ^ Suc k \<Longrightarrow> length (ndigits n) \<le> Suc k"
proof (induction k arbitrary: n)
  case 0
  then show ?case by (simp add: ndigits_small)
next
  case (Suc k)
  show ?case
  proof (cases "n < 10")
    case False
    have "n div 10 < 10 ^ Suc k" using Suc.prems by (simp add: less_mult_imp_div_less)
    with Suc.IH False show ?thesis by (subst ndigits.simps) simp
  qed (simp add: ndigits_small)
qed

lemma ndigits_hd_nonzero: "0 < n \<Longrightarrow> hd (ndigits n) \<noteq> CHR ''0''"
proof (induction n rule: ndigits.induct)
  case (1 n)
  show ?case
  proof (cases "n < 10")
    case True
    then have "digit_char n = CHR ''0'' \<Longrightarrow> digit_val CHR ''0'' = n" using digit_val_char [of n] by simp
    moreover have "digit_val CHR ''0'' = 0" by code_simp
    ultimately show ?thesis using True 1(2) by (subst ndigits.simps) auto
  next
    case False
    then show ?thesis using 1 by (subst ndigits.simps) simp
  qed
qed

lemma digits_back:
  assumes "s \<noteq> []" "list_all is_digit s" "1 < length s \<longrightarrow> hd s \<noteq> CHR ''0''"
  shows "ndigits (digits_val s) = s"
  using assms
proof (induction s rule: rev_induct)
  case (snoc c s)
  have c: "is_digit c" "digit_val c < 10" using snoc.prems(2) by (auto simp: is_digit_def digit_val_def)
  show ?case
  proof (cases "s = []")
    case True
    then show ?thesis using c by (simp add: digits_val_def ndigits_small digit_char_val)
  next
    case False
    then have h: "hd s \<noteq> CHR ''0''" using snoc.prems(3) by (cases s) auto
    have IH: "ndigits (digits_val s) = s" by (rule snoc.IH) (use False snoc.prems h in auto)
    have "digits_val s \<noteq> 0"
    proof
      assume "digits_val s = 0"
      then have "s = ndigits 0" using IH by simp
      also have "ndigits 0 = ''0''" by code_simp
      finally show False using h by simp
    qed
    then have "\<not> digits_val (s @ [c]) < 10" by simp
    then have "ndigits (digits_val (s @ [c])) = ndigits (digits_val (s @ [c]) div 10) @ [digit_char (digits_val (s @ [c]) mod 10)]"
      by (subst ndigits.simps) simp
    moreover have "digits_val (s @ [c]) div 10 = digits_val s" "digits_val (s @ [c]) mod 10 = digit_val c" using c(2) by simp_all
    ultimately show ?thesis using IH digit_char_val [OF c(1)] by simp
  qed
qed simp

lemma not_digit_sign: "\<not> is_digit (CHR ''-'')" "\<not> is_digit (CHR ''+'')"
  by (simp_all add: is_digit_def)

lemma atoi_itoa: "- (2 ^ 63) \<le> n \<Longrightarrow> n < 2 ^ 63 \<Longrightarrow> atoi (itoa n) = Some n"
proof (cases "n < 0")
  case True
  assume "- (2 ^ 63) \<le> n"
  with True show ?thesis by (simp add: itoa_def atoi_def atoi_range_def)
next
  case False
  assume u: "n < 2 ^ 63"
  obtain c r where s: "ndigits (nat n) = c # r" by (cases "ndigits (nat n)") auto
  then have d: "is_digit c" using ndigits_hd [of "nat n"] by simp
  have ne: "c \<noteq> CHR ''-''" "c \<noteq> CHR ''+''" using d not_digit_sign by auto
  have v: "udigits (c # r) = Some n" using s udigits_ndigits [of "nat n"] False by simp
  show ?thesis using False u by (simp add: itoa_def s atoi_def ne v atoi_range_def)
qed

section \<open>Bits put together\<close>

lemma push_or: "0 \<le> b \<Longrightarrow> b < 2 ^ n \<Longrightarrow> push_bit n a OR b = a * 2 ^ n + (b :: int)"
proof -
  assume b: "0 \<le> b" "b < 2 ^ n"
  then have t: "take_bit n b = b" by (simp add: take_bit_int_eq_self)
  have "push_bit n a AND b = 0"
    by (rule bit_eqI) (use t in \<open>auto simp: bit_simps\<close>, metis bit_take_bit_iff not_less)
  then show ?thesis by (simp add: disjunctive_add_eq_or [symmetric] push_bit_eq_mult)
qed

end
