(* ===== verification/Base64.thy ===== *)
theory Base64
  imports Prelude
begin

text \<open>
  The codecs behind \<open>Uint8Array\<close>'s \<open>toBase64\<close>, \<open>fromBase64\<close>, \<open>toHex\<close> and
  \<open>fromHex\<close> (\<open>internal/engine/builtin_u8base64.go\<close>). The text is a list of bytes, the data a list of
  \<open>8 word\<close>; the 24-bit groups are the \<open>int\<close> values of the source, their bytes taken by
  \<open>byte(...)\<close>. A decoder returns the bytes, how much of the text they used, and whether it ended in an
  error, all three in every case.
\<close>

section \<open>The alphabets\<close>

definition b64Std :: string where
  "b64Std = ''ABCDEFGHIJKLMNOPQRSTUVWXYZabcdefghijklmnopqrstuvwxyz0123456789+/''"

definition b64URL :: string where
  "b64URL = ''ABCDEFGHIJKLMNOPQRSTUVWXYZabcdefghijklmnopqrstuvwxyz0123456789-_''"

definition b64NoLimit :: nat where
  "b64NoLimit = 2 ^ 53 - 1"

definition b64Whitespace :: "char \<Rightarrow> bool" where
  "b64Whitespace c \<longleftrightarrow> c = CHR 0x09 \<or> c = CHR 0x0A \<or> c = CHR 0x0C \<or> c = CHR 0x0D \<or> c = CHR '' ''"

fun b64DigitFrom :: "char \<Rightarrow> string \<Rightarrow> int \<Rightarrow> int" where
  "b64DigitFrom c [] i = - 1"
| "b64DigitFrom c (a # alpha) i = (if a = c then i else b64DigitFrom c alpha (i + 1))"

definition b64Alpha :: "bool \<Rightarrow> string" where
  "b64Alpha url = (if url then b64URL else b64Std)"

definition b64Digit :: "char \<Rightarrow> bool \<Rightarrow> int" where
  "b64Digit c url = b64DigitFrom c (b64Alpha url) 0"

section \<open>Decoding base64\<close>

definition byte :: "int \<Rightarrow> u8" where
  "byte v = word_of_int v"

definition decodeB64Chunk :: "int list \<Rightarrow> nat \<Rightarrow> bool \<Rightarrow> u8 list option" where
  "decodeB64Chunk chunk n strictBits =
     (if n = 2
      then let v = push_bit 6 (chunk ! 0) OR chunk ! 1
           in if strictBits \<and> v AND 15 \<noteq> 0 then None else Some [byte (drop_bit 4 v)]
      else if n = 3
      then let v = push_bit 12 (chunk ! 0) OR push_bit 6 (chunk ! 1) OR chunk ! 2
           in if strictBits \<and> v AND 3 \<noteq> 0 then None else Some [byte (drop_bit 10 v), byte (drop_bit 2 v)]
      else let v = push_bit 18 (chunk ! 0) OR push_bit 12 (chunk ! 1) OR push_bit 6 (chunk ! 2) OR chunk ! 3
           in Some [byte (drop_bit 16 v), byte (drop_bit 8 v), byte v])"

definition chunkBytes :: "int list \<Rightarrow> nat \<Rightarrow> bool \<Rightarrow> u8 list" where
  "chunkBytes chunk n strictBits = (case decodeB64Chunk chunk n strictBits of None \<Rightarrow> [] | Some b \<Rightarrow> b)"

function skipB64Space :: "string \<Rightarrow> nat \<Rightarrow> nat" where
  "skipB64Space s index =
     (if index < length s \<and> b64Whitespace (s ! index) then skipB64Space s (index + 1) else index)"
  by pat_completeness auto
termination
  by (relation "measure (\<lambda>(s, index). length s - index)") auto

declare skipB64Space.simps [simp del]

text \<open>The end of the text, with a chunk of the given length still open.\<close>

definition b64End :: "string \<Rightarrow> string \<Rightarrow> nat \<Rightarrow> u8 list \<Rightarrow> nat \<Rightarrow> int list \<Rightarrow> nat \<Rightarrow> u8 list \<times> nat \<times> bool" where
  "b64End s lastChunk maxLength bytes rd chunk chunkLength =
     (if 0 < chunkLength
      then if lastChunk = ''stop-before-partial'' then (bytes, rd, False)
           else if lastChunk = ''strict'' then (bytes, rd, True)
           else if chunkLength = 1 then (bytes, rd, True)
           else if \<not> length bytes + (chunkLength - 1) \<le> maxLength then (bytes, rd, False)
           else (bytes @ chunkBytes chunk chunkLength False, length s, False)
      else (bytes, length s, False))"

text \<open>The padding, from the byte after its first \<open>=\<close>.\<close>

definition b64Pad :: "string \<Rightarrow> string \<Rightarrow> nat \<Rightarrow> u8 list \<Rightarrow> nat \<Rightarrow> int list \<Rightarrow> nat \<Rightarrow> nat \<Rightarrow> u8 list \<times> nat \<times> bool" where
  "b64Pad s lastChunk maxLength bytes rd chunk chunkLength index =
     (if chunkLength < 2 then (bytes, rd, True)
      else let i1 = (if chunkLength = 2 then skipB64Space s index else index)
      in if chunkLength = 2 \<and> (length s \<le> i1 \<or> s ! i1 \<noteq> CHR ''='')
         then if lastChunk = ''stop-before-partial'' then (bytes, rd, False) else (bytes, rd, True)
         else let i2 = skipB64Space s (if chunkLength = 2 then i1 + 1 else i1)
         in if i2 \<noteq> length s then (bytes, rd, True)
            else if \<not> length bytes + (chunkLength - 1) \<le> maxLength then (bytes, rd, False)
            else (case decodeB64Chunk chunk chunkLength (lastChunk = ''strict'') of
                    None \<Rightarrow> (bytes, rd, True)
                  | Some b \<Rightarrow> (bytes @ b, length s, False)))"

text \<open>
  The loop of \<open>fromBase64\<close>. The source stops at \<open>index == length\<close>; the index never passes the end.
\<close>

lemma skipB64Space_ge: "index \<le> skipB64Space s index"
proof (induction s index rule: skipB64Space.induct)
  case (1 s index)
  then show ?case by (cases "index < length s \<and> b64Whitespace (s ! index)") (auto simp: skipB64Space.simps [of s index])
qed

function b64Loop ::
  "string \<Rightarrow> bool \<Rightarrow> string \<Rightarrow> nat \<Rightarrow> u8 list \<Rightarrow> nat \<Rightarrow> int list \<Rightarrow> nat \<Rightarrow> nat \<Rightarrow> u8 list \<times> nat \<times> bool" where
  "b64Loop s url lastChunk maxLength bytes rd chunk chunkLength index =
     (let i = skipB64Space s index
      in if length s \<le> i then b64End s lastChunk maxLength bytes rd chunk chunkLength
         else if s ! i = CHR ''='' then b64Pad s lastChunk maxLength bytes rd chunk chunkLength (i + 1)
         else let d = b64Digit (s ! i) url
         in if d < 0 then (bytes, rd, True)
            else let chunk' = chunk[chunkLength := d]
            in if chunkLength + 1 = 4
               then if \<not> length bytes + 3 \<le> maxLength then (bytes, rd, False)
                    else let bytes' = bytes @ chunkBytes chunk' 4 False
                    in if length bytes' = maxLength then (bytes', i + 1, False)
                       else b64Loop s url lastChunk maxLength bytes' (i + 1) chunk' 0 (i + 1)
               else b64Loop s url lastChunk maxLength bytes rd chunk' (chunkLength + 1) (i + 1))"
  by pat_completeness auto
termination
proof (relation "measure (\<lambda>(s, url, lastChunk, maxLength, bytes, rd, chunk, chunkLength, index). length s - index)", goal_cases)
  case 1
  show ?case by simp
next
  case (2 s url lastChunk maxLength bytes rd chunk chunkLength index i d chunk' bytes')
  then show ?case using skipB64Space_ge [of index s] by simp
next
  case (3 s url lastChunk maxLength bytes rd chunk chunkLength index i d chunk')
  then show ?case using skipB64Space_ge [of index s] by simp
qed

declare b64Loop.simps [simp del]

definition fromBase64 :: "string \<Rightarrow> bool \<Rightarrow> string \<Rightarrow> nat \<Rightarrow> u8 list \<times> nat \<times> bool" where
  "fromBase64 s url lastChunk maxLength =
     (if maxLength = 0 then ([], 0, False)
      else b64Loop s url lastChunk maxLength [] 0 [0, 0, 0, 0] 0 0)"

section \<open>Hexadecimal\<close>

definition hexDigitVal :: "char \<Rightarrow> int" where
  "hexDigitVal c =
     (let n = (of_char c :: int)
      in if 48 \<le> n \<and> n \<le> 57 then n - 48
         else if 97 \<le> n \<and> n \<le> 102 then n - 97 + 10
         else if 65 \<le> n \<and> n \<le> 70 then n - 65 + 10
         else - 1)"

function hexLoop :: "string \<Rightarrow> nat \<Rightarrow> u8 list \<Rightarrow> nat \<Rightarrow> u8 list \<times> nat \<times> bool" where
  "hexLoop s maxLength bytes rd =
     (if rd < length s \<and> length bytes < maxLength
      then let hi = hexDigitVal (s ! rd); lo = hexDigitVal (s ! (rd + 1))
           in if hi < 0 \<or> lo < 0 then (bytes, rd, True)
              else hexLoop s maxLength (bytes @ [byte (push_bit 4 hi OR lo)]) (rd + 2)
      else (bytes, rd, False))"
  by pat_completeness auto
termination
  by (relation "measure (\<lambda>(s, maxLength, bytes, rd). length s - rd)") auto

declare hexLoop.simps [simp del]

definition fromHex :: "string \<Rightarrow> nat \<Rightarrow> u8 list \<times> nat \<times> bool" where
  "fromHex s maxLength = (if length s mod 2 \<noteq> 0 then ([], 0, True) else hexLoop s maxLength [] 0)"

section \<open>Encoding\<close>

definition sextet :: "string \<Rightarrow> int \<Rightarrow> nat \<Rightarrow> char" where
  "sextet alpha v n = alpha ! nat (drop_bit n v AND 63)"

fun encodeGroups :: "string \<Rightarrow> bool \<Rightarrow> u8 list \<Rightarrow> string" where
  "encodeGroups alpha omitPadding (x # y # z # b) =
     (let v = push_bit 16 (uint x) OR push_bit 8 (uint y) OR uint z
      in [sextet alpha v 18, sextet alpha v 12, sextet alpha v 6, sextet alpha v 0] @
         encodeGroups alpha omitPadding b)"
| "encodeGroups alpha omitPadding [x, y] =
     (let v = push_bit 16 (uint x) OR push_bit 8 (uint y)
      in [sextet alpha v 18, sextet alpha v 12, sextet alpha v 6] @ (if omitPadding then [] else ''=''))"
| "encodeGroups alpha omitPadding [x] =
     (let v = push_bit 16 (uint x)
      in [sextet alpha v 18, sextet alpha v 12] @ (if omitPadding then [] else ''==''))"
| "encodeGroups alpha omitPadding [] = []"

definition encodeBase64 :: "u8 list \<Rightarrow> bool \<Rightarrow> bool \<Rightarrow> string" where
  "encodeBase64 b url omitPadding = encodeGroups (b64Alpha url) omitPadding b"

definition hexLower :: string where "hexLower = ''0123456789abcdef''"

definition encodeHex :: "u8 list \<Rightarrow> string" where
  "encodeHex b = concat (map (\<lambda>c. [hexLower ! unat (drop_bit 4 c), hexLower ! unat (c AND 15)]) b)"

end
