(* ===== verification/Base64_Laws.thy ===== *)
theory Base64_Laws
  imports Base64
begin

text \<open>
  The codecs of \<open>Base64\<close>: what was encoded decodes to itself, with and without padding, in both
  alphabets and under every treatment of the last chunk; decoders keep to their limit, and an error keeps
  whole chunks.
\<close>

section \<open>Groups of bits\<close>

lemma and_63: "(a :: int) AND 63 = a mod 64"
  using take_bit_eq_mask [of 6 a] by (simp add: take_bit_eq_mod mask_eq_exp_minus_1)

lemma and_15: "(a :: int) AND 15 = a mod 16"
  using take_bit_eq_mask [of 4 a] by (simp add: take_bit_eq_mod mask_eq_exp_minus_1)

lemma and_3: "(a :: int) AND 3 = a mod 4"
  using take_bit_eq_mask [of 2 a] by (simp add: take_bit_eq_mod mask_eq_exp_minus_1)

lemma drop_div: "drop_bit n (a :: int) = a div 2 ^ n"
  by (simp add: drop_bit_eq_div)

lemma uint_byte: "0 \<le> uint (x :: u8) \<and> uint x < 256"
  using uint_bounded [of x] by simp

lemma byte_uint [simp]: "byte (uint x) = x"
  by (simp add: byte_def)

lemma byte_mod: "byte (a * 256 + b) = byte b"
  unfolding byte_def word_of_int_eq_iff by (simp add: take_bit_eq_mod)

text \<open>A group of three bytes as four sextets, and what the decoder makes of them.\<close>

definition sextets :: "int \<Rightarrow> int list" where
  "sextets v = [v div 262144 mod 64, v div 4096 mod 64, v div 64 mod 64, v mod 64]"

lemma sextet_value: "sextet alpha v 18 = alpha ! nat (sextets v ! 0)" "sextet alpha v 12 = alpha ! nat (sextets v ! 1)"
  "sextet alpha v 6 = alpha ! nat (sextets v ! 2)" "sextet alpha v 0 = alpha ! nat (sextets v ! 3)"
  by (simp_all add: sextet_def sextets_def and_63 drop_div)

lemma sextets_bounds: "k < 4 \<Longrightarrow> 0 \<le> sextets v ! k \<and> sextets v ! k < 64"
  by (auto simp: sextets_def less_Suc_eq eval_nat_numeral)

lemma sextets_join:
  assumes "0 \<le> v" "v < 16777216"
  shows "sextets v ! 0 * 64 + sextets v ! 1 = v div 4096"
    "(sextets v ! 0 * 64 + sextets v ! 1) * 64 + sextets v ! 2 = v div 64"
    "((sextets v ! 0 * 64 + sextets v ! 1) * 64 + sextets v ! 2) * 64 + sextets v ! 3 = v"
proof -
  have d: "v div 4096 = v div 64 div 64" "v div 262144 = v div 4096 div 64"
    using zdiv_zmult2_eq [of 64 v 64] zdiv_zmult2_eq [of 64 v 4096] by simp_all
  have "v div 262144 < 64" using assms by (simp add: div_less_iff_less_mult)
  moreover have "0 \<le> v div 262144" using assms by (simp add: pos_imp_zdiv_nonneg_iff)
  ultimately have t: "v div 262144 mod 64 = v div 262144" by simp
  have e: "v div 4096 = v div 262144 * 64 + v div 4096 mod 64" "v div 64 = v div 4096 * 64 + v div 64 mod 64"
    "v = v div 64 * 64 + v mod 64"
    unfolding d by simp_all
  show 1: "sextets v ! 0 * 64 + sextets v ! 1 = v div 4096"
    unfolding sextets_def using e(1) t by simp
  show 2: "(sextets v ! 0 * 64 + sextets v ! 1) * 64 + sextets v ! 2 = v div 64"
    unfolding 1 unfolding sextets_def using e(2) by simp
  show "((sextets v ! 0 * 64 + sextets v ! 1) * 64 + sextets v ! 2) * 64 + sextets v ! 3 = v"
    unfolding 2 unfolding sextets_def using e(3) by simp
qed

lemma join2: "0 \<le> b \<Longrightarrow> b < 64 \<Longrightarrow> push_bit 6 a OR b = a * 64 + (b :: int)"
  using push_or [of b 6 a] by simp

lemma join3: "0 \<le> b \<Longrightarrow> b < 64 \<Longrightarrow> 0 \<le> c \<Longrightarrow> c < 64 \<Longrightarrow>
    push_bit 12 a OR push_bit 6 b OR c = (a * 64 + b) * 64 + (c :: int)"
  using push_or [of "b * 64 + c" 12 a] by (simp add: join2 algebra_simps)

lemma join4: "0 \<le> b \<Longrightarrow> b < 64 \<Longrightarrow> 0 \<le> c \<Longrightarrow> c < 64 \<Longrightarrow> 0 \<le> d \<Longrightarrow> d < 64 \<Longrightarrow>
    push_bit 18 a OR push_bit 12 b OR push_bit 6 c OR d = ((a * 64 + b) * 64 + c) * 64 + (d :: int)"
  using push_or [of "(b * 64 + c) * 64 + d" 18 a] by (simp add: join3 algebra_simps)

lemma byte_div: "byte (a * 256 + uint x) = x"
  by (simp add: byte_mod)

lemma decode_group:
  assumes "chunk ! 0 = sextets v ! 0" "chunk ! 1 = sextets v ! 1" "chunk ! 2 = sextets v ! 2" "chunk ! 3 = sextets v ! 3"
    and v: "v = (uint x * 256 + uint y) * 256 + uint z"
  shows "decodeB64Chunk chunk 4 st = Some [x, y, z]"
proof -
  have r: "0 \<le> v" "v < 16777216" using uint_byte [of x] uint_byte [of y] uint_byte [of z] by (simp_all add: v)
  have j: "push_bit 18 (chunk ! 0) OR push_bit 12 (chunk ! 1) OR push_bit 6 (chunk ! 2) OR chunk ! 3 = v"
    using join4 sextets_bounds [of 1 v] sextets_bounds [of 2 v] sextets_bounds [of 3 v] sextets_join(3) [OF r]
    unfolding assms(1-4) by simp
  have d: "v div 256 = uint x * 256 + uint y"
    by (rule int_div_pos_eq [where r = "uint z"]) (use uint_byte [of z] v in auto)
  have d2: "v div 65536 = uint x"
    by (rule int_div_pos_eq [where r = "uint y * 256 + uint z"]) (use uint_byte [of y] uint_byte [of z] v in auto)
  have "byte (v div 65536) = x" "byte (v div 256) = y" "byte v = z"
    unfolding d d2 by (simp_all only: byte_uint byte_div) (simp only: v byte_div)
  then show ?thesis unfolding decodeB64Chunk_def Let_def j drop_div by simp
qed

lemma decode_two:
  assumes "chunk ! 0 = sextets v ! 0" "chunk ! 1 = sextets v ! 1" "chunk ! 2 = sextets v ! 2"
    and v: "v = (uint x * 256 + uint y) * 256"
  shows "decodeB64Chunk chunk 3 st = Some [x, y]"
proof -
  have r: "0 \<le> v" "v < 16777216" using uint_byte [of x] uint_byte [of y] by (simp_all add: v)
  have d: "v div 64 = (uint x * 256 + uint y) * 4"
    by (rule int_div_pos_eq [where r = 0]) (use v in auto)
  have j: "push_bit 12 (chunk ! 0) OR push_bit 6 (chunk ! 1) OR chunk ! 2 = (uint x * 256 + uint y) * 4"
    using join3 sextets_bounds [of 1 v] sextets_bounds [of 2 v] sextets_join(2) [OF r]
    unfolding assms(1-3) d by simp
  have d1: "(uint x * 256 + uint y) * 4 div 1024 = uint x"
    by (rule int_div_pos_eq [where r = "uint y * 4"]) (use uint_byte [of y] in auto)
  have "(uint x * 256 + uint y) * 4 div 4 = uint x * 256 + uint y" "(uint x * 256 + uint y) * 4 mod 4 = 0" by simp_all
  then have "byte ((uint x * 256 + uint y) * 4 div 4) = y" "(uint x * 256 + uint y) * 4 AND 3 = 0"
    by (simp_all only: byte_div and_3)
  then show ?thesis unfolding decodeB64Chunk_def Let_def j drop_div using d1 by simp
qed

lemma decode_one:
  assumes "chunk ! 0 = sextets v ! 0" "chunk ! 1 = sextets v ! 1" and v: "v = uint x * 65536"
  shows "decodeB64Chunk chunk 2 st = Some [x]"
proof -
  have r: "0 \<le> v" "v < 16777216" using uint_byte [of x] by (simp_all add: v)
  have d: "v div 4096 = uint x * 16" by (rule int_div_pos_eq [where r = 0]) (use v in auto)
  have j: "push_bit 6 (chunk ! 0) OR chunk ! 1 = uint x * 16"
    using join2 sextets_bounds [of 1 v] sextets_join(1) [OF r] unfolding assms(1,2) d by simp
  show ?thesis unfolding decodeB64Chunk_def Let_def j by (simp add: drop_div and_15)
qed

section \<open>Reading sextets\<close>

lemma alpha_table: "list_all (\<lambda>k. b64Digit (b64Alpha url ! k) url = int k \<and> \<not> b64Whitespace (b64Alpha url ! k) \<and>
    b64Alpha url ! k \<noteq> CHR ''='') [0..<64]"
  by (cases url) (simp_all add: b64Alpha_def, code_simp+)

lemma alpha_digit:
  assumes "0 \<le> k" "k < 64"
  shows "b64Digit (b64Alpha url ! nat k) url = k" "\<not> b64Whitespace (b64Alpha url ! nat k)" "b64Alpha url ! nat k \<noteq> CHR ''=''"
proof -
  have "nat k \<in> set [0..<64]" using assms by auto
  then have "b64Digit (b64Alpha url ! nat k) url = int (nat k) \<and> \<not> b64Whitespace (b64Alpha url ! nat k) \<and>
    b64Alpha url ! nat k \<noteq> CHR ''=''" by (rule bspec [OF alpha_table [of url, unfolded list_all_iff]])
  then show "b64Digit (b64Alpha url ! nat k) url = k" "\<not> b64Whitespace (b64Alpha url ! nat k)" "b64Alpha url ! nat k \<noteq> CHR ''=''"
    using assms(1) by simp_all
qed

lemma skip_none: "\<not> (index < length s \<and> b64Whitespace (s ! index)) \<Longrightarrow> skipB64Space s index = index"
  by (subst skipB64Space.simps) auto

lemma loop_sextet:
  assumes "s = pre @ b64Alpha url ! nat k # r" "0 \<le> k" "k < 64" "cl < 3"
  shows "b64Loop s url lc m bytes rd chunk cl (length pre) =
    b64Loop s url lc m bytes rd (chunk[cl := k]) (cl + 1) (length pre + 1)"
proof -
  have c: "s ! length pre = b64Alpha url ! nat k" "length pre < length s" by (simp_all add: assms(1))
  have i: "skipB64Space s (length pre) = length pre"
    by (rule skip_none) (simp add: c alpha_digit [OF assms(2,3)])
  show ?thesis
    using c i alpha_digit [OF assms(2,3)] assms(2,4) by (subst b64Loop.simps) (simp add: Let_def)
qed

lemma loop_last_sextet:
  assumes "s = pre @ b64Alpha url ! nat k # r" "0 \<le> k" "k < 64" "length bytes + 3 \<le> m"
    and "bytes' = bytes @ chunkBytes (chunk[3 := k]) 4 False"
  shows "b64Loop s url lc m bytes rd chunk 3 (length pre) =
    (if length bytes' = m then (bytes', length pre + 1, False)
     else b64Loop s url lc m bytes' (length pre + 1) (chunk[3 := k]) 0 (length pre + 1))"
proof -
  have c: "s ! length pre = b64Alpha url ! nat k" "length pre < length s" by (simp_all add: assms(1))
  have i: "skipB64Space s (length pre) = length pre"
    by (rule skip_none) (simp add: c alpha_digit [OF assms(2,3)])
  show ?thesis
    using c i alpha_digit [OF assms(2,3)] assms(2,4,5) by (subst b64Loop.simps) (simp add: Let_def)
qed

section \<open>Round trips\<close>

lemma loop_end: "length s \<le> i \<Longrightarrow> b64Loop s url lc m bytes rd chunk cl i = b64End s lc m bytes rd chunk cl"
  using skip_none [of i s] by (subst b64Loop.simps) (simp add: Let_def)

lemma loop_pad:
  assumes "s = pre @ CHR ''='' # r"
  shows "b64Loop s url lc m bytes rd chunk cl (length pre) = b64Pad s lc m bytes rd chunk cl (length pre + 1)"
proof -
  have "skipB64Space s (length pre) = length pre" by (rule skip_none) (simp add: assms b64Whitespace_def)
  then show ?thesis using assms by (subst b64Loop.simps) (simp add: Let_def)
qed

definition endsChunk :: "bool \<Rightarrow> string \<Rightarrow> u8 list \<Rightarrow> bool" where
  "endsChunk omit lc b \<longleftrightarrow> length b mod 3 = 0 \<or> \<not> omit \<or> (lc \<noteq> ''stop-before-partial'' \<and> lc \<noteq> ''strict'')"

lemma loop_groups:
  assumes "s = pre @ encodeGroups (b64Alpha url) omit b" "length chunk = 4" "length bytes < m"
    "length bytes + length b \<le> m" "endsChunk omit lc b"
  shows "b64Loop s url lc m bytes rd chunk 0 (length pre) = (bytes @ b, length s, False)"
  using assms
proof (induction "b64Alpha url" omit b arbitrary: pre bytes rd chunk rule: encodeGroups.induct)
  case (1 omit x y z b)
  define v where "v = (uint x * 256 + uint y) * 256 + uint z"
  have "push_bit 8 (uint y) OR uint z = uint y * 256 + uint z" using push_or [of "uint z" 8 "uint y"] uint_byte [of z] by simp
  then have e: "push_bit 16 (uint x) OR push_bit 8 (uint y) OR uint z = v"
    using push_or [of "uint y * 256 + uint z" 16 "uint x"] uint_byte [of y] uint_byte [of z] by (simp add: v_def)
  let ?k = "\<lambda>i. sextets v ! i"
  let ?c = "\<lambda>i. b64Alpha url ! nat (?k i)"
  define r where "r = encodeGroups (b64Alpha url) omit b"
  have s: "s = pre @ ?c 0 # ?c 1 # ?c 2 # ?c 3 # r"
    using 1(2) by (simp add: e Let_def sextet_value r_def)
  note k = sextets_bounds [of 0 v] sextets_bounds [of 1 v] sextets_bounds [of 2 v] sextets_bounds [of 3 v]
  let ?ch = "chunk[0 := ?k 0, 1 := ?k 1, 2 := ?k 2, 3 := ?k 3]"
  have d: "chunkBytes ?ch 4 False = [x, y, z]"
    unfolding chunkBytes_def using decode_group [of ?ch v x y z False] 1(3) v_def by simp
  have m: "length bytes + 3 \<le> m" using 1(5) by simp
  have "b64Loop s url lc m bytes rd chunk 0 (length pre) = b64Loop s url lc m bytes rd (chunk[0 := ?k 0]) 1 (length pre + 1)"
    using loop_sextet [of s pre url "?k 0" "?c 1 # ?c 2 # ?c 3 # r" 0] s k by simp
  also have "\<dots> = b64Loop s url lc m bytes rd (chunk[0 := ?k 0, 1 := ?k 1]) 2 (length pre + 2)"
    using loop_sextet [of s "pre @ [?c 0]" url "?k 1" "?c 2 # ?c 3 # r" 1 lc m bytes rd "chunk[0 := ?k 0]"] s k by (simp add: eval_nat_numeral)
  also have "\<dots> = b64Loop s url lc m bytes rd (chunk[0 := ?k 0, 1 := ?k 1, 2 := ?k 2]) 3 (length pre + 3)"
    using loop_sextet [of s "pre @ [?c 0, ?c 1]" url "?k 2" "?c 3 # r" 2 lc m bytes rd "chunk[0 := ?k 0, 1 := ?k 1]"] s k
    by (simp add: eval_nat_numeral)
  also have "\<dots> = (if length (bytes @ [x, y, z]) = m then (bytes @ [x, y, z], length pre + 4, False)
      else b64Loop s url lc m (bytes @ [x, y, z]) (length pre + 4) ?ch 0 (length pre + 4))"
    using loop_last_sextet [of s "pre @ [?c 0, ?c 1, ?c 2]" url "?k 3" r bytes m "bytes @ [x, y, z]" "chunk[0 := ?k 0, 1 := ?k 1, 2 := ?k 2]" lc rd] s k m d
    by (simp add: eval_nat_numeral)
  also have "\<dots> = (bytes @ x # y # z # b, length s, False)"
  proof (cases "length (bytes @ [x, y, z]) = m")
    case True
    then have "length b = 0" using 1(5) unfolding length_append list.size by linarith
    then have "b = []" by simp
    then show ?thesis using True s by (simp add: r_def)
  next
    case False
    have "endsChunk omit lc b" using 1(6) by (simp add: endsChunk_def)
    let ?pre = "pre @ [?c 0, ?c 1, ?c 2, ?c 3]"
    have l: "length ?pre = length pre + 4" by simp
    show ?thesis using False 1(1) [OF e [symmetric], of ?pre ?ch "bytes @ [x, y, z]" "length pre + 4", unfolded l] s 1(3,5) m
        \<open>endsChunk omit lc b\<close>
      by (simp add: r_def)
  qed
  finally show ?case .
next
  case (2 omit x y)
  define v where "v = (uint x * 256 + uint y) * 256"
  have e: "push_bit 16 (uint x) OR push_bit 8 (uint y) = v"
    using push_or [of "uint y * 256" 16 "uint x"] uint_byte [of y] by (simp add: v_def push_bit_eq_mult)
  let ?k = "\<lambda>i. sextets v ! i"
  let ?c = "\<lambda>i. b64Alpha url ! nat (?k i)"
  define r where "r = (if omit then [] else ''='')"
  have s: "s = pre @ ?c 0 # ?c 1 # ?c 2 # r"
    using 2(1) by (simp add: e Let_def sextet_value r_def)
  note k = sextets_bounds [of 0 v] sextets_bounds [of 1 v] sextets_bounds [of 2 v]
  let ?ch = "chunk[0 := ?k 0, 1 := ?k 1, 2 := ?k 2]"
  have d: "decodeB64Chunk ?ch 3 st = Some [x, y]" for st
    using decode_two [of ?ch v x y st] 2(2) v_def by simp
  have "b64Loop s url lc m bytes rd chunk 0 (length pre) = b64Loop s url lc m bytes rd (chunk[0 := ?k 0]) 1 (length pre + 1)"
    using loop_sextet [of s pre url "?k 0" "?c 1 # ?c 2 # r" 0] s k by simp
  also have "\<dots> = b64Loop s url lc m bytes rd (chunk[0 := ?k 0, 1 := ?k 1]) 2 (length pre + 2)"
    using loop_sextet [of s "pre @ [?c 0]" url "?k 1" "?c 2 # r" 1 lc m bytes rd "chunk[0 := ?k 0]"] s k by (simp add: eval_nat_numeral)
  also have "\<dots> = b64Loop s url lc m bytes rd ?ch 3 (length pre + 3)"
    using loop_sextet [of s "pre @ [?c 0, ?c 1]" url "?k 2" r 2 lc m bytes rd "chunk[0 := ?k 0, 1 := ?k 1]"] s k
    by (simp add: eval_nat_numeral)
  also have "\<dots> = (bytes @ [x, y], length s, False)"
  proof (cases omit)
    case True
    then have "lc \<noteq> ''stop-before-partial''" "lc \<noteq> ''strict''" using 2(5) by (auto simp: endsChunk_def)
    then show ?thesis using True s d 2(4) by (simp add: loop_end r_def b64End_def chunkBytes_def)
  next
    case False
    have "b64Loop s url lc m bytes rd ?ch 3 (length pre + 3) = b64Pad s lc m bytes rd ?ch 3 (length pre + 4)"
      using loop_pad [of s "pre @ [?c 0, ?c 1, ?c 2]" "[]"] s False by (simp add: r_def eval_nat_numeral)
    moreover have "length s = length pre + 4" "skipB64Space s (length pre + 4) = length pre + 4"
      using s False by (simp_all add: r_def skip_none)
    ultimately show ?thesis using d 2(4) by (simp add: b64Pad_def Let_def)
  qed
  finally show ?case .
next
  case (3 omit x)
  define v where "v = uint x * 65536"
  have e: "push_bit 16 (uint x) = v" by (simp add: v_def push_bit_eq_mult)
  let ?k = "\<lambda>i. sextets v ! i"
  let ?c = "\<lambda>i. b64Alpha url ! nat (?k i)"
  define r where "r = (if omit then [] else ''=='')"
  have s: "s = pre @ ?c 0 # ?c 1 # r"
    using 3(1) by (simp add: e Let_def sextet_value r_def)
  note k = sextets_bounds [of 0 v] sextets_bounds [of 1 v]
  let ?ch = "chunk[0 := ?k 0, 1 := ?k 1]"
  have d: "decodeB64Chunk ?ch 2 st = Some [x]" for st
    using decode_one [of ?ch v x st] 3(2) v_def by simp
  have "b64Loop s url lc m bytes rd chunk 0 (length pre) = b64Loop s url lc m bytes rd (chunk[0 := ?k 0]) 1 (length pre + 1)"
    using loop_sextet [of s pre url "?k 0" "?c 1 # r" 0] s k by simp
  also have "\<dots> = b64Loop s url lc m bytes rd ?ch 2 (length pre + 2)"
    using loop_sextet [of s "pre @ [?c 0]" url "?k 1" r 1 lc m bytes rd "chunk[0 := ?k 0]"] s k by (simp add: eval_nat_numeral)
  also have "\<dots> = (bytes @ [x], length s, False)"
  proof (cases omit)
    case True
    then have "lc \<noteq> ''stop-before-partial''" "lc \<noteq> ''strict''" using 3(5) by (auto simp: endsChunk_def)
    then show ?thesis using True s d 3(4) by (simp add: loop_end r_def b64End_def chunkBytes_def)
  next
    case False
    have "b64Loop s url lc m bytes rd ?ch 2 (length pre + 2) = b64Pad s lc m bytes rd ?ch 2 (length pre + 3)"
      using loop_pad [of s "pre @ [?c 0, ?c 1]" "''=''"] s False by (simp add: r_def eval_nat_numeral)
    moreover have "length s = length pre + 4" "s ! (length pre + 3) = CHR ''=''"
      using s False by (simp_all add: r_def nth_append)
    moreover from this have "skipB64Space s (length pre + 3) = length pre + 3" "skipB64Space s (length pre + 4) = length pre + 4"
      by (simp_all add: skip_none b64Whitespace_def)
    ultimately show ?thesis using d 3(4) by (simp add: b64Pad_def Let_def add.commute [of 4])
  qed
  finally show ?case .
next
  case (4 omit)
  then show ?case by (simp add: loop_end b64End_def)
qed

lemma base64_roundtrip:
  assumes "length b \<le> m" "endsChunk omit lc b"
  shows "fromBase64 (encodeBase64 b url omit) url lc m = (b, length (encodeBase64 b url omit), False)"
proof (cases "m = 0")
  case True
  then show ?thesis using assms by (simp add: fromBase64_def encodeBase64_def)
next
  case False
  then show ?thesis using loop_groups [of "encodeBase64 b url omit" "[]" url omit b "[0, 0, 0, 0]" "[]" m lc 0] assms
    by (simp add: fromBase64_def encodeBase64_def)
qed

section \<open>Limits and errors\<close>

lemma decode_length: "decodeB64Chunk chunk n st = Some b \<Longrightarrow> n = 2 \<or> n = 3 \<or> n = 4 \<Longrightarrow> length b = n - 1"
  by (auto simp: decodeB64Chunk_def Let_def split: if_splits)

lemma chunkBytes_length: "n = 2 \<or> n = 3 \<or> n = 4 \<Longrightarrow> length (chunkBytes chunk n False) = n - 1"
  by (auto simp: chunkBytes_def decodeB64Chunk_def Let_def)

definition keptLimits :: "string \<Rightarrow> nat \<Rightarrow> u8 list \<Rightarrow> u8 list \<times> nat \<times> bool \<Rightarrow> bool" where
  "keptLimits s m bytes res \<longleftrightarrow> (case res of (bytes', rd', bad) \<Rightarrow>
     length bytes' \<le> m \<and> rd' \<le> length s \<and> take (length bytes) bytes' = bytes \<and> (bad \<longrightarrow> length bytes' mod 3 = 0))"

lemma loop_limits:
  assumes "length bytes \<le> m" "length bytes mod 3 = 0" "rd \<le> length s" "cl < 4"
  shows "keptLimits s m bytes (b64Loop s url lc m bytes rd chunk cl i)"
  using assms
proof (induction s url lc m bytes rd chunk cl i rule: b64Loop.induct)
  case (1 s url lc m bytes rd chunk cl i)
  define j where "j = skipB64Space s i"
  have here: "keptLimits s m bytes (bytes, rd, bad)" for bad using 1(3-5) by (simp add: keptLimits_def)
  have fin: "keptLimits s m bytes (bytes @ b, length s, False)" if "length bytes + length b \<le> m" for b
    using that by (simp add: keptLimits_def)
  have endd: "keptLimits s m bytes (b64End s lc m bytes rd chunk cl)"
  proof (cases "1 < cl \<and> length bytes + (cl - 1) \<le> m")
    case True
    then have "length (chunkBytes chunk cl False) = cl - 1" using 1(6) by (intro chunkBytes_length) auto
    then show ?thesis using here fin [of "chunkBytes chunk cl False"] fin [of "[]"] True by (simp add: b64End_def)
  next
    case False
    then show ?thesis using here fin [of "[]"] 1(3) by (auto simp: b64End_def)
  qed
  have padd: "keptLimits s m bytes (b64Pad s lc m bytes rd chunk cl k)" for k
    using here fin 1(6) decode_length [of chunk cl "lc = ''strict''"]
    by (auto simp: b64Pad_def Let_def split: option.split)
  define d where "d = b64Digit (s ! j) url"
  show ?case
  proof (cases "length s \<le> j \<or> s ! j = CHR ''='' \<or> d < 0")
    case True
    then show ?thesis using endd padd here
      by (subst b64Loop.simps) (auto simp: Let_def j_def [symmetric] d_def [symmetric])
  next
    case False
    then have j: "\<not> length s \<le> skipB64Space s i" "s ! skipB64Space s i \<noteq> CHR ''=''" "\<not> b64Digit (s ! skipB64Space s i) url < 0"
      by (simp_all add: j_def d_def)
    define chunk' where "chunk' = chunk[cl := d]"
    show ?thesis
    proof (cases "cl + 1 = 4")
      case True
      define bytes' where "bytes' = bytes @ chunkBytes chunk' 4 False"
      have l: "length bytes' = length bytes + 3" by (simp add: bytes'_def chunkBytes_length)
      have t: "b64Loop s url lc m bytes rd chunk cl i = (if \<not> length bytes + 3 \<le> m then (bytes, rd, False)
          else if length bytes' = m then (bytes', j + 1, False)
          else b64Loop s url lc m bytes' (j + 1) chunk' 0 (j + 1))"
        using j True by (subst b64Loop.simps) (simp add: Let_def j_def d_def chunk'_def bytes'_def)
      show ?thesis
      proof (cases "length bytes + 3 \<le> m \<and> length bytes' \<noteq> m")
        case go: True
        have "keptLimits s m bytes' (b64Loop s url lc m bytes' (j + 1) chunk' 0 (j + 1))"
          unfolding j_def bytes'_def chunk'_def d_def
          by (rule 1(1)) (use go j True l 1(4) in \<open>simp_all add: j_def bytes'_def chunk'_def d_def\<close>)
        moreover obtain b1 r1 e1 where res: "b64Loop s url lc m bytes' (j + 1) chunk' 0 (j + 1) = (b1, r1, e1)" by (metis prod_cases3)
        ultimately have k: "length b1 \<le> m" "r1 \<le> length s" "take (length bytes') b1 = bytes'" "e1 \<longrightarrow> length b1 mod 3 = 0"
          by (simp_all add: keptLimits_def)
        have "take (length bytes) b1 = take (length bytes) (take (length bytes') b1)" by (simp add: bytes'_def)
        also have "\<dots> = bytes" unfolding k(3) by (simp add: bytes'_def)
        finally show ?thesis using go t k res by (simp add: keptLimits_def)
      next
        case False
        then show ?thesis using t here l j by (auto simp: keptLimits_def bytes'_def j_def)
      qed
    next
      case c4: False
      have "b64Loop s url lc m bytes rd chunk cl i = b64Loop s url lc m bytes rd chunk' (cl + 1) (j + 1)"
        using j c4 by (subst b64Loop.simps) (simp add: Let_def j_def d_def chunk'_def)
      moreover have "keptLimits s m bytes (b64Loop s url lc m bytes rd chunk' (cl + 1) (j + 1))"
        unfolding j_def chunk'_def d_def by (rule 1(2)) (use j c4 1(3-6) in simp_all)
      ultimately show ?thesis by simp
    qed
  qed
qed

lemma base64_limits:
  "fromBase64 s url lc m = (bytes, rd, bad) \<Longrightarrow> length bytes \<le> m \<and> rd \<le> length s \<and> (bad \<longrightarrow> length bytes mod 3 = 0)"
  using loop_limits [of "[]" m 0 s 0 url lc "[0, 0, 0, 0]" 0] by (auto simp: fromBase64_def keptLimits_def split: if_splits)

section \<open>Hexadecimal\<close>

lemma hex_table: "list_all (\<lambda>k. hexDigitVal (hexLower ! k) = int k) [0..<16]"
  by code_simp

lemma hex_digit: "k < 16 \<Longrightarrow> hexDigitVal (hexLower ! k) = int k"
  using hex_table by (auto simp: list_all_iff)

lemma nibbles: "unat (drop_bit 4 (c :: u8)) < 16" "unat (c AND 15) < 16"
  "byte (push_bit 4 (int (unat (drop_bit 4 c))) OR int (unat (c AND 15))) = c"
proof -
  have h: "int (unat (drop_bit 4 c)) = uint c div 16"
    by (simp add: unat_drop_bit_eq drop_bit_eq_div zdiv_int uint_div)
  have l: "int (unat (c AND 15)) = uint c mod 16"
  proof -
    have "int (unat (c AND 15)) = uint (c AND 15)" by simp
    also have "\<dots> = uint c AND 15" unfolding uint_and by simp
    finally show ?thesis by (simp only: and_15)
  qed
  show "unat (drop_bit 4 c) < 16" using h uint_byte [of c] by linarith
  show "unat (c AND 15) < 16" using l by linarith
  have "push_bit 4 (uint c div 16) OR uint c mod 16 = uint c"
    using push_or [of "uint c mod 16" 4 "uint c div 16"] by simp
  then show "byte (push_bit 4 (int (unat (drop_bit 4 c))) OR int (unat (c AND 15))) = c" unfolding h l by simp
qed

lemma encodeHex_Cons: "encodeHex (c # b) = hexLower ! unat (drop_bit 4 c) # hexLower ! unat (c AND 15) # encodeHex b"
  by (simp add: encodeHex_def)

lemma encodeHex_length: "length (encodeHex b) = 2 * length b"
  by (induction b) (simp_all add: encodeHex_def)

lemma hexLoop_encode:
  "s = pre @ encodeHex b \<Longrightarrow> length bytes \<le> m \<Longrightarrow>
    hexLoop s m bytes (length pre) = (bytes @ take (m - length bytes) b, length pre + 2 * min (m - length bytes) (length b), False)"
proof (induction b arbitrary: pre bytes)
  case Nil
  then show ?case by (subst hexLoop.simps) (simp add: encodeHex_def)
next
  case (Cons c b)
  show ?case
  proof (cases "length bytes < m")
    case True
    have n: "s ! length pre = hexLower ! unat (drop_bit 4 c)" "s ! (length pre + 1) = hexLower ! unat (c AND 15)" "length pre < length s"
      using Cons.prems(1) by (simp_all add: encodeHex_Cons nth_append)
    have "hexLoop s m bytes (length pre) = hexLoop s m (bytes @ [c]) (length pre + 2)"
      using True n hex_digit [OF nibbles(1)] hex_digit [OF nibbles(2)] nibbles(3) [of c]
      by (subst hexLoop.simps) (simp add: Let_def)
    moreover have "m - length bytes = Suc (m - length (bytes @ [c]))" using True by simp
    ultimately show ?thesis
      using Cons.IH [of "pre @ [hexLower ! unat (drop_bit 4 c), hexLower ! unat (c AND 15)]" "bytes @ [c]"] Cons.prems True
      by (simp add: encodeHex_Cons)
  next
    case False
    then show ?thesis using Cons.prems(2) by (subst hexLoop.simps) simp
  qed
qed

lemma hex_roundtrip: "fromHex (encodeHex b) m = (take m b, 2 * min m (length b), False)"
  using hexLoop_encode [of "encodeHex b" "[]" b "[]" m] by (simp add: fromHex_def encodeHex_length)

lemma hexLoop_limits:
  "hexLoop s m bytes rd = (bytes', rd', bad) \<Longrightarrow> length bytes \<le> m \<Longrightarrow> rd = 2 * length bytes \<Longrightarrow> even (length s) \<Longrightarrow> rd \<le> length s \<Longrightarrow>
    length bytes' \<le> m \<and> rd' = 2 * length bytes' \<and> rd' \<le> length s \<and> (\<not> bad \<longrightarrow> rd' = length s \<or> length bytes' = m)"
proof (induction s m bytes rd rule: hexLoop.induct)
  case (1 s m bytes rd)
  show ?case
  proof (cases "rd < length s \<and> length bytes < m")
    case True
    show ?thesis
    proof (cases "hexDigitVal (s ! rd) < 0 \<or> hexDigitVal (s ! (rd + 1)) < 0")
      case bad: True
      then have "(bytes, rd, True) = (bytes', rd', bad)"
        using 1(2) True by (subst (asm) hexLoop.simps) (simp add: Let_def)
      then show ?thesis using 1(3-6) by auto
    next
      case False
      let ?b = "bytes @ [byte (push_bit 4 (hexDigitVal (s ! rd)) OR hexDigitVal (s ! (rd + 1)))]"
      have "hexLoop s m ?b (rd + 2) = (bytes', rd', bad)"
        using 1(2) True False by (subst (asm) hexLoop.simps) (simp add: Let_def)
      moreover have "rd + 2 \<le> length s" using True 1(4,5) by (auto elim!: evenE)
      ultimately show ?thesis
        by (intro 1(1) [OF True refl refl False]) (use True 1(4,5,6) in simp_all)
    qed
  next
    case False
    then have "(bytes, rd, False) = (bytes', rd', bad)"
      using 1(2) by (subst (asm) hexLoop.simps) (auto split: if_splits)
    then show ?thesis using 1(3-6) False by auto
  qed
qed

lemma hex_limits:
  "fromHex s m = (bytes, rd, bad) \<Longrightarrow> length bytes \<le> m \<and> rd = 2 * length bytes \<and> rd \<le> length s \<and>
    (length s mod 2 \<noteq> 0 \<longrightarrow> bad \<and> bytes = []) \<and> (\<not> bad \<longrightarrow> rd = length s \<or> length bytes = m)"
  using hexLoop_limits [of s m "[]" 0 bytes rd bad] by (auto simp: fromHex_def even_iff_mod_2_eq_zero split: if_splits)

end
