(* ===== verification/ISO_Days.thy ===== *)
theory ISO_Days
  imports Prelude
begin

text \<open>
  Day numbers of the proleptic Gregorian calendar (\<open>internal/engine/calendar.go\<close>, sections
  "day numbers" and "monthCode"): \<open>isoDay\<close> and \<open>isoDate\<close> are the two directions of Howard
  Hinnant's civil-day arithmetic, with Go's truncating division written as \<open>sdiv\<close>/\<open>smod\<close>.
  A Go \<open>int\<close> is 64 bits wide; the values here stay below \<open>2^53\<close> for every date the engine
  accepts, so \<open>int\<close> is used for it.

  \<open>isoDay_linear\<close> is the closed form of \<open>isoDay\<close> for a month in range, and everything
  else follows from it: the month and year steps, and that \<open>isoDate\<close> inverts \<open>isoDay\<close>.
\<close>

section \<open>The operations\<close>

definition isoDay :: "int \<Rightarrow> int \<Rightarrow> int \<Rightarrow> int" where
  "isoDay year month day =
     (let y = (if month \<le> 2 then year - 1 else year);
          era = (if y < 0 then (y - 399) sdiv 400 else y sdiv 400);
          yoe = y - era * 400;
          mp = (month + 9) smod 12;
          doy = (153 * mp + 2) sdiv 5 + day - 1;
          doe = yoe * 365 + yoe sdiv 4 - yoe sdiv 100 + doy
      in era * 146097 + doe - 719468)"

definition isoDate :: "int \<Rightarrow> int \<times> int \<times> int" where
  "isoDate day =
     (let z = day + 719468;
          era = (if z < 0 then (z - 146096) sdiv 146097 else z sdiv 146097);
          doe = z - era * 146097;
          yoe = (doe - doe sdiv 1460 + doe sdiv 36524 - doe sdiv 146096) sdiv 365;
          y = yoe + era * 400;
          doy = doe - (365 * yoe + yoe sdiv 4 - yoe sdiv 100);
          mp = (5 * doy + 2) sdiv 153;
          d = doy - (153 * mp + 2) sdiv 5 + 1;
          m = (if 10 \<le> mp then mp - 9 else mp + 3);
          y' = (if m \<le> 2 then y + 1 else y)
      in (y', m, d))"

definition isoLeapYear :: "int \<Rightarrow> bool" where
  "isoLeapYear y \<longleftrightarrow> y smod 4 = 0 \<and> (y smod 100 \<noteq> 0 \<or> y smod 400 = 0)"

definition isoMonthLengths :: "int list" where
  "isoMonthLengths = [31, 28, 31, 30, 31, 30, 31, 31, 30, 31, 30, 31]"

definition isoDaysInMonth :: "int \<Rightarrow> int \<Rightarrow> int" where
  "isoDaysInMonth y m =
     (if m = 2 \<and> isoLeapYear y then 29
      else if m < 1 \<or> 12 < m then 30
      else isoMonthLengths ! nat (m - 1))"

definition floorDiv :: "int \<Rightarrow> int \<Rightarrow> int" where
  "floorDiv a b =
     (let q = a sdiv b in if a smod b \<noteq> 0 \<and> (a < 0) \<noteq> (b < 0) then q - 1 else q)"

definition floorMod :: "int \<Rightarrow> int \<Rightarrow> int" where
  "floorMod a b = a - floorDiv a b * b"

definition simpleMonthCode :: "int \<Rightarrow> string" where
  "simpleMonthCode month = CHR ''M'' # sprintf_02d month"

definition isMonthCodeSyntax :: "string \<Rightarrow> bool" where
  "isMonthCodeSyntax code =
     (let body = (if 0 < length code \<and> last code = CHR ''L'' then butlast code else code)
      in length body = 3 \<and> body ! 0 = CHR ''M'' \<and> is_digit (body ! 1) \<and> is_digit (body ! 2))"

text \<open>None is the \<open>ok = false\<close> return; otherwise the month number and whether it is marked leap.\<close>

definition parseMonthCode :: "string \<Rightarrow> (int \<times> bool) option" where
  "parseMonthCode code =
     (if length code < 3 \<or> hd code \<noteq> CHR ''M'' then None
      else let tail = tl code;
               leap = (tail \<noteq> [] \<and> last tail = CHR ''L'');
               body = (if leap then butlast tail else tail)
           in if length body \<noteq> 2 \<or> \<not> is_digit (body ! 0) \<or> \<not> is_digit (body ! 1) then None
              else case atoi body of
                     None \<Rightarrow> None
                   | Some n \<Rightarrow> if n < 1 \<or> 13 < n then None else Some (n, leap))"

section \<open>Floor division\<close>

lemma floorDiv_div [simp]: "0 < b \<Longrightarrow> floorDiv a b = a div b"
proof (cases "a < 0")
  case True
  assume b: "0 < b"
  have "- ((- a) div b) = (if a mod b = 0 then a div b else a div b + 1)"
    using b by (simp add: zdiv_zminus1_eq_if)
  then show ?thesis using True b by (simp add: floorDiv_def sdiv_neg smod_eq_0_iff)
next
  case False
  assume "0 < b"
  with False show ?thesis by (simp add: floorDiv_def sdiv_nonneg)
qed

lemma floorMod_mod [simp]: "0 < b \<Longrightarrow> floorMod a b = a mod b"
  by (simp add: floorMod_def minus_div_mult_eq_mod)

section \<open>Closed forms\<close>

text \<open>
  The day on which the year that begins in March starts, and the days before a month of it.
\<close>

definition marchStart :: "int \<Rightarrow> int" where
  "marchStart y = 365 * y + y div 4 - y div 100 + y div 400"

lemma isoLeapYear_iff: "isoLeapYear y \<longleftrightarrow> y mod 4 = 0 \<and> (y mod 100 \<noteq> 0 \<or> y mod 400 = 0)"
  by (simp add: isoLeapYear_def smod_eq_0_iff)

lemma marchStart_step:
  "marchStart y = marchStart (y - 1) + (if isoLeapYear y then 366 else 365)"
proof -
  have i: "y mod 100 = 0 \<Longrightarrow> y mod 4 = 0" "y mod 400 = 0 \<Longrightarrow> y mod 100 = 0"
    using dvd_trans [of 4 100 y] dvd_trans [of 100 400 y] by (simp_all add: mod_eq_0_iff_dvd)
  define a b c :: int where "a = (if y mod 4 = 0 then 1 else 0)"
    and "b = (if y mod 100 = 0 then 1 else 0)" and "c = (if y mod 400 = 0 then 1 else 0)"
  have "y div 4 = (y - 1) div 4 + a" "y div 100 = (y - 1) div 100 + b"
    "y div 400 = (y - 1) div 400 + c"
    unfolding a_def b_def c_def by (rule div_step, simp)+
  then have "marchStart y = marchStart (y - 1) + 365 + a - b + c"
    by (simp only: marchStart_def algebra_simps)
  moreover have "365 + a - b + c = (if isoLeapYear y then 366 else 365)"
    unfolding a_def b_def c_def isoLeapYear_iff using i
    by (cases "y mod 400 = 0"; cases "y mod 100 = 0"; cases "y mod 4 = 0") (simp_all only: if_True if_False simp_thms, simp_all)
  ultimately show ?thesis by linarith
qed

lemma era_floor [simp]: "(if y < 0 then (y - 399) sdiv 400 else y sdiv 400) = y div (400::int)"
  by (rule trunc_floor) simp_all
lemma era_floor2 [simp]: "(if z < 0 then (z - 146096) sdiv 146097 else z sdiv 146097) = z div (146097::int)"
  by (rule trunc_floor) simp_all

definition monthShift :: "int \<Rightarrow> int" where
  "monthShift m = (153 * ((m + 9) mod 12) + 2) div 5"

lemma march_era: 
  "y div 400 * 146097 + ((y - y div 400 * 400) * 365 + (y - y div 400 * 400) div 4 - (y - y div 400 * 400) div 100) = marchStart y"
proof -
  have "(y - y div 400 * 400) div 4 = y div 4 - y div 400 * 100" 
    using div_mult_self2 [of 4 "y" "- (y div 400 * 100)"] by (simp add: algebra_simps)
  moreover have "(y - y div 400 * 400) div 100 = y div 100 - y div 400 * 4"
    using div_mult_self2 [of 100 "y" "- (y div 400 * 4)"] by (simp add: algebra_simps)
  ultimately show ?thesis by (simp add: marchStart_def)
qed

lemma isoDay_linear:
  assumes "1 \<le> m"
  shows "isoDay y m d = marchStart (if m \<le> 2 then y - 1 else y) + monthShift m + d - 719469"
proof -
  define y' where "y' = (if m \<le> 2 then y - 1 else y)"
  have "0 \<le> y' - y' div 400 * 400" by (simp add: minus_div_mult_eq_mod)
  moreover have "0 \<le> (m + 9) mod 12" by simp
  ultimately show ?thesis
    using march_era [of y'] assms
    unfolding isoDay_def Let_def y'_def [symmetric]
    by (simp add: go_arith monthShift_def)
qed

lemma month_cases:
  assumes "1 \<le> m" "m \<le> 12"
  obtains "m = 1" | "m = 2" | "m = 3" | "m = 4" | "m = 5" | "m = 6" | "m = 7" | "m = 8"
    | "m = 9" | "m = 10" | "m = 11" | "m = (12::int)"
proof -
  have "m \<in> set [1..12]" using assms by simp
  then show ?thesis using that by (simp add: upto.simps) blast
qed

lemma monthShift_table:
  "monthShift 1 = 306" "monthShift 2 = 337" "monthShift 3 = 0" "monthShift 4 = 31"
  "monthShift 5 = 61" "monthShift 6 = 92" "monthShift 7 = 122" "monthShift 8 = 153"
  "monthShift 9 = 184" "monthShift 10 = 214" "monthShift 11 = 245" "monthShift 12 = 275"
  by (simp_all add: monthShift_def)

lemma isoDaysInMonth_table:
  "isoDaysInMonth y 1 = 31" "isoDaysInMonth y 2 = (if isoLeapYear y then 29 else 28)"
  "isoDaysInMonth y 3 = 31" "isoDaysInMonth y 4 = 30" "isoDaysInMonth y 5 = 31"
  "isoDaysInMonth y 6 = 30" "isoDaysInMonth y 7 = 31" "isoDaysInMonth y 8 = 31"
  "isoDaysInMonth y 9 = 30" "isoDaysInMonth y 10 = 31" "isoDaysInMonth y 11 = 30"
  "isoDaysInMonth y 12 = 31"
  by (simp_all add: isoDaysInMonth_def isoMonthLengths_def)

lemma isoDay_next_month:
  assumes "1 \<le> m" "m < 12"
  shows "isoDay y (m + 1) 1 = isoDay y m 1 + isoDaysInMonth y m"
proof -
  have "m \<le> 12" using assms by simp
  with assms(1) show ?thesis
  proof (cases m rule: month_cases)
    case 2
    then show ?thesis using marchStart_step [of y]
      by (simp add: isoDay_linear monthShift_table isoDaysInMonth_table)
  qed (use assms in \<open>simp_all add: isoDay_linear monthShift_table isoDaysInMonth_table\<close>)
qed

lemma isoDay_next_year: "isoDay (y + 1) 1 1 = isoDay y 12 1 + 31"
  by (simp add: isoDay_linear monthShift_def)

lemma isoDay_day: "isoDay y m d = isoDay y m 1 + d - 1"
  by (simp add: isoDay_def Let_def)

definition yoeNum :: "int \<Rightarrow> int" where
  "yoeNum doe = doe - doe div 1460 + doe div 36524 - doe div 146096"


lemma doe_split:
  assumes "0 \<le> doe" "doe < 146097"
  obtains c q s r where "doe = 36524 * c + 1461 * q + 365 * s + r" "0 \<le> c" "c \<le> 3" "0 \<le> q" "q \<le> 24"
    "0 \<le> s" "s \<le> 3" "0 \<le> r" "r \<le> 364 \<or> r = 365 \<and> s = 3 \<and> (q < 24 \<or> c = (3::int))"
proof -
  define c where "c = (if doe = 146096 then 3 else doe div 36524)"
  define e where "e = doe - 36524 * c"
  define q where "q = e div 1461"
  define f where "f = e mod 1461"
  define s where "s = (if f = 1460 then 3 else f div 365)"
  have c: "0 \<le> c" "c \<le> 3" using assms by (auto simp: c_def)
  have e: "0 \<le> e" "e \<le> 36523 \<or> e = 36524 \<and> c = 3"
    using assms unfolding e_def c_def by (auto split: if_splits)
  have q: "0 \<le> q" "q \<le> 24" using e by (auto simp: q_def)
  have f: "0 \<le> f" "f \<le> 1460" by (auto simp: f_def)
  have ef: "e = 1461 * q + f" by (simp add: q_def f_def)
  have s: "0 \<le> s" "s \<le> 3" using f by (auto simp: s_def)
  have r: "0 \<le> f - 365 * s" "f - 365 * s \<le> 364 \<or> f = 1460 \<and> s = 3"
    using f unfolding s_def by (auto split: if_splits)
  show ?thesis
  proof (rule that [of c q s "f - 365 * s"])
    show "doe = 36524 * c + 1461 * q + 365 * s + (f - 365 * s)" using ef by (simp add: e_def)
    show "f - 365 * s \<le> 364 \<or> f - 365 * s = 365 \<and> s = 3 \<and> (q < 24 \<or> c = 3)"
      using r(2) e ef by auto
  qed (use c q s r in auto)
qed

lemma yoe_of_split:
  assumes "0 \<le> c" "c \<le> 3" "0 \<le> q" "q \<le> 24" "0 \<le> s" "s \<le> 3" "0 \<le> r"
    "r \<le> 364 \<or> r = 365 \<and> s = 3 \<and> (q < 24 \<or> c = (3::int))"
    and doe: "doe = 36524 * c + 1461 * q + 365 * s + r"
  shows "yoeNum doe div 365 = 100 * c + 4 * q + s"
proof -
  define x where "x = 24 * c + q + 365 * s + r"
  have a: "doe div 1460 = 25 * c + q + x div 1460"
    using doe by (simp add: x_def algebra_simps)
  have b: "doe div 36524 - doe div 146096 = c"
  proof (cases "doe = 146096")
    case True
    then have "c = 3" using assms by linarith
    with True show ?thesis by simp
  next
    case False
    have "1461 * q + 365 * s + r \<le> 36523" using assms False by linarith
    then have "doe div 36524 = c"
      using assms by (intro int_div_pos_eq [where r = "1461 * q + 365 * s + r"]) auto
    moreover have "doe < 146096" "0 \<le> doe" using False assms by auto
    ultimately show ?thesis by (simp add: div_pos_pos_trivial)
  qed
  have x: "x div 1460 = (if x < 1460 then 0 else 1)"
    using assms by (auto simp: x_def intro!: int_div_pos_eq [where q = 1 and r = "x - 1460"])
  have "yoeNum doe = 365 * (100 * c + 4 * q + s) + (r - x div 1460)"
    using a b doe by (simp add: yoeNum_def)
  moreover have "0 \<le> r - x div 1460" "r - x div 1460 < 365"
    using x assms by (auto simp: x_def split: if_splits)
  ultimately show ?thesis by (intro int_div_pos_eq)
qed

lemma marchStart_split:
  assumes "0 \<le> c" "c \<le> 3" "0 \<le> q" "q \<le> 24" "0 \<le> s" "s \<le> (3::int)"
  shows "365 * (100 * c + 4 * q + s) + (100 * c + 4 * q + s) div 4 - (100 * c + 4 * q + s) div 100
    = 36524 * c + 1461 * q + 365 * s"
proof -
  have "(100 * c + 4 * q + s) div 4 = 25 * c + q"
    using assms by (intro int_div_pos_eq [where r = s]) auto
  moreover have "(100 * c + 4 * q + s) div 100 = c"
    using assms by (intro int_div_pos_eq [where r = "4 * q + s"]) auto
  ultimately show ?thesis by simp
qed

text \<open>Month of a March-based year from the day of it.\<close>

lemma mp_bounds:
  assumes "0 \<le> doy" "doy \<le> (365::int)"
  defines "mp \<equiv> (5 * doy + 2) div 153"
  shows "0 \<le> mp" "mp \<le> 11" "(153 * mp + 2) div 5 \<le> doy" "doy < (153 * (mp + 1) + 2) div 5"
  using assms by auto


lemma isoDate_parts:
  fixes day :: int
  obtains yoe r mp where
    "isoDate day = (yoe + (day + 719468) div 146097 * 400 + (if 10 \<le> mp then 1 else 0),
        if 10 \<le> mp then mp - 9 else mp + 3, r - (153 * mp + 2) div 5 + 1)"
    "marchStart (yoe + (day + 719468) div 146097 * 400) + r = day + 719468"
    "0 \<le> r" "r \<le> 364 \<or> r = 365 \<and> isoLeapYear (yoe + (day + 719468) div 146097 * 400 + 1)"
    "mp = (5 * r + 2) div 153"
proof -
  define era where "era = (day + 719468) div 146097"
  define doe where "doe = day + 719468 - era * 146097"
  have doe: "0 \<le> doe" "doe < 146097" by (simp_all add: doe_def era_def minus_div_mult_eq_mod)
  obtain c q s r where sp: "doe = 36524 * c + 1461 * q + 365 * s + r" "0 \<le> c" "c \<le> 3" "0 \<le> q" "q \<le> 24"
    "0 \<le> s" "s \<le> 3" "0 \<le> r" "r \<le> 364 \<or> r = 365 \<and> s = 3 \<and> (q < 24 \<or> c = 3)"
    using doe_split [OF doe] .
  define yoe where "yoe = 100 * c + 4 * q + s"
  define mp where "mp = (5 * r + 2) div 153"
  have yoe: "yoeNum doe div 365 = yoe" unfolding yoe_def by (rule yoe_of_split) (use sp in auto)
  have start: "365 * yoe + yoe div 4 - yoe div 100 = doe - r"
    unfolding yoe_def using sp by (subst marchStart_split) auto
  have y0: "0 \<le> yoe" "0 \<le> yoe div 4" using sp by (auto simp: yoe_def)
  have n: "0 \<le> yoeNum doe" using y0(1) by (simp flip: yoe add: pos_imp_zdiv_nonneg_iff)
  have mp: "0 \<le> mp" using sp by (simp add: mp_def)
  have "doe sdiv 1460 = doe div 1460" "doe sdiv 36524 = doe div 36524" "doe sdiv 146096 = doe div 146096"
    using doe by (simp_all add: go_arith)
  then have Y: "(doe - doe sdiv 1460 + doe sdiv 36524 - doe sdiv 146096) sdiv 365 = yoe"
    using n yoe by (simp add: go_arith flip: yoeNum_def)
  have R: "doe - (365 * yoe + yoe sdiv 4 - yoe sdiv 100) = r"
    using start y0 by (simp add: go_arith)
  have M: "(5 * r + 2) sdiv 153 = mp" "(153 * mp + 2) sdiv 5 = (153 * mp + 2) div 5"
    using sp mp by (simp_all add: go_arith mp_def)
  have D: "isoDate day = (yoe + era * 400 + (if 10 \<le> mp then 1 else 0),
        if 10 \<le> mp then mp - 9 else mp + 3, r - (153 * mp + 2) div 5 + 1)"
    unfolding isoDate_def Let_def era_floor2 era_def [symmetric] doe_def [symmetric] Y R M
    using mp mp_bounds(2) [of r] sp by (auto simp: mp_def)
  show ?thesis
  proof (rule that [of yoe mp r])
    have "yoe < 400" using sp by (simp add: yoe_def)
    then have e: "(yoe + era * 400) div 400 = era" using y0 by (simp add: div_pos_pos_trivial)
    have f: "(yoe + era * 400) div 4 = yoe div 4 + era * 100"
      using div_mult_self1 [of 4 yoe "era * 100"] by (simp add: mult.assoc)
    have g: "(yoe + era * 400) div 100 = yoe div 100 + era * 4"
      using div_mult_self1 [of 100 yoe "era * 4"] by (simp add: mult.assoc)
    define a b where "a = yoe div 4" and "b = yoe div 100"
    have "365 * yoe + a - b = doe - r" using start by (simp add: a_def b_def)
    then have "marchStart (yoe + era * 400) = doe - r + era * 146097"
      unfolding marchStart_def e f g a_def [symmetric] b_def [symmetric] by (simp add: algebra_simps)
    then show "marchStart (yoe + (day + 719468) div 146097 * 400) + r = day + 719468"
      unfolding era_def [symmetric] using doe_def by linarith
    show "r \<le> 364 \<or> r = 365 \<and> isoLeapYear (yoe + (day + 719468) div 146097 * 400 + 1)"
    proof (cases "r = 365")
      case True
      with sp have "s = 3" "q < 24 \<or> c = 3" by auto
      then have y1: "yoe + era * 400 + 1 = 4 * (q + 1 + 25 * c + 100 * era)"
        "yoe + era * 400 + 1 = 4 * (q + 1) + 100 * (c + 4 * era)"
        by (simp_all add: yoe_def)
      have "(yoe + era * 400 + 1) mod 4 = 0" by (simp only: y1(1) mod_mult_self1_is_0)
      moreover have "(yoe + era * 400 + 1) mod 100 \<noteq> 0" if "q < 24"
        using that sp by (simp only: y1(2) mod_mult_self2) simp
      moreover have "(yoe + era * 400 + 1) mod 400 = 0" if "\<not> q < 24"
      proof -
        have "yoe + era * 400 + 1 = 400 * (1 + era)"
          using that sp \<open>q < 24 \<or> c = 3\<close> \<open>s = 3\<close> by (simp add: yoe_def)
        then show ?thesis by (simp only: mod_mult_self1_is_0)
      qed
      ultimately have "isoLeapYear (yoe + era * 400 + 1)" 
        unfolding isoLeapYear_iff by (cases "q < 24") simp_all
      then show ?thesis using True by (simp only: era_def simp_thms)
    next
      case False
      with sp show ?thesis by auto
    qed
  qed (use sp D in \<open>simp_all add: era_def mp_def\<close>)
qed

lemma isoDate_fields:
  assumes "isoDate day = (y, m, d)"
  shows "1 \<le> m \<and> m \<le> 12 \<and> 1 \<le> d \<and> d \<le> isoDaysInMonth y m \<and> isoDay y m d = day"
proof -
  obtain yoe r mp where P:
    "isoDate day = (yoe + (day + 719468) div 146097 * 400 + (if 10 \<le> mp then 1 else 0),
        if 10 \<le> mp then mp - 9 else mp + 3, r - (153 * mp + 2) div 5 + 1)"
    "marchStart (yoe + (day + 719468) div 146097 * 400) + r = day + 719468"
    "0 \<le> r" "r \<le> 364 \<or> r = 365 \<and> isoLeapYear (yoe + (day + 719468) div 146097 * 400 + 1)"
    "mp = (5 * r + 2) div 153"
    by (rule isoDate_parts)
  define Y where "Y = yoe + (day + 719468) div 146097 * 400"
  have mp: "0 \<le> mp" "mp \<le> 11" "(153 * mp + 2) div 5 \<le> r" "r < (153 * (mp + 1) + 2) div 5"
    using mp_bounds [of r] P(3,4) unfolding P(5) by auto
  have ymd: "y = Y + (if 10 \<le> mp then 1 else 0)" "m = (if 10 \<le> mp then mp - 9 else mp + 3)"
    "d = r - (153 * mp + 2) div 5 + 1"
    using assms P(1) by (simp_all add: Y_def)
  have sh: "monthShift m = (153 * mp + 2) div 5" using mp ymd by (auto simp: monthShift_def)
  have m: "1 \<le> m" "m \<le> 12" using mp ymd by auto
  have yy: "(if m \<le> 2 then y - 1 else y) = Y" using ymd mp by auto
  have "isoDay y m d = day"
    using P(2) m by (simp add: isoDay_linear yy sh) (simp add: Y_def ymd(3))
  moreover have "d \<le> isoDaysInMonth y m"
    using m
  proof (cases m rule: month_cases)
    case 2
    then have "mp = 11" using ymd mp by (auto split: if_splits)
    then show ?thesis using 2 P(4) ymd by (auto simp: isoDaysInMonth_table Y_def)
  qed (use mp ymd in \<open>auto simp: isoDaysInMonth_table split: if_splits\<close>)
  ultimately show ?thesis using m mp ymd by simp
qed

section \<open>Month codes\<close>

lemma month_code_table:
  "list_all (\<lambda>m. parseMonthCode (simpleMonthCode m) = Some (m, False) \<and>
     parseMonthCode (simpleMonthCode m @ ''L'') = Some (m, True) \<and>
     isMonthCodeSyntax (simpleMonthCode m) \<and> isMonthCodeSyntax (simpleMonthCode m @ ''L'')) [1..13]"
  by code_simp

lemma month_code_back:
  assumes "1 \<le> m" "m \<le> 13"
  shows "parseMonthCode (simpleMonthCode m) = Some (m, False)"
    and "parseMonthCode (simpleMonthCode m @ ''L'') = Some (m, True)"
  using month_code_table assms by (auto simp: list_all_iff)

text \<open>A month code is the code of the number it parses to, with its leap mark.\<close>

lemma atoi_digits: "is_digit a \<Longrightarrow> is_digit b \<Longrightarrow> atoi [a, b] = Some (int (10 * digit_val a + digit_val b))"
proof -
  assume d: "is_digit a" "is_digit b"
  then have "a \<noteq> CHR ''-''" "a \<noteq> CHR ''+''" using not_digit_sign by auto
  moreover have "digit_val a < 10" "digit_val b < 10" using d by (auto simp: is_digit_def digit_val_def)
  ultimately show ?thesis using d by (simp add: atoi_def udigits_def atoi_range_def digits_val_def)
qed

lemma parseMonthCode_code:
  assumes "parseMonthCode c = Some (n, leap)"
  shows "c = simpleMonthCode n @ (if leap then ''L'' else [])" "1 \<le> n" "n \<le> 13"
proof -
  have c: "length c \<ge> 3" "hd c = CHR ''M''" using assms by (auto simp: parseMonthCode_def split: if_splits)
  then obtain t where t: "c = CHR ''M'' # t" by (cases c) auto
  define body where "body = (if t \<noteq> [] \<and> last t = CHR ''L'' then butlast t else t)"
  have b: "length body = 2" "is_digit (body ! 0)" "is_digit (body ! 1)" and
    n: "atoi body = Some n" "1 \<le> n" "n \<le> 13" and l: "leap = (t \<noteq> [] \<and> last t = CHR ''L'')"
    using assms c unfolding t parseMonthCode_def body_def by (auto simp: Let_def split: if_splits option.splits)
  obtain p q where body: "body = [p, q]" using b(1) by (auto simp: length_Suc_conv numeral_2_eq_2)
  then have d: "is_digit p" "is_digit q" using b by auto
  have v: "digit_val p < 10" "digit_val q < 10" using d by (auto simp: is_digit_def digit_val_def)
  have nn: "n = int (10 * digit_val p + digit_val q)" using n(1) d unfolding body by (simp add: atoi_digits)
  have "sprintf_02d n = [p, q]"
  proof (cases "digit_val p = 0")
    case True
    moreover have "digit_char 0 = CHR ''0''" by code_simp
    ultimately show ?thesis using nn v digit_char_val [OF d(1)] digit_char_val [OF d(2)]
      by (simp add: sprintf_02d_def itoa_def ndigits_small)
  next
    case False
    then have "nat n div 10 = digit_val p" "nat n mod 10 = digit_val q"
      unfolding nn nat_int using v by simp_all
    with False show ?thesis using nn v digit_char_val [OF d(1)] digit_char_val [OF d(2)]
      by (simp add: sprintf_02d_def itoa_def ndigits_two)
  qed
  moreover have "t = body @ (if leap then ''L'' else [])"
  proof (cases leap)
    case True
    then have "butlast t @ [CHR ''L''] = t" using append_butlast_last_id [of t] l by metis
    with True l show ?thesis by (simp add: body_def)
  next
    case False
    with l show ?thesis by (auto simp: body_def)
  qed
  ultimately show "c = simpleMonthCode n @ (if leap then ''L'' else [])"
    by (simp add: simpleMonthCode_def t body)
qed (use assms in \<open>auto simp: parseMonthCode_def Let_def split: if_splits option.splits\<close>)

end
