(* ===== verification/Calendar_Interface.thy ===== *)
theory Calendar_Interface
  imports ISO_Days
begin

text \<open>
  The Go interface \<open>calendar\<close> (\<open>internal/engine/calendar.go\<close>): a value of it is its method
  table, so it is a record of functions here, and every calendar of the program is one such record.

  The locale \<open>calendar_laws\<close> is the contract that the Temporal code relies on. Its assumptions are
  local facts (how the day number moves from one day, month and year to the next, and that
  \<open>dateFromDay\<close> names a day of its calendar); inside it the two conversions are proved to be inverse
  to each other, the day number to follow the lexicographic order of dates, and a year to be as long
  as its months. Every calendar is an interpretation of it, in the theory that models the calendar.
\<close>

record calendarDate =
  cdEra :: string
  cdEraYear :: int
  cdYear :: int
  cdMonth :: int
  cdDay :: int
  cdCode :: string

record calendar =
  dateFromDay :: "int \<Rightarrow> calendarDate"
  dayFromDate :: "int \<Rightarrow> int \<Rightarrow> int \<Rightarrow> int"
  monthsInYear :: "int \<Rightarrow> int"
  daysInMonth :: "int \<Rightarrow> int \<Rightarrow> int"
  daysInYear :: "int \<Rightarrow> int"
  inLeapYear :: "int \<Rightarrow> bool"
  monthCode :: "int \<Rightarrow> int \<Rightarrow> string"
  monthFromCode :: "string \<Rightarrow> string \<Rightarrow> int option"
  eraOf :: "int \<Rightarrow> string \<times> int"
  yearFromEra :: "string \<Rightarrow> int \<Rightarrow> int option"
  eras :: "string list"

text \<open>A date that exists in a calendar.\<close>

definition cal_valid :: "calendar \<Rightarrow> int \<Rightarrow> int \<Rightarrow> int \<Rightarrow> bool" where
  "cal_valid cal y m d \<longleftrightarrow>
     1 \<le> m \<and> m \<le> monthsInYear cal y \<and> 1 \<le> d \<and> d \<le> daysInMonth cal y m"

definition cal_names :: "calendar \<Rightarrow> int \<Rightarrow> calendarDate \<Rightarrow> bool" where
  "cal_names cal day c \<longleftrightarrow>
     cal_valid cal (cdYear c) (cdMonth c) (cdDay c) \<and>
     dayFromDate cal (cdYear c) (cdMonth c) (cdDay c) = day \<and>
     cdCode c = monthCode cal (cdYear c) (cdMonth c)"

text \<open>The order of dates: year, then month, then day.\<close>

definition ymd_less :: "int \<times> int \<times> int \<Rightarrow> int \<times> int \<times> int \<Rightarrow> bool" where
  "ymd_less a b \<longleftrightarrow> (case (a, b) of ((y, m, d), (y', m', d')) \<Rightarrow>
     y < y' \<or> y = y' \<and> (m < m' \<or> m = m' \<and> d < d'))"

locale calendar_laws =
  fixes cal :: calendar
  assumes months_pos: "1 \<le> monthsInYear cal y"
    and month_len_pos: "1 \<le> m \<Longrightarrow> m \<le> monthsInYear cal y \<Longrightarrow> 1 \<le> daysInMonth cal y m"
    and day_step: "1 \<le> m \<Longrightarrow> m \<le> monthsInYear cal y \<Longrightarrow>
      dayFromDate cal y m d = dayFromDate cal y m 1 + d - 1"
    and month_step: "1 \<le> m \<Longrightarrow> m < monthsInYear cal y \<Longrightarrow>
      dayFromDate cal y (m + 1) 1 = dayFromDate cal y m 1 + daysInMonth cal y m"
    and year_step: "dayFromDate cal (y + 1) 1 1 =
      dayFromDate cal y (monthsInYear cal y) 1 + daysInMonth cal y (monthsInYear cal y)"
    and year_len: "daysInYear cal y = dayFromDate cal (y + 1) 1 1 - dayFromDate cal y 1 1"
    and of_day: "cal_names cal day (dateFromDay cal day)"
begin

lemma month_sum:
  assumes "int n < monthsInYear cal y"
  shows "dayFromDate cal y (1 + int n) 1 =
    dayFromDate cal y 1 1 + (\<Sum>k<n. daysInMonth cal y (1 + int k))"
  using assms
proof (induction n)
  case 0
  then show ?case by simp
next
  case (Suc n)
  then show ?case using month_step [of "1 + int n" y] by (simp add: algebra_simps)
qed

lemma month_le:
  assumes "1 \<le> m" "m \<le> m'" "m' \<le> monthsInYear cal y"
  shows "dayFromDate cal y m 1 \<le> dayFromDate cal y m' 1"
proof -
  have "dayFromDate cal y m 1 \<le> dayFromDate cal y (m + int n) 1" if "m + int n \<le> monthsInYear cal y" for n
    using that
  proof (induction n)
    case (Suc n)
    then show ?case
      using month_step [of "m + int n" y] month_len_pos [of "m + int n" y] assms(1)
      by (simp add: algebra_simps)
  qed simp
  from this [of "nat (m' - m)"] assms show ?thesis by simp
qed

lemma month_less:
  assumes "1 \<le> m" "m < m'" "m' \<le> monthsInYear cal y"
  shows "dayFromDate cal y m 1 + daysInMonth cal y m \<le> dayFromDate cal y m' 1"
  using month_le [of "m + 1" m' y] month_step [of m y] assms by simp

lemma in_year:
  assumes "cal_valid cal y m d"
  shows "dayFromDate cal y 1 1 \<le> dayFromDate cal y m d"
    and "dayFromDate cal y m d < dayFromDate cal (y + 1) 1 1"
proof -
  have v: "1 \<le> m" "m \<le> monthsInYear cal y" "1 \<le> d" "d \<le> daysInMonth cal y m"
    using assms by (auto simp: cal_valid_def)
  have e: "dayFromDate cal y m d = dayFromDate cal y m 1 + d - 1" using v day_step by blast
  show "dayFromDate cal y 1 1 \<le> dayFromDate cal y m d"
    using month_le [of 1 m y] v e by simp
  have "dayFromDate cal y m 1 + daysInMonth cal y m \<le> dayFromDate cal (y + 1) 1 1"
  proof (cases "m = monthsInYear cal y")
    case True
    then show ?thesis using year_step by simp
  next
    case False
    with v month_less [of m "monthsInYear cal y" y] month_len_pos [of "monthsInYear cal y" y]
      year_step [of y] months_pos [of y]
    show ?thesis by simp
  qed
  then show "dayFromDate cal y m d < dayFromDate cal (y + 1) 1 1" using e v by simp
qed

lemma year_start_less: "y < y' \<Longrightarrow> dayFromDate cal y 1 1 < dayFromDate cal y' 1 1"
proof -
  have step: "dayFromDate cal y 1 1 < dayFromDate cal (y + 1) 1 1" for y
    using in_year [of y 1 1] months_pos month_len_pos [of 1 y] by (auto simp: cal_valid_def)
  have "dayFromDate cal y 1 1 < dayFromDate cal (y + 1 + int n) 1 1" for n
  proof (induction n)
    case (Suc n)
    then show ?case using step [of "y + 1 + int n"] by (simp add: algebra_simps)
  qed (simp add: step)
  from this [of "nat (y' - y - 1)"] show "y < y' \<Longrightarrow> ?thesis" by simp
qed

lemma day_of_later_date:
  assumes "cal_valid cal y m d" "cal_valid cal y' m' d'" "ymd_less (y, m, d) (y', m', d')"
  shows "dayFromDate cal y m d < dayFromDate cal y' m' d'"
proof -
  have v: "1 \<le> m" "m \<le> monthsInYear cal y" "1 \<le> d" "d \<le> daysInMonth cal y m"
    "1 \<le> m'" "m' \<le> monthsInYear cal y'" "1 \<le> d'" "d' \<le> daysInMonth cal y' m'"
    using assms by (auto simp: cal_valid_def)
  consider "y < y'" | "y = y'" "m < m'" | "y = y'" "m = m'" "d < d'"
    using assms(3) by (auto simp: ymd_less_def)
  then show ?thesis
  proof cases
    case 1
    then have "dayFromDate cal (y + 1) 1 1 \<le> dayFromDate cal y' 1 1"
      using year_start_less [of "y + 1" y'] by (cases "y + 1 = y'") auto
    with in_year assms(1,2) show ?thesis by fastforce
  next
    case 2
    with month_less [of m m' y] v day_step [of m y d] day_step [of m' y d'] show ?thesis by simp
  next
    case 3
    with v day_step [of m y d] day_step [of m y d'] show ?thesis by simp
  qed
qed

lemma ymd_trichotomy:
  "(y, m, d) = (y', m', d') \<or> ymd_less (y, m, d) (y', m', d') \<or> ymd_less (y', m', d') (y, m, d)"
  by (auto simp: ymd_less_def)

lemma day_order:
  assumes "cal_valid cal y m d" "cal_valid cal y' m' d'"
  shows "dayFromDate cal y m d < dayFromDate cal y' m' d' \<longleftrightarrow> ymd_less (y, m, d) (y', m', d')"
  using day_of_later_date [OF assms] day_of_later_date [OF assms(2,1)]
    ymd_trichotomy [of y m d y' m' d'] by auto

lemma day_inject:
  assumes "cal_valid cal y m d" "cal_valid cal y' m' d'"
    "dayFromDate cal y m d = dayFromDate cal y' m' d'"
  shows "(y, m, d) = (y', m', d')"
  using day_of_later_date [OF assms(1,2)] day_of_later_date [OF assms(2,1)]
    ymd_trichotomy [of y m d y' m' d'] assms(3) by auto

text \<open>The two directions of the one question are inverse to each other.\<close>

lemma date_of_day_of_date:
  assumes "cal_valid cal y m d"
  shows "cdYear (dateFromDay cal (dayFromDate cal y m d)) = y \<and>
    cdMonth (dateFromDay cal (dayFromDate cal y m d)) = m \<and>
    cdDay (dateFromDay cal (dayFromDate cal y m d)) = d"
  using day_inject [OF _ assms] of_day [of "dayFromDate cal y m d"]
  by (auto simp: cal_names_def)

lemma day_of_date_of_day:
  "dayFromDate cal (cdYear (dateFromDay cal day)) (cdMonth (dateFromDay cal day))
     (cdDay (dateFromDay cal day)) = day"
  using of_day [of day] by (simp add: cal_names_def)

lemma date_valid:
  "cal_valid cal (cdYear (dateFromDay cal day)) (cdMonth (dateFromDay cal day))
     (cdDay (dateFromDay cal day))"
  using of_day [of day] by (simp add: cal_names_def)

lemma year_is_sum_of_months:
  "daysInYear cal y = (\<Sum>k<nat (monthsInYear cal y). daysInMonth cal y (1 + int k))"
proof -
  define n where "n = nat (monthsInYear cal y) - 1"
  have n: "nat (monthsInYear cal y) = Suc n" "monthsInYear cal y = 1 + int n"
    using months_pos [of y] by (auto simp: n_def)
  then show ?thesis using month_sum [of n y] year_step [of y] year_len [of y] by simp
qed

end

text \<open>
  The further promise of a calendar whose months have the same code in every year, and of one that
  counts its years from eras.
\<close>

locale calendar_codes = calendar_laws +
  assumes code_back: "1 \<le> m \<Longrightarrow> m \<le> monthsInYear cal y \<Longrightarrow> - (2 ^ 63) \<le> y \<Longrightarrow> y < 2 ^ 63 \<Longrightarrow>
    monthFromCode cal (itoa y) (monthCode cal y m) = Some m"
begin

lemma date_code_back:
  assumes "- (2 ^ 63) \<le> cdYear (dateFromDay cal day)" "cdYear (dateFromDay cal day) < 2 ^ 63"
  shows "monthFromCode cal (itoa (cdYear (dateFromDay cal day))) (cdCode (dateFromDay cal day)) =
    Some (cdMonth (dateFromDay cal day))"
  using of_day [of day] code_back assms by (simp add: cal_names_def cal_valid_def)

end

locale calendar_eras = calendar_codes +
  assumes era_back: "eraOf cal y = (e, ey) \<Longrightarrow> yearFromEra cal e ey = Some y"
    and era_known: "fst (eraOf cal y) \<in> set (eras cal)"
    and date_era_back: "yearFromEra cal (cdEra (dateFromDay cal day)) (cdEraYear (dateFromDay cal day)) =
      Some (cdYear (dateFromDay cal day))"
begin

text \<open>An era date names the day it was read from.\<close>

lemma day_of_era_date:
  "\<exists>y. yearFromEra cal (cdEra (dateFromDay cal day)) (cdEraYear (dateFromDay cal day)) = Some y \<and>
     dayFromDate cal y (cdMonth (dateFromDay cal day)) (cdDay (dateFromDay cal day)) = day"
  using date_era_back day_of_date_of_day by blast

lemma era_inject: "eraOf cal y = eraOf cal y' \<Longrightarrow> y = y'"
  using era_back [of y] era_back [of y'] by (metis option.inject surj_pair)

end

end
