(* ===== verification/Calendars.thy ===== *)
theory Calendars
  imports Calendar_Interface
begin

text \<open>
  The calendars whose months are those of the Gregorian year, or twelve months of thirty days and a
  short one (\<open>internal/engine/calendar.go\<close>): \<open>gregorianCalendar\<close>, \<open>offsetCalendar\<close>,
  \<open>japaneseCalendar\<close>, \<open>copticCalendar\<close> and \<open>ethiopicCalendar\<close>. Each Go type is a
  function of its fields that returns the method table.
\<close>

section \<open>gregory and iso8601\<close>

text \<open>\<open>monthFromCode\<close> of a calendar of so many months, none of them a leap month.\<close>

definition fixedMonthFromCode :: "int \<Rightarrow> string \<Rightarrow> string \<Rightarrow> int option" where
  "fixedMonthFromCode lim ys code =
     (case parseMonthCode code of
        None \<Rightarrow> None
      | Some (m, leap) \<Rightarrow> if leap \<or> lim < m then None else Some m)"

definition gregorianEraOf :: "bool \<Rightarrow> int \<Rightarrow> string \<times> int" where
  "gregorianEraOf isoFlag y =
     (if isoFlag then ('''', y) else if y \<le> 0 then (''bce'', 1 - y) else (''ce'', y))"

definition gregorianYearFromEra :: "string \<Rightarrow> int \<Rightarrow> int option" where
  "gregorianYearFromEra era eraYear =
     (if era = ''ce'' \<or> era = ''ad'' then Some eraYear
      else if era = ''bce'' \<or> era = ''bc'' then Some (1 - eraYear)
      else None)"

definition gregorianDateFromDay :: "bool \<Rightarrow> int \<Rightarrow> calendarDate" where
  "gregorianDateFromDay isoFlag day =
     (case isoDate day of (y, m, d) \<Rightarrow>
        let out = \<lparr>cdEra = '''', cdEraYear = 0, cdYear = y, cdMonth = m, cdDay = d,
                   cdCode = simpleMonthCode m\<rparr>
        in if isoFlag then out
           else out\<lparr>cdEra := fst (gregorianEraOf isoFlag y), cdEraYear := snd (gregorianEraOf isoFlag y)\<rparr>)"

definition gregorianCalendar :: "bool \<Rightarrow> calendar" where
  "gregorianCalendar isoFlag =
     \<lparr>dateFromDay = gregorianDateFromDay isoFlag,
      dayFromDate = isoDay,
      monthsInYear = (\<lambda>_. 12),
      daysInMonth = isoDaysInMonth,
      daysInYear = (\<lambda>y. if isoLeapYear y then 366 else 365),
      inLeapYear = isoLeapYear,
      monthCode = (\<lambda>_ m. simpleMonthCode m),
      monthFromCode = fixedMonthFromCode 12,
      eraOf = gregorianEraOf isoFlag,
      yearFromEra = gregorianYearFromEra,
      eras = (if isoFlag then [] else [''bce'', ''ce''])\<rparr>"

lemma gregorianCalendar_simps [simp]:
  "dateFromDay (gregorianCalendar isoFlag) = gregorianDateFromDay isoFlag"
  "dayFromDate (gregorianCalendar isoFlag) = isoDay"
  "monthsInYear (gregorianCalendar isoFlag) y = 12"
  "daysInMonth (gregorianCalendar isoFlag) = isoDaysInMonth"
  "daysInYear (gregorianCalendar isoFlag) y = (if isoLeapYear y then 366 else 365)"
  "inLeapYear (gregorianCalendar isoFlag) = isoLeapYear"
  "monthCode (gregorianCalendar isoFlag) y m = simpleMonthCode m"
  "monthFromCode (gregorianCalendar isoFlag) = fixedMonthFromCode 12"
  "eraOf (gregorianCalendar isoFlag) = gregorianEraOf isoFlag"
  "yearFromEra (gregorianCalendar isoFlag) = gregorianYearFromEra"
  "eras (gregorianCalendar isoFlag) = (if isoFlag then [] else [''bce'', ''ce''])"
  by (simp_all add: gregorianCalendar_def)

lemma fixedMonth_back [simp]:
  "1 \<le> m \<Longrightarrow> m \<le> lim \<Longrightarrow> lim \<le> 13 \<Longrightarrow> fixedMonthFromCode lim ys (simpleMonthCode m) = Some m"
  by (simp add: fixedMonthFromCode_def month_code_back)

lemma fixed_lookup:
  assumes "fixedMonthFromCode lim ys c = Some m"
  shows "1 \<le> m \<and> m \<le> lim \<and> simpleMonthCode m = c"
  using assms parseMonthCode_code by (fastforce simp: fixedMonthFromCode_def split: option.splits if_splits)

lemma isoDaysInMonth_pos: "1 \<le> m \<Longrightarrow> m \<le> 12 \<Longrightarrow> 28 \<le> isoDaysInMonth y m \<and> isoDaysInMonth y m \<le> 31"
  by (cases m rule: month_cases) (simp_all add: isoDaysInMonth_table)

lemma isoDay_year_length:
  "isoDay (y + 1) 1 1 - isoDay y 1 1 = (if isoLeapYear y then 366 else 365)"
  using marchStart_step [of y] by (simp add: isoDay_linear)

text \<open>Day arithmetic of the ISO year, as the laws of the interface want it.\<close>

lemmas iso_steps = isoDay_day isoDay_next_month isoDay_next_year isoDay_year_length isoDaysInMonth_pos

lemma gregorian_names: "cal_names (gregorianCalendar isoFlag) day (gregorianDateFromDay isoFlag day)"
  using isoDate_fields [of day]
  by (cases "isoDate day")
    (auto simp: cal_names_def cal_valid_def gregorianDateFromDay_def Let_def)

interpretation greg: calendar_codes "gregorianCalendar isoFlag"
proof unfold_locales
  fix y m d :: int
  show "1 \<le> m \<Longrightarrow> m \<le> monthsInYear (gregorianCalendar isoFlag) y \<Longrightarrow> 1 \<le> daysInMonth (gregorianCalendar isoFlag) y m"
    using isoDaysInMonth_pos [of m y] by simp
  show "dayFromDate (gregorianCalendar isoFlag) y m d = dayFromDate (gregorianCalendar isoFlag) y m 1 + d - 1"
    using isoDay_day [of y m d] by simp
  show "dayFromDate (gregorianCalendar isoFlag) (y + 1) 1 1 =
      dayFromDate (gregorianCalendar isoFlag) y (monthsInYear (gregorianCalendar isoFlag) y) 1 +
      daysInMonth (gregorianCalendar isoFlag) y (monthsInYear (gregorianCalendar isoFlag) y)"
    by (simp add: isoDay_next_year isoDaysInMonth_table)
  show "daysInYear (gregorianCalendar isoFlag) y =
      dayFromDate (gregorianCalendar isoFlag) (y + 1) 1 1 - dayFromDate (gregorianCalendar isoFlag) y 1 1"
    using isoDay_year_length [of y] by simp
qed (simp_all add: isoDay_next_month gregorian_names)

text \<open>The era pair of a year, in the calendar that has eras.\<close>

interpretation greg_eras: calendar_eras "gregorianCalendar False"
proof unfold_locales
  fix y day :: int and e ey
  show "eraOf (gregorianCalendar False) y = (e, ey) \<Longrightarrow> yearFromEra (gregorianCalendar False) e ey = Some y"
    by (auto simp: gregorianEraOf_def gregorianYearFromEra_def split: if_splits)
  show "yearFromEra (gregorianCalendar False) (cdEra (dateFromDay (gregorianCalendar False) day))
      (cdEraYear (dateFromDay (gregorianCalendar False) day)) =
      Some (cdYear (dateFromDay (gregorianCalendar False) day))"
    by (cases "isoDate day")
      (auto simp: gregorianDateFromDay_def Let_def gregorianEraOf_def gregorianYearFromEra_def)
qed (simp add: gregorianEraOf_def)

section \<open>buddhist and roc\<close>

definition offsetEraOf :: "string \<Rightarrow> string \<Rightarrow> int \<Rightarrow> string \<times> int" where
  "offsetEraOf era before y = (if before \<noteq> '''' \<and> y \<le> 0 then (before, 1 - y) else (era, y))"

definition offsetYearFromEra :: "string \<Rightarrow> string \<Rightarrow> string \<Rightarrow> int \<Rightarrow> int option" where
  "offsetYearFromEra cera before era eraYear =
     (if era = cera then Some eraYear
      else if era = before then Some (1 - eraYear)
      else None)"

definition offsetDateFromDay :: "int \<Rightarrow> string \<Rightarrow> string \<Rightarrow> int \<Rightarrow> calendarDate" where
  "offsetDateFromDay shift era before day =
     (case isoDate day of (y0, m, d) \<Rightarrow>
        let y = y0 + shift; (e, ey) = offsetEraOf era before y
        in \<lparr>cdEra = e, cdEraYear = ey, cdYear = y, cdMonth = m, cdDay = d,
            cdCode = simpleMonthCode m\<rparr>)"

definition offsetCalendar :: "int \<Rightarrow> string \<Rightarrow> string \<Rightarrow> calendar" where
  "offsetCalendar shift era before =
     \<lparr>dateFromDay = offsetDateFromDay shift era before,
      dayFromDate = (\<lambda>y m d. isoDay (y - shift) m d),
      monthsInYear = (\<lambda>_. 12),
      daysInMonth = (\<lambda>y m. isoDaysInMonth (y - shift) m),
      daysInYear = (\<lambda>y. if isoLeapYear (y - shift) then 366 else 365),
      inLeapYear = (\<lambda>y. isoLeapYear (y - shift)),
      monthCode = (\<lambda>_ m. simpleMonthCode m),
      monthFromCode = fixedMonthFromCode 12,
      eraOf = offsetEraOf era before,
      yearFromEra = offsetYearFromEra era before,
      eras = (if before = '''' then [era] else [era, before])\<rparr>"

lemma offsetCalendar_simps [simp]:
  "dateFromDay (offsetCalendar shift era before) = offsetDateFromDay shift era before"
  "dayFromDate (offsetCalendar shift era before) y m d = isoDay (y - shift) m d"
  "monthsInYear (offsetCalendar shift era before) y = 12"
  "daysInMonth (offsetCalendar shift era before) y m = isoDaysInMonth (y - shift) m"
  "daysInYear (offsetCalendar shift era before) y = (if isoLeapYear (y - shift) then 366 else 365)"
  "monthCode (offsetCalendar shift era before) y m = simpleMonthCode m"
  "monthFromCode (offsetCalendar shift era before) = fixedMonthFromCode 12"
  "eraOf (offsetCalendar shift era before) = offsetEraOf era before"
  "yearFromEra (offsetCalendar shift era before) = offsetYearFromEra era before"
  "eras (offsetCalendar shift era before) = (if before = '''' then [era] else [era, before])"
  by (simp_all add: offsetCalendar_def)

lemma offset_names:
  "cal_names (offsetCalendar shift era before) day (offsetDateFromDay shift era before day)"
  using isoDate_fields [of day]
  by (cases "isoDate day")
    (auto simp: cal_names_def cal_valid_def offsetDateFromDay_def Let_def split: prod.splits)

interpretation offset: calendar_codes "offsetCalendar shift era before"
proof unfold_locales
  fix y m d :: int
  show "1 \<le> m \<Longrightarrow> m \<le> monthsInYear (offsetCalendar shift era before) y \<Longrightarrow>
      1 \<le> daysInMonth (offsetCalendar shift era before) y m"
    using isoDaysInMonth_pos [of m "y - shift"] by simp
  show "dayFromDate (offsetCalendar shift era before) y m d =
      dayFromDate (offsetCalendar shift era before) y m 1 + d - 1"
    using isoDay_day [of "y - shift" m d] by simp
  show "dayFromDate (offsetCalendar shift era before) (y + 1) 1 1 =
      dayFromDate (offsetCalendar shift era before) y (monthsInYear (offsetCalendar shift era before) y) 1 +
      daysInMonth (offsetCalendar shift era before) y (monthsInYear (offsetCalendar shift era before) y)"
    using isoDay_next_year [of "y - shift"] by (simp add: isoDaysInMonth_table algebra_simps)
  show "daysInYear (offsetCalendar shift era before) y =
      dayFromDate (offsetCalendar shift era before) (y + 1) 1 1 -
      dayFromDate (offsetCalendar shift era before) y 1 1"
    using isoDay_year_length [of "y - shift"] by (simp add: algebra_simps)
qed (simp_all add: isoDay_next_month offset_names)

lemma offset_eras:
  assumes "era \<noteq> before"
  shows "calendar_eras (offsetCalendar shift era before)"
proof unfold_locales
  fix y day :: int and e ey
  show "eraOf (offsetCalendar shift era before) y = (e, ey) \<Longrightarrow>
      yearFromEra (offsetCalendar shift era before) e ey = Some y"
    using assms by (auto simp: offsetEraOf_def offsetYearFromEra_def split: if_splits)
  show "yearFromEra (offsetCalendar shift era before)
      (cdEra (dateFromDay (offsetCalendar shift era before) day))
      (cdEraYear (dateFromDay (offsetCalendar shift era before) day)) =
      Some (cdYear (dateFromDay (offsetCalendar shift era before) day))"
    using assms by (cases "isoDate day")
      (auto simp: offsetDateFromDay_def Let_def offsetEraOf_def offsetYearFromEra_def)
qed (auto simp: offsetEraOf_def)

interpretation buddhist: calendar_eras "offsetCalendar 543 ''be'' ''''"
  by (rule offset_eras) simp

interpretation roc: calendar_eras "offsetCalendar (- 1911) ''roc'' ''broc''"
  by (rule offset_eras) simp

section \<open>japanese\<close>

text \<open>
  The modern eras, most recent first: name, first day, and the Gregorian year that is year 1 of it.
  The first days are computed by \<open>init\<close> from the dates of its table.
\<close>

definition japaneseEras :: "(string \<times> int \<times> int) list" where
  "japaneseEras =
     [(''reiwa'', isoDay 2019 5 1, 2019),
      (''heisei'', isoDay 1989 1 8, 1989),
      (''showa'', isoDay 1926 12 25, 1926),
      (''taisho'', isoDay 1912 7 30, 1912),
      (''meiji'', isoDay 1873 1 1, 1868)]"

definition japaneseDateFromDay :: "int \<Rightarrow> calendarDate" where
  "japaneseDateFromDay day =
     (case isoDate day of (y, m, d) \<Rightarrow>
        let (era, ey) =
              (case List.find (\<lambda>(_, start, _). start \<le> day) japaneseEras of
                 Some (name, _, year) \<Rightarrow> (name, y - year + 1)
               | None \<Rightarrow> if y \<le> 0 then (''bce'', 1 - y) else (''ce'', y))
        in \<lparr>cdEra = era, cdEraYear = ey, cdYear = y, cdMonth = m, cdDay = d,
            cdCode = simpleMonthCode m\<rparr>)"

definition japaneseEraOf :: "int \<Rightarrow> string \<times> int" where
  "japaneseEraOf y = (if y \<le> 0 then (''bce'', 1 - y) else (''ce'', y))"

definition japaneseYearFromEra :: "string \<Rightarrow> int \<Rightarrow> int option" where
  "japaneseYearFromEra era eraYear =
     (if era = ''ce'' \<or> era = ''ad'' then Some eraYear
      else if era = ''bce'' \<or> era = ''bc'' then Some (1 - eraYear)
      else case List.find (\<lambda>(name, _, _). name = era) japaneseEras of
             Some (_, _, year) \<Rightarrow> Some (year + eraYear - 1)
           | None \<Rightarrow> None)"

definition japaneseCalendar :: calendar where
  "japaneseCalendar =
     \<lparr>dateFromDay = japaneseDateFromDay,
      dayFromDate = isoDay,
      monthsInYear = (\<lambda>_. 12),
      daysInMonth = isoDaysInMonth,
      daysInYear = (\<lambda>y. if isoLeapYear y then 366 else 365),
      inLeapYear = isoLeapYear,
      monthCode = (\<lambda>_ m. simpleMonthCode m),
      monthFromCode = fixedMonthFromCode 12,
      eraOf = japaneseEraOf,
      yearFromEra = japaneseYearFromEra,
      eras = map fst japaneseEras @ [''ce'', ''bce'']\<rparr>"

lemma japaneseCalendar_simps [simp]:
  "dateFromDay japaneseCalendar = japaneseDateFromDay"
  "dayFromDate japaneseCalendar = isoDay"
  "monthsInYear japaneseCalendar y = 12"
  "daysInMonth japaneseCalendar = isoDaysInMonth"
  "daysInYear japaneseCalendar y = (if isoLeapYear y then 366 else 365)"
  "monthCode japaneseCalendar y m = simpleMonthCode m"
  "monthFromCode japaneseCalendar = fixedMonthFromCode 12"
  "eraOf japaneseCalendar = japaneseEraOf"
  "yearFromEra japaneseCalendar = japaneseYearFromEra"
  "eras japaneseCalendar = map fst japaneseEras @ [''ce'', ''bce'']"
  by (simp_all add: japaneseCalendar_def)

lemma japanese_names: "cal_names japaneseCalendar day (japaneseDateFromDay day)"
  using isoDate_fields [of day]
  by (cases "isoDate day")
    (auto simp: cal_names_def cal_valid_def japaneseDateFromDay_def Let_def split: prod.splits)

lemma japanese_find_name:
  assumes "List.find P japaneseEras = Some (name, start, year)"
  shows "japaneseYearFromEra name ey = Some (year + ey - 1)"
  using assms unfolding japaneseEras_def
  by (auto simp: japaneseYearFromEra_def japaneseEras_def split: if_splits)

interpretation japanese: calendar_eras japaneseCalendar
proof unfold_locales
  fix y m d day :: int and e ey
  show "1 \<le> m \<Longrightarrow> m \<le> monthsInYear japaneseCalendar y \<Longrightarrow> 1 \<le> daysInMonth japaneseCalendar y m"
    using isoDaysInMonth_pos [of m y] by simp
  show "dayFromDate japaneseCalendar y m d = dayFromDate japaneseCalendar y m 1 + d - 1"
    using isoDay_day [of y m d] by simp
  show "dayFromDate japaneseCalendar (y + 1) 1 1 =
      dayFromDate japaneseCalendar y (monthsInYear japaneseCalendar y) 1 +
      daysInMonth japaneseCalendar y (monthsInYear japaneseCalendar y)"
    by (simp add: isoDay_next_year isoDaysInMonth_table)
  show "daysInYear japaneseCalendar y =
      dayFromDate japaneseCalendar (y + 1) 1 1 - dayFromDate japaneseCalendar y 1 1"
    using isoDay_year_length [of y] by simp
  show "eraOf japaneseCalendar y = (e, ey) \<Longrightarrow> yearFromEra japaneseCalendar e ey = Some y"
    by (auto simp: japaneseEraOf_def japaneseYearFromEra_def split: if_splits)
  show "yearFromEra japaneseCalendar (cdEra (dateFromDay japaneseCalendar day))
      (cdEraYear (dateFromDay japaneseCalendar day)) = Some (cdYear (dateFromDay japaneseCalendar day))"
  proof (cases "List.find (\<lambda>(_, start, _). start \<le> day) japaneseEras")
    case None
    then show ?thesis
      by (cases "isoDate day") (simp add: japaneseDateFromDay_def japaneseYearFromEra_def)
  next
    case (Some e)
    obtain name start year where e: "e = (name, start, year)" by (cases e)
    show ?thesis
      using Some [unfolded e] japanese_find_name [OF Some [unfolded e]]
      by (cases "isoDate day") (simp add: japaneseDateFromDay_def)
  qed
qed (simp_all add: isoDay_next_month japanese_names japaneseEraOf_def)

section \<open>coptic, ethiopic and ethioaa\<close>

definition copticEpoch :: int where "copticEpoch = - 615558"
definition ethiopicEpoch :: int where "ethiopicEpoch = - 716367"

definition copticInLeapYear :: "int \<Rightarrow> int \<Rightarrow> bool" where
  "copticInLeapYear shift y \<longleftrightarrow> floorMod (y - shift) 4 = 3"

definition copticDayFromDate :: "int \<Rightarrow> int \<Rightarrow> int \<Rightarrow> int \<Rightarrow> int \<Rightarrow> int" where
  "copticDayFromDate epoch shift y0 m d =
     (let y = y0 - shift in epoch + 365 * (y - 1) + floorDiv y 4 + 30 * (m - 1) + d - 1)"

definition copticDaysInMonth :: "int \<Rightarrow> int \<Rightarrow> int \<Rightarrow> int" where
  "copticDaysInMonth shift y m =
     (if m < 13 then 30 else if copticInLeapYear shift y then 6 else 5)"

definition copticDateFromDay :: "int \<Rightarrow> string \<Rightarrow> int \<Rightarrow> int \<Rightarrow> calendarDate" where
  "copticDateFromDay epoch era shift day =
     (let n = day - epoch;
          year = floorDiv (4 * n + 1463) 1461;
          dayOfYear = n - (365 * (year - 1) + floorDiv year 4);
          month = dayOfYear sdiv 30 + 1;
          d = dayOfYear smod 30 + 1;
          year' = year + shift
      in \<lparr>cdEra = era, cdEraYear = year', cdYear = year', cdMonth = month, cdDay = d,
          cdCode = simpleMonthCode month\<rparr>)"

definition copticCalendar :: "int \<Rightarrow> string \<Rightarrow> int \<Rightarrow> calendar" where
  "copticCalendar epoch era shift =
     \<lparr>dateFromDay = copticDateFromDay epoch era shift,
      dayFromDate = copticDayFromDate epoch shift,
      monthsInYear = (\<lambda>_. 13),
      daysInMonth = copticDaysInMonth shift,
      daysInYear = (\<lambda>y. if copticInLeapYear shift y then 366 else 365),
      inLeapYear = copticInLeapYear shift,
      monthCode = (\<lambda>_ m. simpleMonthCode m),
      monthFromCode = fixedMonthFromCode 13,
      eraOf = (\<lambda>y. (era, y)),
      yearFromEra = (\<lambda>e eraYear. if e = era then Some eraYear else None),
      eras = [era]\<rparr>"

lemma copticCalendar_simps [simp]:
  "dateFromDay (copticCalendar epoch era shift) = copticDateFromDay epoch era shift"
  "dayFromDate (copticCalendar epoch era shift) = copticDayFromDate epoch shift"
  "monthsInYear (copticCalendar epoch era shift) y = 13"
  "daysInMonth (copticCalendar epoch era shift) = copticDaysInMonth shift"
  "daysInYear (copticCalendar epoch era shift) y = (if copticInLeapYear shift y then 366 else 365)"
  "inLeapYear (copticCalendar epoch era shift) = copticInLeapYear shift"
  "monthCode (copticCalendar epoch era shift) y m = simpleMonthCode m"
  "monthFromCode (copticCalendar epoch era shift) = fixedMonthFromCode 13"
  "eraOf (copticCalendar epoch era shift) y = (era, y)"
  "yearFromEra (copticCalendar epoch era shift) e ey = (if e = era then Some ey else None)"
  "eras (copticCalendar epoch era shift) = [era]"
  by (simp_all add: copticCalendar_def)

lemma coptic_leap_step:
  "(y + 1) div 4 = y div 4 + (if y mod 4 = 3 then 1 else (0 :: int))"
  using div_step [of 4 "y + 1"] by auto presburger+

text \<open>The quarter-day count of a date: the day of the year lies inside the year.\<close>

lemma coptic_day_of_year:
  fixes n :: int
  defines "year \<equiv> (4 * n + 1463) div 1461"
  defines "doy \<equiv> n - (365 * (year - 1) + year div 4)"
  shows "0 \<le> doy" "doy \<le> 364 \<or> doy = 365 \<and> year mod 4 = 3"
proof -
  define r where "r = (4 * n + 1463) mod 1461"
  have r: "4 * n + 1463 = 1461 * year + r" "0 \<le> r" "r < 1461" by (simp_all add: r_def year_def)
  define q s where "q = year div 4" and "s = year mod 4"
  have y: "year = 4 * q + s" "0 \<le> s" "s < 4" by (simp_all add: q_def s_def)
  have d: "4 * doy = s + r - 3"
    using r(1) y(1) unfolding doy_def q_def [symmetric] by simp
  show "0 \<le> doy" using d r y by linarith
  show "doy \<le> 364 \<or> doy = 365 \<and> year mod 4 = 3"
    using d r y unfolding s_def [symmetric] by linarith
qed

lemma coptic_names:
  "cal_names (copticCalendar epoch era shift) day (copticDateFromDay epoch era shift day)"
proof -
  define n where "n = day - epoch"
  define year where "year = (4 * n + 1463) div 1461"
  define doy where "doy = n - (365 * (year - 1) + year div 4)"
  have b: "0 \<le> doy" "doy \<le> 364 \<or> doy = 365 \<and> year mod 4 = 3"
    using coptic_day_of_year [of n] by (simp_all add: year_def doy_def)
  have f: "floorDiv (4 * n + 1463) 1461 = year" "n - (365 * (year - 1) + floorDiv year 4) = doy"
    "doy sdiv 30 = doy div 30" "doy smod 30 = doy mod 30"
    using b(1) by (simp_all add: year_def doy_def go_arith)
  have c: "copticDateFromDay epoch era shift day =
      \<lparr>cdEra = era, cdEraYear = year + shift, cdYear = year + shift, cdMonth = doy div 30 + 1,
       cdDay = doy mod 30 + 1, cdCode = simpleMonthCode (doy div 30 + 1)\<rparr>"
    unfolding copticDateFromDay_def Let_def n_def [symmetric] f ..
  define k l where "k = doy div 30" and "l = doy mod 30"
  have kl: "doy = 30 * k + l" "0 \<le> l" "l < 30" by (simp_all add: k_def l_def)
  have k: "0 \<le> k" "k \<le> 12" using b by (auto simp: k_def)
  have "copticDayFromDate epoch shift (year + shift) (k + 1) (l + 1) = day"
    using kl(1) by (simp add: copticDayFromDate_def doy_def n_def)
  moreover have "l + 1 \<le> copticDaysInMonth shift (year + shift) (k + 1)"
    using kl k b by (auto simp: copticDaysInMonth_def copticInLeapYear_def)
  ultimately show ?thesis
    using kl k unfolding c k_def [symmetric] l_def [symmetric]
    by (simp add: cal_names_def cal_valid_def)
qed

interpretation coptic: calendar_eras "copticCalendar epoch era shift"
proof unfold_locales
  fix y m d day :: int and e ey
  show "dayFromDate (copticCalendar epoch era shift) (y + 1) 1 1 =
      dayFromDate (copticCalendar epoch era shift) y (monthsInYear (copticCalendar epoch era shift) y) 1 +
      daysInMonth (copticCalendar epoch era shift) y (monthsInYear (copticCalendar epoch era shift) y)"
    using coptic_leap_step [of "y - shift"]
    by (simp add: copticDayFromDate_def copticDaysInMonth_def copticInLeapYear_def algebra_simps)
  show "daysInYear (copticCalendar epoch era shift) y =
      dayFromDate (copticCalendar epoch era shift) (y + 1) 1 1 -
      dayFromDate (copticCalendar epoch era shift) y 1 1"
    using coptic_leap_step [of "y - shift"]
    by (simp add: copticDayFromDate_def copticInLeapYear_def algebra_simps)
  show "yearFromEra (copticCalendar epoch era shift)
      (cdEra (dateFromDay (copticCalendar epoch era shift) day))
      (cdEraYear (dateFromDay (copticCalendar epoch era shift) day)) =
      Some (cdYear (dateFromDay (copticCalendar epoch era shift) day))"
    by (simp add: copticDateFromDay_def Let_def)
qed (auto simp: copticDayFromDate_def copticDaysInMonth_def coptic_names Let_def)

section \<open>ethiopic\<close>

definition ethiopicBase :: calendar where
  "ethiopicBase = copticCalendar ethiopicEpoch ''am'' 0"

definition ethiopicDateFromDay :: "int \<Rightarrow> calendarDate" where
  "ethiopicDateFromDay day =
     (let d = dateFromDay ethiopicBase day
      in if cdYear d \<le> 0 then d\<lparr>cdEra := ''aa'', cdEraYear := cdYear d + 5500\<rparr>
         else d\<lparr>cdEra := ''am'', cdEraYear := cdYear d\<rparr>)"

definition ethiopicEraOf :: "int \<Rightarrow> string \<times> int" where
  "ethiopicEraOf y = (if y \<le> 0 then (''aa'', y + 5500) else (''am'', y))"

definition ethiopicYearFromEra :: "string \<Rightarrow> int \<Rightarrow> int option" where
  "ethiopicYearFromEra era eraYear =
     (if era = ''am'' then Some eraYear
      else if era = ''aa'' then Some (eraYear - 5500)
      else None)"

definition ethiopicCalendar :: calendar where
  "ethiopicCalendar =
     \<lparr>dateFromDay = ethiopicDateFromDay,
      dayFromDate = dayFromDate ethiopicBase,
      monthsInYear = (\<lambda>_. 13),
      daysInMonth = daysInMonth ethiopicBase,
      daysInYear = daysInYear ethiopicBase,
      inLeapYear = inLeapYear ethiopicBase,
      monthCode = (\<lambda>_ m. simpleMonthCode m),
      monthFromCode = monthFromCode ethiopicBase,
      eraOf = ethiopicEraOf,
      yearFromEra = ethiopicYearFromEra,
      eras = [''aa'', ''am'']\<rparr>"

lemma ethiopicCalendar_simps [simp]:
  "dateFromDay ethiopicCalendar = ethiopicDateFromDay"
  "dayFromDate ethiopicCalendar = dayFromDate ethiopicBase"
  "monthsInYear ethiopicCalendar = monthsInYear ethiopicBase"
  "daysInMonth ethiopicCalendar = daysInMonth ethiopicBase"
  "daysInYear ethiopicCalendar = daysInYear ethiopicBase"
  "monthCode ethiopicCalendar y m = simpleMonthCode m"
  "monthFromCode ethiopicCalendar = fixedMonthFromCode 13"
  "eraOf ethiopicCalendar = ethiopicEraOf"
  "yearFromEra ethiopicCalendar = ethiopicYearFromEra"
  "eras ethiopicCalendar = [''aa'', ''am'']"
  by (simp_all add: ethiopicCalendar_def ethiopicBase_def fun_eq_iff)

lemma ethiopic_names: "cal_names ethiopicCalendar day (ethiopicDateFromDay day)"
  using coptic_names [of ethiopicEpoch "''am''" 0 day]
  by (simp add: cal_names_def cal_valid_def ethiopicDateFromDay_def Let_def ethiopicBase_def)

interpretation ethiopic: calendar_eras ethiopicCalendar
proof unfold_locales
  fix y m d day :: int and e ey
  show "1 \<le> m \<Longrightarrow> m < monthsInYear ethiopicCalendar y \<Longrightarrow> dayFromDate ethiopicCalendar y (m + 1) 1 =
      dayFromDate ethiopicCalendar y m 1 + daysInMonth ethiopicCalendar y m"
    unfolding ethiopicCalendar_simps ethiopicBase_def by (rule coptic.month_step)
  show "dayFromDate ethiopicCalendar (y + 1) 1 1 =
      dayFromDate ethiopicCalendar y (monthsInYear ethiopicCalendar y) 1 +
      daysInMonth ethiopicCalendar y (monthsInYear ethiopicCalendar y)"
    unfolding ethiopicCalendar_simps ethiopicBase_def by (rule coptic.year_step)
  show "daysInYear ethiopicCalendar y =
      dayFromDate ethiopicCalendar (y + 1) 1 1 - dayFromDate ethiopicCalendar y 1 1"
    unfolding ethiopicCalendar_simps ethiopicBase_def by (rule coptic.year_len)
  show "eraOf ethiopicCalendar y = (e, ey) \<Longrightarrow> yearFromEra ethiopicCalendar e ey = Some y"
    by (auto simp: ethiopicEraOf_def ethiopicYearFromEra_def split: if_splits)
  show "yearFromEra ethiopicCalendar (cdEra (dateFromDay ethiopicCalendar day))
      (cdEraYear (dateFromDay ethiopicCalendar day)) = Some (cdYear (dateFromDay ethiopicCalendar day))"
    by (simp add: ethiopicDateFromDay_def Let_def ethiopicYearFromEra_def)
qed (simp_all add: ethiopicBase_def ethiopicEraOf_def ethiopic_names copticDaysInMonth_def
    copticDayFromDate_def)

end
