(* ===== verification/Calendars_Arith.thy ===== *)
theory Calendars_Arith
  imports Calendars
begin

text \<open>
  The calendars whose year is found by a loop or a cycle (\<open>internal/engine/calendar.go\<close>):
  \<open>indianCalendar\<close>, \<open>persianCalendar\<close> and \<open>islamicCalendar\<close>. Every loop is a recursive
  function with its termination proved; each calendar is an interpretation of \<open>calendar_eras\<close>.
\<close>

section \<open>indian\<close>

definition indianMonthLengths :: "int list" where
  "indianMonthLengths = [30, 31, 31, 31, 31, 31, 30, 30, 30, 30, 30, 30]"

definition indianInLeapYear :: "int \<Rightarrow> bool" where
  "indianInLeapYear y \<longleftrightarrow> isoLeapYear (y + 78)"

definition indianDaysInMonth :: "int \<Rightarrow> int \<Rightarrow> int" where
  "indianDaysInMonth y m =
     (if m = 1 then if indianInLeapYear y then 31 else 30
      else if m < 1 \<or> 12 < m then 30
      else indianMonthLengths ! nat (m - 1))"

definition indianDayFromDate :: "int \<Rightarrow> int \<Rightarrow> int \<Rightarrow> int" where
  "indianDayFromDate y m d =
     (let start0 = isoDay (y + 78) 3 22;
          start = (if indianInLeapYear y then start0 - 1 else start0);
          n = sumMonths (indianDaysInMonth y) 1 m 0
      in start + n + d - 1)"

lemma indianDaysInMonth_table:
  "indianDaysInMonth y 1 = (if indianInLeapYear y then 31 else 30)"
  "indianDaysInMonth y 2 = 31" "indianDaysInMonth y 3 = 31" "indianDaysInMonth y 4 = 31"
  "indianDaysInMonth y 5 = 31" "indianDaysInMonth y 6 = 31" "indianDaysInMonth y 7 = 30"
  "indianDaysInMonth y 8 = 30" "indianDaysInMonth y 9 = 30" "indianDaysInMonth y 10 = 30"
  "indianDaysInMonth y 11 = 30" "indianDaysInMonth y 12 = 30"
  by (simp_all add: indianDaysInMonth_def indianMonthLengths_def)

lemma indianDaysInMonth_pos: "0 < indianDaysInMonth y m"
proof (cases "1 \<le> m \<and> m \<le> 12")
  case True
  then have "1 \<le> m" "m \<le> 12" by auto
  then show ?thesis by (cases m rule: month_cases) (simp_all add: indianDaysInMonth_table)
next
  case False
  then show ?thesis by (auto simp: indianDaysInMonth_def)
qed

text \<open>The loop of \<open>dateFromDay\<close> that walks the months.\<close>

function indianWalk :: "int \<Rightarrow> int \<Rightarrow> int \<Rightarrow> int \<times> int" where
  "indianWalk y m rest =
     (if indianDaysInMonth y m \<le> rest then indianWalk y (m + 1) (rest - indianDaysInMonth y m)
      else (m, rest))"
  by pat_completeness auto
termination
proof (relation "measure (\<lambda>(y, m, rest). nat rest)")
  fix y m rest :: int
  assume "indianDaysInMonth y m \<le> rest"
  with indianDaysInMonth_pos [of y m]
  show "((y, m + 1, rest - indianDaysInMonth y m), y, m, rest) \<in> measure (\<lambda>(y, m, rest). nat rest)"
    by simp
qed simp

declare indianWalk.simps [simp del]

definition indianDateFromDay :: "int \<Rightarrow> calendarDate" where
  "indianDateFromDay day =
     (let gy = fst (isoDate day);
          y0 = gy - 78;
          y = (if day < indianDayFromDate y0 1 1 then y0 - 1 else y0);
          (m, rest) = indianWalk y 1 (day - indianDayFromDate y 1 1)
      in \<lparr>cdEra = ''shaka'', cdEraYear = y, cdYear = y, cdMonth = m, cdDay = rest + 1,
          cdCode = simpleMonthCode m\<rparr>)"

definition indianCalendar :: calendar where
  "indianCalendar =
     \<lparr>dateFromDay = indianDateFromDay,
      dayFromDate = indianDayFromDate,
      monthsInYear = (\<lambda>_. 12),
      daysInMonth = indianDaysInMonth,
      daysInYear = (\<lambda>y. if indianInLeapYear y then 366 else 365),
      inLeapYear = indianInLeapYear,
      monthCode = (\<lambda>_ m. simpleMonthCode m),
      monthFromCode = fixedMonthFromCode 12,
      eraOf = (\<lambda>y. (''shaka'', y)),
      yearFromEra = (\<lambda>era eraYear. if era = ''shaka'' then Some eraYear else None),
      eras = [''shaka'']\<rparr>"

lemma indianCalendar_simps [simp]:
  "dateFromDay indianCalendar = indianDateFromDay"
  "dayFromDate indianCalendar = indianDayFromDate"
  "monthsInYear indianCalendar y = 12"
  "daysInMonth indianCalendar = indianDaysInMonth"
  "daysInYear indianCalendar y = (if indianInLeapYear y then 366 else 365)"
  "monthCode indianCalendar y m = simpleMonthCode m"
  "monthFromCode indianCalendar = fixedMonthFromCode 12"
  "eraOf indianCalendar y = (''shaka'', y)"
  "yearFromEra indianCalendar era ey = (if era = ''shaka'' then Some ey else None)"
  "eras indianCalendar = [''shaka'']"
  by (simp_all add: indianCalendar_def)

lemma indianWalk_spec:
  assumes "indianWalk y m rest = (m', rest')" "0 \<le> rest" "1 \<le> m"
  shows "m \<le> m' \<and> 0 \<le> rest' \<and> rest' < indianDaysInMonth y m' \<and>
    sumMonths (indianDaysInMonth y) 1 m' 0 + rest' = sumMonths (indianDaysInMonth y) 1 m 0 + rest"
  using assms
proof (induction y m rest rule: indianWalk.induct)
  case (1 y m rest)
  show ?case
  proof (cases "indianDaysInMonth y m \<le> rest")
    case True
    with "1.prems"(1) have w: "indianWalk y (m + 1) (rest - indianDaysInMonth y m) = (m', rest')"
      by (subst (asm) indianWalk.simps) simp
    have "m + 1 \<le> m' \<and> 0 \<le> rest' \<and> rest' < indianDaysInMonth y m' \<and>
        sumMonths (indianDaysInMonth y) 1 m' 0 + rest' =
        sumMonths (indianDaysInMonth y) 1 (m + 1) 0 + (rest - indianDaysInMonth y m)"
      using "1.IH" [OF True w] True "1.prems"(3) by simp
    then show ?thesis
      using sumMonths_step [of 1 m "indianDaysInMonth y" 0] "1.prems"(3) by auto
  next
    case False
    with "1.prems"(1) have "m' = m" "rest' = rest"
      by (subst (asm) indianWalk.simps; auto)+
    with False "1.prems" show ?thesis by auto
  qed
qed

text \<open>The Indian year begins eighty days into the Gregorian one, leap years included.\<close>

lemma indianStart: "indianDayFromDate y 1 1 = isoDay (y + 78) 1 1 + 80"
  using marchStart_step [of "y + 78"]
  by (simp add: indianDayFromDate_def Let_def isoDay_linear monthShift_table indianInLeapYear_def)

lemma indian_month_step: "1 \<le> m \<Longrightarrow>
  indianDayFromDate y (m + 1) 1 = indianDayFromDate y m 1 + indianDaysInMonth y m"
  using sumMonths_step [of 1 m "indianDaysInMonth y" 0] by (simp add: indianDayFromDate_def Let_def)

lemma indian_sum_13:
  "sumMonths (indianDaysInMonth y) 1 13 0 = (if indianInLeapYear y then 366 else 365)"
  by (simp add: sumMonths.simps indianDaysInMonth_table)

lemma indian_day_of_month:
  "indianDayFromDate y m d = indianDayFromDate y 1 1 + sumMonths (indianDaysInMonth y) 1 m 0 + d - 1"
  by (simp add: indianDayFromDate_def Let_def)

lemma indian_year_len:
  "indianDayFromDate (y + 1) 1 1 = indianDayFromDate y 1 1 + (if indianInLeapYear y then 366 else 365)"
  using isoDay_year_length [of "y + 78"]
  by (simp add: indianStart indianInLeapYear_def algebra_simps split: if_splits)

lemma indian_year_found:
  fixes day :: int
  defines "y0 \<equiv> fst (isoDate day) - 78"
  defines "y \<equiv> if day < indianDayFromDate y0 1 1 then y0 - 1 else y0"
  shows "indianDayFromDate y 1 1 \<le> day" "day < indianDayFromDate (y + 1) 1 1"
proof -
  obtain gy m d where g: "isoDate day = (gy, m, d)" by (cases "isoDate day")
  have v: "cal_valid (gregorianCalendar True) gy m d" "isoDay gy m d = day"
    using isoDate_fields [OF g] by (auto simp: cal_valid_def)
  have b: "isoDay gy 1 1 \<le> day" "day < isoDay (gy + 1) 1 1"
    using greg.in_year [OF v(1)] v(2) by simp_all
  have p: "isoDay (gy - 1) 1 1 + 365 \<le> isoDay gy 1 1"
    using isoDay_year_length [of "gy - 1"] by (simp split: if_splits)
  have n: "isoDay gy 1 1 + 365 \<le> isoDay (gy + 1) 1 1"
    using isoDay_year_length [of gy] by (simp split: if_splits)
  have e: "y0 = gy - 78" by (simp add: y0_def g)
  show "indianDayFromDate y 1 1 \<le> day" "day < indianDayFromDate (y + 1) 1 1"
    using b p n by (auto simp: y_def e indianStart add.commute [of 1])
qed

lemma indian_names: "cal_names indianCalendar day (indianDateFromDay day)"
proof -
  define y0 where "y0 = fst (isoDate day) - 78"
  define y where "y = (if day < indianDayFromDate y0 1 1 then y0 - 1 else y0)"
  have b: "indianDayFromDate y 1 1 \<le> day" "day < indianDayFromDate (y + 1) 1 1"
    unfolding y_def y0_def by (rule indian_year_found)+
  obtain m rest where w: "indianWalk y 1 (day - indianDayFromDate y 1 1) = (m, rest)"
    by (cases "indianWalk y 1 (day - indianDayFromDate y 1 1)")
  have s: "1 \<le> m" "0 \<le> rest" "rest < indianDaysInMonth y m"
    "sumMonths (indianDaysInMonth y) 1 m 0 + rest = day - indianDayFromDate y 1 1"
    using indianWalk_spec [OF w] b by auto
  have "m \<le> 12"
  proof (rule ccontr)
    assume "\<not> m \<le> 12"
    then have "sumMonths (indianDaysInMonth y) 1 13 0 \<le> sumMonths (indianDaysInMonth y) 1 m 0"
      using indianDaysInMonth_pos [of y] by (intro sumMonths_mono) (simp_all add: less_imp_le)
    then show False using s b indian_sum_13 [of y] indian_year_len [of y] by simp
  qed
  have d: "indianDateFromDay day = \<lparr>cdEra = ''shaka'', cdEraYear = y, cdYear = y, cdMonth = m,
      cdDay = rest + 1, cdCode = simpleMonthCode m\<rparr>"
    unfolding indianDateFromDay_def Let_def y0_def [symmetric] y_def [symmetric] w by simp
  show ?thesis
    using s \<open>m \<le> 12\<close> indian_day_of_month [of y m "rest + 1"]
    by (simp add: cal_names_def cal_valid_def d)
qed

interpretation indian: calendar_eras indianCalendar
proof unfold_locales
  fix y m d day :: int and e ey
  show "1 \<le> m \<Longrightarrow> m \<le> monthsInYear indianCalendar y \<Longrightarrow> 1 \<le> daysInMonth indianCalendar y m"
    using indianDaysInMonth_pos [of y m] by simp
  show "dayFromDate indianCalendar y m d = dayFromDate indianCalendar y m 1 + d - 1"
    by (simp add: indianDayFromDate_def Let_def)
  show "1 \<le> m \<Longrightarrow> m < monthsInYear indianCalendar y \<Longrightarrow>
      dayFromDate indianCalendar y (m + 1) 1 = dayFromDate indianCalendar y m 1 + daysInMonth indianCalendar y m"
    by (simp add: indian_month_step)
  have "sumMonths (indianDaysInMonth y) 1 13 0 =
      sumMonths (indianDaysInMonth y) 1 12 0 + indianDaysInMonth y 12"
    using sumMonths_step [of 1 12 "indianDaysInMonth y" 0] by simp
  then show "dayFromDate indianCalendar (y + 1) 1 1 =
      dayFromDate indianCalendar y (monthsInYear indianCalendar y) 1 +
      daysInMonth indianCalendar y (monthsInYear indianCalendar y)"
    using indian_sum_13 [of y] indian_year_len [of y] indian_day_of_month [of y 12 1] by simp
  show "daysInYear indianCalendar y =
      dayFromDate indianCalendar (y + 1) 1 1 - dayFromDate indianCalendar y 1 1"
    using indian_year_len [of y] by simp
  show "yearFromEra indianCalendar (cdEra (dateFromDay indianCalendar day))
      (cdEraYear (dateFromDay indianCalendar day)) = Some (cdYear (dateFromDay indianCalendar day))"
    by (simp add: indianDateFromDay_def Let_def split: prod.splits)
qed (simp_all add: indian_names)

section \<open>persian\<close>

definition persianEpoch :: int where "persianEpoch = - 492268"

definition persianMonthStart :: "int list" where
  "persianMonthStart = [0, 31, 62, 93, 124, 155, 186, 216, 246, 276, 306, 336, 366]"

definition persianInLeapYear :: "int \<Rightarrow> bool" where
  "persianInLeapYear y \<longleftrightarrow> floorMod (25 * y + 11) 33 < 8"

definition persianDaysInMonth :: "int \<Rightarrow> int \<Rightarrow> int" where
  "persianDaysInMonth y m =
     (if m < 1 \<or> 12 < m then 0
      else if m \<le> 6 then 31
      else if m \<le> 11 then 30
      else if persianInLeapYear y then 30 else 29)"

definition persianYearStart :: "int \<Rightarrow> int" where
  "persianYearStart y = persianEpoch + 365 * (y - 1) + floorDiv (8 * y + 21) 33"

definition persianDayFromDate :: "int \<Rightarrow> int \<Rightarrow> int \<Rightarrow> int" where
  "persianDayFromDate y m0 d =
     (let m1 = (if m0 < 1 then 1 else m0);
          m = (if 12 < m1 then 12 else m1)
      in persianYearStart y + persianMonthStart ! nat (m - 1) + d - 1)"

lemma persianYearStart_step:
  "persianYearStart (y + 1) = persianYearStart y + (if persianInLeapYear y then 366 else 365)"
proof -
  define a where "a = (8 * y + 21) mod 33"
  define q where "q = (8 * y + 21) div 33"
  have a: "8 * y + 21 = 33 * q + a" "0 \<le> a" "a < 33" by (simp_all add: a_def q_def)
  have l: "(25 * y + 11) mod 33 = 32 - a"
    using a by (intro int_mod_pos_eq [where q = "y - q"]) auto
  have "(8 * (y + 1) + 21) div 33 = q + (if 25 \<le> a then 1 else 0)"
    using a by (intro int_div_pos_eq [where r = "if 25 \<le> a then a - 25 else a + 8"]) auto
  then show ?thesis
    using l by (simp add: persianYearStart_def persianInLeapYear_def q_def [symmetric])
qed

lemma persianYearStart_less: "persianYearStart y < persianYearStart (y + 1)"
  by (simp add: persianYearStart_step)

text \<open>The two loops of \<open>dateFromDay\<close> that settle the year.\<close>

function persianDown :: "int \<Rightarrow> int \<Rightarrow> int" where
  "persianDown day y = (if day < persianYearStart y then persianDown day (y - 1) else y)"
  by pat_completeness auto
termination
proof (relation "measure (\<lambda>(day, y). nat (persianYearStart y - day))")
  fix day y :: int
  assume "day < persianYearStart y"
  with persianYearStart_less [of "y - 1"]
  show "((day, y - 1), day, y) \<in> measure (\<lambda>(day, y). nat (persianYearStart y - day))" by simp
qed simp

function persianUp :: "int \<Rightarrow> int \<Rightarrow> int" where
  "persianUp day y = (if persianYearStart (y + 1) \<le> day then persianUp day (y + 1) else y)"
  by pat_completeness auto
termination
proof (relation "measure (\<lambda>(day, y). nat (day - persianYearStart y))")
  fix day y :: int
  assume "persianYearStart (y + 1) \<le> day"
  with persianYearStart_less [of y]
  show "((day, y + 1), day, y) \<in> measure (\<lambda>(day, y). nat (day - persianYearStart y))" by simp
qed simp

declare persianDown.simps [simp del] persianUp.simps [simp del]

text \<open>The loop \<open>for m < 12 && doy >= persianMonthStart[m] { m++ }\<close>.\<close>

function persianMonth :: "int \<Rightarrow> int \<Rightarrow> int" where
  "persianMonth doy m =
     (if m < 12 \<and> persianMonthStart ! nat m \<le> doy then persianMonth doy (m + 1) else m)"
  by pat_completeness auto
termination
  by (relation "measure (\<lambda>(doy, m). nat (12 - m))") auto

declare persianMonth.simps [simp del]

definition persianDateFromDay :: "int \<Rightarrow> calendarDate" where
  "persianDateFromDay day =
     (let y0 = floorDiv (day - persianEpoch) 365 + 1;
          y = persianUp day (persianDown day y0);
          doy = day - persianYearStart y;
          m = persianMonth doy 1
      in \<lparr>cdEra = ''ap'', cdEraYear = y, cdYear = y, cdMonth = m,
          cdDay = doy - persianMonthStart ! nat (m - 1) + 1, cdCode = simpleMonthCode m\<rparr>)"

definition persianCalendar :: calendar where
  "persianCalendar =
     \<lparr>dateFromDay = persianDateFromDay,
      dayFromDate = persianDayFromDate,
      monthsInYear = (\<lambda>_. 12),
      daysInMonth = persianDaysInMonth,
      daysInYear = (\<lambda>y. if persianInLeapYear y then 366 else 365),
      inLeapYear = persianInLeapYear,
      monthCode = (\<lambda>_ m. simpleMonthCode m),
      monthFromCode = fixedMonthFromCode 12,
      eraOf = (\<lambda>y. (''ap'', y)),
      yearFromEra = (\<lambda>era eraYear. if era = ''ap'' then Some eraYear else None),
      eras = [''ap'']\<rparr>"

lemma persianCalendar_simps [simp]:
  "dateFromDay persianCalendar = persianDateFromDay"
  "dayFromDate persianCalendar = persianDayFromDate"
  "monthsInYear persianCalendar y = 12"
  "daysInMonth persianCalendar = persianDaysInMonth"
  "daysInYear persianCalendar y = (if persianInLeapYear y then 366 else 365)"
  "monthCode persianCalendar y m = simpleMonthCode m"
  "monthFromCode persianCalendar = fixedMonthFromCode 12"
  "eraOf persianCalendar y = (''ap'', y)"
  "yearFromEra persianCalendar era ey = (if era = ''ap'' then Some ey else None)"
  "eras persianCalendar = [''ap'']"
  by (simp_all add: persianCalendar_def)

lemma persianDown_le: "persianYearStart (persianDown day y) \<le> day"
proof (induction day y rule: persianDown.induct)
  case (1 day y)
  then show ?case by (cases "day < persianYearStart y") (simp_all add: persianDown.simps [of day y])
qed

lemma persianUp_bounds:
  "persianYearStart y \<le> day \<Longrightarrow> persianYearStart (persianUp day y) \<le> day \<and>
    day < persianYearStart (persianUp day y + 1)"
proof (induction day y rule: persianUp.induct)
  case (1 day y)
  then show ?case by (cases "persianYearStart (y + 1) \<le> day") (simp_all add: persianUp.simps [of day y])
qed

lemma persianMonth_spec:
  "1 \<le> m \<Longrightarrow> m \<le> 12 \<Longrightarrow> persianMonthStart ! nat (m - 1) \<le> doy \<Longrightarrow>
    m \<le> persianMonth doy m \<and> persianMonth doy m \<le> 12 \<and>
    persianMonthStart ! nat (persianMonth doy m - 1) \<le> doy \<and>
    (persianMonth doy m < 12 \<longrightarrow> doy < persianMonthStart ! nat (persianMonth doy m))"
proof (induction doy m rule: persianMonth.induct)
  case (1 doy m)
  then show ?case
    by (cases "m < 12 \<and> persianMonthStart ! nat m \<le> doy") (auto simp: persianMonth.simps [of doy m])
qed

lemma persianMonth_len:
  "1 \<le> m \<Longrightarrow> m < 12 \<Longrightarrow>
    persianMonthStart ! nat m = persianMonthStart ! nat (m - 1) + persianDaysInMonth y m"
proof -
  assume a: "1 \<le> m" "m < 12"
  then have "m \<le> 12" by simp
  with a(1) show ?thesis
    by (cases m rule: month_cases) (use a in \<open>simp_all add: persianDaysInMonth_def persianMonthStart_def\<close>)
qed

lemma persian_names: "cal_names persianCalendar day (persianDateFromDay day)"
proof -
  define y where "y = persianUp day (persianDown day (floorDiv (day - persianEpoch) 365 + 1))"
  define doy where "doy = day - persianYearStart y"
  have u: "persianYearStart y \<le> day \<and> day < persianYearStart (y + 1)"
    unfolding y_def by (rule persianUp_bounds [OF persianDown_le])
  have b: "0 \<le> doy" "doy < (if persianInLeapYear y then 366 else 365)"
    using u persianYearStart_step [of y] by (auto simp: doy_def)
  have d: "persianDateFromDay day = \<lparr>cdEra = ''ap'', cdEraYear = y, cdYear = y,
      cdMonth = persianMonth doy 1, cdDay = doy - persianMonthStart ! nat (persianMonth doy 1 - 1) + 1,
      cdCode = simpleMonthCode (persianMonth doy 1)\<rparr>"
    by (simp add: persianDateFromDay_def Let_def y_def doy_def)
  define m where "m = persianMonth doy 1"
  have m: "1 \<le> m" "m \<le> 12" "persianMonthStart ! nat (m - 1) \<le> doy"
    "m < 12 \<longrightarrow> doy < persianMonthStart ! nat m"
    using persianMonth_spec [of 1 doy] b by (auto simp: m_def persianMonthStart_def)
  have "doy - persianMonthStart ! nat (m - 1) + 1 \<le> persianDaysInMonth y m"
  proof (cases "m < 12")
    case True
    then show ?thesis using m persianMonth_len [of m y] by simp
  next
    case False
    then show ?thesis
      using m b by (auto simp: persianMonthStart_def persianDaysInMonth_def split: if_splits)
  qed
  then show ?thesis
    using m unfolding d m_def [symmetric]
    by (simp add: cal_names_def cal_valid_def persianDayFromDate_def doy_def)
qed

interpretation persian: calendar_eras persianCalendar
proof unfold_locales
  fix y m d day :: int and e ey
  show "1 \<le> m \<Longrightarrow> m < monthsInYear persianCalendar y \<Longrightarrow>
      dayFromDate persianCalendar y (m + 1) 1 = dayFromDate persianCalendar y m 1 + daysInMonth persianCalendar y m"
    using persianMonth_len [of m y] by (simp add: persianDayFromDate_def)
  show "dayFromDate persianCalendar (y + 1) 1 1 =
      dayFromDate persianCalendar y (monthsInYear persianCalendar y) 1 +
      daysInMonth persianCalendar y (monthsInYear persianCalendar y)"
    by (simp add: persianDayFromDate_def persianDaysInMonth_def persianMonthStart_def
        persianYearStart_step)
  show "daysInYear persianCalendar y =
      dayFromDate persianCalendar (y + 1) 1 1 - dayFromDate persianCalendar y 1 1"
    by (simp add: persianDayFromDate_def persianYearStart_step)
  show "yearFromEra persianCalendar (cdEra (dateFromDay persianCalendar day))
      (cdEraYear (dateFromDay persianCalendar day)) = Some (cdYear (dateFromDay persianCalendar day))"
    by (simp add: persianDateFromDay_def Let_def)
qed (simp_all add: persian_names persianDaysInMonth_def persianDayFromDate_def Let_def)

end
