(* ===== verification/Calendars_Islamic.thy ===== *)
theory Calendars_Islamic
  imports Calendars_Arith
begin

text \<open>
  The tabular Islamic calendars (\<open>islamicCalendar\<close> of \<open>internal/engine/calendar.go\<close>): a
  thirty-year cycle with eleven leap years, the year settled by two loops and the month by one.
\<close>

definition islamicCivilEpoch :: int where "islamicCivilEpoch = - 492148"

definition islamicInLeapYear :: "int \<Rightarrow> bool" where
  "islamicInLeapYear y \<longleftrightarrow> floorMod y 30 \<in> {2, 5, 7, 10, 13, 16, 18, 21, 24, 26, 29}"

definition islamicDaysInMonth :: "int \<Rightarrow> int \<Rightarrow> int" where
  "islamicDaysInMonth y m =
     (if m smod 2 = 1 then 30 else if m = 12 \<and> islamicInLeapYear y then 30 else 29)"

definition islamicDaysInYear :: "int \<Rightarrow> int" where
  "islamicDaysInYear y = (if islamicInLeapYear y then 355 else 354)"

definition islamicDayFromDate :: "int \<Rightarrow> int \<Rightarrow> int \<Rightarrow> int \<Rightarrow> int" where
  "islamicDayFromDate epoch y m d =
     epoch + (y - 1) * 354 + floorDiv (3 + 11 * y) 30 + (m - 1) * 29 + floorDiv m 2 + d - 1"

definition islamicEraOf :: "int \<Rightarrow> string \<times> int" where
  "islamicEraOf y = (if y \<le> 0 then (''bh'', 1 - y) else (''ah'', y))"

definition islamicYearFromEra :: "string \<Rightarrow> int \<Rightarrow> int option" where
  "islamicYearFromEra era eraYear =
     (if era = ''ah'' then Some eraYear
      else if era = ''bh'' then Some (1 - eraYear)
      else None)"

lemma islamic_cycle:
  "(3 + 11 * (y + 1)) div 30 = (3 + 11 * y) div 30 + (if islamicInLeapYear y then 1 else (0 :: int))"
proof -
  define k a where "k = y div 30" and "a = y mod 30"
  have y: "y = 30 * k + a" by (simp add: k_def a_def)
  have e: "(3 + 11 * (y + 1)) div 30 = 11 * k + (14 + 11 * a) div 30"
    "(3 + 11 * y) div 30 = 11 * k + (3 + 11 * a) div 30"
    unfolding y by (simp_all add: algebra_simps)
  have "list_all (\<lambda>a. (14 + 11 * a) div 30 = (3 + 11 * a) div 30 +
      (if a \<in> {2, 5, 7, 10, 13, 16, 18, 21, 24, 26, 29} then 1 else (0 :: int))) [0..29]"
    by (simp add: upto.simps)
  moreover have "a \<in> set [0..29]" by (simp add: a_def)
  ultimately have "(14 + 11 * a) div 30 = (3 + 11 * a) div 30 +
      (if a \<in> {2, 5, 7, 10, 13, 16, 18, 21, 24, 26, 29} then 1 else 0)"
    by (simp only: list_all_iff)
  then show ?thesis unfolding e by (simp add: islamicInLeapYear_def flip: a_def)
qed

lemma islamic_year_step:
  "islamicDayFromDate epoch (y + 1) 1 1 = islamicDayFromDate epoch y 1 1 + islamicDaysInYear y"
  using islamic_cycle [of y]
  by (simp add: islamicDayFromDate_def islamicDaysInYear_def)

lemma islamic_year_less: "islamicDayFromDate epoch y 1 1 < islamicDayFromDate epoch (y + 1) 1 1"
  by (simp add: islamic_year_step islamicDaysInYear_def)

lemma islamic_month_step:
  assumes "1 \<le> m" "m < 12"
  shows "islamicDayFromDate epoch y (m + 1) 1 = islamicDayFromDate epoch y m 1 + islamicDaysInMonth y m"
proof -
  have "(m + 1) div 2 = m div 2 + (if m mod 2 = 1 then 1 else 0)" by presburger
  then show ?thesis
    using assms by (simp add: islamicDayFromDate_def islamicDaysInMonth_def go_arith)
qed

text \<open>The loops of \<open>dateFromDay\<close>: upwards first, then downwards.\<close>

function islamicUp :: "int \<Rightarrow> int \<Rightarrow> int \<Rightarrow> int" where
  "islamicUp epoch day y =
     (if islamicDayFromDate epoch (y + 1) 1 1 \<le> day then islamicUp epoch day (y + 1) else y)"
  by pat_completeness auto
termination
proof (relation "measure (\<lambda>(epoch, day, y). nat (day - islamicDayFromDate epoch y 1 1))")
  fix epoch day y :: int
  assume "islamicDayFromDate epoch (y + 1) 1 1 \<le> day"
  with islamic_year_less [of epoch y]
  show "((epoch, day, y + 1), epoch, day, y) \<in>
      measure (\<lambda>(epoch, day, y). nat (day - islamicDayFromDate epoch y 1 1))" by simp
qed simp

function islamicDown :: "int \<Rightarrow> int \<Rightarrow> int \<Rightarrow> int" where
  "islamicDown epoch day y =
     (if day < islamicDayFromDate epoch y 1 1 then islamicDown epoch day (y - 1) else y)"
  by pat_completeness auto
termination
proof (relation "measure (\<lambda>(epoch, day, y). nat (islamicDayFromDate epoch y 1 1 - day))")
  fix epoch day y :: int
  assume "day < islamicDayFromDate epoch y 1 1"
  with islamic_year_less [of epoch "y - 1"]
  show "((epoch, day, y - 1), epoch, day, y) \<in>
      measure (\<lambda>(epoch, day, y). nat (islamicDayFromDate epoch y 1 1 - day))" by simp
qed simp

declare islamicUp.simps [simp del] islamicDown.simps [simp del]

definition islamicDateFromDay :: "int \<Rightarrow> int \<Rightarrow> calendarDate" where
  "islamicDateFromDay epoch day =
     (let y0 = floorDiv (30 * (day - epoch) + 10646) 10631;
          y = islamicDown epoch day (islamicUp epoch day y0);
          (m, rest) = walkMonths (islamicDaysInMonth y) 12 1 (day - islamicDayFromDate epoch y 1 1);
          (era, ey) = islamicEraOf y
      in \<lparr>cdEra = era, cdEraYear = ey, cdYear = y, cdMonth = m, cdDay = rest + 1,
          cdCode = simpleMonthCode m\<rparr>)"

definition islamicCalendar :: "int \<Rightarrow> string \<Rightarrow> calendar" where
  "islamicCalendar epoch ident =
     \<lparr>dateFromDay = islamicDateFromDay epoch,
      dayFromDate = islamicDayFromDate epoch,
      monthsInYear = (\<lambda>_. 12),
      daysInMonth = islamicDaysInMonth,
      daysInYear = islamicDaysInYear,
      inLeapYear = islamicInLeapYear,
      monthCode = (\<lambda>_ m. simpleMonthCode m),
      monthFromCode = fixedMonthFromCode 12,
      eraOf = islamicEraOf,
      yearFromEra = islamicYearFromEra,
      eras = [''bh'', ''ah'']\<rparr>"

lemma islamicCalendar_simps [simp]:
  "dateFromDay (islamicCalendar epoch ident) = islamicDateFromDay epoch"
  "dayFromDate (islamicCalendar epoch ident) = islamicDayFromDate epoch"
  "monthsInYear (islamicCalendar epoch ident) y = 12"
  "daysInMonth (islamicCalendar epoch ident) = islamicDaysInMonth"
  "daysInYear (islamicCalendar epoch ident) = islamicDaysInYear"
  "monthCode (islamicCalendar epoch ident) y m = simpleMonthCode m"
  "monthFromCode (islamicCalendar epoch ident) = fixedMonthFromCode 12"
  "eraOf (islamicCalendar epoch ident) = islamicEraOf"
  "yearFromEra (islamicCalendar epoch ident) = islamicYearFromEra"
  "eras (islamicCalendar epoch ident) = [''bh'', ''ah'']"
  by (simp_all add: islamicCalendar_def)

lemma islamicUp_less: "day < islamicDayFromDate epoch (islamicUp epoch day y + 1) 1 1"
proof (induction epoch day y rule: islamicUp.induct)
  case (1 epoch day y)
  then show ?case
    by (cases "islamicDayFromDate epoch (y + 1) 1 1 \<le> day") (simp_all add: islamicUp.simps [of epoch day y])
qed

lemma islamicDown_bounds:
  "day < islamicDayFromDate epoch (y + 1) 1 1 \<Longrightarrow>
    islamicDayFromDate epoch (islamicDown epoch day y) 1 1 \<le> day \<and>
    day < islamicDayFromDate epoch (islamicDown epoch day y + 1) 1 1"
proof (induction epoch day y rule: islamicDown.induct)
  case (1 epoch day y)
  then show ?case
    by (cases "day < islamicDayFromDate epoch y 1 1") (simp_all add: islamicDown.simps [of epoch day y])
qed

lemma islamic_last_month: "islamicDayFromDate epoch y 12 1 + islamicDaysInMonth y 12 =
  islamicDayFromDate epoch y 1 1 + islamicDaysInYear y"
  by (simp add: islamicDayFromDate_def islamicDaysInMonth_def islamicDaysInYear_def go_arith)

lemma islamic_day: "islamicDayFromDate epoch y m d = islamicDayFromDate epoch y m 1 + d - 1"
  by (simp add: islamicDayFromDate_def)

lemma islamic_names: "cal_names (islamicCalendar epoch ident) day (islamicDateFromDay epoch day)"
proof -
  define y where "y = islamicDown epoch day
    (islamicUp epoch day (floorDiv (30 * (day - epoch) + 10646) 10631))"
  have u: "islamicDayFromDate epoch y 1 1 \<le> day" "day < islamicDayFromDate epoch (y + 1) 1 1"
    unfolding y_def using islamicDown_bounds [OF islamicUp_less] by auto
  obtain m rest where w:
    "walkMonths (islamicDaysInMonth y) 12 1 (day - islamicDayFromDate epoch y 1 1) = (m, rest)"
    by (cases "walkMonths (islamicDaysInMonth y) 12 1 (day - islamicDayFromDate epoch y 1 1)")
  have s: "1 \<le> m \<and> m \<le> 12 \<and> 0 \<le> rest \<and> (m < 12 \<longrightarrow> rest < islamicDaysInMonth y m) \<and>
      islamicDayFromDate epoch y m 1 + rest =
      islamicDayFromDate epoch y 1 1 + (day - islamicDayFromDate epoch y 1 1)"
    by (rule walkMonths_spec [OF w]) (use u islamic_month_step in auto)
  have r: "rest < islamicDaysInMonth y m"
  proof (cases "m < 12")
    case False
    then have "m = 12" using s by simp
    then show ?thesis
      using s u islamic_last_month [of epoch y] islamic_year_step [of epoch y] by simp
  qed (use s in simp)
  have d: "islamicDateFromDay epoch day = \<lparr>cdEra = fst (islamicEraOf y), cdEraYear = snd (islamicEraOf y),
      cdYear = y, cdMonth = m, cdDay = rest + 1, cdCode = simpleMonthCode m\<rparr>"
    unfolding islamicDateFromDay_def Let_def y_def [symmetric] w by (simp split: prod.splits)
  show ?thesis
    using s r islamic_day [of epoch y m "rest + 1"] by (simp add: cal_names_def cal_valid_def d)
qed

lemma islamic_era_back: "islamicEraOf y = (e, ey) \<Longrightarrow> islamicYearFromEra e ey = Some y"
  by (auto simp: islamicEraOf_def islamicYearFromEra_def split: if_splits)

interpretation islamic: calendar_eras "islamicCalendar epoch ident"
proof unfold_locales
  fix y m d day :: int and e ey
  show "dayFromDate (islamicCalendar epoch ident) y m d =
      dayFromDate (islamicCalendar epoch ident) y m 1 + d - 1"
    by (simp add: islamicDayFromDate_def)
  show "1 \<le> m \<Longrightarrow> m < monthsInYear (islamicCalendar epoch ident) y \<Longrightarrow>
      dayFromDate (islamicCalendar epoch ident) y (m + 1) 1 =
      dayFromDate (islamicCalendar epoch ident) y m 1 + daysInMonth (islamicCalendar epoch ident) y m"
    by (simp add: islamic_month_step)
  show "dayFromDate (islamicCalendar epoch ident) (y + 1) 1 1 =
      dayFromDate (islamicCalendar epoch ident) y (monthsInYear (islamicCalendar epoch ident) y) 1 +
      daysInMonth (islamicCalendar epoch ident) y (monthsInYear (islamicCalendar epoch ident) y)"
    using islamic_last_month [of epoch y] by (simp add: islamic_year_step)
  show "daysInYear (islamicCalendar epoch ident) y =
      dayFromDate (islamicCalendar epoch ident) (y + 1) 1 1 -
      dayFromDate (islamicCalendar epoch ident) y 1 1"
    by (simp add: islamic_year_step)
  show "eraOf (islamicCalendar epoch ident) y = (e, ey) \<Longrightarrow>
      yearFromEra (islamicCalendar epoch ident) e ey = Some y"
    by (simp add: islamic_era_back)
  show "yearFromEra (islamicCalendar epoch ident) (cdEra (dateFromDay (islamicCalendar epoch ident) day))
      (cdEraYear (dateFromDay (islamicCalendar epoch ident) day)) =
      Some (cdYear (dateFromDay (islamicCalendar epoch ident) day))"
    by (simp add: islamicDateFromDay_def Let_def islamic_era_back split: prod.splits)
qed (simp_all add: islamicDaysInMonth_def islamic_names islamicEraOf_def)

end
