(* ===== verification/Calendar_Umalqura.thy ===== *)
theory Calendar_Umalqura
  imports Calendars_Islamic
begin

text \<open>
  The Umm al-Qura calendar (\<open>umalquraCalendar\<close> of \<open>internal/engine/calendar.go\<close> and the table of
  \<open>internal/engine/calendar_umalqura.go\<close>): a published table of month lengths from 1300 to 1600 AH,
  with the civil arithmetic outside it. That the calendar laws hold rests on the table meeting the
  civil calendar at both of its ends, which is computed here (\<open>umalqura_table_total\<close>).
\<close>

definition umalquraFirstYear :: int where "umalquraFirstYear = 1300"

definition umalquraEpoch :: int where "umalquraEpoch = islamicCivilEpoch + 460322"

definition umalquraMonthLengths :: "u16 list" where
  "umalquraMonthLengths =
    [0xAAA, 0xD54, 0xEC9, 0x6D4, 0x6EA, 0x36C, 0xAAD, 0x555, 0x6A9, 0x792, 0xBA9, 0x5D4,
     0xADA, 0x55C, 0xD2D, 0x695, 0x74A, 0xB54, 0xB6A, 0x5AD, 0x4AE, 0xA4F, 0x517, 0x68B,
     0x6A5, 0xAD5, 0x2D6, 0x95B, 0x49D, 0xA4D, 0xD26, 0xD95, 0x5AC, 0x9B6, 0x2BA, 0xA5B,
     0x52B, 0xA95, 0x6CA, 0xAE9, 0x2F4, 0x976, 0x2B6, 0x956, 0xACA, 0xBA4, 0xBD2, 0x5D9,
     0x2DC, 0x96D, 0x54D, 0xAA5, 0xB52, 0xBA5, 0x5B4, 0x9B6, 0x557, 0x297, 0x54B, 0x6A3,
     0x752, 0xB65, 0x56A, 0xAAB, 0x52B, 0xC95, 0xD4A, 0xDA5, 0x5CA, 0xAD6, 0x957, 0x4AB,
     0x94B, 0xAA5, 0xB52, 0xB6A, 0x575, 0x276, 0x8B7, 0x45B, 0x555, 0x5A9, 0x5B4, 0x9DA,
     0x4DD, 0x26E, 0x936, 0xAAA, 0xD54, 0xDB2, 0x5D5, 0x2DA, 0x95B, 0x4AB, 0xA55, 0xB49,
     0xB64, 0xB71, 0x5B4, 0xAB5, 0xA55, 0xD25, 0xE92, 0xEC9, 0x6D4, 0xAE9, 0x96B, 0x4AB,
     0xA93, 0xD49, 0xDA4, 0xDB2, 0xAB9, 0x4BA, 0xA5B, 0x52B, 0xA95, 0xB2A, 0xB55, 0x55C,
     0x4BD, 0x23D, 0x91D, 0xA95, 0xB4A, 0xB5A, 0x56D, 0x2B6, 0x93B, 0x49B, 0x655, 0x6A9,
     0x754, 0xB6A, 0x56C, 0xAAD, 0x555, 0xB29, 0xB92, 0xBA9, 0x5D4, 0xADA, 0x55A, 0xAAB,
     0x595, 0x749, 0x764, 0xBAA, 0x5B5, 0x2B6, 0xA56, 0xE4D, 0xB25, 0xB52, 0xB6A, 0x5AD,
     0x2AE, 0x92F, 0x497, 0x64B, 0x6A5, 0x6AC, 0xAD6, 0x55D, 0x49D, 0xA4D, 0xD16, 0xD95,
     0x5AA, 0x5B5, 0x2DA, 0x95B, 0x4AD, 0x595, 0x6CA, 0x6E4, 0xAEA, 0x4F5, 0x2B6, 0x956,
     0xAAA, 0xB54, 0xBD2, 0x5D9, 0x2EA, 0x96D, 0x4AD, 0xA95, 0xB4A, 0xBA5, 0x5B2, 0x9B5,
     0x4D6, 0xA97, 0x547, 0x693, 0x749, 0xB55, 0x56A, 0xA6B, 0x52B, 0xA8B, 0xD46, 0xDA3,
     0x5CA, 0xAD6, 0x4DB, 0x26B, 0x94B, 0xAA5, 0xB52, 0xB69, 0x575, 0x176, 0x8B7, 0x25B,
     0x52B, 0x565, 0x5B4, 0x9DA, 0x4ED, 0x16D, 0x8B6, 0xAA6, 0xD52, 0xDA9, 0x5D4, 0xADA,
     0x95B, 0x4AB, 0x653, 0x729, 0x762, 0xBA9, 0x5B2, 0xAB5, 0x555, 0xB25, 0xD92, 0xEC9,
     0x6D2, 0xAE9, 0x56B, 0x4AB, 0xA55, 0xD29, 0xD54, 0xDAA, 0x9B5, 0x4BA, 0xA3B, 0x49B,
     0xA4D, 0xAAA, 0xAD5, 0x2DA, 0x95D, 0x45E, 0xA2E, 0xC9A, 0xD55, 0x6B2, 0x6B9, 0x4BA,
     0xA5D, 0x52D, 0xA95, 0xB52, 0xBA8, 0xBB4, 0x5B9, 0x2DA, 0x95A, 0xB4A, 0xDA4, 0xED1,
     0x6E8, 0xB6A, 0x56D, 0x535, 0x695, 0xD4A, 0xDA8, 0xDD4, 0x6DA, 0x55B, 0x29D, 0x62B,
     0xB15, 0xB4A, 0xB95, 0x5AA, 0xAAE, 0x92E, 0xC8F, 0x527, 0x695,
     0x6AA, 0xAD6, 0x55D, 0x29D]"

lemma umalqura_length: "length umalquraMonthLengths = 301"
  by (simp add: umalquraMonthLengths_def)

text \<open>How many months of a year are long: the bits set among the low twelve.\<close>

definition popcount12 :: "u16 \<Rightarrow> nat" where
  "popcount12 x = sum_list (map (\<lambda>k. of_bool (bit x k)) [0..<12])"

lemma umalqura_bits: "sum_list (map popcount12 umalquraMonthLengths) = 1917"
  by code_simp

section \<open>The operations\<close>

definition umalquraInRange :: "int \<Rightarrow> bool" where
  "umalquraInRange y \<longleftrightarrow>
     umalquraFirstYear \<le> y \<and> y < umalquraFirstYear + int (length umalquraMonthLengths)"

definition umalquraDaysInMonth :: "int \<Rightarrow> int \<Rightarrow> int" where
  "umalquraDaysInMonth y m =
     (if \<not> umalquraInRange y then islamicDaysInMonth y m
      else if m < 1 \<or> 12 < m then 29
      else if umalquraMonthLengths ! nat (y - umalquraFirstYear) AND push_bit (nat (12 - m)) 1 \<noteq> 0
           then 30 else 29)"

definition umalquraDaysInYear :: "int \<Rightarrow> int" where
  "umalquraDaysInYear y =
     (if \<not> umalquraInRange y then islamicDaysInYear y
      else sumMonths (umalquraDaysInMonth y) 1 13 0)"

definition umalquraInLeapYear :: "int \<Rightarrow> bool" where
  "umalquraInLeapYear y \<longleftrightarrow> 354 < umalquraDaysInYear y"

text \<open>The start of every tabulated year, accumulated once: the \<open>i\<close>-loop of \<open>umalquraYearStarts\<close>.\<close>

fun umalquraFill :: "nat \<Rightarrow> int \<Rightarrow> int \<Rightarrow> int list" where
  "umalquraFill 0 y day = []"
| "umalquraFill (Suc n) y day =
     day # umalquraFill n (y + 1) (sumMonths (umalquraDaysInMonth y) 1 13 day)"

definition umalquraYearStarts :: "int list" where
  "umalquraYearStarts = umalquraFill (length umalquraMonthLengths) umalquraFirstYear umalquraEpoch"

definition umalquraDayFromDate :: "int \<Rightarrow> int \<Rightarrow> int \<Rightarrow> int" where
  "umalquraDayFromDate y m d =
     (if \<not> umalquraInRange y then islamicDayFromDate islamicCivilEpoch y m d
      else let day = umalquraYearStarts ! nat (y - umalquraFirstYear)
           in sumMonths (umalquraDaysInMonth y) 1 m day + d - 1)"

text \<open>The scan for the year: the last one that starts on or before the day.\<close>

fun umalquraScan :: "int list \<Rightarrow> int \<Rightarrow> int \<Rightarrow> int \<Rightarrow> int" where
  "umalquraScan [] i y day = y"
| "umalquraScan (s # ss) i y day =
     (if day < s then y else umalquraScan ss (i + 1) (umalquraFirstYear + i) day)"

definition umalquraDateFromDay :: "int \<Rightarrow> calendarDate" where
  "umalquraDateFromDay day =
     (let starts = umalquraYearStarts
      in if day < starts ! 0 \<or>
            last starts + umalquraDaysInYear (umalquraFirstYear + int (length starts) - 1) \<le> day
         then islamicDateFromDay islamicCivilEpoch day
         else let y = umalquraScan starts 0 umalquraFirstYear day;
                  rest0 = day - starts ! nat (y - umalquraFirstYear);
                  (m, rest) = walkMonths (umalquraDaysInMonth y) 12 1 rest0;
                  (era, ey) = islamicEraOf y
              in \<lparr>cdEra = era, cdEraYear = ey, cdYear = y, cdMonth = m, cdDay = rest + 1,
                  cdCode = simpleMonthCode m\<rparr>)"

definition umalquraCalendar :: calendar where
  "umalquraCalendar =
     \<lparr>dateFromDay = umalquraDateFromDay,
      dayFromDate = umalquraDayFromDate,
      monthsInYear = (\<lambda>_. 12),
      daysInMonth = umalquraDaysInMonth,
      daysInYear = umalquraDaysInYear,
      inLeapYear = umalquraInLeapYear,
      monthCode = (\<lambda>_ m. simpleMonthCode m),
      monthFromCode = fixedMonthFromCode 12,
      eraOf = islamicEraOf,
      yearFromEra = islamicYearFromEra,
      eras = [''bh'', ''ah'']\<rparr>"

lemma umalquraCalendar_simps [simp]:
  "dateFromDay umalquraCalendar = umalquraDateFromDay"
  "dayFromDate umalquraCalendar = umalquraDayFromDate"
  "monthsInYear umalquraCalendar y = 12"
  "daysInMonth umalquraCalendar = umalquraDaysInMonth"
  "daysInYear umalquraCalendar = umalquraDaysInYear"
  "monthCode umalquraCalendar y m = simpleMonthCode m"
  "monthFromCode umalquraCalendar = fixedMonthFromCode 12"
  "eraOf umalquraCalendar = islamicEraOf"
  "yearFromEra umalquraCalendar = islamicYearFromEra"
  "eras umalquraCalendar = [''bh'', ''ah'']"
  by (simp_all add: umalquraCalendar_def)

section \<open>The table\<close>

lemma umalquraInRange_iff: "umalquraInRange y \<longleftrightarrow> 1300 \<le> y \<and> y \<le> 1600"
  by (auto simp: umalquraInRange_def umalqura_length umalquraFirstYear_def)

lemma and_one_bit: "(x AND push_bit k 1 \<noteq> 0) = bit x k" if "k < 16" for x :: u16
proof -
  have "push_bit k (1 :: u16) = 2 ^ k" by (simp add: push_bit_of_1)
  then show ?thesis using and_exp_eq_0_iff_not_bit [of x k] by simp
qed

lemma umalqura_month:
  assumes "umalquraInRange y" "1 \<le> m" "m \<le> 12"
  shows "umalquraDaysInMonth y m =
    29 + of_bool (bit (umalquraMonthLengths ! nat (y - 1300)) (nat (12 - m)))"
  using assms and_one_bit [of "nat (12 - m)" "umalquraMonthLengths ! nat (y - 1300)"]
  by (simp add: umalquraDaysInMonth_def umalquraFirstYear_def)

lemma twelve_months:
  "(\<Sum>m\<leftarrow>[1, 2, 3, 4, 5, 6, 7, 8, 9, 10, 11, 12]. 29 + int (f (nat (12 - m)))) =
    348 + int (sum_list (map f [0..<12]))"
proof -
  have "[0..<12] = [0, 1, 2, 3, 4, 5, 6, 7, 8, 9, 10, 11 :: nat]" by (simp add: upt_rec)
  then show ?thesis by simp
qed

lemma umalqura_year_bits:
  assumes "umalquraInRange y"
  shows "sumMonths (umalquraDaysInMonth y) 1 13 0 =
    348 + int (popcount12 (umalquraMonthLengths ! nat (y - 1300)))"
proof -
  have "sumMonths (umalquraDaysInMonth y) 1 13 0 = (\<Sum>m\<leftarrow>[1, 2, 3, 4, 5, 6, 7, 8, 9, 10, 11, 12]. umalquraDaysInMonth y m)"
    by (simp add: sumMonths.simps)
  also have "\<dots> = (\<Sum>m\<leftarrow>[1, 2, 3, 4, 5, 6, 7, 8, 9, 10, 11, 12].
      29 + int (of_bool (bit (umalquraMonthLengths ! nat (y - 1300)) (nat (12 - m)))))"
    using assms by (intro arg_cong [where f = sum_list] map_cong) (auto simp: umalqura_month)
  also have "\<dots> = 348 + int (popcount12 (umalquraMonthLengths ! nat (y - 1300)))"
    unfolding popcount12_def by (rule twelve_months)
  finally show ?thesis .
qed

lemma umalquraFill_length [simp]: "length (umalquraFill n y day) = n"
  by (induction n arbitrary: y day) auto

lemma umalquraFill_nth:
  "i < n \<Longrightarrow> umalquraFill n y day ! i =
    day + (\<Sum>j<i. sumMonths (umalquraDaysInMonth (y + int j)) 1 13 0)"
proof (induction n arbitrary: i y day)
  case (Suc n)
  show ?case
  proof (cases i)
    case (Suc k)
    have "sumMonths (umalquraDaysInMonth y) 1 13 day = day + sumMonths (umalquraDaysInMonth y) 1 13 0"
      using sumMonths_add [of "umalquraDaysInMonth y" 1 13 0 day] by simp
    then show ?thesis
      using Suc Suc.IH [of k "y + 1"] Suc.prems
      by (simp add: sum.lessThan_Suc_shift add.assoc del: sum.lessThan_Suc)
  qed simp
qed simp

text \<open>The day a year begins: tabulated or civil.\<close>

definition umalquraStart :: "int \<Rightarrow> int" where
  "umalquraStart y = umalquraDayFromDate y 1 1"

lemma umalquraStart_table:
  "umalquraInRange y \<Longrightarrow> umalquraStart y =
    umalquraEpoch + (\<Sum>j<nat (y - 1300). sumMonths (umalquraDaysInMonth (1300 + int j)) 1 13 0)"
proof -
  assume r: "umalquraInRange y"
  then have i: "nat (y - 1300) < 301" by (auto simp: umalquraInRange_iff)
  show ?thesis
    using r umalquraFill_nth [OF i, of 1300 umalquraEpoch]
    by (simp add: umalquraStart_def umalquraDayFromDate_def umalquraYearStarts_def umalqura_length
        umalquraFirstYear_def)
qed

lemma umalquraStart_civil:
  "\<not> umalquraInRange y \<Longrightarrow> umalquraStart y = islamicDayFromDate islamicCivilEpoch y 1 1"
  by (simp add: umalquraStart_def umalquraDayFromDate_def)

text \<open>The table meets the civil calendar at both ends.\<close>

lemma umalqura_meets_first: "umalquraEpoch = islamicDayFromDate islamicCivilEpoch 1300 1 1"
  by (simp add: umalquraEpoch_def islamicDayFromDate_def)

lemma umalqura_table_total:
  "umalquraEpoch + (\<Sum>j<301. sumMonths (umalquraDaysInMonth (1300 + int j)) 1 13 0) =
    islamicDayFromDate islamicCivilEpoch 1601 1 1"
proof -
  have "(\<Sum>j<301. sumMonths (umalquraDaysInMonth (1300 + int j)) 1 13 0) =
      (\<Sum>j<301. 348 + int (popcount12 (umalquraMonthLengths ! j)))"
    by (rule sum.cong) (simp_all add: umalqura_year_bits umalquraInRange_iff)
  also have "\<dots> = 301 * 348 + int (sum_list (map popcount12 umalquraMonthLengths))"
    by (simp add: sum.distrib sum_list_sum_nth umalqura_length atLeast0LessThan del: sum.lessThan_Suc)
  finally show ?thesis by (simp add: umalqura_bits umalquraEpoch_def islamicDayFromDate_def)
qed

lemma umalquraStart_step: "umalquraStart (y + 1) = umalquraStart y + umalquraDaysInYear y"
proof -
  consider "y < 1299" | "y = 1299" | "1300 \<le> y" "y < 1600" | "y = 1600" | "1600 < y" by linarith
  then show ?thesis
  proof cases
    case 1
    then show ?thesis
      by (simp add: umalquraStart_civil umalquraInRange_iff umalquraDaysInYear_def islamic_year_step)
  next
    case 2
    then show ?thesis
      using islamic_year_step [of islamicCivilEpoch 1299]
      by (simp add: umalquraStart_civil umalquraStart_table umalquraInRange_iff umalquraDaysInYear_def
          umalqura_meets_first)
  next
    case 3
    have "nat (y + 1 - 1300) = Suc (nat (y - 1300))" using 3 by simp
    with 3 show ?thesis
      by (simp add: umalquraStart_table umalquraInRange_iff umalquraDaysInYear_def)
  next
    case 4
    then show ?thesis
      using umalqura_table_total sum.lessThan_Suc [of "\<lambda>j. sumMonths (umalquraDaysInMonth (1300 + int j)) 1 13 0" 300]
      by (simp add: umalquraStart_civil umalquraStart_table umalquraInRange_iff umalquraDaysInYear_def
          del: sum.lessThan_Suc)
  next
    case 5
    then show ?thesis
      by (simp add: umalquraStart_civil umalquraInRange_iff umalquraDaysInYear_def islamic_year_step)
  qed
qed

section \<open>The laws\<close>

lemma umalquraDaysInMonth_bounds:
  "29 \<le> umalquraDaysInMonth y m" "umalquraDaysInMonth y m \<le> 30"
  by (auto simp: umalquraDaysInMonth_def islamicDaysInMonth_def)

lemma umalqura_month_step:
  assumes "1 \<le> m" "m < 12"
  shows "umalquraDayFromDate y (m + 1) 1 = umalquraDayFromDate y m 1 + umalquraDaysInMonth y m"
proof (cases "umalquraInRange y")
  case True
  then show ?thesis using assms sumMonths_step [of 1 m] by (simp add: umalquraDayFromDate_def Let_def)
next
  case False
  then show ?thesis
    using islamic_month_step [OF assms] by (simp add: umalquraDayFromDate_def umalquraDaysInMonth_def)
qed

lemma umalqura_day: "umalquraDayFromDate y m d = umalquraDayFromDate y m 1 + d - 1"
  by (simp add: umalquraDayFromDate_def islamicDayFromDate_def Let_def)

lemma umalqura_last_month:
  "umalquraDayFromDate y 12 1 + umalquraDaysInMonth y 12 = umalquraStart y + umalquraDaysInYear y"
proof (cases "umalquraInRange y")
  case True
  define s where "s = umalquraYearStarts ! nat (y - umalquraFirstYear)"
  have "sumMonths (umalquraDaysInMonth y) 1 13 s =
      sumMonths (umalquraDaysInMonth y) 1 12 s + umalquraDaysInMonth y 12"
    using sumMonths_step [of 1 12 "umalquraDaysInMonth y" s] by simp
  moreover have "sumMonths (umalquraDaysInMonth y) 1 13 s = s + sumMonths (umalquraDaysInMonth y) 1 13 0"
    using sumMonths_add [of "umalquraDaysInMonth y" 1 13 0 s] by simp
  ultimately show ?thesis
    using True by (simp add: umalquraStart_def umalquraDayFromDate_def umalquraDaysInYear_def
        s_def [symmetric])
next
  case False
  then show ?thesis
    using islamic_last_month [of islamicCivilEpoch y]
    by (simp add: umalquraDayFromDate_def umalquraDaysInMonth_def umalquraStart_def umalquraDaysInYear_def)
qed

lemma umalquraYearStarts_nth: "i < 301 \<Longrightarrow> umalquraYearStarts ! i = umalquraStart (1300 + int i)"
  by (simp add: umalquraStart_def umalquraDayFromDate_def umalquraInRange_iff umalquraFirstYear_def)

lemma umalquraYearStarts_length: "length umalquraYearStarts = 301"
  by (simp add: umalquraYearStarts_def umalqura_length)

lemma umalquraScan_spec:
  assumes "i < 301" "umalquraYearStarts ! i \<le> day"
  shows "\<exists>j. umalquraScan (drop i umalquraYearStarts) (int i) y day = 1300 + int j \<and> i \<le> j \<and> j < 301 \<and>
    umalquraYearStarts ! j \<le> day \<and> (Suc j < 301 \<longrightarrow> day < umalquraYearStarts ! Suc j)"
  using assms
proof (induction "300 - i" arbitrary: i y)
  case 0
  then have "i = 300" by simp
  moreover have "drop 300 umalquraYearStarts = [umalquraYearStarts ! 300]"
    using Cons_nth_drop_Suc [of 300 umalquraYearStarts] umalquraYearStarts_length by simp
  ultimately show ?case using 0 by (intro exI [of _ 300]) (simp add: umalquraFirstYear_def)
next
  case (Suc k)
  have d: "drop i umalquraYearStarts = umalquraYearStarts ! i # drop (Suc i) umalquraYearStarts"
    using Suc.prems umalquraYearStarts_length by (simp add: Cons_nth_drop_Suc)
  have i: "Suc i < 301" using Suc.hyps(2) by simp
  show ?case
  proof (cases "umalquraYearStarts ! Suc i \<le> day")
    case True
    have "\<exists>j. umalquraScan (drop (Suc i) umalquraYearStarts) (int (Suc i)) (umalquraFirstYear + int i) day =
        1300 + int j \<and> Suc i \<le> j \<and> j < 301 \<and> umalquraYearStarts ! j \<le> day \<and>
        (Suc j < 301 \<longrightarrow> day < umalquraYearStarts ! Suc j)"
      by (rule Suc.hyps(1)) (use Suc.hyps(2) i True in auto)
    then obtain j where "umalquraScan (drop (Suc i) umalquraYearStarts) (int (Suc i))
        (umalquraFirstYear + int i) day = 1300 + int j" "Suc i \<le> j" "j < 301"
      "umalquraYearStarts ! j \<le> day" "Suc j < 301 \<longrightarrow> day < umalquraYearStarts ! Suc j"
      by blast
    then show ?thesis using Suc.prems by (intro exI [of _ j]) (simp add: d add.commute)
  next
    case False
    have "drop (Suc i) umalquraYearStarts = umalquraYearStarts ! Suc i # drop (Suc (Suc i)) umalquraYearStarts"
      using i umalquraYearStarts_length by (simp add: Cons_nth_drop_Suc)
    with False Suc.prems i show ?thesis
      by (intro exI [of _ i]) (simp add: d umalquraFirstYear_def)
  qed
qed

lemma umalqura_names: "cal_names umalquraCalendar day (umalquraDateFromDay day)"
proof (cases "day < umalquraYearStarts ! 0 \<or>
    last umalquraYearStarts + umalquraDaysInYear (umalquraFirstYear + int (length umalquraYearStarts) - 1) \<le> day")
  case True
  have "last umalquraYearStarts = umalquraStart 1600"
    using umalquraYearStarts_nth [of 300] umalquraYearStarts_length
    by (simp add: last_conv_nth flip: length_greater_0_conv)
  then have out: "day < umalquraStart 1300 \<or> umalquraStart 1601 \<le> day"
    using True umalquraStart_step [of 1600] umalquraYearStarts_nth [of 0]
    by (simp add: umalquraYearStarts_length umalquraFirstYear_def)
  define c where "c = islamicDateFromDay islamicCivilEpoch day"
  have n: "cal_names (islamicCalendar islamicCivilEpoch ''islamic-civil'') day c"
    unfolding c_def by (rule islamic_names)
  then have v: "cal_valid (islamicCalendar islamicCivilEpoch ''islamic-civil'') (cdYear c) (cdMonth c) (cdDay c)"
    "islamicDayFromDate islamicCivilEpoch (cdYear c) (cdMonth c) (cdDay c) = day"
    by (auto simp: cal_names_def)
  have y: "islamicDayFromDate islamicCivilEpoch (cdYear c) 1 1 \<le> day"
    "day < islamicDayFromDate islamicCivilEpoch (cdYear c + 1) 1 1"
    using islamic.in_year [OF v(1)] v(2) by simp_all
  have ends: "umalquraStart 1300 = islamicDayFromDate islamicCivilEpoch 1300 1 1"
    "umalquraStart 1601 = islamicDayFromDate islamicCivilEpoch 1601 1 1"
    using umalqura_meets_first by (simp_all add: umalquraStart_civil umalquraStart_table umalquraInRange_iff)
  have mono: "islamicDayFromDate islamicCivilEpoch a 1 1 \<le> islamicDayFromDate islamicCivilEpoch b 1 1"
    if "a \<le> b" for a b
    using islamic.year_start_less [of a b islamicCivilEpoch] that by (cases "a = b") auto
  have "\<not> umalquraInRange (cdYear c)"
  proof
    assume "umalquraInRange (cdYear c)"
    then have "1300 \<le> cdYear c" "cdYear c + 1 \<le> 1601" by (simp_all add: umalquraInRange_iff)
    from mono [OF this(1)] mono [OF this(2)] y out ends show False by simp
  qed
  then show ?thesis
    using n True
    by (simp add: cal_names_def cal_valid_def umalquraDaysInMonth_def umalquraDayFromDate_def
        umalquraDateFromDay_def c_def [symmetric])
next
  case False
  then have "umalquraYearStarts ! 0 \<le> day" by simp
  then obtain j where j: "umalquraScan umalquraYearStarts 0 umalquraFirstYear day = 1300 + int j" "j < 301"
    "umalquraYearStarts ! j \<le> day" "Suc j < 301 \<longrightarrow> day < umalquraYearStarts ! Suc j"
    using umalquraScan_spec [of 0 day umalquraFirstYear] by auto
  define y where "y = 1300 + int j"
  have r: "umalquraInRange y" "nat (y - umalquraFirstYear) = j" "umalquraYearStarts ! j = umalquraStart y"
    using j by (auto simp: y_def umalquraInRange_iff umalquraFirstYear_def umalquraYearStarts_nth)
  have up: "day < umalquraStart (y + 1)"
  proof (cases "Suc j < 301")
    case True
    then show ?thesis using j(4) umalquraYearStarts_nth [of "Suc j"] by (simp add: y_def add.commute)
  next
    case last: False
    then have "y = 1600" using j(2) by (simp add: y_def)
    moreover have "last umalquraYearStarts = umalquraStart 1600"
      using umalquraYearStarts_nth [of 300] umalquraYearStarts_length
      by (simp add: last_conv_nth flip: length_greater_0_conv)
    ultimately show ?thesis
      using False umalquraStart_step [of 1600]
      by (simp add: umalquraYearStarts_length umalquraFirstYear_def)
  qed
  obtain m rest where w: "walkMonths (umalquraDaysInMonth y) 12 1 (day - umalquraStart y) = (m, rest)"
    by (cases "walkMonths (umalquraDaysInMonth y) 12 1 (day - umalquraStart y)")
  have s: "1 \<le> m \<and> m \<le> 12 \<and> 0 \<le> rest \<and> (m < 12 \<longrightarrow> rest < umalquraDaysInMonth y m) \<and>
      umalquraDayFromDate y m 1 + rest = umalquraDayFromDate y 1 1 + (day - umalquraStart y)"
    by (rule walkMonths_spec [OF w]) (use j(3) r umalqura_month_step in auto)
  have b: "rest < umalquraDaysInMonth y m"
  proof (cases "m < 12")
    case False
    then have "m = 12" using s by simp
    then show ?thesis
      using s up umalqura_last_month [of y] umalquraStart_step [of y] by (simp add: umalquraStart_def)
  qed (use s in simp)
  have d: "umalquraDateFromDay day = \<lparr>cdEra = fst (islamicEraOf y), cdEraYear = snd (islamicEraOf y),
      cdYear = y, cdMonth = m, cdDay = rest + 1, cdCode = simpleMonthCode m\<rparr>"
    using False w unfolding umalquraDateFromDay_def Let_def j(1) y_def [symmetric] r
    by (simp split: prod.splits)
  show ?thesis
    using s b umalqura_day [of y m "rest + 1"]
    by (simp add: cal_names_def cal_valid_def d umalquraStart_def)
qed

interpretation umalqura: calendar_eras umalquraCalendar
proof unfold_locales
  fix y m d day :: int and e ey
  show "1 \<le> m \<Longrightarrow> m \<le> monthsInYear umalquraCalendar y \<Longrightarrow> 1 \<le> daysInMonth umalquraCalendar y m"
    using umalquraDaysInMonth_bounds(1) [of y m] by simp
  show "dayFromDate umalquraCalendar y m d = dayFromDate umalquraCalendar y m 1 + d - 1"
    using umalqura_day [of y m d] by simp
  show "dayFromDate umalquraCalendar (y + 1) 1 1 =
      dayFromDate umalquraCalendar y (monthsInYear umalquraCalendar y) 1 +
      daysInMonth umalquraCalendar y (monthsInYear umalquraCalendar y)"
    using umalqura_last_month [of y] umalquraStart_step [of y] by (simp add: umalquraStart_def)
  show "daysInYear umalquraCalendar y =
      dayFromDate umalquraCalendar (y + 1) 1 1 - dayFromDate umalquraCalendar y 1 1"
    using umalquraStart_step [of y] by (simp add: umalquraStart_def)
  show "eraOf umalquraCalendar y = (e, ey) \<Longrightarrow> yearFromEra umalquraCalendar e ey = Some y"
    by (simp add: islamic_era_back)
  show "yearFromEra umalquraCalendar (cdEra (dateFromDay umalquraCalendar day))
      (cdEraYear (dateFromDay umalquraCalendar day)) = Some (cdYear (dateFromDay umalquraCalendar day))"
    by (simp add: umalquraDateFromDay_def islamicDateFromDay_def Let_def islamic_era_back
        split: prod.splits)
qed (simp_all add: umalqura_month_step umalqura_names islamicEraOf_def)

end
