(* ===== verification/Calendar_Hebrew.thy ===== *)
theory Calendar_Hebrew
  imports Calendars_Arith
begin

text \<open>
  The Hebrew calendar (\<open>hebrewCalendar\<close> of \<open>internal/engine/calendar.go\<close>). The new year is a count
  of molad parts with four postponements; \<open>hebrew_molad\<close> gives the count in closed form, and from it
  the possible lengths of a year are derived (\<open>hebrewDaysInYear_cases\<close>), the correction of
  \<open>hebrewYearCorrection\<close> is shown never to fire, and the calendar laws follow.
\<close>

section \<open>The operations\<close>

definition hebrewLeapYear :: "int \<Rightarrow> bool" where
  "hebrewLeapYear y \<longleftrightarrow> floorMod (7 * y + 1) 19 < 7"

definition hebrewWeekday :: "int \<Rightarrow> int" where
  "hebrewWeekday d = floorMod (d + 1) 7"

definition hebrewElapsedDays :: "int \<Rightarrow> int" where
  "hebrewElapsedDays y =
     (let monthsElapsed = 235 * floorDiv (y - 1) 19 + 12 * floorMod (y - 1) 19 +
            floorDiv (7 * floorMod (y - 1) 19 + 1) 19;
          partsElapsed = 204 + 793 * floorMod monthsElapsed 1080;
          hoursElapsed = 5 + 12 * monthsElapsed + 793 * floorDiv monthsElapsed 1080 +
            floorDiv partsElapsed 1080;
          day0 = 29 * monthsElapsed + floorDiv hoursElapsed 24;
          parts = 1080 * floorMod hoursElapsed 24 + floorMod partsElapsed 1080;
          day1 = (if 19440 \<le> parts \<or>
                     hebrewWeekday day0 = 2 \<and> 9924 \<le> parts \<and> \<not> hebrewLeapYear y \<or>
                     hebrewWeekday day0 = 1 \<and> 16789 \<le> parts \<and> hebrewLeapYear (y - 1)
                  then day0 + 1 else day0);
          d = hebrewWeekday day1
      in if d = 0 \<or> d = 3 \<or> d = 5 then day1 + 1 else day1)"

definition hebrewEpoch :: int where "hebrewEpoch = isoDay (- 3760) 9 7"

definition hebrewYearCorrection :: "int \<Rightarrow> int" where
  "hebrewYearCorrection y =
     (let ny0 = hebrewElapsedDays (y - 1);
          ny1 = hebrewElapsedDays y;
          ny2 = hebrewElapsedDays (y + 1)
      in if ny2 - ny1 = 356 then 2 else if ny1 - ny0 = 382 then 1 else 0)"

definition hebrewNewYear :: "int \<Rightarrow> int" where
  "hebrewNewYear y = hebrewEpoch + hebrewElapsedDays y + hebrewYearCorrection y"

definition hebrewDaysInYear :: "int \<Rightarrow> int" where
  "hebrewDaysInYear y = hebrewNewYear (y + 1) - hebrewNewYear y"

definition hebrewMonthsInYear :: "int \<Rightarrow> int" where
  "hebrewMonthsInYear y = (if hebrewLeapYear y then 13 else 12)"

definition hebrewDaysInMonth :: "int \<Rightarrow> int \<Rightarrow> int" where
  "hebrewDaysInMonth y m0 =
     (let length = hebrewDaysInYear y;
          leap = hebrewLeapYear y
      in if m0 = 1 then 30
         else if m0 = 2 then if length smod 10 = 5 then 30 else 29
         else if m0 = 3 then if length smod 10 = 3 then 29 else 30
         else if m0 = 4 then 29
         else if m0 = 5 then 30
         else if m0 = 6 then if leap then 30 else 29
         else let m = (if leap then m0 - 1 else m0)
              in if m = 6 then 29
                 else if m = 7 then 30
                 else if m = 8 then 29
                 else if m = 9 then 30
                 else if m = 10 then 29
                 else if m = 11 then 30
                 else if m = 12 then 29
                 else 29)"

definition hebrewDayFromDate :: "int \<Rightarrow> int \<Rightarrow> int \<Rightarrow> int" where
  "hebrewDayFromDate y m d = sumMonths (hebrewDaysInMonth y) 1 m (hebrewNewYear y) + d - 1"

definition hebrewMonthCode :: "int \<Rightarrow> int \<Rightarrow> string" where
  "hebrewMonthCode y m =
     (if hebrewLeapYear y \<and> m = 6 then ''M05L''
      else if hebrewLeapYear y \<and> 6 < m then simpleMonthCode (m - 1)
      else simpleMonthCode m)"

definition hebrewMonthFromCode :: "string \<Rightarrow> string \<Rightarrow> int option" where
  "hebrewMonthFromCode year code =
     (case atoi year of
        None \<Rightarrow> None
      | Some y \<Rightarrow>
          (case parseMonthCode code of
             None \<Rightarrow> None
           | Some (n, leap) \<Rightarrow>
               if leap then if n \<noteq> 5 \<or> \<not> hebrewLeapYear y then None else Some 6
               else if 12 < n then None
               else if hebrewLeapYear y \<and> 6 \<le> n then Some (n + 1)
               else Some n))"

section \<open>The molad in closed form\<close>

text \<open>
  Months elapsed before a year, and the molad as a count of parts, 25920 to the day.
\<close>

definition hebrewMonths :: "int \<Rightarrow> int" where
  "hebrewMonths y = (235 * (y - 1) + 1) div 19"

definition hebrewMolad :: "int \<Rightarrow> int" where
  "hebrewMolad y = 765433 * hebrewMonths y + 5604"

lemma hebrew_months:
  "235 * ((y - 1) div 19) + 12 * ((y - 1) mod 19) + (7 * ((y - 1) mod 19) + 1) div 19 = hebrewMonths y"
proof -
  define k a where "k = (y - 1) div 19" and "a = (y - 1) mod 19"
  have y: "y - 1 = 19 * k + a" by (simp add: k_def a_def)
  have "235 * (y - 1) + 1 = (7 * a + 1) + 19 * (235 * k + 12 * a)" unfolding y by simp
  then have "hebrewMonths y = (235 * k + 12 * a) + (7 * a + 1) div 19"
    unfolding hebrewMonths_def by (simp only: div_mult_self2)
  then show ?thesis by (simp add: k_def a_def)
qed

lemma hebrew_molad:
  fixes y :: int
  defines "M \<equiv> hebrewMonths y"
  defines "parts0 \<equiv> 204 + 793 * (M mod 1080)"
  defines "hours \<equiv> 5 + 12 * M + 793 * (M div 1080) + parts0 div 1080"
  shows "29 * M + hours div 24 = hebrewMolad y div 25920"
    and "1080 * (hours mod 24) + parts0 mod 1080 = hebrewMolad y mod 25920"
proof -
  define q r where "q = M div 1080" and "r = M mod 1080"
  have m: "M = 1080 * q + r" by (simp add: q_def r_def)
  define a b where "a = parts0 div 1080" and "b = parts0 mod 1080"
  have p: "204 + 793 * r = 1080 * a + b" "0 \<le> b" "b < 1080"
    by (simp_all add: a_def b_def parts0_def r_def)
  define u v where "u = hours div 24" and "v = hours mod 24"
  have h: "5 + 12 * M + 793 * q + a = 24 * u + v" "0 \<le> v" "v < 24"
    by (simp_all add: u_def v_def hours_def q_def a_def)
  have e: "hebrewMolad y = 25920 * (29 * M + u) + (1080 * v + b)"
    using m p(1) h(1) by (simp add: hebrewMolad_def M_def [symmetric])
  have i: "0 \<le> 1080 * v + b" "1080 * v + b < 25920" using p h by auto
  show "29 * M + hours div 24 = hebrewMolad y div 25920"
    and "1080 * (hours mod 24) + parts0 mod 1080 = hebrewMolad y mod 25920"
    unfolding u_def [symmetric] v_def [symmetric] b_def [symmetric]
    using int_div_pos_eq [OF e i] int_mod_pos_eq [OF e i] by simp_all
qed

text \<open>The postponement, as a function of weekday, parts and the leap years around.\<close>

definition hebrewDelay :: "int \<Rightarrow> int \<Rightarrow> bool \<Rightarrow> bool \<Rightarrow> int" where
  "hebrewDelay w p leap leapBefore =
     (let d = (if 19440 \<le> p \<or> w = 2 \<and> 9924 \<le> p \<and> \<not> leap \<or> w = 1 \<and> 16789 \<le> p \<and> leapBefore
               then 1 else 0);
          w' = (w + d) mod 7
      in if w' = 0 \<or> w' = 3 \<or> w' = 5 then d + 1 else d)"

lemma hebrewElapsed_delay:
  "hebrewElapsedDays y = hebrewMolad y div 25920 +
    hebrewDelay ((hebrewMolad y div 25920 + 1) mod 7) (hebrewMolad y mod 25920)
      (hebrewLeapYear y) (hebrewLeapYear (y - 1))"
proof -
  define M where "M = hebrewMonths y"
  define D where "D = hebrewMolad y div 25920"
  have f: "floorDiv a 19 = a div 19" "floorDiv a 1080 = a div 1080" "floorDiv a 24 = a div 24"
    "floorMod a 19 = a mod 19" "floorMod a 1080 = a mod 1080" "floorMod a 24 = a mod 24"
    "floorMod a 7 = a mod 7" for a by simp_all
  have e: "((D + 1) mod 7 + 1) mod 7 = (D + 1 + 1) mod 7" "((D + 1) mod 7 + 0) mod 7 = (D + 1) mod 7"
    by (simp_all add: mod_simps)
  define C where "C \<longleftrightarrow> 19440 \<le> hebrewMolad y mod 25920 \<or>
    (D + 1) mod 7 = 2 \<and> 9924 \<le> hebrewMolad y mod 25920 \<and> \<not> hebrewLeapYear y \<or>
    (D + 1) mod 7 = 1 \<and> 16789 \<le> hebrewMolad y mod 25920 \<and> hebrewLeapYear (y - 1)"
  show ?thesis
    unfolding hebrewElapsedDays_def Let_def hebrewWeekday_def f hebrew_months hebrew_molad
      hebrewDelay_def D_def [symmetric] C_def [symmetric]
    by (cases C) (simp_all only: if_True if_False e, simp_all)
qed

text \<open>One year on: the molad moves by twelve or thirteen months.\<close>

lemma hebrewMonths_step: "hebrewMonths (y + 1) = hebrewMonths y + hebrewMonthsInYear y"
proof -
  define q r where "q = (235 * (y - 1) + 1) div 19" and "r = (235 * (y - 1) + 1) mod 19"
  have b: "235 * (y - 1) + 1 = 19 * q + r" "0 \<le> r" "r < 19" by (simp_all add: q_def r_def)
  have l: "(7 * y + 1) mod 19 = (if r < 12 then r + 7 else r - 12)"
    using b by (intro int_mod_pos_eq [where q = "q - 12 * (y - 1) + (if r < 12 then 0 else 1)"]) auto
  have "(235 * (y + 1 - 1) + 1) div 19 = q + (if r < 12 then 12 else 13)"
    using b by (intro int_div_pos_eq [where r = "if r < 12 then r + 7 else r - 12"]) auto
  then show ?thesis
    using l b by (simp add: hebrewMonths_def hebrewMonthsInYear_def hebrewLeapYear_def q_def [symmetric])
qed

lemma hebrew_leap_gap: "hebrewLeapYear y \<Longrightarrow> \<not> hebrewLeapYear (y + 1) \<and> \<not> hebrewLeapYear (y - 1)"
proof -
  assume l: "hebrewLeapYear y"
  define q r where "q = (7 * y + 1) div 19" and "r = (7 * y + 1) mod 19"
  have b: "7 * y + 1 = 19 * q + r" "0 \<le> r" "r < 7"
    using l by (simp_all add: q_def r_def hebrewLeapYear_def)
  have "(7 * (y + 1) + 1) mod 19 = r + 7" using b by (intro int_mod_pos_eq [where q = q]) auto
  moreover have "(7 * (y - 1) + 1) mod 19 = r + 12" using b by (intro int_mod_pos_eq [where q = "q - 1"]) auto
  ultimately show ?thesis using b by (simp add: hebrewLeapYear_def)
qed

text \<open>The day and the parts of the next molad: 354 days 9516 parts, or 383 days 23269 parts, on.\<close>

definition hebrewDay :: "int \<Rightarrow> int" where "hebrewDay y = hebrewMolad y div 25920"
definition hebrewParts :: "int \<Rightarrow> int" where "hebrewParts y = hebrewMolad y mod 25920"

lemma hebrew_molad_step:
  defines "k \<equiv> \<lambda>y. if hebrewLeapYear y then 383 else (354 :: int)"
    and "x \<equiv> \<lambda>y. if hebrewLeapYear y then 23269 else (9516 :: int)"
  shows "hebrewParts y + x y < 25920 \<and> hebrewDay (y + 1) = hebrewDay y + k y \<and>
      hebrewParts (y + 1) = hebrewParts y + x y \<or>
    25920 \<le> hebrewParts y + x y \<and> hebrewDay (y + 1) = hebrewDay y + k y + 1 \<and>
      hebrewParts (y + 1) = hebrewParts y + x y - 25920"
proof -
  have m: "hebrewMolad (y + 1) = hebrewMolad y + 25920 * k y + x y"
    by (simp add: hebrewMolad_def hebrewMonths_step hebrewMonthsInYear_def k_def x_def)
  have s: "hebrewMolad y = 25920 * hebrewDay y + hebrewParts y" "0 \<le> hebrewParts y" "hebrewParts y < 25920"
    by (simp_all add: hebrewDay_def hebrewParts_def)
  have x: "0 \<le> x y" "x y < 25920" by (simp_all add: x_def)
  show ?thesis
  proof (cases "hebrewParts y + x y < 25920")
    case True
    have e: "hebrewMolad (y + 1) = 25920 * (hebrewDay y + k y) + (hebrewParts y + x y)" using m s by simp
    have "hebrewDay (y + 1) = hebrewDay y + k y"
      unfolding hebrewDay_def [of "y + 1"] by (rule int_div_pos_eq [OF e]) (use True s x in linarith)+
    moreover have "hebrewParts (y + 1) = hebrewParts y + x y"
      unfolding hebrewParts_def [of "y + 1"] by (rule int_mod_pos_eq [OF e]) (use True s x in linarith)+
    ultimately show ?thesis using True by blast
  next
    case False
    have e: "hebrewMolad (y + 1) = 25920 * (hebrewDay y + k y + 1) + (hebrewParts y + x y - 25920)"
      using m s by simp
    have "hebrewDay (y + 1) = hebrewDay y + k y + 1"
      unfolding hebrewDay_def [of "y + 1"] by (rule int_div_pos_eq [OF e]) (use False s x in linarith)+
    moreover have "hebrewParts (y + 1) = hebrewParts y + x y - 25920"
      unfolding hebrewParts_def [of "y + 1"] by (rule int_mod_pos_eq [OF e]) (use False s x in linarith)+
    ultimately show ?thesis using False by (simp add: not_less)
  qed
qed

lemma hebrewElapsed_eq:
  "hebrewElapsedDays y = hebrewDay y +
    hebrewDelay ((hebrewDay y + 1) mod 7) (hebrewParts y) (hebrewLeapYear y) (hebrewLeapYear (y - 1))"
  by (simp add: hebrewElapsed_delay hebrewDay_def hebrewParts_def)

text \<open>
  The length of a year by cases: the weekday of the molad, how far into the day it falls, and the
  leap years around. Seven weekdays, each a linear problem in the parts.
\<close>

lemma weekday_cases:
  fixes w :: int
  assumes "0 \<le> w" "w < 7"
  obtains "w = 0" | "w = 1" | "w = 2" | "w = 3" | "w = 4" | "w = 5" | "w = 6"
proof -
  have "w \<in> set [0..6]" using assms by simp
  then show ?thesis using that by (simp add: upto.simps) blast
qed

lemma hebrewDelay_table:
  "hebrewDelay 0 p l lb = 1"
  "hebrewDelay 1 p l lb = (if 19440 \<le> p \<or> 16789 \<le> p \<and> lb then 1 else 0)"
  "hebrewDelay 2 p l lb = (if 19440 \<le> p \<or> 9924 \<le> p \<and> \<not> l then 2 else 0)"
  "hebrewDelay 3 p l lb = 1"
  "hebrewDelay 4 p l lb = (if 19440 \<le> p then 2 else 0)"
  "hebrewDelay 5 p l lb = 1"
  "hebrewDelay 6 p l lb = (if 19440 \<le> p then 2 else 0)"
  by (simp_all add: hebrewDelay_def)

lemma hebrew_common_length:
  assumes "0 \<le> p" "p < 25920" "0 \<le> w" "w < 7"
  shows "p + 9516 < 25920 \<Longrightarrow>
      354 + hebrewDelay ((w + 354) mod 7) (p + 9516) l False - hebrewDelay w p False lb \<in> {353, 354, 355}"
    and "25920 \<le> p + 9516 \<Longrightarrow>
      355 + hebrewDelay ((w + 355) mod 7) (p + 9516 - 25920) l False - hebrewDelay w p False lb \<in> {353, 354, 355}"
  using assms(3,4)
  by (cases w rule: weekday_cases; use assms(1,2) in \<open>auto simp: hebrewDelay_table\<close>)+

lemma hebrew_leap_length:
  assumes "0 \<le> p" "p < 25920" "0 \<le> w" "w < 7"
  shows "p + 23269 < 25920 \<Longrightarrow>
      383 + hebrewDelay ((w + 383) mod 7) (p + 23269) False True - hebrewDelay w p True False \<in> {383, 384, 385}"
    and "25920 \<le> p + 23269 \<Longrightarrow>
      384 + hebrewDelay ((w + 384) mod 7) (p + 23269 - 25920) False True - hebrewDelay w p True False \<in> {383, 384, 385}"
  using assms(3,4)
  by (cases w rule: weekday_cases; use assms(1,2) in \<open>auto simp: hebrewDelay_table\<close>)+

lemma hebrew_weekday_shift: "(hebrewDay y + k + 1) mod 7 = ((hebrewDay y + 1) mod 7 + k) mod 7"
  by (simp add: mod_simps ac_simps)

lemma hebrewElapsed_step:
  "hebrewElapsedDays (y + 1) - hebrewElapsedDays y \<in>
    (if hebrewLeapYear y then {383, 384, 385} else {353, 354, 355})"
proof -
  define w p where "w = (hebrewDay y + 1) mod 7" and "p = hebrewParts y"
  have w: "0 \<le> w" "w < 7" and p: "0 \<le> p" "p < 25920"
    by (simp_all add: w_def p_def hebrewParts_def)
  have s: "(hebrewDay y + k + 1) mod 7 = (w + k) mod 7" for k
    unfolding w_def by (rule hebrew_weekday_shift)
  show ?thesis
  proof (cases "hebrewLeapYear y")
    case True
    then have g: "\<not> hebrewLeapYear (y + 1)" "\<not> hebrewLeapYear (y - 1)" using hebrew_leap_gap by auto
    have E: "hebrewElapsedDays y = hebrewDay y + hebrewDelay w p True False"
      using True g by (simp add: hebrewElapsed_eq w_def p_def)
    from hebrew_molad_step [of y] show ?thesis
    proof (elim disjE conjE)
      assume a: "hebrewParts y + (if hebrewLeapYear y then 23269 else 9516) < 25920"
        "hebrewDay (y + 1) = hebrewDay y + (if hebrewLeapYear y then 383 else 354)"
        "hebrewParts (y + 1) = hebrewParts y + (if hebrewLeapYear y then 23269 else 9516)"
      have "hebrewElapsedDays (y + 1) = hebrewDay y + 383 + hebrewDelay ((w + 383) mod 7) (p + 23269) False True"
        using a True g s [of 383] by (simp add: hebrewElapsed_eq p_def)
      with E hebrew_leap_length(1) [OF p w] a(1) True show ?thesis by (auto simp: p_def)
    next
      assume a: "25920 \<le> hebrewParts y + (if hebrewLeapYear y then 23269 else 9516)"
        "hebrewDay (y + 1) = hebrewDay y + (if hebrewLeapYear y then 383 else 354) + 1"
        "hebrewParts (y + 1) = hebrewParts y + (if hebrewLeapYear y then 23269 else 9516) - 25920"
      have "hebrewElapsedDays (y + 1) =
          hebrewDay y + 384 + hebrewDelay ((w + 384) mod 7) (p + 23269 - 25920) False True"
        using a True g s [of 384] by (simp add: hebrewElapsed_eq p_def)
      with E hebrew_leap_length(2) [OF p w] a(1) True show ?thesis by (auto simp: p_def)
    qed
  next
    case False
    have E: "hebrewElapsedDays y = hebrewDay y + hebrewDelay w p False (hebrewLeapYear (y - 1))"
      using False by (simp add: hebrewElapsed_eq w_def p_def)
    from hebrew_molad_step [of y] show ?thesis
    proof (elim disjE conjE)
      assume a: "hebrewParts y + (if hebrewLeapYear y then 23269 else 9516) < 25920"
        "hebrewDay (y + 1) = hebrewDay y + (if hebrewLeapYear y then 383 else 354)"
        "hebrewParts (y + 1) = hebrewParts y + (if hebrewLeapYear y then 23269 else 9516)"
      have "hebrewElapsedDays (y + 1) =
          hebrewDay y + 354 + hebrewDelay ((w + 354) mod 7) (p + 9516) (hebrewLeapYear (y + 1)) False"
        using a False s [of 354] by (simp add: hebrewElapsed_eq p_def)
      with E hebrew_common_length(1) [OF p w, of "hebrewLeapYear (y + 1)" "hebrewLeapYear (y - 1)"] a(1) False
      show ?thesis by (auto simp: p_def)
    next
      assume a: "25920 \<le> hebrewParts y + (if hebrewLeapYear y then 23269 else 9516)"
        "hebrewDay (y + 1) = hebrewDay y + (if hebrewLeapYear y then 383 else 354) + 1"
        "hebrewParts (y + 1) = hebrewParts y + (if hebrewLeapYear y then 23269 else 9516) - 25920"
      have "hebrewElapsedDays (y + 1) =
          hebrewDay y + 355 + hebrewDelay ((w + 355) mod 7) (p + 9516 - 25920) (hebrewLeapYear (y + 1)) False"
        using a False s [of 355] by (simp add: hebrewElapsed_eq p_def)
      with E hebrew_common_length(2) [OF p w, of "hebrewLeapYear (y + 1)" "hebrewLeapYear (y - 1)"] a(1) False
      show ?thesis by (auto simp: p_def)
    qed
  qed
qed

text \<open>The two year lengths that the correction looks for do not occur.\<close>

lemma hebrewYearCorrection_0: "hebrewYearCorrection y = 0"
  using hebrewElapsed_step [of y] hebrewElapsed_step [of "y - 1"]
  by (auto simp: hebrewYearCorrection_def Let_def split: if_splits)

lemma hebrewNewYear_eq: "hebrewNewYear y = hebrewEpoch + hebrewElapsedDays y"
  by (simp add: hebrewNewYear_def hebrewYearCorrection_0)

lemma hebrewDaysInYear_cases:
  "hebrewDaysInYear y \<in> (if hebrewLeapYear y then {383, 384, 385} else {353, 354, 355})"
  using hebrewElapsed_step [of y] by (simp add: hebrewDaysInYear_def hebrewNewYear_eq)

lemma hebrewNewYear_less: "hebrewNewYear y < hebrewNewYear (y + 1)"
  using hebrewDaysInYear_cases [of y] by (auto simp: hebrewDaysInYear_def split: if_splits)

section \<open>The loops of \<open>dateFromDay\<close>\<close>

function hebrewUp :: "int \<Rightarrow> int \<Rightarrow> int" where
  "hebrewUp day y = (if hebrewNewYear (y + 1) \<le> day then hebrewUp day (y + 1) else y)"
  by pat_completeness auto
termination
proof (relation "measure (\<lambda>(day, y). nat (day - hebrewNewYear y))")
  fix day y :: int
  assume "hebrewNewYear (y + 1) \<le> day"
  with hebrewNewYear_less [of y]
  show "((day, y + 1), day, y) \<in> measure (\<lambda>(day, y). nat (day - hebrewNewYear y))" by simp
qed simp

function hebrewDown :: "int \<Rightarrow> int \<Rightarrow> int" where
  "hebrewDown day y = (if day < hebrewNewYear y then hebrewDown day (y - 1) else y)"
  by pat_completeness auto
termination
proof (relation "measure (\<lambda>(day, y). nat (hebrewNewYear y - day))")
  fix day y :: int
  assume "day < hebrewNewYear y"
  with hebrewNewYear_less [of "y - 1"]
  show "((day, y - 1), day, y) \<in> measure (\<lambda>(day, y). nat (hebrewNewYear y - day))" by simp
qed simp

lemma hebrewDaysInMonth_pos: "29 \<le> hebrewDaysInMonth y m" "hebrewDaysInMonth y m \<le> 30"
  by (auto simp: hebrewDaysInMonth_def Let_def)

function hebrewWalk :: "int \<Rightarrow> int \<Rightarrow> int \<Rightarrow> int \<times> int" where
  "hebrewWalk y m rest =
     (if hebrewDaysInMonth y m \<le> rest then hebrewWalk y (m + 1) (rest - hebrewDaysInMonth y m)
      else (m, rest))"
  by pat_completeness auto
termination
proof (relation "measure (\<lambda>(y, m, rest). nat rest)")
  fix y m rest :: int
  assume "hebrewDaysInMonth y m \<le> rest"
  with hebrewDaysInMonth_pos [of y m]
  show "((y, m + 1, rest - hebrewDaysInMonth y m), y, m, rest) \<in> measure (\<lambda>(y, m, rest). nat rest)"
    by simp
qed simp

declare hebrewUp.simps [simp del] hebrewDown.simps [simp del] hebrewWalk.simps [simp del]

definition hebrewDateFromDay :: "int \<Rightarrow> calendarDate" where
  "hebrewDateFromDay day =
     (let y0 = 1 + floorDiv (day - hebrewEpoch) 366;
          y = hebrewDown day (hebrewUp day y0);
          (m, rest) = hebrewWalk y 1 (day - hebrewNewYear y)
      in \<lparr>cdEra = ''am'', cdEraYear = y, cdYear = y, cdMonth = m, cdDay = rest + 1,
          cdCode = hebrewMonthCode y m\<rparr>)"

definition hebrewCalendar :: calendar where
  "hebrewCalendar =
     \<lparr>dateFromDay = hebrewDateFromDay,
      dayFromDate = hebrewDayFromDate,
      monthsInYear = hebrewMonthsInYear,
      daysInMonth = hebrewDaysInMonth,
      daysInYear = hebrewDaysInYear,
      inLeapYear = hebrewLeapYear,
      monthCode = hebrewMonthCode,
      monthFromCode = hebrewMonthFromCode,
      eraOf = (\<lambda>y. (''am'', y)),
      yearFromEra = (\<lambda>era eraYear. if era = ''am'' then Some eraYear else None),
      eras = [''am'']\<rparr>"

lemma hebrewCalendar_simps [simp]:
  "dateFromDay hebrewCalendar = hebrewDateFromDay"
  "dayFromDate hebrewCalendar = hebrewDayFromDate"
  "monthsInYear hebrewCalendar = hebrewMonthsInYear"
  "daysInMonth hebrewCalendar = hebrewDaysInMonth"
  "daysInYear hebrewCalendar = hebrewDaysInYear"
  "inLeapYear hebrewCalendar = hebrewLeapYear"
  "monthCode hebrewCalendar = hebrewMonthCode"
  "monthFromCode hebrewCalendar = hebrewMonthFromCode"
  "eraOf hebrewCalendar y = (''am'', y)"
  "yearFromEra hebrewCalendar era ey = (if era = ''am'' then Some ey else None)"
  "eras hebrewCalendar = [''am'']"
  by (simp_all add: hebrewCalendar_def)

section \<open>The laws\<close>

lemma hebrewUp_less: "day < hebrewNewYear (hebrewUp day y + 1)"
proof (induction day y rule: hebrewUp.induct)
  case (1 day y)
  then show ?case by (cases "hebrewNewYear (y + 1) \<le> day") (simp_all add: hebrewUp.simps [of day y])
qed

lemma hebrewDown_bounds:
  "day < hebrewNewYear (y + 1) \<Longrightarrow>
    hebrewNewYear (hebrewDown day y) \<le> day \<and> day < hebrewNewYear (hebrewDown day y + 1)"
proof (induction day y rule: hebrewDown.induct)
  case (1 day y)
  then show ?case by (cases "day < hebrewNewYear y") (simp_all add: hebrewDown.simps [of day y])
qed

text \<open>The months of a year add up to it.\<close>

lemma hebrewDaysInMonth_table:
  "hebrewDaysInMonth y 1 = 30"
  "hebrewDaysInMonth y 2 = (if hebrewDaysInYear y smod 10 = 5 then 30 else 29)"
  "hebrewDaysInMonth y 3 = (if hebrewDaysInYear y smod 10 = 3 then 29 else 30)"
  "hebrewDaysInMonth y 4 = 29" "hebrewDaysInMonth y 5 = 30"
  "hebrewDaysInMonth y 6 = (if hebrewLeapYear y then 30 else 29)"
  "hebrewDaysInMonth y 7 = (if hebrewLeapYear y then 29 else 30)"
  "hebrewDaysInMonth y 8 = (if hebrewLeapYear y then 30 else 29)"
  "hebrewDaysInMonth y 9 = (if hebrewLeapYear y then 29 else 30)"
  "hebrewDaysInMonth y 10 = (if hebrewLeapYear y then 30 else 29)"
  "hebrewDaysInMonth y 11 = (if hebrewLeapYear y then 29 else 30)"
  "hebrewDaysInMonth y 12 = (if hebrewLeapYear y then 30 else 29)"
  "hebrewLeapYear y \<Longrightarrow> hebrewDaysInMonth y 13 = 29"
  by (simp_all add: hebrewDaysInMonth_def Let_def)

lemma sumMonths_13: "sumMonths len 1 13 0 =
    len 1 + len 2 + len 3 + len 4 + len 5 + len 6 + len 7 + len 8 + len 9 + len 10 + len 11 + len 12"
  and sumMonths_14: "sumMonths len 1 14 0 =
    len 1 + len 2 + len 3 + len 4 + len 5 + len 6 + len 7 + len 8 + len 9 + len 10 + len 11 + len 12 + len 13"
  by (simp_all add: sumMonths.simps)

lemma hebrew_month_sum:
  "sumMonths (hebrewDaysInMonth y) 1 (hebrewMonthsInYear y + 1) 0 = hebrewDaysInYear y"
proof (cases "hebrewLeapYear y")
  case True
  then have "hebrewDaysInYear y \<in> {383, 384, 385}" using hebrewDaysInYear_cases [of y] by simp
  then show ?thesis
    using True by (auto simp: hebrewMonthsInYear_def sumMonths_14 hebrewDaysInMonth_table)
next
  case False
  then have "hebrewDaysInYear y \<in> {353, 354, 355}" using hebrewDaysInYear_cases [of y] by simp
  then show ?thesis
    using False by (auto simp: hebrewMonthsInYear_def sumMonths_13 hebrewDaysInMonth_table)
qed

lemma hebrew_day: "hebrewDayFromDate y m d = hebrewDayFromDate y m 1 + d - 1"
  by (simp add: hebrewDayFromDate_def)

lemma hebrew_month_step:
  "1 \<le> m \<Longrightarrow> hebrewDayFromDate y (m + 1) 1 = hebrewDayFromDate y m 1 + hebrewDaysInMonth y m"
  by (simp add: hebrewDayFromDate_def sumMonths_step)

lemma hebrew_day_sum:
  "hebrewDayFromDate y m d = hebrewNewYear y + sumMonths (hebrewDaysInMonth y) 1 m 0 + d - 1"
  using sumMonths_add [of "hebrewDaysInMonth y" 1 m 0 "hebrewNewYear y"] by (simp add: hebrewDayFromDate_def)

lemma hebrewWalk_spec:
  assumes "hebrewWalk y m rest = (m', rest')" "0 \<le> rest" "1 \<le> m"
  shows "m \<le> m' \<and> 0 \<le> rest' \<and> rest' < hebrewDaysInMonth y m' \<and>
    sumMonths (hebrewDaysInMonth y) 1 m' 0 + rest' = sumMonths (hebrewDaysInMonth y) 1 m 0 + rest"
  using assms
proof (induction y m rest rule: hebrewWalk.induct)
  case (1 y m rest)
  show ?case
  proof (cases "hebrewDaysInMonth y m \<le> rest")
    case True
    with "1.prems"(1) have w: "hebrewWalk y (m + 1) (rest - hebrewDaysInMonth y m) = (m', rest')"
      by (subst (asm) hebrewWalk.simps) simp
    have "m + 1 \<le> m' \<and> 0 \<le> rest' \<and> rest' < hebrewDaysInMonth y m' \<and>
        sumMonths (hebrewDaysInMonth y) 1 m' 0 + rest' =
        sumMonths (hebrewDaysInMonth y) 1 (m + 1) 0 + (rest - hebrewDaysInMonth y m)"
      using "1.IH" [OF True w] True "1.prems"(3) by simp
    then show ?thesis
      using sumMonths_step [of 1 m "hebrewDaysInMonth y" 0] "1.prems"(3) by auto
  next
    case False
    with "1.prems"(1) have "m' = m" "rest' = rest"
      by (subst (asm) hebrewWalk.simps; auto)+
    with False "1.prems" show ?thesis by auto
  qed
qed

lemma hebrew_names: "cal_names hebrewCalendar day (hebrewDateFromDay day)"
proof -
  define y where "y = hebrewDown day (hebrewUp day (1 + floorDiv (day - hebrewEpoch) 366))"
  have b: "hebrewNewYear y \<le> day" "day < hebrewNewYear (y + 1)"
    unfolding y_def using hebrewDown_bounds [OF hebrewUp_less] by auto
  obtain m rest where w: "hebrewWalk y 1 (day - hebrewNewYear y) = (m, rest)"
    by (cases "hebrewWalk y 1 (day - hebrewNewYear y)")
  have s: "1 \<le> m" "0 \<le> rest" "rest < hebrewDaysInMonth y m"
    "sumMonths (hebrewDaysInMonth y) 1 m 0 + rest = day - hebrewNewYear y"
    using hebrewWalk_spec [OF w] b by auto
  have "m \<le> hebrewMonthsInYear y"
  proof (rule ccontr)
    assume a: "\<not> m \<le> hebrewMonthsInYear y"
    have "1 \<le> hebrewMonthsInYear y + 1" by (simp add: hebrewMonthsInYear_def)
    with a hebrewDaysInMonth_pos(1) [of y]
    have "sumMonths (hebrewDaysInMonth y) 1 (hebrewMonthsInYear y + 1) 0 \<le> sumMonths (hebrewDaysInMonth y) 1 m 0"
      by (intro sumMonths_mono) (auto intro: order_trans [of 0 29])
    then show False using s b hebrew_month_sum [of y] by (simp add: hebrewDaysInYear_def)
  qed
  moreover have "hebrewDateFromDay day = \<lparr>cdEra = ''am'', cdEraYear = y, cdYear = y, cdMonth = m,
      cdDay = rest + 1, cdCode = hebrewMonthCode y m\<rparr>"
    unfolding hebrewDateFromDay_def Let_def y_def [symmetric] w by simp
  ultimately show ?thesis
    using s hebrew_day_sum [of y m "rest + 1"] by (simp add: cal_names_def cal_valid_def)
qed

lemma hebrew_code_back:
  assumes "1 \<le> m" "m \<le> hebrewMonthsInYear y" "- (2 ^ 63) \<le> y" "y < 2 ^ 63"
  shows "hebrewMonthFromCode (itoa y) (hebrewMonthCode y m) = Some m"
proof -
  have a: "atoi (itoa y) = Some y" using assms by (intro atoi_itoa)
  have "parseMonthCode ''M05L'' = Some (5, True)" by code_simp
  then show ?thesis
    using assms(1,2) month_code_back(1) [of m] month_code_back(1) [of "m - 1"]
    by (auto simp: hebrewMonthFromCode_def a hebrewMonthCode_def hebrewMonthsInYear_def split: if_splits)
qed

interpretation hebrew: calendar_eras hebrewCalendar
proof unfold_locales
  fix y m d day :: int and e ey
  show "1 \<le> monthsInYear hebrewCalendar y" by (simp add: hebrewMonthsInYear_def)
  show "1 \<le> m \<Longrightarrow> m \<le> monthsInYear hebrewCalendar y \<Longrightarrow> 1 \<le> daysInMonth hebrewCalendar y m"
    using hebrewDaysInMonth_pos(1) [of y m] by simp
  show "dayFromDate hebrewCalendar y m d = dayFromDate hebrewCalendar y m 1 + d - 1"
    using hebrew_day [of y m d] by simp
  have m: "0 < hebrewMonthsInYear y" by (simp add: hebrewMonthsInYear_def)
  show "dayFromDate hebrewCalendar (y + 1) 1 1 =
      dayFromDate hebrewCalendar y (monthsInYear hebrewCalendar y) 1 +
      daysInMonth hebrewCalendar y (monthsInYear hebrewCalendar y)"
    using m hebrew_month_step [of "hebrewMonthsInYear y" y] hebrew_month_sum [of y]
      hebrew_day_sum [of y "hebrewMonthsInYear y + 1" 1] hebrew_day_sum [of "y + 1" 1 1]
    by (simp add: hebrewDaysInYear_def)
  show "daysInYear hebrewCalendar y = dayFromDate hebrewCalendar (y + 1) 1 1 - dayFromDate hebrewCalendar y 1 1"
    using hebrew_day_sum [of "y + 1" 1 1] hebrew_day_sum [of y 1 1] by (simp add: hebrewDaysInYear_def)
  show "yearFromEra hebrewCalendar (cdEra (dateFromDay hebrewCalendar day))
      (cdEraYear (dateFromDay hebrewCalendar day)) = Some (cdYear (dateFromDay hebrewCalendar day))"
    by (simp add: hebrewDateFromDay_def Let_def split: prod.splits)
qed (simp_all add: hebrew_month_step hebrew_names hebrew_code_back)

end
