(* ===== verification/Calendar_For.thy ===== *)
theory Calendar_For
  imports Calendars Calendars_Arith Calendars_Islamic Calendar_Umalqura Calendar_Hebrew
begin

text \<open>
  \<open>calendarFor\<close> of \<open>internal/engine/calendar.go\<close>: the calendar of an identifier. The two lunisolar
  calendars (\<open>calendar_lunisolar.go\<close>) compute the moon in floating point and are not modelled; they are
  the parameter \<open>lunisolar\<close>, a function of the zone and the identifier. Every other identifier
  names a calendar that keeps the laws of \<open>calendar_codes\<close>.
\<close>

definition calendarFor :: "(string \<Rightarrow> string \<Rightarrow> calendar) \<Rightarrow> string \<Rightarrow> calendar" where
  "calendarFor lunisolar ident =
     (if ident = ''iso8601'' then gregorianCalendar True
      else if ident = ''gregory'' then gregorianCalendar False
      else if ident = ''buddhist'' then offsetCalendar 543 ''be'' ''''
      else if ident = ''roc'' then offsetCalendar (- 1911) ''roc'' ''broc''
      else if ident = ''japanese'' then japaneseCalendar
      else if ident = ''coptic'' then copticCalendar copticEpoch ''am'' 0
      else if ident = ''ethiopic'' then ethiopicCalendar
      else if ident = ''ethioaa'' then copticCalendar ethiopicEpoch ''aa'' 5500
      else if ident = ''indian'' then indianCalendar
      else if ident = ''persian'' then persianCalendar
      else if ident = ''islamic-civil'' then islamicCalendar islamicCivilEpoch ''islamic-civil''
      else if ident = ''islamic-tbla'' then islamicCalendar (islamicCivilEpoch - 1) ''islamic-tbla''
      else if ident = ''islamic-umalqura'' then umalquraCalendar
      else if ident = ''hebrew'' then hebrewCalendar
      else if ident = ''chinese'' then lunisolar ''Asia/Shanghai'' ''chinese''
      else if ident = ''dangi'' then lunisolar ''Asia/Seoul'' ''dangi''
      else gregorianCalendar False)"

definition lunisolar_ident :: "string \<Rightarrow> bool" where
  "lunisolar_ident ident \<longleftrightarrow> ident = ''chinese'' \<or> ident = ''dangi''"

lemma calendarFor_codes:
  assumes "\<not> lunisolar_ident ident"
  shows "calendar_codes (calendarFor l ident)"
proof -
  have n: "ident \<noteq> ''chinese''" "ident \<noteq> ''dangi''" using assms by (auto simp: lunisolar_ident_def)
  show ?thesis
    unfolding calendarFor_def if_not_P [OF n(1)] if_not_P [OF n(2)]
    by (simp only: if_split greg.calendar_codes_axioms offset.calendar_codes_axioms
        japanese.calendar_codes_axioms coptic.calendar_codes_axioms ethiopic.calendar_codes_axioms
        indian.calendar_codes_axioms persian.calendar_codes_axioms islamic.calendar_codes_axioms
        umalqura.calendar_codes_axioms hebrew.calendar_codes_axioms simp_thms)
qed

lemma calendarFor_laws:
  assumes "\<not> lunisolar_ident ident"
  shows "calendar_laws (calendarFor l ident)"
  using calendarFor_codes [OF assms] by (simp only: calendar_codes_def)

lemma calendarFor_eras:
  assumes "\<not> lunisolar_ident ident" "ident \<noteq> ''iso8601''"
  shows "calendar_eras (calendarFor l ident)"
proof -
  have n: "ident \<noteq> ''chinese''" "ident \<noteq> ''dangi''" using assms by (auto simp: lunisolar_ident_def)
  show ?thesis
    unfolding calendarFor_def if_not_P [OF n(1)] if_not_P [OF n(2)] if_not_P [OF assms(2)]
    by (simp only: if_split greg_eras.calendar_eras_axioms buddhist.calendar_eras_axioms
        roc.calendar_eras_axioms japanese.calendar_eras_axioms coptic.calendar_eras_axioms
        ethiopic.calendar_eras_axioms indian.calendar_eras_axioms persian.calendar_eras_axioms
        islamic.calendar_eras_axioms umalqura.calendar_eras_axioms hebrew.calendar_eras_axioms simp_thms)
qed

end
