(* ===== verification/Temporal_ISO.thy ===== *)
theory Temporal_ISO
  imports Calendars
begin

text \<open>
  The arithmetic underneath Temporal (\<open>internal/engine/temporal_iso.go\<close>): dates, times of day,
  their conversion to and from a count of nanoseconds, the limits of representable time, comparison,
  rounding to an increment, and the ISO 8601 text. \<open>big.Int\<close> is HOL's \<open>int\<close>; its \<open>DivMod\<close> is
  Euclidean, which for the positive divisors used here is \<open>div\<close> and \<open>mod\<close>.
\<close>

section \<open>Records and constants\<close>

record isoDateRec =
  year :: int
  month :: int
  day :: int

record isoTimeRec =
  hour :: int
  minute :: int
  second :: int
  ms :: int
  us :: int
  ns :: int

record isoDateTimeRec =
  dtDate :: isoDateRec
  dtTime :: isoTimeRec

definition nsPerMicro :: int where "nsPerMicro = 1000"
definition nsPerMilli :: int where "nsPerMilli = 1000 * nsPerMicro"
definition nsPerSecond :: int where "nsPerSecond = 1000 * nsPerMilli"
definition nsPerMinute :: int where "nsPerMinute = 60 * nsPerSecond"
definition nsPerHour :: int where "nsPerHour = 60 * nsPerMinute"
definition nsPerDay :: int where "nsPerDay = 24 * nsPerHour"
definition secsPerDay :: int where "secsPerDay = 24 * 60 * 60"
definition nsMaxInstant :: int where "nsMaxInstant = secsPerDay * 100000000 * nsPerSecond"
definition nsMinInstant :: int where "nsMinInstant = - nsMaxInstant"

lemmas ns_defs = nsPerMicro_def nsPerMilli_def nsPerSecond_def nsPerMinute_def nsPerHour_def nsPerDay_def
  secsPerDay_def nsMaxInstant_def nsMinInstant_def

section \<open>Days\<close>

definition mkISODate :: "int \<times> int \<times> int \<Rightarrow> isoDateRec" where
  "mkISODate ymd = (case ymd of (y, m, d) \<Rightarrow> \<lparr>year = y, month = m, day = d\<rparr>)"

definition isoDateToEpochDays :: "int \<Rightarrow> int \<Rightarrow> int \<Rightarrow> int" where
  "isoDateToEpochDays y m d = isoDay y m d"

definition epochDaysToISODate :: "int \<Rightarrow> isoDateRec" where
  "epochDaysToISODate dy = mkISODate (isoDate dy)"

definition epochDays :: "isoDateRec \<Rightarrow> int" where
  "epochDays d = isoDay (year d) (month d) (day d)"

definition balanceISOYearMonth :: "int \<Rightarrow> int \<Rightarrow> int \<times> int" where
  "balanceISOYearMonth y m = (y + floorDiv (m - 1) 12, floorMod (m - 1) 12 + 1)"

definition balanceISODate :: "int \<Rightarrow> int \<Rightarrow> int \<Rightarrow> isoDateRec" where
  "balanceISODate y m d =
     (case balanceISOYearMonth y m of (y', m') \<Rightarrow> epochDaysToISODate (isoDay y' m' d))"

section \<open>The time of day\<close>

definition nanosecond :: "isoTimeRec \<Rightarrow> int" where
  "nanosecond t = hour t * nsPerHour + minute t * nsPerMinute + second t * nsPerSecond +
     ms t * nsPerMilli + us t * nsPerMicro + ns t"

definition timeFromNanoseconds :: "int \<Rightarrow> isoTimeRec" where
  "timeFromNanoseconds n0 =
     (let f_ns = n0 smod 1000; n1 = n0 sdiv 1000;
          f_us = n1 smod 1000; n2 = n1 sdiv 1000;
          f_ms = n2 smod 1000; n3 = n2 sdiv 1000;
          f_s = n3 smod 60; n4 = n3 sdiv 60;
          f_mi = n4 smod 60; n5 = n4 sdiv 60
      in \<lparr>hour = n5, minute = f_mi, second = f_s, ms = f_ms, us = f_us, ns = f_ns\<rparr>)"

definition midnightTime :: isoTimeRec where
  "midnightTime = \<lparr>hour = 0, minute = 0, second = 0, ms = 0, us = 0, ns = 0\<rparr>"

definition noonTime :: isoTimeRec where
  "noonTime = midnightTime\<lparr>hour := 12\<rparr>"

definition balanceTime :: "int \<Rightarrow> int \<times> isoTimeRec" where
  "balanceTime n = (n div nsPerDay, timeFromNanoseconds (n mod nsPerDay))"

definition isValidTime :: "int \<Rightarrow> int \<Rightarrow> int \<Rightarrow> int \<Rightarrow> int \<Rightarrow> int \<Rightarrow> bool" where
  "isValidTime h mi s f_ms f_us f_ns \<longleftrightarrow>
     0 \<le> h \<and> h \<le> 23 \<and> 0 \<le> mi \<and> mi \<le> 59 \<and> 0 \<le> s \<and> s \<le> 59 \<and>
     0 \<le> f_ms \<and> f_ms \<le> 999 \<and> 0 \<le> f_us \<and> f_us \<le> 999 \<and> 0 \<le> f_ns \<and> f_ns \<le> 999"

definition clampInt :: "int \<Rightarrow> int \<Rightarrow> int \<Rightarrow> int" where
  "clampInt v lo hi = (if v < lo then lo else if hi < v then hi else v)"

definition constrainTime :: "int \<Rightarrow> int \<Rightarrow> int \<Rightarrow> int \<Rightarrow> int \<Rightarrow> int \<Rightarrow> isoTimeRec" where
  "constrainTime h mi s f_ms f_us f_ns =
     \<lparr>hour = clampInt h 0 23, minute = clampInt mi 0 59, second = clampInt s 0 59,
      ms = clampInt f_ms 0 999, us = clampInt f_us 0 999, ns = clampInt f_ns 0 999\<rparr>"

section \<open>Validity and limits\<close>

definition isValidISODate :: "int \<Rightarrow> int \<Rightarrow> int \<Rightarrow> bool" where
  "isValidISODate y m d = (if m < 1 \<or> 12 < m then False else 1 \<le> d \<and> d \<le> isoDaysInMonth y m)"

definition isoDateTimeToEpochNanoseconds :: "isoDateTimeRec \<Rightarrow> int \<Rightarrow> int" where
  "isoDateTimeToEpochNanoseconds dt offsetNs =
     epochDays (dtDate dt) * nsPerDay + nanosecond (dtTime dt) - offsetNs"

definition isoDateTimeWithinLimits :: "isoDateTimeRec \<Rightarrow> bool" where
  "isoDateTimeWithinLimits dt =
     (let days = epochDays (dtDate dt)
      in if 100000001 < days \<or> days < - 100000001 then False
         else let n = isoDateTimeToEpochNanoseconds dt 0;
                  lo = nsMinInstant - nsPerDay;
                  hi = nsMaxInstant + nsPerDay
              in lo < n \<and> n < hi)"

definition isoDateWithinLimits :: "isoDateRec \<Rightarrow> bool" where
  "isoDateWithinLimits d = isoDateTimeWithinLimits \<lparr>dtDate = d, dtTime = noonTime\<rparr>"

definition isoYearMonthWithinLimits :: "isoDateRec \<Rightarrow> bool" where
  "isoYearMonthWithinLimits d =
     (if year d < - 271821 \<or> 275760 < year d then False
      else if year d = - 271821 \<and> month d < 4 then False
      else if year d = 275760 \<and> 9 < month d then False
      else True)"

definition epochNsWithinLimits :: "int \<Rightarrow> bool" where
  "epochNsWithinLimits n \<longleftrightarrow> nsMinInstant \<le> n \<and> n \<le> nsMaxInstant"

definition getISODateTimeFor :: "int \<Rightarrow> int \<Rightarrow> isoDateTimeRec" where
  "getISODateTimeFor offsetNs epochNs =
     (case balanceTime (epochNs + offsetNs) of
        (days, t) \<Rightarrow> \<lparr>dtDate = epochDaysToISODate days, dtTime = t\<rparr>)"

section \<open>Comparison\<close>

definition sign64 :: "int \<Rightarrow> int" where
  "sign64 i = (if i < 0 then - 1 else if 0 < i then 1 else 0)"

definition compareISODate :: "isoDateRec \<Rightarrow> isoDateRec \<Rightarrow> int" where
  "compareISODate a b =
     (if year a \<noteq> year b then sign64 (year a - year b)
      else if month a \<noteq> month b then sign64 (month a - month b)
      else sign64 (day a - day b))"

definition compareTimeRec :: "isoTimeRec \<Rightarrow> isoTimeRec \<Rightarrow> int" where
  "compareTimeRec a b = sign64 (nanosecond a - nanosecond b)"

definition compareISODateTime :: "isoDateTimeRec \<Rightarrow> isoDateTimeRec \<Rightarrow> int" where
  "compareISODateTime a b =
     (let c = compareISODate (dtDate a) (dtDate b)
      in if c \<noteq> 0 then c else compareTimeRec (dtTime a) (dtTime b))"

section \<open>Rounding a quantity\<close>

definition roundNumberToIncrement :: "int \<Rightarrow> int \<Rightarrow> string \<Rightarrow> int" where
  "roundNumberToIncrement x increment mode =
     (let q = x div increment; r = x mod increment
      in if r = 0 then x
         else let r1 = q * increment;
                  r2 = r1 + increment;
                  positive = 0 < x;
                  up = (if mode = ''ceil'' then True
                        else if mode = ''floor'' then False
                        else if mode = ''expand'' then positive
                        else if mode = ''trunc'' then \<not> positive
                        else let twice = 2 * r
                             in if twice < increment then False
                                else if increment < twice then True
                                else if mode = ''halfCeil'' then True
                                else if mode = ''halfFloor'' then False
                                else if mode = ''halfExpand'' then positive
                                else if mode = ''halfTrunc'' then \<not> positive
                                else odd q)
              in if up then r2 else r1)"

section \<open>Writing them out\<close>

function zeroFill :: "int \<Rightarrow> string \<Rightarrow> string" where
  "zeroFill width s = (if int (length s) < width then zeroFill width (CHR ''0'' # s) else s)"
  by pat_completeness auto
termination
  by (relation "measure (\<lambda>(width, s). nat (width - int (length s)))") auto

declare zeroFill.simps [simp del]

definition pad :: "int \<Rightarrow> int \<Rightarrow> string" where
  "pad n width =
     (let s = zeroFill width (if n < 0 then itoa (- n) else itoa n)
      in if n < 0 then CHR ''-'' # s else s)"

definition formatISOYear :: "int \<Rightarrow> string" where
  "formatISOYear y =
     (if 0 \<le> y \<and> y \<le> 9999 then pad y 4
      else if y < 0 then CHR ''-'' # pad (- y) 6 else CHR ''+'' # pad y 6)"

definition formatISODate :: "isoDateRec \<Rightarrow> string" where
  "formatISODate d = formatISOYear (year d) @ ''-'' @ pad (month d) 2 @ ''-'' @ pad (day d) 2"

definition trimRight0 :: "string \<Rightarrow> string" where
  "trimRight0 s = rev (dropWhile (\<lambda>c. c = CHR ''0'') (rev s))"

definition formatFractionalSeconds :: "int \<Rightarrow> int \<Rightarrow> int \<Rightarrow> int \<Rightarrow> string" where
  "formatFractionalSeconds f_ms f_us f_ns precision =
     (if precision = 0 then ''''
      else let frac = pad f_ms 3 @ pad f_us 3 @ pad f_ns 3
           in if precision < 0
              then let frac' = trimRight0 frac
                   in if frac' = '''' then '''' else CHR ''.'' # frac'
              else CHR ''.'' # take (nat precision) frac)"

definition formatTimeString :: "isoTimeRec \<Rightarrow> int \<Rightarrow> string" where
  "formatTimeString t precision =
     (let s = pad (hour t) 2 @ '':'' @ pad (minute t) 2
      in if precision = - 2 then s
         else s @ '':'' @ pad (second t) 2 @ formatFractionalSeconds (ms t) (us t) (ns t) precision)"

definition formatISODateTime :: "isoDateTimeRec \<Rightarrow> int \<Rightarrow> string" where
  "formatISODateTime dt precision =
     formatISODate (dtDate dt) @ ''T'' @ formatTimeString (dtTime dt) precision"

definition formatOffsetNanoseconds :: "int \<Rightarrow> string" where
  "formatOffsetNanoseconds offsetNs0 =
     (let sign = (if offsetNs0 < 0 then ''-'' else ''+'');
          offsetNs = (if offsetNs0 < 0 then - offsetNs0 else offsetNs0);
          h = offsetNs sdiv nsPerHour;
          m = (offsetNs sdiv nsPerMinute) smod 60;
          s = (offsetNs sdiv nsPerSecond) smod 60;
          sub = offsetNs smod nsPerSecond;
          out = sign @ pad h 2 @ '':'' @ pad m 2
      in if s \<noteq> 0 \<or> sub \<noteq> 0
         then out @ '':'' @ pad s 2 @
           (if sub \<noteq> 0
            then formatFractionalSeconds (sub sdiv nsPerMilli) ((sub sdiv nsPerMicro) smod 1000)
                   (sub smod 1000) (- 1)
            else '''')
         else out)"

definition formatOffsetNanosecondsRounded :: "int \<Rightarrow> string" where
  "formatOffsetNanosecondsRounded offsetNs =
     formatOffsetNanoseconds (roundNumberToIncrement offsetNs nsPerMinute ''halfExpand'')"

section \<open>Time of day and days\<close>

text \<open>A time whose fields are in range, and a date that exists.\<close>

definition valid_time :: "isoTimeRec \<Rightarrow> bool" where
  "valid_time t \<longleftrightarrow> isValidTime (hour t) (minute t) (second t) (ms t) (us t) (ns t)"

definition valid_date :: "isoDateRec \<Rightarrow> bool" where
  "valid_date d \<longleftrightarrow> isValidISODate (year d) (month d) (day d)"

lemma nanosecond_linear: "nanosecond t = 3600000000000 * hour t + 60000000000 * minute t +
    1000000000 * second t + 1000000 * ms t + 1000 * us t + ns t"
  by (simp add: nanosecond_def ns_defs)

lemma timeFromNanoseconds_nanosecond:
  assumes "0 \<le> n" "n < nsPerDay"
  shows "nanosecond (timeFromNanoseconds n) = n" "valid_time (timeFromNanoseconds n)"
proof -
  define a b c d e where "a = n div 1000" and "b = a div 1000" and "c = b div 1000"
    and "d = c div 60" and "e = d div 60"
  have l: "n = 1000 * a + n mod 1000" "a = 1000 * b + a mod 1000" "b = 1000 * c + b mod 1000"
    "c = 60 * d + c mod 60" "d = 60 * e + d mod 60"
    by (simp_all add: a_def b_def c_def d_def e_def)
  have p: "0 \<le> a" "0 \<le> b" "0 \<le> c" "0 \<le> d" "0 \<le> e"
    using assms by (simp_all add: a_def b_def c_def d_def e_def pos_imp_zdiv_nonneg_iff)
  have e: "n sdiv 1000 = a" "n smod 1000 = n mod 1000" "a sdiv 1000 = b" "a smod 1000 = a mod 1000"
    "b sdiv 1000 = c" "b smod 1000 = b mod 1000" "c sdiv 60 = d" "c smod 60 = c mod 60"
    "d sdiv 60 = e" "d smod 60 = d mod 60"
    unfolding a_def [symmetric] b_def [symmetric]
    using assms p by (simp_all only: go_arith zero_less_numeral a_def b_def c_def d_def e_def)
  have t: "timeFromNanoseconds n = \<lparr>hour = e, minute = d mod 60, second = c mod 60, ms = b mod 1000,
      us = a mod 1000, ns = n mod 1000\<rparr>"
    unfolding timeFromNanoseconds_def Let_def e ..
  show "nanosecond (timeFromNanoseconds n) = n"
    unfolding t nanosecond_linear isoTimeRec.simps using l by linarith
  have "n = 3600000000000 * e + 60000000000 * (d mod 60) + 1000000000 * (c mod 60) +
      1000000 * (b mod 1000) + 1000 * (a mod 1000) + n mod 1000"
    using l by linarith
  moreover have "0 \<le> d mod 60" "0 \<le> c mod 60" "0 \<le> b mod 1000" "0 \<le> a mod 1000" "0 \<le> n mod 1000"
    by simp_all
  ultimately have "e \<le> 23" using assms(2) by (simp add: ns_defs)
  moreover have "d mod 60 < 60" "c mod 60 < 60" "b mod 1000 < 1000" "a mod 1000 < 1000" "n mod 1000 < 1000"
    by simp_all
  ultimately show "valid_time (timeFromNanoseconds n)"
    using p by (auto simp add: t valid_time_def isValidTime_def)
qed

lemma nanosecond_bounds: "valid_time t \<Longrightarrow> 0 \<le> nanosecond t" "valid_time t \<Longrightarrow> nanosecond t < nsPerDay"
  by (auto simp: valid_time_def isValidTime_def nanosecond_linear ns_defs)

lemma nanosecond_inject:
  assumes "valid_time t" "valid_time t'" "nanosecond t = nanosecond t'"
  shows "t = t'"
proof -
  have uniq: "a = b \<and> r = s" if "k * a + r = k * b + s" "0 \<le> r" "r < k" "0 \<le> s" "s < k" for a b r s k :: int
    using int_div_pos_eq [OF that(1) that(4,5)] that int_div_pos_eq [of "k * a + r" k a r] by auto
  define f where "f t = 60 * hour t + minute t" for t :: isoTimeRec
  define g where "g t = 60 * f t + second t" for t :: isoTimeRec
  define h where "h t = 1000 * g t + ms t" for t :: isoTimeRec
  define i where "i t = 1000 * h t + us t" for t :: isoTimeRec
  have n: "nanosecond t = 1000 * i t + ns t" for t :: isoTimeRec
    by (simp add: nanosecond_linear f_def g_def h_def i_def)
  note v = assms(1,2) [unfolded valid_time_def isValidTime_def]
  have "i t = i t' \<and> ns t = ns t'" by (rule uniq) (use v assms(3) n in auto)
  moreover from this have "h t = h t' \<and> us t = us t'" by (intro uniq) (use v i_def in auto)
  moreover from this have "g t = g t' \<and> ms t = ms t'" by (intro uniq) (use v h_def in auto)
  moreover from this have "f t = f t' \<and> second t = second t'" by (intro uniq) (use v g_def in auto)
  moreover from this have "hour t = hour t' \<and> minute t = minute t'" by (intro uniq) (use v f_def in auto)
  ultimately show ?thesis by simp
qed

lemma timeFromNanoseconds_of_nanosecond: "valid_time t \<Longrightarrow> timeFromNanoseconds (nanosecond t) = t"
  using nanosecond_inject timeFromNanoseconds_nanosecond nanosecond_bounds by blast

lemma nsPerDay_pos [simp]: "0 < nsPerDay" "0 \<le> nsPerDay" by (simp_all add: ns_defs)

lemma balanceTime_spec:
  assumes "balanceTime n = (days, t)"
  shows "days * nsPerDay + nanosecond t = n" "valid_time t"
  using assms timeFromNanoseconds_nanosecond [of "n mod nsPerDay"]
  by (auto simp: balanceTime_def)

lemma balanceTime_unique:
  assumes "valid_time t"
  shows "balanceTime (days * nsPerDay + nanosecond t) = (days, t)"
proof -
  have "(days * nsPerDay + nanosecond t) div nsPerDay = days"
    "(days * nsPerDay + nanosecond t) mod nsPerDay = nanosecond t"
    using nanosecond_bounds [OF assms]
    by (auto intro!: int_div_pos_eq int_mod_pos_eq simp: mult.commute)
  then show ?thesis using assms by (simp add: balanceTime_def timeFromNanoseconds_of_nanosecond)
qed

text \<open>Dates: the ISO calendar of the interface, read as records.\<close>

lemma valid_date_iff: "valid_date d \<longleftrightarrow> cal_valid (gregorianCalendar True) (year d) (month d) (day d)"
  by (auto simp: valid_date_def isValidISODate_def cal_valid_def)

lemma epochDaysToISODate_spec: "valid_date (epochDaysToISODate n)" "epochDays (epochDaysToISODate n) = n"
  using isoDate_fields [of n]
  by (cases "isoDate n"; auto simp: valid_date_def isValidISODate_def epochDaysToISODate_def mkISODate_def
      epochDays_def)+

lemma epochDays_inject: "valid_date a \<Longrightarrow> valid_date b \<Longrightarrow> epochDays a = epochDays b \<Longrightarrow> a = b"
  using greg.day_inject [of True "year a" "month a" "day a" "year b" "month b" "day b"]
  by (simp add: valid_date_iff epochDays_def)

lemma epochDaysToISODate_of_epochDays: "valid_date d \<Longrightarrow> epochDaysToISODate (epochDays d) = d"
  using epochDays_inject epochDaysToISODate_spec by blast

lemma isoDateTime_roundtrip:
  assumes "valid_date (dtDate dt)" "valid_time (dtTime dt)"
  shows "getISODateTimeFor off (isoDateTimeToEpochNanoseconds dt off) = dt"
  using assms balanceTime_unique [of "dtTime dt" "epochDays (dtDate dt)"]
  by (simp add: getISODateTimeFor_def isoDateTimeToEpochNanoseconds_def epochDaysToISODate_of_epochDays)

lemma instant_roundtrip:
  "isoDateTimeToEpochNanoseconds (getISODateTimeFor off n) off = n \<and>
   valid_date (dtDate (getISODateTimeFor off n)) \<and> valid_time (dtTime (getISODateTimeFor off n))"
proof (cases "balanceTime (n + off)")
  case (Pair days t)
  then show ?thesis
    using balanceTime_spec [OF Pair]
    by (simp add: getISODateTimeFor_def isoDateTimeToEpochNanoseconds_def epochDaysToISODate_spec)
qed

section \<open>Comparison agrees with the order of time\<close>

lemma sign64_sgn: "sign64 i = sgn i"
  by (simp add: sign64_def sgn_if)

lemma compareISODate_epochDays:
  assumes "valid_date a" "valid_date b"
  shows "compareISODate a b = sgn (epochDays a - epochDays b)"
proof -
  have lt: "epochDays a < epochDays b \<longleftrightarrow> ymd_less (year a, month a, day a) (year b, month b, day b)"
    "epochDays b < epochDays a \<longleftrightarrow> ymd_less (year b, month b, day b) (year a, month a, day a)"
    using greg.day_order [of True] assms by (simp_all add: valid_date_iff epochDays_def)
  consider "a = b" | "epochDays a < epochDays b" | "epochDays b < epochDays a"
    using epochDays_inject [OF assms] by linarith
  then show ?thesis
  proof cases
    case 1
    then show ?thesis by (simp add: compareISODate_def sign64_sgn)
  next
    case 2
    then have "compareISODate a b = - 1" using lt(1) by (auto simp: ymd_less_def compareISODate_def sign64_def)
    with 2 show ?thesis by simp
  next
    case 3
    then have "compareISODate a b = 1" using lt(2) by (auto simp: ymd_less_def compareISODate_def sign64_def)
    with 3 show ?thesis by simp
  qed
qed

lemma compareISODateTime_epochNs:
  assumes "valid_date (dtDate a)" "valid_time (dtTime a)" "valid_date (dtDate b)" "valid_time (dtTime b)"
  shows "compareISODateTime a b =
    sgn (isoDateTimeToEpochNanoseconds a 0 - isoDateTimeToEpochNanoseconds b 0)"
proof -
  have n: "0 \<le> nanosecond (dtTime a)" "nanosecond (dtTime a) < nsPerDay"
    "0 \<le> nanosecond (dtTime b)" "nanosecond (dtTime b) < nsPerDay"
    using assms nanosecond_bounds by auto
  define k where "k = epochDays (dtDate a) - epochDays (dtDate b)"
  define j where "j = nanosecond (dtTime a) - nanosecond (dtTime b)"
  have d: "isoDateTimeToEpochNanoseconds a 0 - isoDateTimeToEpochNanoseconds b 0 = k * nsPerDay + j"
    by (simp add: isoDateTimeToEpochNanoseconds_def k_def j_def algebra_simps)
  have c: "compareISODate (dtDate a) (dtDate b) = sgn k"
    using compareISODate_epochDays assms by (simp add: k_def)
  have "sgn (k * nsPerDay + j) = (if k = 0 then sgn j else sgn k)"
  proof -
    consider "k = 0" | "0 < k" "nsPerDay \<le> k * nsPerDay" | "k < 0" "k * nsPerDay \<le> - nsPerDay"
      using mult_right_mono [of 1 k nsPerDay] mult_right_mono [of k "- 1" nsPerDay] nsPerDay_pos(2)
      by fastforce
    then show ?thesis
    proof cases
      case 2
      then have "0 < k * nsPerDay + j" using n unfolding j_def by linarith
      with 2(1) show ?thesis by simp
    next
      case 3
      then have "k * nsPerDay + j < 0" using n unfolding j_def by linarith
      with 3(1) show ?thesis by simp
    qed simp
  qed
  then show ?thesis
    using d c by (simp add: compareISODateTime_def Let_def compareTimeRec_def sign64_sgn j_def sgn_0_0)
qed

section \<open>Rounding\<close>

text \<open>Whether the multiple above is taken, for a value that is not a multiple itself.\<close>

definition roundsUp :: "int \<Rightarrow> int \<Rightarrow> string \<Rightarrow> bool" where
  "roundsUp x inc mode \<longleftrightarrow>
     mode = ''ceil'' \<or>
     mode = ''expand'' \<and> 0 < x \<or>
     mode = ''trunc'' \<and> \<not> 0 < x \<or>
     mode \<notin> {''ceil'', ''floor'', ''expand'', ''trunc''} \<and>
       (inc < 2 * (x mod inc) \<or>
        inc = 2 * (x mod inc) \<and>
          (mode = ''halfCeil'' \<or> mode = ''halfExpand'' \<and> 0 < x \<or> mode = ''halfTrunc'' \<and> \<not> 0 < x \<or>
           mode \<notin> {''halfCeil'', ''halfFloor'', ''halfExpand'', ''halfTrunc''} \<and> odd (x div inc)))"

lemma round_multiple: "x mod inc = 0 \<Longrightarrow> roundNumberToIncrement x inc mode = x"
  by (simp add: roundNumberToIncrement_def Let_def)

lemma round_other:
  assumes "x mod inc \<noteq> 0"
  shows "roundNumberToIncrement x inc mode = x - x mod inc + (if roundsUp x inc mode then inc else 0)"
proof -
  have "x div inc * inc = x - x mod inc" by (simp add: minus_mod_eq_div_mult)
  then show ?thesis
    using assms unfolding roundNumberToIncrement_def Let_def roundsUp_def by auto
qed

lemma round_is_multiple: "inc dvd roundNumberToIncrement x inc mode"
  by (cases "x mod inc = 0") (simp_all add: round_multiple round_other mod_eq_0_iff_dvd)

lemma round_near:
  assumes "0 < inc"
  shows "\<bar>roundNumberToIncrement x inc mode - x\<bar> < inc"
proof (cases "x mod inc = 0")
  case False
  have "0 \<le> x mod inc" "x mod inc < inc" using assms by simp_all
  with False assms show ?thesis by (auto simp: round_other abs_if)
qed (simp add: round_multiple assms)

text \<open>What each mode promises.\<close>

lemma round_modes:
  assumes "0 < inc"
  shows "x \<le> roundNumberToIncrement x inc ''ceil''"
    and "roundNumberToIncrement x inc ''floor'' \<le> x"
    and "\<bar>x\<bar> \<le> \<bar>roundNumberToIncrement x inc ''expand''\<bar>"
    and "\<bar>roundNumberToIncrement x inc ''trunc''\<bar> \<le> \<bar>x\<bar>"
proof -
  have r: "0 \<le> x mod inc" "x mod inc < inc" using assms by simp_all
  show "x \<le> roundNumberToIncrement x inc ''ceil''"
    using r by (cases "x mod inc = 0") (simp_all add: round_multiple round_other roundsUp_def)
  show "roundNumberToIncrement x inc ''floor'' \<le> x"
    using r by (cases "x mod inc = 0") (simp_all add: round_multiple round_other roundsUp_def)
  have p: "x mod inc \<le> x" if "0 < x" using that zmod_le_nonneg_dividend [of x inc] by simp
  show "\<bar>x\<bar> \<le> \<bar>roundNumberToIncrement x inc ''expand''\<bar>"
    using r by (cases "x mod inc = 0") (auto simp: round_multiple round_other roundsUp_def abs_if)
  have n: "x - x mod inc + inc \<le> 0" if "x < 0"
  proof -
    have "x div inc < 0" using that assms by (rule div_neg_pos_less0)
    then have "(x div inc + 1) * inc \<le> 0" using assms by (intro mult_nonpos_nonneg) simp_all
    then show ?thesis by (simp add: minus_mod_eq_div_mult algebra_simps)
  qed
  show "\<bar>roundNumberToIncrement x inc ''trunc''\<bar> \<le> \<bar>x\<bar>"
  proof (cases "x mod inc = 0 \<or> x = 0")
    case False
    with r p n show ?thesis
      by (cases "0 < x") (auto simp: round_other roundsUp_def abs_if)
  qed (auto simp: round_multiple)
qed

text \<open>The half modes are nearest, and the last of them (any other name) breaks ties towards even.\<close>

lemma round_half_nearest:
  assumes "0 < inc" "mode \<notin> {''ceil'', ''floor'', ''expand'', ''trunc''}"
  shows "2 * \<bar>roundNumberToIncrement x inc mode - x\<bar> \<le> inc"
proof (cases "x mod inc = 0")
  case False
  have "0 \<le> x mod inc" "x mod inc < inc" using assms by simp_all
  moreover have "if roundsUp x inc mode then inc \<le> 2 * (x mod inc) else 2 * (x mod inc) \<le> inc"
    using assms(2) unfolding roundsUp_def by auto
  ultimately show ?thesis
    using False by (cases "roundsUp x inc mode") (simp_all add: round_other abs_if)
qed (use assms in \<open>simp add: round_multiple\<close>)

lemma round_half_even_tie:
  assumes "0 < inc" "2 * (x mod inc) = inc"
  shows "even (roundNumberToIncrement x inc ''halfEven'' div inc)"
proof -
  have m: "x mod inc \<noteq> 0" using assms by auto
  have q: "x - x mod inc = inc * (x div inc)" by (simp add: minus_mod_eq_mult_div)
  have "roundsUp x inc ''halfEven'' \<longleftrightarrow> odd (x div inc)" using assms by (simp add: roundsUp_def)
  moreover have "(inc * (x div inc) + inc) div inc = x div inc + 1"
    using assms(1) by (intro int_div_pos_eq [where r = 0]) (simp_all add: algebra_simps)
  ultimately show ?thesis using assms(1) by (simp add: round_other [OF m] q)
qed

lemma round_idempotent:
  "roundNumberToIncrement (roundNumberToIncrement x inc mode) inc mode' = roundNumberToIncrement x inc mode"
  using round_is_multiple [of inc x mode] by (simp add: round_multiple)

section \<open>The limits of representable time\<close>

lemma withinLimits_iff:
  assumes "valid_time (dtTime dt)"
  shows "isoDateTimeWithinLimits dt \<longleftrightarrow>
    nsMinInstant - nsPerDay < isoDateTimeToEpochNanoseconds dt 0 \<and>
    isoDateTimeToEpochNanoseconds dt 0 < nsMaxInstant + nsPerDay"
  using nanosecond_bounds [OF assms]
  by (auto simp: isoDateTimeWithinLimits_def Let_def isoDateTimeToEpochNanoseconds_def ns_defs)

lemma instant_has_local_time:
  assumes "epochNsWithinLimits n" "\<bar>off\<bar> < nsPerDay"
  shows "isoDateTimeWithinLimits (getISODateTimeFor off n)"
proof -
  have "isoDateTimeToEpochNanoseconds (getISODateTimeFor off n) 0 = n + off"
    using instant_roundtrip [of off n] by (simp add: isoDateTimeToEpochNanoseconds_def)
  then show ?thesis
    using assms instant_roundtrip [of off n] by (auto simp: withinLimits_iff epochNsWithinLimits_def)
qed

lemma noon_valid: "valid_time noonTime" "nanosecond noonTime = 12 * nsPerHour"
  by (simp_all add: valid_time_def isValidTime_def noonTime_def midnightTime_def nanosecond_def)

lemma dateWithinLimits_days:
  "isoDateWithinLimits d \<longleftrightarrow> - 100000001 \<le> epochDays d \<and> epochDays d \<le> 100000000"
  by (auto simp: isoDateWithinLimits_def withinLimits_iff noon_valid isoDateTimeToEpochNanoseconds_def ns_defs)

text \<open>The first and the last representable dates.\<close>

lemma limit_days: "isoDay (- 271821) 4 19 = - 100000001" "isoDay 275760 9 13 = 100000000"
  by (simp_all add: isoDay_linear monthShift_table marchStart_def)

lemma dateWithinLimits_ymd:
  assumes "valid_date d"
  shows "isoDateWithinLimits d \<longleftrightarrow>
    \<not> ymd_less (year d, month d, day d) (- 271821, 4, 19) \<and>
    \<not> ymd_less (275760, 9, 13) (year d, month d, day d)"
proof -
  have v: "cal_valid (gregorianCalendar True) (- 271821) 4 19" "cal_valid (gregorianCalendar True) 275760 9 13"
    by (simp_all add: cal_valid_def isoDaysInMonth_table)
  note o = greg.day_order [of True, simplified]
  have d: "cal_valid (gregorianCalendar True) (year d) (month d) (day d)" using assms valid_date_iff by simp
  show ?thesis
    unfolding dateWithinLimits_days using o [OF d v(1)] o [OF v(2) d] limit_days
    by (simp add: epochDays_def not_less flip: not_less)
qed

lemma yearMonthWithinLimits_iff:
  assumes "1 \<le> month d" "month d \<le> 12"
  shows "isoYearMonthWithinLimits d \<longleftrightarrow>
    (\<exists>k. valid_date (d\<lparr>day := k\<rparr>) \<and> isoDateWithinLimits (d\<lparr>day := k\<rparr>))"
proof
  assume a: "isoYearMonthWithinLimits d"
  define k where "k = (if year d = - 271821 \<and> month d = 4 then 19 else (1 :: int))"
  have l: "28 \<le> isoDaysInMonth (year d) (month d)" using isoDaysInMonth_pos assms by blast
  have v: "valid_date (d\<lparr>day := k\<rparr>)"
    using assms l by (auto simp: valid_date_def isValidISODate_def k_def)
  have "isoDateWithinLimits (d\<lparr>day := k\<rparr>)"
    unfolding dateWithinLimits_ymd [OF v]
    using a by (auto simp: isoYearMonthWithinLimits_def ymd_less_def k_def split: if_splits)
  with v show "\<exists>k. valid_date (d\<lparr>day := k\<rparr>) \<and> isoDateWithinLimits (d\<lparr>day := k\<rparr>)" by blast
next
  assume "\<exists>k. valid_date (d\<lparr>day := k\<rparr>) \<and> isoDateWithinLimits (d\<lparr>day := k\<rparr>)"
  then show "isoYearMonthWithinLimits d"
    by (auto simp: dateWithinLimits_ymd isoYearMonthWithinLimits_def ymd_less_def)
qed

section \<open>Text\<close>

lemma zeroFill_eq: "zeroFill w s = replicate (nat w - length s) (CHR ''0'') @ s"
proof (induction w s rule: zeroFill.induct)
  case (1 w s)
  show ?case
  proof (cases "int (length s) < w")
    case True
    then have "nat w - length s = Suc (nat w - length (CHR ''0'' # s))" by auto
    then show ?thesis
      using True 1 by (subst zeroFill.simps) (simp add: replicate_append_same [symmetric])
  next
    case False
    then show ?thesis by (subst zeroFill.simps) auto
  qed
qed

lemma digits_val_zeros: "digits_val (replicate k (CHR ''0'') @ s) = digits_val s"
  by (induction k) (auto simp: digits_val_def digit_val_def)

lemma pad_nonneg: "0 \<le> n \<Longrightarrow> pad n w = replicate (nat w - length (ndigits (nat n))) (CHR ''0'') @ ndigits (nat n)"
  by (simp add: pad_def itoa_def zeroFill_eq)

lemma udigits_pad: "0 \<le> n \<Longrightarrow> udigits (pad n w) = Some n"
  by (simp add: pad_nonneg udigits_def digits_val_zeros ndigits_digits list_all_append)
    (simp add: list_all_iff is_digit_def)

lemma pad_length: "0 \<le> n \<Longrightarrow> n < 10 ^ Suc k \<Longrightarrow> length (pad n (int (Suc k))) = Suc k"
  using ndigits_length [of "nat n" k] by (simp add: pad_nonneg nat_less_iff)

text \<open>Reading back a formatted date of a four-digit year, field by field.\<close>

lemma formatISODate_fields:
  assumes "valid_date d" "0 \<le> year d" "year d \<le> 9999"
  shows "length (formatISODate d) = 10"
    "udigits (take 4 (formatISODate d)) = Some (year d)"
    "udigits (take 2 (drop 5 (formatISODate d))) = Some (month d)"
    "udigits (drop 8 (formatISODate d)) = Some (day d)"
proof -
  have f: "0 \<le> month d" "month d < 100" "0 \<le> day d" "day d < 100"
    using assms(1) isoDaysInMonth_pos [of "month d" "year d"]
    by (auto simp: valid_date_def isValidISODate_def split: if_splits)
  have l: "length (pad (year d) 4) = 4" "length (pad (month d) 2) = 2" "length (pad (day d) 2) = 2"
    using pad_length [of "year d" 3] pad_length [of "month d" 1] pad_length [of "day d" 1] assms f
    by simp_all
  show "length (formatISODate d) = 10"
    "udigits (take 4 (formatISODate d)) = Some (year d)"
    "udigits (take 2 (drop 5 (formatISODate d))) = Some (month d)"
    "udigits (drop 8 (formatISODate d)) = Some (day d)"
    using l assms f by (simp_all add: formatISODate_def formatISOYear_def udigits_pad)
qed

lemma formatISODate_inject:
  assumes "valid_date a" "0 \<le> year a" "year a \<le> 9999" "valid_date b" "0 \<le> year b" "year b \<le> 9999"
    "formatISODate a = formatISODate b"
  shows "a = b"
  using formatISODate_fields [OF assms(1-3)] formatISODate_fields [OF assms(4-6)] assms(7) by simp

text \<open>The rounded offset of a serialised date-time is a whole minute, at most half of one away.\<close>

lemma offset_rounded_minutes:
  "nsPerMinute dvd roundNumberToIncrement off nsPerMinute ''halfExpand''"
  "2 * \<bar>roundNumberToIncrement off nsPerMinute ''halfExpand'' - off\<bar> \<le> nsPerMinute"
  by (rule round_is_multiple) (rule round_half_nearest, simp_all add: ns_defs)

end
