(* ===== verification/Temporal_Calendar.thy ===== *)
theory Temporal_Calendar
  imports Calendar_For Temporal_ISO "HOL-Library.Monad_Syntax"
begin

text \<open>
  The bridge between Temporal and the calendars (\<open>internal/engine/temporal_calendar.go\<close>): reading a
  date out of calendar fields, reading the fields out of a date, and date arithmetic in a calendar.

  The source's pair of a value and an error is a sum here, \<open>Inl\<close> the error. A date out of range goes
  out together with its error in the source (one caller uses it), so that error carries the date. The
  calendars are reached through \<open>calendarFor\<close>; \<open>lun\<close> is its parameter for the two lunisolar
  calendars. A loop whose end rests on the calendar is a \<open>partial_function (option)\<close>: None is a loop
  that does not end.
\<close>

datatype calErr =
  errCalendarOverflow | errCalendarFields | errCalendarRange isoDateRec | errCalendarValue

type_synonym lunisolar = "string \<Rightarrow> string \<Rightarrow> calendar"

record calFieldSet =
  fsEra :: string
  fsEraYear :: int
  fsYear :: int
  fsMonth :: int
  fsMonthCode :: string
  fsDay :: int
  fsHas :: u16

definition fEra :: u16 where "fEra = 1"
definition fEraYear :: u16 where "fEraYear = 2"
definition fYear :: u16 where "fYear = 4"
definition fMonth :: u16 where "fMonth = 8"
definition fMonthCode :: u16 where "fMonthCode = 16"
definition fDay :: u16 where "fDay = 32"

lemmas field_bits = fEra_def fEraYear_def fYear_def fMonth_def fMonthCode_def fDay_def

definition got :: "calFieldSet \<Rightarrow> u16 \<Rightarrow> bool" where
  "got f b \<longleftrightarrow> fsHas f AND b \<noteq> 0"

definition leapMonthFallback :: "string \<Rightarrow> string \<Rightarrow> string option" where
  "leapMonthFallback ident code =
     (case parseMonthCode code of
        None \<Rightarrow> None
      | Some (base, leap) \<Rightarrow>
          if \<not> leap then None
          else if ident = ''hebrew''
            then (if base \<noteq> 5 then None else Some (simpleMonthCode (base + 1)))
          else if ident = ''chinese'' \<or> ident = ''dangi''
            then (if base < 1 \<or> 12 < base then None else Some (simpleMonthCode base))
          else None)"

definition calendarHasEras :: "lunisolar \<Rightarrow> string \<Rightarrow> bool" where
  "calendarHasEras lun ident \<longleftrightarrow> 0 < length (eras (calendarFor lun ident))"

section \<open>Reading a date out of fields\<close>

definition resolveCalendarYear :: "calendar \<Rightarrow> calFieldSet \<Rightarrow> calErr + int" where
  "resolveCalendarYear cal f =
     (let hasEraPair = (got f fEra \<and> got f fEraYear)
      in if got f fEra \<noteq> got f fEraYear then Inl errCalendarFields
         else if \<not> got f fYear \<and> \<not> hasEraPair then Inl errCalendarFields
         else if hasEraPair
           then (case yearFromEra cal (fsEra f) (fsEraYear f) of
                   None \<Rightarrow> Inl errCalendarValue
                 | Some y \<Rightarrow> if got f fYear \<and> fsYear f \<noteq> y then Inl errCalendarValue else Inr y)
         else Inr (fsYear f))"

definition resolveCalendarMonth ::
  "string \<Rightarrow> calendar \<Rightarrow> int \<Rightarrow> calFieldSet \<Rightarrow> string \<Rightarrow> calErr + int" where
  "resolveCalendarMonth ident cal y f overflow =
     (if \<not> got f fMonth \<and> \<not> got f fMonthCode then Inl errCalendarFields
      else if got f fMonthCode
        then
          (let found =
             (case monthFromCode cal (itoa y) (fsMonthCode f) of
                Some m \<Rightarrow> Inr m
              | None \<Rightarrow>
                  if overflow = ''reject'' then Inl errCalendarOverflow
                  else (case leapMonthFallback ident (fsMonthCode f) of
                          None \<Rightarrow> Inl errCalendarValue
                        | Some fallback \<Rightarrow>
                            (case monthFromCode cal (itoa y) fallback of
                               None \<Rightarrow> Inl errCalendarValue
                             | Some m \<Rightarrow> Inr m)))
           in case found of
                Inl e \<Rightarrow> Inl e
              | Inr m \<Rightarrow> if got f fMonth \<and> fsMonth f \<noteq> m then Inl errCalendarValue else Inr m)
      else
        (let m = fsMonth f
         in if m < 1 then Inl errCalendarOverflow
            else (let n = monthsInYear cal y
                  in if n < m
                     then (if overflow = ''reject'' then Inl errCalendarOverflow else Inr n)
                     else Inr m)))"

definition calendarDateFromFields ::
  "lunisolar \<Rightarrow> string \<Rightarrow> calFieldSet \<Rightarrow> string \<Rightarrow> calErr + isoDateRec" where
  "calendarDateFromFields lun ident f overflow =
     (let cal = calendarFor lun ident
      in if \<not> got f fDay then Inl errCalendarFields
         else case resolveCalendarYear cal f of
           Inl e \<Rightarrow> Inl e
         | Inr y \<Rightarrow>
             (case resolveCalendarMonth ident cal y f overflow of
                Inl e \<Rightarrow> Inl e
              | Inr m \<Rightarrow>
                  (if fsDay f < 1 then Inl errCalendarOverflow
                   else
                     (let n = daysInMonth cal y m
                      in if n < fsDay f \<and> overflow = ''reject'' then Inl errCalendarOverflow
                         else
                           (let d = (if n < fsDay f then n else fsDay f);
                                out = epochDaysToISODate (dayFromDate cal y m d)
                            in if \<not> isoDateWithinLimits out then Inl (errCalendarRange out)
                               else Inr out)))))"

definition calendarYearMonthFromFields ::
  "lunisolar \<Rightarrow> string \<Rightarrow> calFieldSet \<Rightarrow> string \<Rightarrow> calErr + isoDateRec" where
  "calendarYearMonthFromFields lun ident f overflow =
     (case calendarDateFromFields lun ident (f\<lparr>fsHas := fsHas f OR fDay, fsDay := 1\<rparr>) overflow of
        Inl (errCalendarRange out) \<Rightarrow>
          if isoYearMonthWithinLimits out then Inr out else Inl (errCalendarRange out)
      | r \<Rightarrow> r)"

definition monthNumberNeedsYear :: "string \<Rightarrow> bool" where
  "monthNumberNeedsYear ident \<longleftrightarrow> ident \<noteq> ''iso8601''"

definition lunisolarID :: "string \<Rightarrow> bool" where
  "lunisolarID ident \<longleftrightarrow> ident = ''chinese'' \<or> ident = ''dangi''"

definition monthDayRefDay :: int where "monthDayRefDay = 1972"
definition monthDaySearchLo :: int where "monthDaySearchLo = 1900"
definition monthDaySearchHi :: int where "monthDaySearchHi = 2034"

text \<open>The local function \<open>try\<close> and the two loops of \<open>searchMonthDayReference\<close>.\<close>

definition tryMonthDay :: "calendar \<Rightarrow> string \<Rightarrow> int \<Rightarrow> int \<Rightarrow> isoDateRec option" where
  "tryMonthDay cal code d y =
     (case monthFromCode cal (itoa y) code of
        None \<Rightarrow> None
      | Some m \<Rightarrow> if daysInMonth cal y m < d then None
                  else Some (epochDaysToISODate (dayFromDate cal y m d)))"

function searchBackward :: "calendar \<Rightarrow> string \<Rightarrow> int \<Rightarrow> int \<Rightarrow> int \<Rightarrow> isoDateRec option" where
  "searchBackward cal code d first y =
     (if y < first then None
      else case tryMonthDay cal code d y of
             Some i \<Rightarrow> if year i \<le> monthDayRefDay then Some i
                       else searchBackward cal code d first (y - 1)
           | None \<Rightarrow> searchBackward cal code d first (y - 1))"
  by pat_completeness auto
termination
  by (relation "measure (\<lambda>(cal, code, d, first, y). nat (y - first + 1))") auto

function searchForward :: "calendar \<Rightarrow> string \<Rightarrow> int \<Rightarrow> int \<Rightarrow> int \<Rightarrow> isoDateRec option" where
  "searchForward cal code d end_y y =
     (if end_y < y then None
      else case tryMonthDay cal code d y of
             Some i \<Rightarrow> Some i
           | None \<Rightarrow> searchForward cal code d end_y (y + 1))"
  by pat_completeness auto
termination
  by (relation "measure (\<lambda>(cal, code, d, end_y, y). nat (end_y - y + 1))") auto

declare searchBackward.simps [simp del] searchForward.simps [simp del]

definition searchMonthDayReference :: "calendar \<Rightarrow> string \<Rightarrow> int \<Rightarrow> isoDateRec option" where
  "searchMonthDayReference cal code d =
     (let last_y = cdYear (dateFromDay cal (isoDay monthDayRefDay 12 31));
          first = cdYear (dateFromDay cal (isoDay monthDaySearchLo 1 1));
          end_y = cdYear (dateFromDay cal (isoDay monthDaySearchHi 12 31))
      in case searchBackward cal code d first last_y of
           Some i \<Rightarrow> Some i
         | None \<Rightarrow> searchForward cal code d end_y (last_y + 1))"

function maxDaysLoop :: "calendar \<Rightarrow> string \<Rightarrow> int \<Rightarrow> int \<Rightarrow> int \<Rightarrow> int" where
  "maxDaysLoop cal code stop y best =
     (if stop < y
      then maxDaysLoop cal code stop (y - 1)
        (case monthFromCode cal (itoa y) code of
           Some m \<Rightarrow> (let n = daysInMonth cal y m in if best < n then n else best)
         | None \<Rightarrow> best)
      else best)"
  by pat_completeness auto
termination
  by (relation "measure (\<lambda>(cal, code, stop, y, best). nat (y - stop))") auto

declare maxDaysLoop.simps [simp del]

definition maxDaysOfMonthCode :: "calendar \<Rightarrow> string \<Rightarrow> int" where
  "maxDaysOfMonthCode cal code =
     (let base = cdYear (dateFromDay cal (isoDay monthDayRefDay 12 31))
      in maxDaysLoop cal code (base - 40) base 0)"

text \<open>
  \<open>calendarMonthDayFromFields\<close>: the source calls itself once, with the month code and the day of the
  date it found and no year, so the measure is whether a year is there.
\<close>

definition has_year :: "calFieldSet \<Rightarrow> bool" where
  "has_year f \<longleftrightarrow> got f fYear \<or> got f fEra \<and> got f fEraYear"

definition monthDayCode :: "string \<Rightarrow> calendar \<Rightarrow> calFieldSet \<Rightarrow> string \<Rightarrow> calErr + string" where
  "monthDayCode ident cal f overflow =
     (if \<not> got f fMonthCode
      then (if fsMonth f < 1 \<or> monthsInYear cal 1972 < fsMonth f
            then (if overflow = ''reject'' then Inl errCalendarOverflow
                  else Inr (simpleMonthCode (clampInt (fsMonth f) 1 (monthsInYear cal 1972))))
            else Inr (simpleMonthCode (fsMonth f)))
      else if got f fMonth
        then (case parseMonthCode (fsMonthCode f) of
                None \<Rightarrow> Inl errCalendarValue
              | Some (n, l) \<Rightarrow> if n \<noteq> fsMonth f then Inl errCalendarValue else Inr (fsMonthCode f))
      else Inr (fsMonthCode f))"

definition monthDayFromCode :: "string \<Rightarrow> calendar \<Rightarrow> string \<Rightarrow> int \<Rightarrow> string \<Rightarrow> calErr + isoDateRec" where
  "monthDayFromCode ident cal code d0 overflow =
     (if parseMonthCode code = None then Inl errCalendarValue
      else if d0 < 1 then Inl errCalendarOverflow
      else
        (let maxDays = (if lunisolarID ident then 30 else maxDaysOfMonthCode cal code)
         in if \<not> lunisolarID ident \<and> maxDays = 0 then Inl errCalendarValue
            else if maxDays < d0 \<and> overflow = ''reject'' then Inl errCalendarOverflow
            else
              (let d = (if maxDays < d0 then maxDays else d0)
               in case searchMonthDayReference cal code d of
                    Some i \<Rightarrow> Inr i
                  | None \<Rightarrow>
                      if overflow = ''reject'' then Inl errCalendarOverflow
                      else (case leapMonthFallback ident code of
                              None \<Rightarrow> Inl errCalendarValue
                            | Some fallback \<Rightarrow>
                                (case searchMonthDayReference cal fallback d of
                                   Some i \<Rightarrow> Inr i
                                 | None \<Rightarrow> Inl errCalendarValue)))))"

function calendarMonthDayFromFields ::
  "lunisolar \<Rightarrow> string \<Rightarrow> calFieldSet \<Rightarrow> string \<Rightarrow> calErr + isoDateRec" where
  "calendarMonthDayFromFields lun ident f overflow =
     (let cal = calendarFor lun ident
      in if \<not> got f fMonth \<and> \<not> got f fMonthCode then Inl errCalendarFields
         else if \<not> got f fDay then Inl errCalendarFields
         else if got f fMonth \<and> \<not> has_year f \<and> monthNumberNeedsYear ident then Inl errCalendarFields
         else if has_year f
           then
             (let again = (\<lambda>i.
                let cd = dateFromDay cal (epochDays i)
                in calendarMonthDayFromFields lun ident
                     \<lparr>fsEra = '''', fsEraYear = 0, fsYear = 0, fsMonth = 0, fsMonthCode = cdCode cd,
                      fsDay = cdDay cd, fsHas = fMonthCode OR fDay\<rparr> overflow)
              in case calendarDateFromFields lun ident f overflow of
                   Inr i \<Rightarrow> again i
                 | Inl (errCalendarRange i) \<Rightarrow>
                     if ident = ''iso8601'' then again i else Inl (errCalendarRange i)
                 | Inl e \<Rightarrow> Inl e)
         else
           (case monthDayCode ident cal f overflow of
              Inl e \<Rightarrow> Inl e
            | Inr code \<Rightarrow> monthDayFromCode ident cal code (fsDay f) overflow))"
  by pat_completeness auto
termination
  by (relation "measure (\<lambda>(lun, ident, f, overflow). if has_year f then 1 else 0)")
    (auto simp: has_year_def got_def field_bits)

declare calendarMonthDayFromFields.simps [simp del]

section \<open>Reading fields out of a date\<close>

record calendarView =
  vEra :: string
  vEraYear :: int
  vHasEra :: bool
  vYear :: int
  vMonth :: int
  vMonthCode :: string
  vDay :: int
  vDayOfWeek :: int
  vDayOfYear :: int
  vDaysInWeek :: int
  vDaysInMonth :: int
  vDaysInYear :: int
  vMonthsInYear :: int
  vInLeapYear :: bool

definition calendarViewOf :: "lunisolar \<Rightarrow> string \<Rightarrow> isoDateRec \<Rightarrow> calendarView" where
  "calendarViewOf lun ident i =
     (let cal = calendarFor lun ident;
          dy = epochDays i;
          cd = dateFromDay cal dy
      in \<lparr>vEra = cdEra cd, vEraYear = cdEraYear cd, vHasEra = (cdEra cd \<noteq> ''''),
          vYear = cdYear cd, vMonth = cdMonth cd, vMonthCode = cdCode cd, vDay = cdDay cd,
          vDayOfWeek = floorMod (dy + 3) 7 + 1,
          vDayOfYear = dy - dayFromDate cal (cdYear cd) 1 1 + 1,
          vDaysInWeek = 7,
          vDaysInMonth = daysInMonth cal (cdYear cd) (cdMonth cd),
          vDaysInYear = daysInYear cal (cdYear cd),
          vMonthsInYear = monthsInYear cal (cdYear cd),
          vInLeapYear = inLeapYear cal (cdYear cd)\<rparr>)"

definition isoWeekOfYear :: "isoDateRec \<Rightarrow> int \<times> int" where
  "isoWeekOfYear d =
     (let dy = epochDays d;
          dow = floorMod (dy + 3) 7;
          thursday = dy - dow + 3;
          y = fst (isoDate thursday);
          jan1 = isoDay y 1 1
      in ((thursday - jan1) sdiv 7 + 1, y))"

section \<open>Arithmetic\<close>

record dateDuration =
  ddYears :: int
  ddMonths :: int
  ddWeeks :: int
  ddDays :: int

definition noDateDuration :: dateDuration where
  "noDateDuration = \<lparr>ddYears = 0, ddMonths = 0, ddWeeks = 0, ddDays = 0\<rparr>"

text \<open>
  The loops that carry a month number into the year it belongs to; \<open>calendarDateAdd\<close> and the
  local function \<open>candidate\<close> of \<open>calendarDateUntil\<close> have the same two.
\<close>

partial_function (option) monthsUp :: "calendar \<Rightarrow> int \<Rightarrow> int \<Rightarrow> (int \<times> int) option" where
  "monthsUp cal y m =
     (if m \<le> monthsInYear cal y then Some (y, m) else monthsUp cal (y + 1) (m - monthsInYear cal y))"

partial_function (option) monthsDown :: "calendar \<Rightarrow> int \<Rightarrow> int \<Rightarrow> (int \<times> int) option" where
  "monthsDown cal y m =
     (if m < 1 then monthsDown cal (y - 1) (m + monthsInYear cal (y - 1)) else Some (y, m))"

definition carryMonths :: "calendar \<Rightarrow> int \<Rightarrow> int \<Rightarrow> (int \<times> int) option" where
  "carryMonths cal y m = Option.bind (monthsUp cal y m) (\<lambda>(y', m'). monthsDown cal y' m')"

text \<open>The month of the start date's code in the year it is moved to.\<close>

definition addMonthStart :: "string \<Rightarrow> calendar \<Rightarrow> int \<Rightarrow> string \<Rightarrow> string \<Rightarrow> calErr + int" where
  "addMonthStart ident cal y code overflow =
     (case monthFromCode cal (itoa y) code of
        Some m \<Rightarrow> Inr m
      | None \<Rightarrow>
          (case leapMonthFallback ident code of
             None \<Rightarrow> Inl errCalendarFields
           | Some fallback \<Rightarrow>
               if overflow = ''reject'' \<or> overflow = ''reject-month'' then Inl errCalendarOverflow
               else (case monthFromCode cal (itoa y) fallback of
                       None \<Rightarrow> Inl errCalendarFields
                     | Some m \<Rightarrow> Inr m)))"

text \<open>The block that moves by years and months: the epoch day it comes to.\<close>

definition addYearsMonths ::
  "string \<Rightarrow> calendar \<Rightarrow> int \<Rightarrow> dateDuration \<Rightarrow> string \<Rightarrow> (calErr + int) option" where
  "addYearsMonths ident cal epoch dur overflow =
     (let cd = dateFromDay cal epoch;
          y = cdYear cd + ddYears dur
      in case addMonthStart ident cal y (cdCode cd) overflow of
           Inl e \<Rightarrow> Some (Inl e)
         | Inr m0 \<Rightarrow>
             do {
               (y', m') \<leftarrow> carryMonths cal y (m0 + ddMonths dur);
               (let n = daysInMonth cal y' m'
                in if n < cdDay cd \<and> overflow = ''reject'' then Some (Inl errCalendarOverflow)
                   else Some (Inr (dayFromDate cal y' m' (if n < cdDay cd then n else cdDay cd))))
             })"

definition calendarDateAdd ::
  "lunisolar \<Rightarrow> string \<Rightarrow> isoDateRec \<Rightarrow> dateDuration \<Rightarrow> string \<Rightarrow> (calErr + isoDateRec) option" where
  "calendarDateAdd lun ident i dur overflow =
     (let cal = calendarFor lun ident
      in do {
        moved \<leftarrow> (if ddYears dur \<noteq> 0 \<or> ddMonths dur \<noteq> 0
                  then addYearsMonths ident cal (epochDays i) dur overflow
                  else Some (Inr (epochDays i)));
        (case moved of
           Inl e \<Rightarrow> Some (Inl e)
         | Inr epoch \<Rightarrow>
             (let out = epochDaysToISODate (epoch + (ddWeeks dur * 7 + ddDays dur))
              in if \<not> isoDateWithinLimits out then Some (Inl (errCalendarRange out))
                 else Some (Inr out)))
      })"

definition unitYear :: int where "unitYear = 0"
definition unitMonth :: int where "unitMonth = 1"
definition unitWeek :: int where "unitWeek = 2"
definition unitDay :: int where "unitDay = 3"

text \<open>The local functions \<open>candidate\<close>, \<open>past\<close> and \<open>pastISO\<close> of \<open>calendarDateUntil\<close>.\<close>

definition untilCandidate ::
  "string \<Rightarrow> calendar \<Rightarrow> calendarDate \<Rightarrow> int \<Rightarrow> int \<Rightarrow> (int \<times> int \<times> int \<times> bool) option" where
  "untilCandidate ident cal c1 years months =
     (let y = cdYear c1 + years;
          found = monthFromCode cal (itoa y) (cdCode c1);
          exact = (found \<noteq> None);
          m = (case found of
                 Some m \<Rightarrow> m
               | None \<Rightarrow>
                   (case leapMonthFallback ident (cdCode c1) of
                      None \<Rightarrow> cdMonth c1
                    | Some fallback \<Rightarrow>
                        (case monthFromCode cal (itoa y) fallback of
                           Some m \<Rightarrow> m
                         | None \<Rightarrow> cdMonth c1)))
      in map_option (\<lambda>(y', m'). (y', m', cdDay c1, exact)) (carryMonths cal y (m + months)))"

definition untilPast ::
  "string \<Rightarrow> calendar \<Rightarrow> calendarDate \<Rightarrow> calendarDate \<Rightarrow> int \<Rightarrow> int \<Rightarrow> int \<Rightarrow> bool option" where
  "untilPast ident cal c1 c2 sign years months =
     map_option (\<lambda>(y, m, d, exact).
       let c = (if y \<noteq> cdYear c2 then sign64 (y - cdYear c2)
                else if m \<noteq> cdMonth c2 then sign64 (m - cdMonth c2)
                else if d \<noteq> cdDay c2 then sign64 (d - cdDay c2)
                else if \<not> exact \<and> months = 0 then (if ident = ''hebrew'' then - 1 else 1)
                else 0)
       in 0 < sign * c) (untilCandidate ident cal c1 years months)"

definition untilPastISO ::
  "lunisolar \<Rightarrow> string \<Rightarrow> isoDateRec \<Rightarrow> isoDateRec \<Rightarrow> int \<Rightarrow> int \<Rightarrow> int \<Rightarrow> bool option" where
  "untilPastISO lun ident one two sign years months =
     map_option (\<lambda>r. case r of
         Inl e \<Rightarrow> True
       | Inr mid \<Rightarrow> 0 < sign * compareISODate mid two)
       (calendarDateAdd lun ident one \<lparr>ddYears = years, ddMonths = months, ddWeeks = 0, ddDays = 0\<rparr>
          ''constrain'')"

text \<open>
  The search loops. The first steps a guess back towards zero while it overshoots, the second steps
  on while the next step does not overshoot, up to a limit.
\<close>

partial_function (option) stepBack :: "(int \<Rightarrow> bool option) \<Rightarrow> int \<Rightarrow> int \<Rightarrow> int option" where
  "stepBack over sign n =
     (if n \<noteq> 0
      then do { b \<leftarrow> over n; if b then stepBack over sign (n - sign) else Some n }
      else Some n)"

partial_function (option) stepOn :: "(int \<Rightarrow> bool option) \<Rightarrow> int \<Rightarrow> int \<Rightarrow> int \<Rightarrow> int option" where
  "stepOn over sign limit n =
     do { b \<leftarrow> over (n + sign);
          if b then Some n
          else (let n' = n + sign
                in if limit < n' \<or> n' < - limit then Some n' else stepOn over sign limit n') }"

text \<open>The years and months found, for the largest unit month and for the largest unit year.\<close>

definition untilYearsMonths ::
  "(int \<Rightarrow> int \<Rightarrow> bool option) \<Rightarrow> int \<Rightarrow> int \<Rightarrow> int \<Rightarrow> (int \<times> int) option" where
  "untilYearsMonths overshot sign yearDiff largestUnit =
     (if largestUnit = unitMonth
      then (let months0 = yearDiff * 12;
                months1 = (if 0 < sign \<and> months0 < 0 \<or> sign < 0 \<and> 0 < months0 then 0 else months0)
            in do { m2 \<leftarrow> stepBack (overshot 0) sign months1;
                    m3 \<leftarrow> stepOn (overshot 0) sign 1000000 m2;
                    Some (0, m3) })
      else do { y2 \<leftarrow> stepBack (\<lambda>y. overshot y 0) sign yearDiff;
                m3 \<leftarrow> stepOn (overshot y2) sign 10000 0;
                Some (y2, m3) })"

definition calendarDateUntil ::
  "lunisolar \<Rightarrow> string \<Rightarrow> isoDateRec \<Rightarrow> isoDateRec \<Rightarrow> int \<Rightarrow> dateDuration option" where
  "calendarDateUntil lun ident one two largestUnit =
     (let sign = - compareISODate one two
      in if sign = 0 then Some noDateDuration
         else if largestUnit = unitDay \<or> largestUnit = unitWeek
           then (let ds = epochDays two - epochDays one
                 in if largestUnit = unitWeek
                    then Some (noDateDuration\<lparr>ddWeeks := ds sdiv 7, ddDays := ds smod 7\<rparr>)
                    else Some (noDateDuration\<lparr>ddDays := ds\<rparr>))
         else
           (let cal = calendarFor lun ident;
                c1 = dateFromDay cal (epochDays one);
                c2 = dateFromDay cal (epochDays two);
                overshot = (if ident = ''iso8601'' then untilPastISO lun ident one two sign
                            else untilPast ident cal c1 c2 sign)
            in do {
              (years, months) \<leftarrow> untilYearsMonths overshot sign (cdYear c2 - cdYear c1) largestUnit;
              r \<leftarrow> calendarDateAdd lun ident one
                     \<lparr>ddYears = years, ddMonths = months, ddWeeks = 0, ddDays = 0\<rparr> ''constrain'';
              (case r of
                 Inl e \<Rightarrow> Some noDateDuration
               | Inr mid \<Rightarrow>
                   Some \<lparr>ddYears = years, ddMonths = months, ddWeeks = 0,
                         ddDays = epochDays two - epochDays mid\<rparr>)
            }))"

end
