(* ===== verification/Doubles.thy ===== *)
theory Doubles
  imports Prelude
begin

text \<open>
  The doubles that hold whole numbers. A Temporal duration keeps its ten counts as \<open>float64\<close>, and
  every one of them is an integer, an infinity or not a number; this theory is the part of Go's
  \<open>float64\<close>, \<open>math/big.Float\<close> and \<open>strconv.FormatFloat\<close> that the duration code uses on them.
  Conversion from an exact integer rounds to 53 bits, halves to even, and overflows to an infinity
  from \<open>2 ^ 1024\<close> on; sums and products of such doubles round the same way. The sign of a zero is
  not kept: the duration code compares with 0 before it ever prints a field.
\<close>

datatype f64 = FInt int | FInf bool | FNaN

section \<open>Rounding an integer to 53 bits\<close>

fun bitLen :: "nat \<Rightarrow> nat" where
  "bitLen n = (if n = 0 then 0 else Suc (bitLen (n div 2)))"

declare bitLen.simps [simp del]

definition roundEven :: "int \<Rightarrow> int \<Rightarrow> int" where
  "roundEven x k =
     (let q = x div k; r = x mod k
      in if 2 * r < k \<or> (2 * r = k \<and> even q) then q else q + 1)"

definition f64_round :: "int \<Rightarrow> int" where
  "f64_round x = (let k = 2 ^ (bitLen (nat \<bar>x\<bar>) - 53) in sgn x * (roundEven \<bar>x\<bar> k * k))"

definition f64_of_int :: "int \<Rightarrow> f64" where
  "f64_of_int x = (if 2 ^ 1024 \<le> \<bar>f64_round x\<bar> then FInf (x < 0) else FInt (f64_round x))"

lemma bitLen_bounds: "0 < n \<Longrightarrow> 2 ^ (bitLen n - 1) \<le> n \<and> n < 2 ^ bitLen n \<and> 0 < bitLen n"
proof (induction n rule: bitLen.induct)
  case (1 n)
  show ?case
  proof (cases "n div 2 = 0")
    case True
    with 1(2) have "n = 1" by simp
    then show ?thesis by (simp add: bitLen.simps)
  next
    case False
    with 1 have IH: "2 ^ (bitLen (n div 2) - 1) \<le> n div 2" "n div 2 < 2 ^ bitLen (n div 2)"
        "0 < bitLen (n div 2)" by auto
    have b: "bitLen n = Suc (bitLen (n div 2))" using 1(2) by (subst bitLen.simps) simp
    have "(2::nat) ^ bitLen (n div 2) = 2 * 2 ^ (bitLen (n div 2) - 1)"
      using IH(3) by (cases "bitLen (n div 2)") auto
    then have "2 ^ bitLen (n div 2) \<le> 2 * (n div 2)" using IH(1) by simp
    then show ?thesis using IH(2) by (auto simp: b)
  qed
qed

lemma bitLen_le: "n < 2 ^ k \<Longrightarrow> bitLen n \<le> k"
proof (cases "n = 0")
  case False
  assume "n < 2 ^ k"
  then have "(2::nat) ^ (bitLen n - 1) < 2 ^ k" using bitLen_bounds [of n] False by linarith
  then have "bitLen n - 1 < k" by simp
  then show ?thesis by simp
qed (simp add: bitLen.simps)

lemma roundEven_one [simp]: "roundEven x 1 = x"
  by (simp add: roundEven_def)

lemma roundEven_ge: "x div k \<le> roundEven x k"
  by (simp add: roundEven_def Let_def)

lemma f64_round_small: "\<bar>x\<bar> < 2 ^ 53 \<Longrightarrow> f64_round x = x"
proof -
  assume "\<bar>x\<bar> < 2 ^ 53"
  then have "nat \<bar>x\<bar> < 2 ^ 53" by simp
  then have "bitLen (nat \<bar>x\<bar>) - 53 = 0" using bitLen_le [of "nat \<bar>x\<bar>" 53] by simp
  then show ?thesis by (simp add: f64_round_def sgn_mult_abs)
qed

lemma f64_round_large: "2 ^ 53 \<le> \<bar>x\<bar> \<Longrightarrow> 2 ^ 53 \<le> \<bar>f64_round x\<bar>"
proof -
  assume x: "2 ^ 53 \<le> \<bar>x\<bar>"
  define n where "n = nat \<bar>x\<bar>"
  have n: "2 ^ 53 \<le> n" "0 < n" using x by (auto simp: n_def le_nat_iff)
  define e where "e = bitLen n - 53"
  have "(2::nat) ^ 53 < 2 ^ bitLen n" using n bitLen_bounds [of n] by linarith
  then have "53 < bitLen n" using power_less_imp_less_exp [of "2::nat" 53 "bitLen n"] by simp
  then have e: "bitLen n - 1 = 52 + e" "1 \<le> e" by (auto simp: e_def)
  have "(2::nat) ^ (52 + e) \<le> n" using bitLen_bounds [of n] n e by simp
  then have "int (2 ^ (52 + e)) \<le> int n" by (simp only: of_nat_le_iff)
  then have "2 ^ 52 * 2 ^ e \<le> \<bar>x\<bar>" by (simp add: n_def power_add)
  then have "2 ^ 52 \<le> \<bar>x\<bar> div 2 ^ e"
    using zdiv_mono1 [of "2 ^ 52 * 2 ^ e" "\<bar>x\<bar>" "2 ^ e"] by simp
  then have "2 ^ 52 \<le> roundEven \<bar>x\<bar> (2 ^ e)" using roundEven_ge [of "\<bar>x\<bar>" "2 ^ e"] by linarith
  then have "2 ^ 52 * 2 ^ e \<le> roundEven \<bar>x\<bar> (2 ^ e) * 2 ^ e" by simp
  moreover have "(2::int) ^ 53 \<le> 2 ^ 52 * 2 ^ e"
    using power_increasing [of 53 "52 + e" "2::int"] e by (simp add: power_add)
  moreover have "x \<noteq> 0" using x by auto
  moreover have "\<bar>f64_round x\<bar> = \<bar>roundEven \<bar>x\<bar> (2 ^ e) * 2 ^ e\<bar>"
    using \<open>x \<noteq> 0\<close> by (simp add: f64_round_def Let_def e_def n_def abs_mult abs_sgn_eq)
  ultimately show ?thesis by linarith
qed

lemma f64_round_sign: "0 \<le> f64_round x * x"
proof -
  have "f64_round x * x = \<bar>x\<bar> * (roundEven \<bar>x\<bar> (2 ^ (bitLen (nat \<bar>x\<bar>) - 53)) * 2 ^ (bitLen (nat \<bar>x\<bar>) - 53))"
    by (simp add: f64_round_def Let_def algebra_simps abs_sgn)
  moreover have "0 \<le> roundEven \<bar>x\<bar> (2 ^ (bitLen (nat \<bar>x\<bar>) - 53))"
    by (rule order_trans [OF _ roundEven_ge]) (simp add: pos_imp_zdiv_nonneg_iff)
  ultimately show ?thesis by simp
qed

lemma f64_of_int_small: "\<bar>x\<bar> < 2 ^ 53 \<Longrightarrow> f64_of_int x = FInt x"
  by (simp add: f64_of_int_def f64_round_small)

lemma f64_of_int_exact:
  assumes "f64_of_int x = FInt y" "\<bar>y\<bar> < 2 ^ 53"
  shows "y = x" "\<bar>x\<bar> < 2 ^ 53"
proof -
  have "y = f64_round x" using assms(1) by (simp add: f64_of_int_def split: if_splits)
  then show "\<bar>x\<bar> < 2 ^ 53" using assms(2) f64_round_large [of x] by linarith
  with \<open>y = f64_round x\<close> show "y = x" by (simp add: f64_round_small)
qed

section \<open>Arithmetic and comparison\<close>

fun f64_neg :: "f64 \<Rightarrow> f64" where
  "f64_neg (FInt a) = FInt (- a)"
| "f64_neg (FInf s) = FInf (\<not> s)"
| "f64_neg FNaN = FNaN"

fun f64_lt0 :: "f64 \<Rightarrow> bool" where
  "f64_lt0 (FInt a) = (a < 0)"
| "f64_lt0 (FInf s) = s"
| "f64_lt0 FNaN = False"

fun f64_gt0 :: "f64 \<Rightarrow> bool" where
  "f64_gt0 (FInt a) = (0 < a)"
| "f64_gt0 (FInf s) = (\<not> s)"
| "f64_gt0 FNaN = False"

text \<open>\<open>v != 0\<close>, which holds of a NaN.\<close>

definition f64_ne0 :: "f64 \<Rightarrow> bool" where
  "f64_ne0 v \<longleftrightarrow> v \<noteq> FInt 0"

fun f64_add :: "f64 \<Rightarrow> f64 \<Rightarrow> f64" where
  "f64_add (FInt a) (FInt b) = f64_of_int (a + b)"
| "f64_add (FInf s) (FInf t) = (if s = t then FInf s else FNaN)"
| "f64_add (FInf s) (FInt b) = FInf s"
| "f64_add (FInt a) (FInf t) = FInf t"
| "f64_add FNaN b = FNaN"
| "f64_add a FNaN = FNaN"

fun f64_mul :: "f64 \<Rightarrow> f64 \<Rightarrow> f64" where
  "f64_mul (FInt a) (FInt b) = f64_of_int (a * b)"
| "f64_mul (FInf s) (FInf t) = FInf (s \<noteq> t)"
| "f64_mul (FInf s) (FInt b) = (if b = 0 then FNaN else FInf (s \<noteq> (b < 0)))"
| "f64_mul (FInt a) (FInf t) = (if a = 0 then FNaN else FInf ((a < 0) \<noteq> t))"
| "f64_mul FNaN b = FNaN"
| "f64_mul a FNaN = FNaN"

text \<open>\<open>math.Abs\<close>.\<close>

fun f64_abs :: "f64 \<Rightarrow> f64" where
  "f64_abs (FInt a) = FInt \<bar>a\<bar>"
| "f64_abs (FInf s) = FInf False"
| "f64_abs FNaN = FNaN"

text \<open>A comparison with a whole number: false when either side is a NaN.\<close>

fun f64_ge :: "f64 \<Rightarrow> int \<Rightarrow> bool" where
  "f64_ge (FInt a) b = (b \<le> a)"
| "f64_ge (FInf s) b = (\<not> s)"
| "f64_ge FNaN b = False"

text \<open>
  \<open>new(big.Float).SetFloat64(v).Int(nil)\<close>, whose result the callers multiply: setting a NaN panics,
  and the integer of an infinity is nil, so that using it panics.
\<close>

fun f64_bigInt :: "f64 \<Rightarrow> int option" where
  "f64_bigInt (FInt a) = Some a"
| "f64_bigInt v = None"

text \<open>
  Converting a float to \<open>int64\<close> keeps the number where it fits; outside that range the language
  leaves the result to the machine, so the conversion is a parameter of the code that uses it.
\<close>

definition keepsInt64 :: "(f64 \<Rightarrow> int) \<Rightarrow> bool" where
  "keepsInt64 toI64 \<longleftrightarrow> (\<forall>n. - (2 ^ 63) \<le> n \<and> n < 2 ^ 63 \<longrightarrow> toI64 (FInt n) = n)"

lemma keepsInt64D: "keepsInt64 toI64 \<Longrightarrow> \<bar>n\<bar> < 2 ^ 63 \<Longrightarrow> toI64 (FInt n) = n"
  unfolding keepsInt64_def by (drule spec [of _ n]) auto

section \<open>Printing\<close>

text \<open>
  \<open>strconv.FormatFloat(f, 'f', -1, 64)\<close>: the fewest significant digits that read back as the same
  double, the closest such decimal, padded with zeros up to the point. \<open>shortestFrom\<close> looks for the
  largest power of ten with a multiple next to the number that reads back.
\<close>

definition shortestAt :: "int \<Rightarrow> nat \<Rightarrow> int option" where
  "shortestAt f e =
     (let k = 10 ^ e; lo = f div k * k; hi = lo + k
      in if f64_round lo = f \<and> f64_round hi = f then Some (if f - lo \<le> hi - f then lo else hi)
         else if f64_round lo = f then Some lo
         else if f64_round hi = f then Some hi
         else None)"

primrec shortestFrom :: "int \<Rightarrow> nat \<Rightarrow> int" where
  "shortestFrom f 0 = f"
| "shortestFrom f (Suc e) = (case shortestAt f (Suc e) of Some c \<Rightarrow> c | None \<Rightarrow> shortestFrom f e)"

fun formatFloatF :: "f64 \<Rightarrow> string" where
  "formatFloatF (FInt n) =
     (let m = ndigits (nat (shortestFrom \<bar>n\<bar> (length (ndigits (nat \<bar>n\<bar>)))))
      in if n < 0 then CHR ''-'' # m else m)"
| "formatFloatF (FInf s) = (if s then ''-Inf'' else ''+Inf'')"
| "formatFloatF FNaN = ''NaN''"

lemma f64_round_eq_small: "f64_round c = f \<Longrightarrow> \<bar>f\<bar> < 2 ^ 53 \<Longrightarrow> c = f"
  using f64_round_large [of c] f64_round_small [of c] by linarith

lemma shortestAt_reads: "shortestAt f e = Some c \<Longrightarrow> f64_round c = f"
  by (auto simp: shortestAt_def Let_def split: if_splits)

lemma shortestFrom_small: "\<bar>f\<bar> < 2 ^ 53 \<Longrightarrow> shortestFrom f e = f"
proof (induction e)
  case (Suc e)
  then show ?case
    using f64_round_eq_small [OF shortestAt_reads _] by (cases "shortestAt f (Suc e)") auto
qed simp

lemma formatFloatF_small: "0 \<le> n \<Longrightarrow> n < 2 ^ 53 \<Longrightarrow> formatFloatF (FInt n) = ndigits (nat n)"
  by (simp add: shortestFrom_small)

text \<open>Every digit string read the way the source reads one is the double nearest to some value
  within range; below \<open>2 ^ 53\<close> the reading is exact.\<close>

lemma f64_digit_step:
  assumes "0 \<le> a" "0 \<le> d" "10 * a + d < 2 ^ 53"
  shows "f64_add (f64_mul (FInt a) (FInt 10)) (FInt d) = FInt (10 * a + d)"
  using assms by (simp add: f64_of_int_small)

end
