(* ===== verification/Temporal_Duration.thy ===== *)
theory Temporal_Duration
  imports Complex_Main Temporal_Calendar Doubles
begin

text \<open>
  Durations (\<open>internal/engine/temporal_duration.go\<close>): the ten counts of a duration, the test that
  they form one, the split into a calendar half and an exact number of nanoseconds, and the way back
  from nanoseconds to counts. The counts are the whole-number doubles of \<open>Doubles\<close>; \<open>big.Int\<close> is
  \<open>int\<close> and \<open>big.Rat\<close> is \<open>rat\<close>. Panics of \<open>math/big\<close> on a count that is not finite are the value
  None. The conversion of a float to \<open>int64\<close> is an argument of the two splits.
\<close>

section \<open>Units\<close>

definition unitHour :: int where "unitHour = 4"
definition unitMinute :: int where "unitMinute = 5"
definition unitSecond :: int where "unitSecond = 6"
definition unitMillisecond :: int where "unitMillisecond = 7"
definition unitMicrosecond :: int where "unitMicrosecond = 8"
definition unitNanosecond :: int where "unitNanosecond = 9"
definition unitCount :: int where "unitCount = 10"
definition unitAuto :: int where "unitAuto = - 1"

lemmas unit_defs = unitYear_def unitMonth_def unitWeek_def unitDay_def unitHour_def unitMinute_def
  unitSecond_def unitMillisecond_def unitMicrosecond_def unitNanosecond_def unitCount_def unitAuto_def

definition temporalUnitNames :: "string list" where
  "temporalUnitNames = [''year'', ''month'', ''week'', ''day'', ''hour'',
     ''minute'', ''second'', ''millisecond'', ''microsecond'', ''nanosecond'']"

definition temporalUnitPlurals :: "string list" where
  "temporalUnitPlurals = [''years'', ''months'', ''weeks'', ''days'',
     ''hours'', ''minutes'', ''seconds'', ''milliseconds'', ''microseconds'', ''nanoseconds'']"

fun unitFromNameAt :: "string \<Rightarrow> int \<Rightarrow> string list \<Rightarrow> string list \<Rightarrow> int \<times> bool" where
  "unitFromNameAt s i (n # names) (p # plurals) =
     (if s = n \<or> s = p then (i, True) else unitFromNameAt s (i + 1) names plurals)"
| "unitFromNameAt s i names plurals = (0, False)"

definition unitFromName :: "string \<Rightarrow> int \<times> bool" where
  "unitFromName s = unitFromNameAt s 0 temporalUnitNames temporalUnitPlurals"

definition nsPerUnit :: "int list" where
  "nsPerUnit = [0, 0, 0, nsPerDay, nsPerHour, nsPerMinute, nsPerSecond, nsPerMilli, nsPerMicro, 1]"

definition maxIncrement :: "int list" where
  "maxIncrement = [0, 0, 0, 0, 24, 60, 60, 1000, 1000, 1000]"

section \<open>The record\<close>

record durationRec =
  dYears :: f64
  dMonths :: f64
  dWeeks :: f64
  dDays :: f64
  dHours :: f64
  dMinutes :: f64
  dSeconds :: f64
  dMs :: f64
  dUs :: f64
  dNs :: f64

definition durationFields :: "durationRec \<Rightarrow> f64 list" where
  "durationFields d = [dYears d, dMonths d, dWeeks d, dDays d, dHours d, dMinutes d, dSeconds d,
     dMs d, dUs d, dNs d]"

definition durationFromFields :: "f64 list \<Rightarrow> durationRec" where
  "durationFromFields f =
     \<lparr>dYears = f ! 0, dMonths = f ! 1, dWeeks = f ! 2, dDays = f ! 3, dHours = f ! 4, dMinutes = f ! 5,
      dSeconds = f ! 6, dMs = f ! 7, dUs = f ! 8, dNs = f ! 9\<rparr>"

fun firstSign :: "f64 list \<Rightarrow> int" where
  "firstSign [] = 0"
| "firstSign (v # vs) = (if f64_lt0 v then - 1 else if f64_gt0 v then 1 else firstSign vs)"

definition durationSign :: "durationRec \<Rightarrow> int" where
  "durationSign d = firstSign (durationFields d)"

definition isZero :: "durationRec \<Rightarrow> bool" where
  "isZero d \<longleftrightarrow> durationSign d = 0"

definition dateSign :: "durationRec \<Rightarrow> int" where
  "dateSign d = firstSign (take 4 (durationFields d))"

section \<open>Which ten numbers are a duration\<close>

text \<open>The first loop: every count finite, and the signs of those that are not zero agree.\<close>

fun signsAgree :: "f64 list \<Rightarrow> int \<Rightarrow> bool" where
  "signsAgree [] sign = True"
| "signsAgree (FInt v # vs) sign =
     (if v \<noteq> 0
      then let s = (if v < 0 then - 1 else 1)
           in if sign = 0 then signsAgree vs s
              else if sign \<noteq> s then False
              else signsAgree vs sign
      else signsAgree vs sign)"
| "signsAgree (v # vs) sign = False"

definition secondWeights :: "rat list" where
  "secondWeights = [of_int secsPerDay, 3600, 60, 1, 1 / 1000, 1 / 1000000, 1 / 1000000000]"

fun addSeconds :: "f64 list \<Rightarrow> rat list \<Rightarrow> rat \<Rightarrow> rat option" where
  "addSeconds (FInt v # vs) (w # ws) tot = addSeconds vs ws (tot + of_int v * w)"
| "addSeconds (v # vs) (w # ws) tot = None"
| "addSeconds vs ws tot = Some tot"

definition isValidDuration :: "f64 list \<Rightarrow> bool" where
  "isValidDuration f =
     (if \<not> signsAgree f 0 then False
      else if \<exists>v \<in> set (take 3 f). f64_ge (f64_abs v) (2 ^ 32) then False
      else case addSeconds (drop 3 f) secondWeights 0 of
             None \<Rightarrow> False
           | Some tot \<Rightarrow> \<bar>tot\<bar> < 2 ^ 53)"

section \<open>The internal form\<close>

definition dateDurationSign :: "dateDuration \<Rightarrow> int" where
  "dateDurationSign d = firstSign (map FInt [ddYears d, ddMonths d, ddWeeks d, ddDays d])"

record internalDuration =
  idDate :: dateDuration
  idTime :: int

definition newInternal :: "dateDuration \<Rightarrow> int option \<Rightarrow> internalDuration" where
  "newInternal date time =
     \<lparr>idDate = date, idTime = (case time of None \<Rightarrow> 0 | Some t \<Rightarrow> t)\<rparr>"

definition internalSign :: "internalDuration \<Rightarrow> int" where
  "internalSign d =
     (let s = dateDurationSign (idDate d) in if s \<noteq> 0 then s else sgn (idTime d))"

definition addCount :: "f64 \<Rightarrow> int \<Rightarrow> int \<Rightarrow> int option" where
  "addCount v mul tot = map_option (\<lambda>i. tot + i * mul) (f64_bigInt v)"

definition timeDurationFromComponents ::
  "f64 \<Rightarrow> f64 \<Rightarrow> f64 \<Rightarrow> f64 \<Rightarrow> f64 \<Rightarrow> f64 \<Rightarrow> int option" where
  "timeDurationFromComponents h mi s f_ms f_us f_ns =
     Option.bind (addCount h nsPerHour 0) (\<lambda>t1.
     Option.bind (addCount mi nsPerMinute t1) (\<lambda>t2.
     Option.bind (addCount s nsPerSecond t2) (\<lambda>t3.
     Option.bind (addCount f_ms nsPerMilli t3) (\<lambda>t4.
     Option.bind (addCount f_us nsPerMicro t4) (\<lambda>t5.
     addCount f_ns 1 t5)))))"

definition toInternal :: "(f64 \<Rightarrow> int) \<Rightarrow> durationRec \<Rightarrow> internalDuration option" where
  "toInternal toI64 d =
     map_option (\<lambda>t. newInternal
         \<lparr>ddYears = toI64 (dYears d), ddMonths = toI64 (dMonths d), ddWeeks = toI64 (dWeeks d),
          ddDays = toI64 (dDays d)\<rparr> (Some t))
       (timeDurationFromComponents (dHours d) (dMinutes d) (dSeconds d) (dMs d) (dUs d) (dNs d))"

definition toInternal24 :: "(f64 \<Rightarrow> int) \<Rightarrow> durationRec \<Rightarrow> internalDuration option" where
  "toInternal24 toI64 d =
     map_option (\<lambda>t. newInternal
         \<lparr>ddYears = toI64 (dYears d), ddMonths = toI64 (dMonths d), ddWeeks = toI64 (dWeeks d),
          ddDays = 0\<rparr> (Some (t + toI64 (dDays d) * nsPerDay)))
       (timeDurationFromComponents (dHours d) (dMinutes d) (dSeconds d) (dMs d) (dUs d) (dNs d))"

text \<open>The local function \<open>divmod\<close>: the count as a double and the remainder that \<open>n\<close> becomes.\<close>

definition divmodUnit :: "int \<Rightarrow> int \<Rightarrow> f64 \<times> int" where
  "divmodUnit n by = (f64_of_int (n sdiv by), n smod by)"

text \<open>
  \<open>durationFromInternal\<close>: each case of its switch divides by the units from the largest one down,
  so a unit is divided out exactly when the largest unit is that unit or one above it.
\<close>

definition divmodFrom :: "bool \<Rightarrow> int \<Rightarrow> int \<Rightarrow> f64 \<times> int" where
  "divmodFrom inCase by n = (if inCase then divmodUnit n by else (FInt 0, n))"

definition durationFromInternal :: "internalDuration \<Rightarrow> int \<Rightarrow> durationRec \<times> bool" where
  "durationFromInternal d largestUnit =
     (let s = FInt (sgn (idTime d));
          n0 = \<bar>idTime d\<bar>;
          cDay = (largestUnit \<in> {unitYear, unitMonth, unitWeek, unitDay});
          cHour = (cDay \<or> largestUnit = unitHour);
          cMinute = (cHour \<or> largestUnit = unitMinute);
          cSecond = (cMinute \<or> largestUnit = unitSecond);
          cMs = (cSecond \<or> largestUnit = unitMillisecond);
          cUs = (cMs \<or> largestUnit = unitMicrosecond);
          (days, n1) = divmodFrom cDay nsPerDay n0;
          (hours, n2) = divmodFrom cHour nsPerHour n1;
          (minutes, n3) = divmodFrom cMinute nsPerMinute n2;
          (seconds, n4) = divmodFrom cSecond nsPerSecond n3;
          (f_ms, n5) = divmodFrom cMs nsPerMilli n4;
          (f_us, n6) = divmodFrom cUs nsPerMicro n5;
          f_ns = f64_of_int n6;
          out = \<lparr>dYears = f64_of_int (ddYears (idDate d)), dMonths = f64_of_int (ddMonths (idDate d)),
                 dWeeks = f64_of_int (ddWeeks (idDate d)),
                 dDays = f64_add (f64_of_int (ddDays (idDate d))) (f64_mul days s),
                 dHours = f64_mul hours s, dMinutes = f64_mul minutes s,
                 dSeconds = f64_mul seconds s, dMs = f64_mul f_ms s,
                 dUs = f64_mul f_us s, dNs = f64_mul f_ns s\<rparr>
      in if \<not> isValidDuration (durationFields out) then (out, False) else (out, True))"

section \<open>Time arithmetic\<close>

definition addTimeDuration :: "int \<Rightarrow> int \<Rightarrow> int" where
  "addTimeDuration a b = a + b"

definition timeDurationFromEpochDifference :: "int \<Rightarrow> int \<Rightarrow> int" where
  "timeDurationFromEpochDifference one two = one - two"

definition roundTimeDurationToIncrement :: "int \<Rightarrow> int \<Rightarrow> string \<Rightarrow> int" where
  "roundTimeDurationToIncrement t increment mode = roundNumberToIncrement t increment mode"

text \<open>The ratio; a unit of 0, which has no fixed length, panics.\<close>

definition divideTimeDuration :: "int \<Rightarrow> int \<Rightarrow> rat option" where
  "divideTimeDuration t unitNs = (if unitNs = 0 then None else Some (of_int t / of_int unitNs))"

definition durationWithinLimits :: "durationRec \<Rightarrow> bool" where
  "durationWithinLimits d = isValidDuration (durationFields d)"

definition bigToFloat :: "int \<Rightarrow> f64" where
  "bigToFloat i = f64_of_int i"

definition dateDaysOf :: "int \<Rightarrow> int" where
  "dateDaysOf t =
     (let q = t sdiv nsPerDay
      in if \<not> (- (2 ^ 63) \<le> q \<and> q < 2 ^ 63) then 0 else q)"

section \<open>Validity, over exact counts\<close>

text \<open>The nanoseconds that the counts below a week come to.\<close>

definition exactNs :: "int \<Rightarrow> int \<Rightarrow> int \<Rightarrow> int \<Rightarrow> int \<Rightarrow> int \<Rightarrow> int \<Rightarrow> int" where
  "exactNs D h mi s f_ms f_us f_ns = D * nsPerDay + h * nsPerHour + mi * nsPerMinute +
     s * nsPerSecond + f_ms * nsPerMilli + f_us * nsPerMicro + f_ns"

definition sameSign :: "int list \<Rightarrow> bool" where
  "sameSign vs \<longleftrightarrow> (\<forall>v \<in> set vs. 0 \<le> v) \<or> (\<forall>v \<in> set vs. v \<le> 0)"

lemma signsAgree_neg: "signsAgree (map FInt vs) (- 1) \<longleftrightarrow> (\<forall>v \<in> set vs. v \<le> 0)"
  by (induction vs) (auto simp: Let_def)

lemma signsAgree_pos: "signsAgree (map FInt vs) 1 \<longleftrightarrow> (\<forall>v \<in> set vs. 0 \<le> v)"
  by (induction vs) (auto simp: Let_def)

lemma signsAgree_iff: "signsAgree (map FInt vs) 0 \<longleftrightarrow> sameSign vs"
  by (induction vs) (auto simp: Let_def sameSign_def signsAgree_neg signsAgree_pos)

lemma signsAgree_finite: "signsAgree f s \<Longrightarrow> \<exists>vs. f = map FInt vs"
proof (induction f s rule: signsAgree.induct)
  case (2 v vs sign)
  then have "\<exists>ws. vs = map FInt ws"
    by (auto simp: Let_def split: if_splits)
  then show ?case by (metis list.simps(9))
qed auto

lemma addSeconds_total:
  "addSeconds (map FInt [D, h, mi, s, f_ms, f_us, f_ns]) secondWeights 0 =
     Some (of_int (exactNs D h mi s f_ms f_us f_ns) / 1000000000)"
  by (simp add: secondWeights_def exactNs_def ns_defs field_simps)

lemma rat_limit: "\<bar>of_int n / (1000000000 :: rat)\<bar> < 2 ^ 53 \<longleftrightarrow> \<bar>n\<bar> < 2 ^ 53 * 1000000000"
proof -
  have "\<bar>of_int n / (1000000000 :: rat)\<bar> = of_int \<bar>n\<bar> / 1000000000" by simp
  also have "\<dots> < 2 ^ 53 \<longleftrightarrow> (of_int \<bar>n\<bar> :: rat) < of_int (2 ^ 53 * 1000000000)"
    by (simp add: field_simps)
  also have "\<dots> \<longleftrightarrow> \<bar>n\<bar> < 2 ^ 53 * 1000000000" by (simp only: of_int_less_iff)
  finally show ?thesis .
qed

lemma isValidDuration_iff:
  "isValidDuration (map FInt [y, mo, w, D, h, mi, s, f_ms, f_us, f_ns]) \<longleftrightarrow>
     sameSign [y, mo, w, D, h, mi, s, f_ms, f_us, f_ns] \<and>
     \<bar>y\<bar> < 2 ^ 32 \<and> \<bar>mo\<bar> < 2 ^ 32 \<and> \<bar>w\<bar> < 2 ^ 32 \<and>
     \<bar>exactNs D h mi s f_ms f_us f_ns\<bar> < 2 ^ 53 * 1000000000"
proof -
  have d: "drop 3 (map FInt [y, mo, w, D, h, mi, s, f_ms, f_us, f_ns]) =
      map FInt [D, h, mi, s, f_ms, f_us, f_ns]" by simp
  have t: "(\<exists>v \<in> set (take 3 (map FInt [y, mo, w, D, h, mi, s, f_ms, f_us, f_ns])). f64_ge (f64_abs v) (2 ^ 32))
      \<longleftrightarrow> \<not> (\<bar>y\<bar> < 2 ^ 32 \<and> \<bar>mo\<bar> < 2 ^ 32 \<and> \<bar>w\<bar> < 2 ^ 32)"
    by (auto simp: numeral_3_eq_3)
  show ?thesis
    unfolding isValidDuration_def signsAgree_iff d t addSeconds_total option.case rat_limit by auto
qed

section \<open>Spreading nanoseconds over the units\<close>

lemma divmodFrom_spec:
  assumes "0 \<le> n" "0 < by"
  shows "\<exists>q r. divmodFrom c by n = (f64_of_int q, r) \<and> n = q * by + r \<and> 0 \<le> q \<and> 0 \<le> r \<and>
    (c \<longrightarrow> r < by) \<and> (\<not> c \<longrightarrow> q = 0)"
proof (cases c)
  case True
  have "n = n div by * by + n mod by" by simp
  then show ?thesis
    using assms True by (auto simp: divmodFrom_def divmodUnit_def go_arith pos_imp_zdiv_nonneg_iff)
next
  case False
  have "f64_of_int 0 = FInt 0" by (simp add: f64_of_int_small)
  then show ?thesis using assms False by (auto simp: divmodFrom_def intro!: exI [of _ 0])
qed

text \<open>
  The counts of \<open>durationFromInternal\<close> as exact numbers: \<open>spread\<close> says that \<open>q\<close> are the counts of
  \<open>n\<close> nanoseconds with the given largest unit.
\<close>

definition spread :: "int \<Rightarrow> int \<Rightarrow> int \<Rightarrow> int \<Rightarrow> int \<Rightarrow> int \<Rightarrow> int \<Rightarrow> int \<Rightarrow> int \<Rightarrow> bool" where
  "spread lu n D h mi s f_ms f_us f_ns \<longleftrightarrow>
     n = exactNs D h mi s f_ms f_us f_ns \<and>
     0 \<le> D \<and> 0 \<le> h \<and> 0 \<le> mi \<and> 0 \<le> s \<and> 0 \<le> f_ms \<and> 0 \<le> f_us \<and> 0 \<le> f_ns \<and>
     (if lu \<le> unitDay then h < 24 else D = 0) \<and>
     (if lu \<le> unitHour then mi < 60 else h = 0) \<and>
     (if lu \<le> unitMinute then s < 60 else mi = 0) \<and>
     (if lu \<le> unitSecond then f_ms < 1000 else s = 0) \<and>
     (if lu \<le> unitMillisecond then f_us < 1000 else f_ms = 0) \<and>
     (if lu \<le> unitMicrosecond then f_ns < 1000 else f_us = 0)"

definition outOf :: "dateDuration \<Rightarrow> int \<Rightarrow> int \<Rightarrow> int \<Rightarrow> int \<Rightarrow> int \<Rightarrow> int \<Rightarrow> int \<Rightarrow> int \<Rightarrow> durationRec" where
  "outOf date sg D h mi s f_ms f_us f_ns =
     \<lparr>dYears = f64_of_int (ddYears date), dMonths = f64_of_int (ddMonths date),
      dWeeks = f64_of_int (ddWeeks date),
      dDays = f64_add (f64_of_int (ddDays date)) (f64_mul (f64_of_int D) (FInt sg)),
      dHours = f64_mul (f64_of_int h) (FInt sg), dMinutes = f64_mul (f64_of_int mi) (FInt sg),
      dSeconds = f64_mul (f64_of_int s) (FInt sg), dMs = f64_mul (f64_of_int f_ms) (FInt sg),
      dUs = f64_mul (f64_of_int f_us) (FInt sg), dNs = f64_mul (f64_of_int f_ns) (FInt sg)\<rparr>"

lemma step_below:
  assumes "n = q * u + r" "0 \<le> q" "0 \<le> r" "n < k * u" "0 < (u::int)"
  shows "q < k"
proof (rule ccontr)
  assume "\<not> q < k"
  then have "k * u \<le> q * u" using assms(5) by (simp add: mult_right_mono)
  with assms(1,3,4) show False by linarith
qed

lemma durationFromInternal_spread:
  assumes "0 \<le> lu" "lu \<le> unitNanosecond"
  shows "\<exists>D h mi s f_ms f_us f_ns. spread lu \<bar>idTime d\<bar> D h mi s f_ms f_us f_ns \<and>
    (let out = outOf (idDate d) (sgn (idTime d)) D h mi s f_ms f_us f_ns
     in durationFromInternal d lu = (out, isValidDuration (durationFields out)))"
proof -
  define n where "n = \<bar>idTime d\<bar>"
  define cD where "cD = (lu \<in> {unitYear, unitMonth, unitWeek, unitDay})"
  define cH where "cH = (cD \<or> lu = unitHour)"
  define cM where "cM = (cH \<or> lu = unitMinute)"
  define cS where "cS = (cM \<or> lu = unitSecond)"
  define cMs where "cMs = (cS \<or> lu = unitMillisecond)"
  define cUs where "cUs = (cMs \<or> lu = unitMicrosecond)"
  have c: "cD \<longleftrightarrow> lu \<le> unitDay" "cH \<longleftrightarrow> lu \<le> unitHour" "cM \<longleftrightarrow> lu \<le> unitMinute" "cS \<longleftrightarrow> lu \<le> unitSecond"
    "cMs \<longleftrightarrow> lu \<le> unitMillisecond" "cUs \<longleftrightarrow> lu \<le> unitMicrosecond"
    using assms by (auto simp: cD_def cH_def cM_def cS_def cMs_def cUs_def unit_defs)
  have n: "0 \<le> n" by (simp add: n_def)
  have pos: "0 < nsPerDay" "0 < nsPerHour" "0 < nsPerMinute" "0 < nsPerSecond" "0 < nsPerMilli" "0 < nsPerMicro"
    by (simp_all add: ns_defs)
  obtain D n1 where s1: "divmodFrom cD nsPerDay n = (f64_of_int D, n1)" "n = D * nsPerDay + n1"
    "0 \<le> D" "0 \<le> n1" "cD \<longrightarrow> n1 < nsPerDay" "\<not> cD \<longrightarrow> D = 0"
    using divmodFrom_spec [OF n pos(1), of cD] by blast
  obtain h n2 where s2: "divmodFrom cH nsPerHour n1 = (f64_of_int h, n2)" "n1 = h * nsPerHour + n2"
    "0 \<le> h" "0 \<le> n2" "cH \<longrightarrow> n2 < nsPerHour" "\<not> cH \<longrightarrow> h = 0"
    using divmodFrom_spec [OF s1(4) pos(2), of cH] by blast
  obtain mi n3 where s3: "divmodFrom cM nsPerMinute n2 = (f64_of_int mi, n3)" "n2 = mi * nsPerMinute + n3"
    "0 \<le> mi" "0 \<le> n3" "cM \<longrightarrow> n3 < nsPerMinute" "\<not> cM \<longrightarrow> mi = 0"
    using divmodFrom_spec [OF s2(4) pos(3), of cM] by blast
  obtain s n4 where s4: "divmodFrom cS nsPerSecond n3 = (f64_of_int s, n4)" "n3 = s * nsPerSecond + n4"
    "0 \<le> s" "0 \<le> n4" "cS \<longrightarrow> n4 < nsPerSecond" "\<not> cS \<longrightarrow> s = 0"
    using divmodFrom_spec [OF s3(4) pos(4), of cS] by blast
  obtain f_ms n5 where s5: "divmodFrom cMs nsPerMilli n4 = (f64_of_int f_ms, n5)" "n4 = f_ms * nsPerMilli + n5"
    "0 \<le> f_ms" "0 \<le> n5" "cMs \<longrightarrow> n5 < nsPerMilli" "\<not> cMs \<longrightarrow> f_ms = 0"
    using divmodFrom_spec [OF s4(4) pos(5), of cMs] by blast
  obtain f_us n6 where s6: "divmodFrom cUs nsPerMicro n5 = (f64_of_int f_us, n6)" "n5 = f_us * nsPerMicro + n6"
    "0 \<le> f_us" "0 \<le> n6" "cUs \<longrightarrow> n6 < nsPerMicro" "\<not> cUs \<longrightarrow> f_us = 0"
    using divmodFrom_spec [OF s5(4) pos(6), of cUs] by blast
  have b: "cD \<Longrightarrow> h < 24" "cH \<Longrightarrow> mi < 60" "cM \<Longrightarrow> s < 60" "cS \<Longrightarrow> f_ms < 1000" "cMs \<Longrightarrow> f_us < 1000"
      "cUs \<Longrightarrow> n6 < 1000"
    using step_below [OF s2(2-4) _ pos(2), of 24] step_below [OF s3(2-4) _ pos(3), of 60]
      step_below [OF s4(2-4) _ pos(4), of 60] step_below [OF s5(2-4) _ pos(5), of 1000]
      step_below [OF s6(2-4) _ pos(6), of 1000] s1(5) s2(5) s3(5) s4(5) s5(5) s6(5)
    by (simp_all add: ns_defs)
  have "spread lu n D h mi s f_ms f_us n6"
    unfolding spread_def c [symmetric] exactNs_def
    using s1 s2 s3 s4 s5 s6 b by auto
  moreover have "durationFromInternal d lu =
      (let out = outOf (idDate d) (sgn (idTime d)) D h mi s f_ms f_us n6
       in (out, isValidDuration (durationFields out)))"
    unfolding durationFromInternal_def Let_def
      cD_def [symmetric] cH_def [symmetric] cM_def [symmetric] cS_def [symmetric] cMs_def [symmetric]
      cUs_def [symmetric] n_def [symmetric] s1(1) s2(1) s3(1) s4(1) s5(1) s6(1) prod.case outOf_def [symmetric]
    by simp
  ultimately show ?thesis unfolding n_def Let_def by blast
qed

section \<open>When the counts are exact\<close>

text \<open>A count below \<open>2 ^ 53\<close> is the number it was computed from, on either side of the rounding.\<close>

lemma scaled_exact:
  assumes "f64_mul (f64_of_int q) (FInt sg) = FInt v" "sg \<in> {-1, 0, 1}" "sg = 0 \<longrightarrow> q = 0"
    and "\<bar>q\<bar> < 2 ^ 53 \<or> \<bar>v\<bar> < 2 ^ 53"
  shows "v = q * sg"
proof -
  obtain r where r: "f64_of_int q = FInt r" using assms(1,2,3)
    by (cases "f64_of_int q") (auto split: if_splits)
  have v: "f64_of_int (r * sg) = FInt v" using assms(1) r by simp
  show ?thesis
  proof (cases "\<bar>q\<bar> < 2 ^ 53")
    case True
    then have "r = q" using r f64_of_int_small by fastforce
    moreover have "\<bar>q * sg\<bar> < 2 ^ 53" using True assms(2) by auto
    ultimately show ?thesis using v f64_of_int_small [of "q * sg"] by simp
  next
    case False
    then have a: "v = r * sg" "\<bar>r * sg\<bar> < 2 ^ 53"
      using assms(4) f64_of_int_exact [OF v] by auto
    have "sg \<noteq> 0" using False assms(3) by auto
    then have "\<bar>r\<bar> < 2 ^ 53" using a(2) assms(2) by auto
    then have "r = q" using f64_of_int_exact(1) [OF r] by simp
    with a(1) show ?thesis by simp
  qed
qed

lemma scaled_small:
  assumes "\<bar>q\<bar> < 2 ^ 53" "sg \<in> {-1, 0, 1}"
  shows "f64_mul (f64_of_int q) (FInt sg) = FInt (q * sg)"
proof -
  have "\<bar>q * sg\<bar> < 2 ^ 53" using assms by auto
  then show ?thesis using assms by (simp add: f64_of_int_small)
qed

lemma scaled_large:
  assumes "f64_mul (f64_of_int q) (FInt sg) = FInt v" "sg \<in> {-1, 1}" "2 ^ 53 \<le> \<bar>q\<bar>"
  shows "2 ^ 53 \<le> \<bar>v\<bar>" "0 \<le> v * (q * sg)"
proof -
  obtain r where r: "f64_of_int q = FInt r" using assms(1,2)
    by (cases "f64_of_int q") (auto split: if_splits)
  have "r = f64_round q" using r by (simp add: f64_of_int_def split: if_splits)
  then have r2: "2 ^ 53 \<le> \<bar>r\<bar>" "0 \<le> r * q" using f64_round_large [OF assms(3)] f64_round_sign [of q] by auto
  have v: "v = f64_round (r * sg)" using assms(1) r by (simp add: f64_of_int_def split: if_splits)
  have "2 ^ 53 \<le> \<bar>r * sg\<bar>" using r2 assms(2) by auto
  then show "2 ^ 53 \<le> \<bar>v\<bar>" using f64_round_large v by blast
  have "0 \<le> v * (r * sg)" using f64_round_sign [of "r * sg"] v by simp
  with r2 show "0 \<le> v * (q * sg)" using assms(2,3) by (auto simp: zero_le_mult_iff)
qed

lemma days_exact:
  assumes "f64_add (f64_of_int dd) (f64_mul (f64_of_int q) (FInt sg)) = FInt v"
    and sg: "sg \<in> {-1, 0, 1}" "sg = 0 \<longrightarrow> q = 0" and "0 \<le> q" "0 \<le> dd * sg" "\<bar>v\<bar> < 2 ^ 53"
  shows "v = dd + q * sg"
proof -
  obtain a where a: "f64_of_int dd = FInt a"
    using assms(1) by (cases "f64_of_int dd"; cases "f64_mul (f64_of_int q) (FInt sg)") (auto split: if_splits)
  obtain b where b: "f64_mul (f64_of_int q) (FInt sg) = FInt b"
    using assms(1) a by (cases "f64_mul (f64_of_int q) (FInt sg)") auto
  have ab: "f64_of_int (a + b) = FInt v" using assms(1) a b by simp
  have v: "v = a + b" "\<bar>a + b\<bar> < 2 ^ 53" using f64_of_int_exact [OF ab assms(6)] by auto
  have ar: "a = f64_round dd" using a by (simp add: f64_of_int_def split: if_splits)
  then have as: "0 \<le> a * dd" using f64_round_sign [of dd] by simp
  show ?thesis
  proof (cases "sg = 0")
    case True
    then have q: "q = 0" using sg by simp
    then have "b = 0" using b True by (simp add: f64_of_int_small)
    then show ?thesis using v f64_of_int_exact(1) [OF a] q by simp
  next
    case False
    then have sg': "sg \<in> {-1, 1}" using sg by auto
    have bs: "0 \<le> b * (q * sg)"
      using scaled_exact [OF b sg] scaled_large(2) [OF b sg'] by (cases "\<bar>q\<bar> < 2 ^ 53") auto
    have q0: "q = 0 \<Longrightarrow> b = 0" using scaled_exact [OF b sg] by simp
    have d0: "dd = 0 \<Longrightarrow> a = 0" using ar by (simp add: f64_round_small)
    have same: "0 \<le> a * b"
      using as bs q0 d0 assms(4,5) sg' by (auto simp: zero_le_mult_iff)
    then have "\<bar>a\<bar> \<le> \<bar>a + b\<bar>" "\<bar>b\<bar> \<le> \<bar>a + b\<bar>" by (auto simp: zero_le_mult_iff)
    then have "\<bar>a\<bar> < 2 ^ 53" "\<bar>b\<bar> < 2 ^ 53" using v(2) by linarith+
    then have "a = dd" "b = q * sg"
      using f64_of_int_exact(1) [OF a] scaled_exact [OF b sg] by auto
    with v(1) show ?thesis by simp
  qed
qed

text \<open>
  Where the counts are exact: always down to seconds, because the test of the whole duration keeps
  those below \<open>2 ^ 53\<close>, and for a smaller largest unit while its own count is below \<open>2 ^ 53\<close>.
\<close>

definition exactUnit :: "int \<Rightarrow> int \<Rightarrow> bool" where
  "exactUnit lu t \<longleftrightarrow> 0 \<le> lu \<and> lu \<le> unitNanosecond \<and>
     (lu \<le> unitSecond \<or> \<bar>t\<bar> < 2 ^ 53 * nsPerUnit ! nat lu)"

lemma spread_small:
  assumes "spread lu \<bar>t\<bar> D h mi s f_ms f_us f_ns" "exactUnit lu t"
  shows "f_ms < 2 ^ 53 \<and> f_us < 2 ^ 53 \<and> f_ns < 2 ^ 53"
proof -
  have n: "\<bar>t\<bar> = exactNs D h mi s f_ms f_us f_ns" and p: "0 \<le> D" "0 \<le> h" "0 \<le> mi" "0 \<le> s" "0 \<le> f_ms" "0 \<le> f_us" "0 \<le> f_ns"
    using assms(1) by (auto simp: spread_def)
  consider "lu \<le> unitSecond" | "lu = unitMillisecond" | "lu = unitMicrosecond" | "lu = unitNanosecond"
    using assms(2) unfolding exactUnit_def unit_defs by linarith
  then show ?thesis
  proof cases
    case 1
    then show ?thesis using assms(1) by (auto simp: spread_def unit_defs)
  qed (use assms n p in \<open>auto simp: spread_def exactUnit_def unit_defs nsPerUnit_def exactNs_def ns_defs\<close>)
qed

lemma outOf_exact:
  assumes sp: "spread lu \<bar>t\<bar> D h mi s f_ms f_us f_ns" and ex: "exactUnit lu t"
    and days: "0 \<le> ddDays date * t"
    and valid: "isValidDuration (durationFields (outOf date (sgn t) D h mi s f_ms f_us f_ns))"
  shows "durationFields (outOf date (sgn t) D h mi s f_ms f_us f_ns) =
    map FInt [ddYears date, ddMonths date, ddWeeks date, ddDays date + D * sgn t, h * sgn t, mi * sgn t,
      s * sgn t, f_ms * sgn t, f_us * sgn t, f_ns * sgn t]"
proof -
  let ?out = "outOf date (sgn t) D h mi s f_ms f_us f_ns"
  have "signsAgree (durationFields ?out) 0" using valid by (simp add: isValidDuration_def split: if_splits)
  then obtain vs where vs: "durationFields ?out = map FInt vs" using signsAgree_finite by blast
  have "length (durationFields ?out) = 10" by (simp add: durationFields_def)
  then have "length vs = 10" unfolding vs by simp
  then obtain y mo w D' h' mi' s' ms' us' ns' where e: "vs = [y, mo, w, D', h', mi', s', ms', us', ns']"
    by (auto simp: eval_nat_numeral length_Suc_conv)
  note f = vs [unfolded e durationFields_def outOf_def durationRec.simps, simplified]
  have v: "sameSign [y, mo, w, D', h', mi', s', ms', us', ns']" "\<bar>y\<bar> < 2 ^ 32" "\<bar>mo\<bar> < 2 ^ 32" "\<bar>w\<bar> < 2 ^ 32"
      "\<bar>exactNs D' h' mi' s' ms' us' ns'\<bar> < 2 ^ 53 * 1000000000"
    using valid unfolding vs e isValidDuration_iff by auto
  have sg: "sgn t \<in> {-1, 0, 1}" by (auto simp: sgn_if)
  have n: "\<bar>t\<bar> = exactNs D h mi s f_ms f_us f_ns" and p: "0 \<le> D" "0 \<le> h" "0 \<le> mi" "0 \<le> s" "0 \<le> f_ms" "0 \<le> f_us" "0 \<le> f_ns"
    using sp by (auto simp: spread_def)
  have z: "sgn t = 0 \<longrightarrow> D = 0 \<and> h = 0 \<and> mi = 0 \<and> s = 0 \<and> f_ms = 0 \<and> f_us = 0 \<and> f_ns = 0"
    using n p by (auto simp: sgn_if exactNs_def ns_defs)
  have b: "\<bar>D'\<bar> < 2 ^ 53" "\<bar>h'\<bar> < 2 ^ 53" "\<bar>mi'\<bar> < 2 ^ 53" "\<bar>s'\<bar> < 2 ^ 53"
    using v(1,5) by (auto simp: sameSign_def exactNs_def ns_defs)
  have small: "\<bar>f_ms\<bar> < 2 ^ 53" "\<bar>f_us\<bar> < 2 ^ 53" "\<bar>f_ns\<bar> < 2 ^ 53"
    using spread_small [OF sp ex] p by auto
  have "y = ddYears date" "mo = ddMonths date" "w = ddWeeks date"
    using f v(2-4) f64_of_int_exact(1) by force+
  moreover have "D' = ddDays date + D * sgn t"
    by (rule days_exact) (use f sg z p b days in \<open>auto simp: sgn_if zero_le_mult_iff\<close>)
  moreover have eqs: "f64_mul (f64_of_int h) (FInt (sgn t)) = FInt h'"
      "f64_mul (f64_of_int mi) (FInt (sgn t)) = FInt mi'" "f64_mul (f64_of_int s) (FInt (sgn t)) = FInt s'"
      "f64_mul (f64_of_int f_ms) (FInt (sgn t)) = FInt ms'" "f64_mul (f64_of_int f_us) (FInt (sgn t)) = FInt us'"
      "f64_mul (f64_of_int f_ns) (FInt (sgn t)) = FInt ns'" using f by simp_all
  moreover have "h' = h * sgn t" "mi' = mi * sgn t" "s' = s * sgn t"
    using z b scaled_exact [OF eqs(1) sg] scaled_exact [OF eqs(2) sg] scaled_exact [OF eqs(3) sg] by simp_all
  moreover have "ms' = f_ms * sgn t" "us' = f_us * sgn t" "ns' = f_ns * sgn t"
    using z small scaled_exact [OF eqs(4) sg] scaled_exact [OF eqs(5) sg] scaled_exact [OF eqs(6) sg] by simp_all
  ultimately show ?thesis unfolding vs e by simp
qed

lemma outOf_small:
  assumes sp: "spread lu \<bar>t\<bar> D h mi s f_ms f_us f_ns" and ex: "exactUnit lu t"
    and signs: "sameSign [ddDays date, t]"
    and small: "\<bar>ddYears date\<bar> < 2 ^ 32" "\<bar>ddMonths date\<bar> < 2 ^ 32" "\<bar>ddWeeks date\<bar> < 2 ^ 32"
    and lim: "\<bar>ddDays date * nsPerDay + t\<bar> < 2 ^ 53 * 1000000000"
  shows "durationFields (outOf date (sgn t) D h mi s f_ms f_us f_ns) =
    map FInt [ddYears date, ddMonths date, ddWeeks date, ddDays date + D * sgn t, h * sgn t, mi * sgn t,
      s * sgn t, f_ms * sgn t, f_us * sgn t, f_ns * sgn t]"
proof -
  have sg: "sgn t \<in> {-1, 0, 1}" by (auto simp: sgn_if)
  have n: "\<bar>t\<bar> = exactNs D h mi s f_ms f_us f_ns" and p: "0 \<le> D" "0 \<le> h" "0 \<le> mi" "0 \<le> s" "0 \<le> f_ms" "0 \<le> f_us" "0 \<le> f_ns"
    using sp by (auto simp: spread_def)
  have t: "\<bar>ddDays date\<bar> * nsPerDay + \<bar>t\<bar> < 2 ^ 53 * 1000000000"
    using lim signs by (auto simp: sameSign_def ns_defs)
  have b: "\<bar>ddDays date\<bar> + D < 2 ^ 53" "h < 2 ^ 53" "mi < 2 ^ 53" "s < 2 ^ 53"
    using t p unfolding n by (auto simp: exactNs_def ns_defs)
  have c: "\<bar>D\<bar> < 2 ^ 53" "\<bar>h\<bar> < 2 ^ 53" "\<bar>mi\<bar> < 2 ^ 53" "\<bar>s\<bar> < 2 ^ 53" "\<bar>f_ms\<bar> < 2 ^ 53" "\<bar>f_us\<bar> < 2 ^ 53"
      "\<bar>f_ns\<bar> < 2 ^ 53" "\<bar>ddDays date\<bar> < 2 ^ 53"
    using b p spread_small [OF sp ex] by auto
  have dd: "\<bar>ddDays date + D * sgn t\<bar> < 2 ^ 53" using b(1) sg p(1) by auto
  have y: "f64_of_int (ddYears date) = FInt (ddYears date)" "f64_of_int (ddMonths date) = FInt (ddMonths date)"
      "f64_of_int (ddWeeks date) = FInt (ddWeeks date)" "f64_of_int (ddDays date) = FInt (ddDays date)"
    using small c(8) by (simp_all add: f64_of_int_small)
  show ?thesis
    unfolding durationFields_def outOf_def durationRec.simps c(1-7) [THEN scaled_small, OF sg] list.map y
      f64_add.simps f64_of_int_small [OF dd] ..
qed

text \<open>
  Going through the counts and back is folding the days into the time, which is all that the
  counts forget.
\<close>

definition fold24 :: "internalDuration \<Rightarrow> internalDuration" where
  "fold24 d = \<lparr>idDate = (idDate d)\<lparr>ddDays := 0\<rparr>, idTime = idTime d + ddDays (idDate d) * nsPerDay\<rparr>"

lemma timeDuration_exact:
  "timeDurationFromComponents (FInt h) (FInt mi) (FInt s) (FInt f_ms) (FInt f_us) (FInt f_ns) =
     Some (exactNs 0 h mi s f_ms f_us f_ns)"
  by (simp add: timeDurationFromComponents_def addCount_def exactNs_def)

lemma exactNs_scale: "exactNs (a + D * g) (h * g) (mi * g) (s * g) (f_ms * g) (f_us * g) (f_ns * g) =
    a * nsPerDay + exactNs D h mi s f_ms f_us f_ns * g"
  by (simp add: exactNs_def algebra_simps)

lemma durationFields_eq:
  "durationFields d = [a, b, c, e, f, g, h, i, j, k] \<longleftrightarrow>
     d = \<lparr>dYears = a, dMonths = b, dWeeks = c, dDays = e, dHours = f, dMinutes = g, dSeconds = h,
          dMs = i, dUs = j, dNs = k\<rparr>"
  by (cases d) (auto simp: durationFields_def)

lemma durationFromInternal_fold:
  assumes "keepsInt64 toI64" "exactUnit lu (idTime d)" "0 \<le> ddDays (idDate d) * idTime d"
    and "durationFromInternal d lu = (out, True)"
  shows "toInternal24 toI64 out = Some (fold24 d)"
proof -
  have "0 \<le> lu" "lu \<le> unitNanosecond" using assms(2) by (auto simp: exactUnit_def)
  then obtain D h mi s f_ms f_us f_ns where sp: "spread lu \<bar>idTime d\<bar> D h mi s f_ms f_us f_ns"
    and o: "durationFromInternal d lu = (outOf (idDate d) (sgn (idTime d)) D h mi s f_ms f_us f_ns,
      isValidDuration (durationFields (outOf (idDate d) (sgn (idTime d)) D h mi s f_ms f_us f_ns)))"
    using durationFromInternal_spread [of lu d] by (auto simp: Let_def)
  have out: "out = outOf (idDate d) (sgn (idTime d)) D h mi s f_ms f_us f_ns" and v: "isValidDuration (durationFields out)"
    using o assms(4) by auto
  note fs = outOf_exact [OF sp assms(2,3) v [unfolded out]]
  let ?g = "sgn (idTime d)"
  have w: "\<bar>ddYears (idDate d)\<bar> < 2 ^ 32" "\<bar>ddMonths (idDate d)\<bar> < 2 ^ 32" "\<bar>ddWeeks (idDate d)\<bar> < 2 ^ 32"
      "sameSign [ddYears (idDate d), ddMonths (idDate d), ddWeeks (idDate d), ddDays (idDate d) + D * ?g, h * ?g, mi * ?g,
        s * ?g, f_ms * ?g, f_us * ?g, f_ns * ?g]"
      "\<bar>exactNs (ddDays (idDate d) + D * ?g) (h * ?g) (mi * ?g) (s * ?g) (f_ms * ?g) (f_us * ?g) (f_ns * ?g)\<bar> < 2 ^ 53 * 1000000000"
    using v unfolding out fs isValidDuration_iff by auto
  have "\<bar>ddDays (idDate d) + D * ?g\<bar> < 2 ^ 53"
    using w(4,5) by (auto simp: sameSign_def exactNs_def ns_defs)
  then have k: "toI64 (FInt (ddYears (idDate d))) = ddYears (idDate d)" "toI64 (FInt (ddMonths (idDate d))) = ddMonths (idDate d)"
      "toI64 (FInt (ddWeeks (idDate d))) = ddWeeks (idDate d)"
      "toI64 (FInt (ddDays (idDate d) + D * ?g)) = ddDays (idDate d) + D * ?g"
    using w(1-3) by (auto intro!: keepsInt64D [OF assms(1)])
  have e: "exactNs D h mi s f_ms f_us f_ns * ?g = idTime d"
    using sp abs_mult_sgn [of "idTime d"] by (simp add: spread_def)
  have "exactNs 0 (h * ?g) (mi * ?g) (s * ?g) (f_ms * ?g) (f_us * ?g) (f_ns * ?g) + (ddDays (idDate d) + D * ?g) * nsPerDay
      = idTime d + ddDays (idDate d) * nsPerDay"
    using e by (simp add: exactNs_def algebra_simps)
  then show ?thesis
    using out fs k by (simp add: durationFields_eq toInternal24_def timeDuration_exact newInternal_def fold24_def)
qed

lemma durationFromFields_durationFields [simp]: "durationFromFields (durationFields d) = d"
  by (simp add: durationFromFields_def durationFields_def)

lemma durationFromInternal_valid:
  assumes ex: "exactUnit lu (idTime d)"
    and signs: "sameSign [ddYears (idDate d), ddMonths (idDate d), ddWeeks (idDate d), ddDays (idDate d), idTime d]"
    and small: "\<bar>ddYears (idDate d)\<bar> < 2 ^ 32" "\<bar>ddMonths (idDate d)\<bar> < 2 ^ 32" "\<bar>ddWeeks (idDate d)\<bar> < 2 ^ 32"
    and lim: "\<bar>ddDays (idDate d) * nsPerDay + idTime d\<bar> < 2 ^ 53 * 1000000000"
  shows "\<exists>D h mi s f_ms f_us f_ns. spread lu \<bar>idTime d\<bar> D h mi s f_ms f_us f_ns \<and>
    durationFromInternal d lu = (durationFromFields (map FInt
      [ddYears (idDate d), ddMonths (idDate d), ddWeeks (idDate d), ddDays (idDate d) + D * sgn (idTime d),
       h * sgn (idTime d), mi * sgn (idTime d), s * sgn (idTime d), f_ms * sgn (idTime d),
       f_us * sgn (idTime d), f_ns * sgn (idTime d)]), True)"
proof -
  let ?g = "sgn (idTime d)"
  have "0 \<le> lu" "lu \<le> unitNanosecond" using ex by (auto simp: exactUnit_def)
  then obtain D h mi s f_ms f_us f_ns where sp: "spread lu \<bar>idTime d\<bar> D h mi s f_ms f_us f_ns"
    and o: "durationFromInternal d lu = (outOf (idDate d) ?g D h mi s f_ms f_us f_ns,
      isValidDuration (durationFields (outOf (idDate d) ?g D h mi s f_ms f_us f_ns)))"
    using durationFromInternal_spread [of lu d] by (auto simp: Let_def)
  have "sameSign [ddDays (idDate d), idTime d]" using signs by (auto simp: sameSign_def)
  note fs = outOf_small [OF sp ex this small lim]
  have p: "0 \<le> D" "0 \<le> h" "0 \<le> mi" "0 \<le> s" "0 \<le> f_ms" "0 \<le> f_us" "0 \<le> f_ns"
    and n: "\<bar>idTime d\<bar> = exactNs D h mi s f_ms f_us f_ns"
    using sp by (auto simp: spread_def)
  have "sameSign [ddYears (idDate d), ddMonths (idDate d), ddWeeks (idDate d), ddDays (idDate d) + D * ?g,
      h * ?g, mi * ?g, s * ?g, f_ms * ?g, f_us * ?g, f_ns * ?g]"
    using signs p by (cases "idTime d" "0 :: int" rule: linorder_cases) (auto simp: sameSign_def)
  moreover have "exactNs (ddDays (idDate d) + D * ?g) (h * ?g) (mi * ?g) (s * ?g) (f_ms * ?g) (f_us * ?g) (f_ns * ?g) =
      ddDays (idDate d) * nsPerDay + idTime d"
    using n abs_mult_sgn [of "idTime d"] by (simp add: exactNs_scale)
  ultimately have v: "isValidDuration (durationFields (outOf (idDate d) ?g D h mi s f_ms f_us f_ns))"
    unfolding fs isValidDuration_iff using small lim by simp
  have "outOf (idDate d) ?g D h mi s f_ms f_us f_ns = durationFromFields (durationFields (outOf (idDate d) ?g D h mi s f_ms f_us f_ns))"
    by simp
  then show ?thesis using sp o v unfolding fs by metis
qed

end
