(* ===== verification/Temporal_Parse.thy ===== *)
theory Temporal_Parse
  imports Temporal_Duration Calendar_For
begin

text \<open>
  Reading and writing the Temporal strings (\<open>internal/engine/temporal_parse.go\<close>, and
  \<open>canonicalCalendarID\<close> with what it calls). The state of the parser is the source's: the string
  and the index of the next byte. A production that fails is None, with the state it leaves behind,
  since the callers go on from there. A string is a list of bytes. The generated table of calendar
  aliases is the argument \<open>alias\<close> of the definitions that look a calendar up.
\<close>

section \<open>The cursor\<close>

record tparse =
  tpS :: string
  tpI :: nat

record temporalParse =
  rHasDate :: bool
  rYear :: int
  rMonth :: int
  rDay :: int
  rYearAbsent :: bool
  rDayAbsent :: bool
  rHasTime :: bool
  rTime :: isoTimeRec
  rZ :: bool
  rHasOffset :: bool
  rOffsetNs :: int
  rOffsetStr :: string
  rHasTZ :: bool
  rTzName :: string
  rCalendar :: string

definition noParse :: temporalParse where
  "noParse = \<lparr>rHasDate = False, rYear = 0, rMonth = 0, rDay = 0, rYearAbsent = False, rDayAbsent = False,
     rHasTime = False, rTime = midnightTime, rZ = False, rHasOffset = False, rOffsetNs = 0,
     rOffsetStr = '''', rHasTZ = False, rTzName = '''', rCalendar = ''''\<rparr>"

definition newTparse :: "string \<Rightarrow> tparse" where
  "newTparse s = \<lparr>tpS = s, tpI = 0\<rparr>"

definition eof :: "tparse \<Rightarrow> bool" where
  "eof p \<longleftrightarrow> length (tpS p) \<le> tpI p"

definition peek :: "tparse \<Rightarrow> char" where
  "peek p = (if eof p then CHR 0x00 else tpS p ! tpI p)"

definition peekAt :: "nat \<Rightarrow> tparse \<Rightarrow> char" where
  "peekAt off p = (if length (tpS p) \<le> tpI p + off then CHR 0x00 else tpS p ! (tpI p + off))"

definition skip :: "nat \<Rightarrow> tparse \<Rightarrow> tparse" where
  "skip n p = p\<lparr>tpI := tpI p + n\<rparr>"

definition accept :: "char \<Rightarrow> tparse \<Rightarrow> bool \<times> tparse" where
  "accept b p = (if peek p = b then (True, skip 1 p) else (False, p))"

text \<open>The text between an earlier index and the cursor, \<open>p.s[start:p.i]\<close>.\<close>

definition textFrom :: "nat \<Rightarrow> tparse \<Rightarrow> string" where
  "textFrom start p = take (tpI p - start) (drop start (tpS p))"

fun digitsLoop :: "string \<Rightarrow> nat \<Rightarrow> nat \<Rightarrow> int \<Rightarrow> int option" where
  "digitsLoop s i 0 v = Some v"
| "digitsLoop s i (Suc n) v =
     (let b = s ! i
      in if \<not> is_digit b then None else digitsLoop s (i + 1) n (v * 10 + int (digit_val b)))"

definition digits :: "nat \<Rightarrow> tparse \<Rightarrow> int option \<times> tparse" where
  "digits n p =
     (if length (tpS p) < tpI p + n then (None, p)
      else case digitsLoop (tpS p) (tpI p) n 0 of
             None \<Rightarrow> (None, p)
           | Some v \<Rightarrow> (Some v, skip n p))"

text \<open>The loops \<open>for !p.eof() && P(p.peek()) { p.i++ }\<close>.\<close>

function skipWhile :: "(char \<Rightarrow> bool) \<Rightarrow> tparse \<Rightarrow> tparse" where
  "skipWhile P p = (if \<not> eof p \<and> P (peek p) then skipWhile P (skip 1 p) else p)"
  by pat_completeness auto
termination
  by (relation "measure (\<lambda>(P, p). length (tpS p) - tpI p)") (auto simp: eof_def skip_def)

declare skipWhile.simps [simp del]

section \<open>The pieces\<close>

definition signHere :: "tparse \<Rightarrow> int option \<times> tparse" where
  "signHere p =
     (case accept CHR ''+'' p of
        (True, p1) \<Rightarrow> (Some 1, p1)
      | (False, p1) \<Rightarrow>
          (case accept CHR ''-'' p1 of
             (True, p2) \<Rightarrow> (Some (- 1), p2)
           | (False, p2) \<Rightarrow> (None, p2)))"

definition parseYear :: "tparse \<Rightarrow> int option \<times> tparse" where
  "parseYear p =
     (case signHere p of
        (Some sign, p1) \<Rightarrow>
          (case digits 6 p1 of
             (None, p2) \<Rightarrow> (None, p)
           | (Some v, p2) \<Rightarrow> if sign < 0 \<and> v = 0 then (None, p) else (Some (sign * v), p2))
      | (None, p1) \<Rightarrow>
          (case digits 4 p1 of
             (None, p2) \<Rightarrow> (None, p)
           | (Some v, p2) \<Rightarrow> (Some v, p2)))"

definition parseDate :: "tparse \<Rightarrow> (int \<times> int \<times> int) option \<times> tparse" where
  "parseDate p =
     (case parseYear p of
        (None, p1) \<Rightarrow> (None, p1)
      | (Some y, p1) \<Rightarrow>
          (case accept CHR ''-'' p1 of (dash, p2) \<Rightarrow>
          (case digits 2 p2 of
             (None, p3) \<Rightarrow> (None, p)
           | (Some m, p3) \<Rightarrow>
               (case accept CHR ''-'' p3 of (dash2, p4) \<Rightarrow>
                if dash \<noteq> dash2 then (None, p)
                else (case digits 2 p4 of
                        (None, p5) \<Rightarrow> (None, p)
                      | (Some d, p5) \<Rightarrow> (Some (y, m, d), p5))))))"

text \<open>The digits of a fraction, nine at most, one per step.\<close>

fun fractionLoop :: "nat \<Rightarrow> string \<Rightarrow> tparse \<Rightarrow> string \<times> tparse" where
  "fractionLoop 0 ds p = (ds, p)"
| "fractionLoop (Suc n) ds p =
     (if \<not> eof p \<and> is_digit (peek p) then fractionLoop n (ds @ [peek p]) (skip 1 p) else (ds, p))"

definition fraction :: "tparse \<Rightarrow> int option \<times> tparse" where
  "fraction p =
     (if peek p \<noteq> CHR ''.'' \<and> peek p \<noteq> CHR '','' then (None, p)
      else if \<not> is_digit (peekAt 1 p) then (None, p)
      else case fractionLoop 9 '''' (skip 1 p) of
             (ds, p1) \<Rightarrow>
               if \<not> eof p1 \<and> is_digit (peek p1) then (None, p1)
               else (case atoi (ds @ replicate (9 - length ds) CHR ''0'') of
                       Some v \<Rightarrow> (Some v, p1)
                     | None \<Rightarrow> (Some 0, p1)))"

text \<open>\<open>timeSpec\<close>: the time, how many of its units were given, and whether colons were used.\<close>

definition timeSpec :: "tparse \<Rightarrow> (isoTimeRec \<times> int \<times> bool) option \<times> tparse" where
  "timeSpec p =
     (case digits 2 p of
        (None, p1) \<Rightarrow> (None, p)
      | (Some h, p1) \<Rightarrow>
          if 23 < h then (None, p)
          else let t = midnightTime\<lparr>hour := h\<rparr>
          in if eof p1 then (Some (t, 1, False), p1)
          else (case accept CHR '':'' p1 of (colon, p2) \<Rightarrow>
          (case digits 2 p2 of
             (None, p3) \<Rightarrow> if colon then (None, p) else (Some (t, 1, colon), p3)
           | (Some mi, p3) \<Rightarrow>
               if 59 < mi then (None, p)
               else let t = t\<lparr>minute := mi\<rparr>
               in (case accept CHR '':'' p3 of (colon2, p4) \<Rightarrow>
                   if colon \<noteq> colon2 then (Some (t, 2, colon), p4)
                   else (case digits 2 p4 of
                      (None, p5) \<Rightarrow> if colon then (None, p) else (Some (t, 2, colon), p5)
                    | (Some s, p5) \<Rightarrow>
                        if 60 < s then (None, p)
                        else let t = t\<lparr>second := s\<rparr>
                        in (case fraction p5 of
                              (Some n, p6) \<Rightarrow>
                                (Some (t\<lparr>ms := n sdiv nsPerMilli, us := (n sdiv nsPerMicro) smod 1000,
                                        ns := n smod 1000\<rparr>, 3, colon), p6)
                            | (None, p6) \<Rightarrow> (Some (t, 3, colon), p6)))))))"

definition utcOffset :: "bool \<Rightarrow> tparse \<Rightarrow> (int \<times> string) option \<times> tparse" where
  "utcOffset subMinute p =
     (let start = tpI p in
      case signHere p of
        (None, p0) \<Rightarrow> (None, p0)
      | (Some sign, p0) \<Rightarrow>
      (case digits 2 p0 of
        (None, p1) \<Rightarrow> (None, p)
      | (Some h, p1) \<Rightarrow>
          if 23 < h then (None, p)
          else let n = h * nsPerHour
          in if eof p1 then (Some (sign * n, textFrom start p1), p1)
          else (case accept CHR '':'' p1 of (colon, p2) \<Rightarrow>
          (case digits 2 p2 of
             (None, p3) \<Rightarrow> if colon then (None, p) else (Some (sign * n, textFrom start p3), p3)
           | (Some mi, p3) \<Rightarrow>
               if 59 < mi then (None, p)
               else let n = n + mi * nsPerMinute
               in (case accept CHR '':'' p3 of (colon2, p4) \<Rightarrow>
                   if colon \<noteq> colon2 then (Some (sign * n, textFrom start p4), p4)
                   else (case digits 2 p4 of
                      (None, p5) \<Rightarrow>
                        if colon then (None, p) else (Some (sign * n, textFrom start p5), p5)
                    | (Some s, p5) \<Rightarrow>
                        if \<not> subMinute \<or> 59 < s then (None, p)
                        else let n = n + s * nsPerSecond
                        in (case fraction p5 of
                              (Some f, p6) \<Rightarrow> (Some (sign * (n + f), textFrom start p6), p6)
                            | (None, p6) \<Rightarrow> (Some (sign * n, textFrom start p6), p6))))))))"

section \<open>The bracketed parts\<close>

definition isUpper :: "char \<Rightarrow> bool" where
  "isUpper b \<longleftrightarrow> 65 \<le> (of_char b :: nat) \<and> (of_char b :: nat) \<le> 90"

definition isLower :: "char \<Rightarrow> bool" where
  "isLower b \<longleftrightarrow> 97 \<le> (of_char b :: nat) \<and> (of_char b :: nat) \<le> 122"

definition isAlnum :: "char \<Rightarrow> bool" where
  "isAlnum c \<longleftrightarrow> is_digit c \<or> isLower c \<or> isUpper c"

definition isTZChar :: "char \<Rightarrow> bool" where
  "isTZChar b \<longleftrightarrow> isUpper b \<or> isLower b \<or> is_digit b \<or>
     b = CHR ''.'' \<or> b = CHR ''_'' \<or> b = CHR ''-'' \<or> b = CHR ''+''"

definition isTZLead :: "char \<Rightarrow> bool" where
  "isTZLead b \<longleftrightarrow> isUpper b \<or> isLower b \<or> b = CHR ''.'' \<or> b = CHR ''_''"

text \<open>
  \<open>adv p p'\<close>: the same string, and a cursor further on but still inside it. Every production keeps to
  it; the loops over components end by it.
\<close>

definition adv :: "tparse \<Rightarrow> tparse \<Rightarrow> bool" where
  "adv p p' \<longleftrightarrow> tpS p' = tpS p \<and> tpI p \<le> tpI p' \<and> (tpI p \<le> length (tpS p) \<longrightarrow> tpI p' \<le> length (tpS p))"

lemma skip_tpI [simp]: "tpI (skip n p) = tpI p + n" "tpS (skip n p) = tpS p"
  by (simp_all add: skip_def)

lemma adv_refl [simp]: "adv p p"
  by (simp add: adv_def)

lemma adv_trans [trans]: "adv p q \<Longrightarrow> adv q r \<Longrightarrow> adv p r"
  by (auto simp: adv_def)

lemma peek_not_eof: "peek p \<noteq> CHR 0x00 \<Longrightarrow> \<not> eof p"
  by (auto simp: peek_def)

lemma adv_skip: "\<not> eof p \<Longrightarrow> adv p (skip 1 p)"
  by (auto simp: adv_def eof_def)

lemma accept_adv: "accept b p = (r, p') \<Longrightarrow> b \<noteq> CHR 0x00 \<Longrightarrow>
    adv p p' \<and> (r \<longrightarrow> tpI p' = tpI p + 1 \<and> \<not> eof p) \<and> (\<not> r \<longrightarrow> p' = p)"
  using peek_not_eof [of p] adv_skip [of p] by (auto simp: accept_def split: if_splits)

lemma skipWhile_adv: "adv p (skipWhile P p)"
proof (induction P p rule: skipWhile.induct)
  case (1 P p)
  show ?case
  proof (cases "\<not> eof p \<and> P (peek p)")
    case True
    then show ?thesis using 1 adv_skip adv_trans by (subst skipWhile.simps) auto
  next
    case False
    then show ?thesis using skipWhile.simps [of P p] by auto
  qed
qed

function ianaLoop :: "tparse \<Rightarrow> tparse option" where
  "ianaLoop p =
     (if \<not> isTZLead (peek p) then None
      else let p1 = skipWhile isTZChar (skip 1 p);
               comp = textFrom (tpI p) p1
           in if comp = ''.'' \<or> comp = ''..'' \<or> 14 < length comp then None
              else (case accept CHR ''/'' p1 of
                      (True, p2) \<Rightarrow> ianaLoop p2
                    | (False, p2) \<Rightarrow> Some p2))"
  by pat_completeness auto
termination
proof (relation "measure (\<lambda>p. length (tpS p) - tpI p)", goal_cases)
  case (2 p p1 comp ac p2)
  have "\<not> eof p" using 2(1) by (auto simp: peek_def isTZLead_def isUpper_def isLower_def)
  moreover have "tpS p2 = tpS p" "tpI p < tpI p2"
    using accept_adv [of "CHR ''/''" p1 True p2] skipWhile_adv [of "skip 1 p" isTZChar] 2 by (auto simp: adv_def)
  ultimately show ?case by (auto simp: eof_def)
qed simp

declare ianaLoop.simps [simp del]

definition ianaName :: "tparse \<Rightarrow> string option \<times> tparse" where
  "ianaName p =
     (case ianaLoop p of None \<Rightarrow> (None, p) | Some p1 \<Rightarrow> (Some (textFrom (tpI p) p1), p1))"

definition timeZoneAnnotation :: "tparse \<Rightarrow> string option \<times> tparse" where
  "timeZoneAnnotation p =
     (if peek p \<noteq> CHR ''['' then (None, p)
      else let p1 = snd (accept CHR ''!'' (skip 1 p))
      in case utcOffset False p1 of
           (Some (n, txt), p2) \<Rightarrow>
             (case accept CHR '']'' p2 of (True, p3) \<Rightarrow> (Some txt, p3) | (False, p3) \<Rightarrow> (None, p))
         | (None, p2) \<Rightarrow>
             (case ianaName p2 of
                (None, p3) \<Rightarrow> (None, p)
              | (Some name, p3) \<Rightarrow>
                  (case accept CHR '']'' p3 of (True, p4) \<Rightarrow> (Some name, p4) | (False, p4) \<Rightarrow> (None, p))))"

definition isAnnotationKeyLead :: "char \<Rightarrow> bool" where
  "isAnnotationKeyLead b \<longleftrightarrow> isLower b \<or> b = CHR ''_''"

definition isAnnotationKeyChar :: "char \<Rightarrow> bool" where
  "isAnnotationKeyChar b \<longleftrightarrow> isAnnotationKeyLead b \<or> is_digit b \<or> b = CHR ''-''"

text \<open>The value of an annotation: groups of letters and digits with hyphens between.\<close>

function annotationValue :: "tparse \<Rightarrow> tparse option" where
  "annotationValue p =
     (let p1 = skipWhile isAlnum p
      in if tpI p1 = tpI p then None
         else (case accept CHR ''-'' p1 of
                 (True, p2) \<Rightarrow> annotationValue p2
               | (False, p2) \<Rightarrow> Some p2))"
  by pat_completeness auto
termination
proof (relation "measure (\<lambda>p. length (tpS p) - tpI p)", goal_cases)
  case (2 p p1 ac p2)
  have "\<not> eof p1" using 2 by (auto simp: accept_def peek_def split: if_splits)
  moreover have "tpS p2 = tpS p" "tpI p < tpI p2" "tpS p1 = tpS p" "tpI p \<le> tpI p1"
    using accept_adv [of "CHR ''-''" p1 True p2] skipWhile_adv [of p isAlnum] 2 by (auto simp: adv_def)
  ultimately show ?case by (auto simp: eof_def)
qed simp

declare annotationValue.simps [simp del]

text \<open>
  One annotation, from its bracket to the one that closes it: whether it is critical, its key and
  its value. The loop of \<open>annotations\<close> reads one per turn.
\<close>

definition annotation :: "tparse \<Rightarrow> (bool \<times> string \<times> string) option \<times> tparse" where
  "annotation p =
     (case accept CHR ''!'' (skip 1 p) of (critical, p1) \<Rightarrow>
      if \<not> isAnnotationKeyLead (peek p1) then (None, p)
      else let p2 = skipWhile isAnnotationKeyChar (skip 1 p1); key = textFrom (tpI p1) p2
      in case accept CHR ''='' p2 of
           (False, p3) \<Rightarrow> (None, p)
         | (True, p3) \<Rightarrow>
             (case annotationValue p3 of
                None \<Rightarrow> (None, p)
              | Some p4 \<Rightarrow>
                  (case accept CHR '']'' p4 of
                     (False, p5) \<Rightarrow> (None, p)
                   | (True, p5) \<Rightarrow> (Some (critical, key, textFrom (tpI p3) p4), p5))))"

lemma annotationValue_adv: "annotationValue p = Some p' \<Longrightarrow> adv p p'"
proof (induction p arbitrary: p' rule: annotationValue.induct)
  case (1 p)
  obtain r p2 where a: "accept CHR ''-'' (skipWhile isAlnum p) = (r, p2)" by (cases "accept CHR ''-'' (skipWhile isAlnum p)")
  have "adv (skipWhile isAlnum p) p2" using accept_adv [OF a] by simp
  then have b: "adv p p2" using skipWhile_adv adv_trans by blast
  show ?case
  proof (cases r)
    case True
    then have "annotationValue p2 = Some p'" "tpI (skipWhile isAlnum p) \<noteq> tpI p"
      using "1.prems" a by (auto simp: annotationValue.simps [of p] Let_def split: if_splits)
    then show ?thesis using "1.IH" [OF refl _ a [symmetric]] True b adv_trans by blast
  next
    case False
    then show ?thesis
      using "1.prems" a b by (auto simp: annotationValue.simps [of p] Let_def split: if_splits)
  qed
qed

lemma annotation_adv:
  assumes "annotation p = (Some r, p')" "\<not> eof p"
  shows "adv p p' \<and> tpI p < tpI p'"
proof -
  obtain c p1 where 1: "accept CHR ''!'' (skip 1 p) = (c, p1)" by fastforce
  have l: "isAnnotationKeyLead (peek p1)" using assms(1) 1 by (auto simp: annotation_def split: if_splits)
  define p2 where "p2 = skipWhile isAnnotationKeyChar (skip 1 p1)"
  obtain p3 where 3: "accept CHR ''='' p2 = (True, p3)"
    using assms(1) 1 l by (auto simp: annotation_def Let_def p2_def split: prod.splits bool.splits)
  obtain p4 where 4: "annotationValue p3 = Some p4"
    using assms(1) 1 l 3 by (auto simp: annotation_def Let_def p2_def split: prod.splits bool.splits option.splits)
  have 5: "accept CHR '']'' p4 = (True, p')"
    using assms(1) 1 l 3 4 by (auto simp: annotation_def Let_def p2_def split: prod.splits bool.splits option.splits)
  have "peek p1 \<noteq> CHR 0x00" using l by (auto simp: isAnnotationKeyLead_def isLower_def)
  then have "adv p1 (skip 1 p1)" using adv_skip peek_not_eof by blast
  moreover have "adv (skip 1 p) p1" "adv p2 p3" "adv p3 p4" "adv p4 p'" "adv p (skip 1 p)"
    using accept_adv [OF 1] accept_adv [OF 3] annotationValue_adv [OF 4] accept_adv [OF 5] adv_skip [OF assms(2)] by auto
  moreover have "adv (skip 1 p1) p2" by (simp add: p2_def skipWhile_adv)
  ultimately have "adv (skip 1 p) p'" "adv p (skip 1 p)" using adv_trans by blast+
  then show ?thesis using adv_trans by (auto simp: adv_def)
qed

lemma annotation_less:
  "(Some r, p') = annotation p \<Longrightarrow> \<not> peek p \<noteq> CHR ''['' \<Longrightarrow> length (tpS p') - tpI p' < length (tpS p) - tpI p"
  using annotation_adv [of p r p'] peek_not_eof [of p] by (auto simp: adv_def eof_def)

function annotationsLoop :: "tparse \<Rightarrow> string \<Rightarrow> int \<Rightarrow> bool \<Rightarrow> string option \<times> tparse" where
  "annotationsLoop p cal calendars criticalCalendar =
     (if peek p \<noteq> CHR ''['' then (Some cal, p)
      else case annotation p of
             (None, p1) \<Rightarrow> (None, p1)
           | (Some (critical, key, val), p1) \<Rightarrow>
               if key = ''u-ca''
               then let calendars = calendars + 1; criticalCalendar = criticalCalendar \<or> critical
                    in if calendars = 1 then annotationsLoop p1 val calendars criticalCalendar
                       else if criticalCalendar then (None, p1)
                       else annotationsLoop p1 cal calendars criticalCalendar
               else if critical then (None, p1)
               else annotationsLoop p1 cal calendars criticalCalendar)"
  by pat_completeness auto
termination
  by (relation "measure (\<lambda>(p, _). length (tpS p) - tpI p)") (simp_all add: annotation_less)

declare annotationsLoop.simps [simp del]

definition annotations :: "tparse \<Rightarrow> string option \<times> tparse" where
  "annotations p = annotationsLoop p '''' 0 False"

section \<open>The whole strings\<close>

text \<open>The zone and the annotations that may close a string, which then has to be at its end.\<close>

definition parseTail :: "temporalParse \<Rightarrow> tparse \<Rightarrow> temporalParse option" where
  "parseTail r p =
     (case timeZoneAnnotation p of (tz, p1) \<Rightarrow>
      let r1 = (case tz of Some name \<Rightarrow> r\<lparr>rHasTZ := True, rTzName := name\<rparr> | None \<Rightarrow> r)
      in case annotations p1 of
           (None, p2) \<Rightarrow> None
         | (Some cal, p2) \<Rightarrow> if \<not> eof p2 then None else Some (r1\<lparr>rCalendar := cal\<rparr>))"

definition parseISODateTime :: "string \<Rightarrow> temporalParse option" where
  "parseISODateTime s =
     (case parseDate (newTparse s) of
        (None, p1) \<Rightarrow> None
      | (Some (y, m, d), p1) \<Rightarrow>
          let r = noParse\<lparr>rHasDate := True, rYear := y, rMonth := m, rDay := d\<rparr>; b = peek p1
          in if b = CHR ''T'' \<or> b = CHR ''t'' \<or> b = CHR '' ''
             then (case timeSpec (skip 1 p1) of
                     (None, p2) \<Rightarrow> None
                   | (Some (t, n, sep), p2) \<Rightarrow>
                       let r = r\<lparr>rHasTime := True, rTime := t\<rparr>
                       in if peek p2 = CHR ''Z'' \<or> peek p2 = CHR ''z''
                          then parseTail (r\<lparr>rZ := True\<rparr>) (skip 1 p2)
                          else (case utcOffset True p2 of
                                  (Some (off, txt), p3) \<Rightarrow>
                                    parseTail (r\<lparr>rHasOffset := True, rOffsetNs := off, rOffsetStr := txt\<rparr>) p3
                                | (None, p3) \<Rightarrow> parseTail r p3))
             else parseTail r p1)"

definition parseTemporalDateString :: "string \<Rightarrow> temporalParse option" where
  "parseTemporalDateString s =
     (case parseISODateTime s of
        None \<Rightarrow> None
      | Some r \<Rightarrow>
          if rZ r then None
          else if \<not> isValidISODate (rYear r) (rMonth r) (rDay r) then None
          else Some r)"

definition isDateSpecMonthDay :: "string \<Rightarrow> bool" where
  "isDateSpecMonthDay s =
     (let p = newTparse s;
          p = (if take 2 s = ''--'' then skip 2 p else p)
      in case digits 2 p of
           (None, p1) \<Rightarrow> False
         | (Some m, p1) \<Rightarrow>
             let p2 = snd (accept CHR ''-'' p1)
             in case digits 2 p2 of
                  (None, p3) \<Rightarrow> False
                | (Some d, p3) \<Rightarrow>
                    if \<not> eof p3 then False
                    else 1 \<le> m \<and> m \<le> 12 \<and> 1 \<le> d \<and> d \<le> isoDaysInMonth 1972 m)"

definition isDateSpecYearMonth :: "string \<Rightarrow> bool" where
  "isDateSpecYearMonth s =
     (case parseYear (newTparse s) of
        (None, p1) \<Rightarrow> False
      | (Some y, p1) \<Rightarrow>
          let p2 = snd (accept CHR ''-'' p1)
          in case digits 2 p2 of
               (None, p3) \<Rightarrow> False
             | (Some m, p3) \<Rightarrow> eof p3 \<and> 1 \<le> m \<and> m \<le> 12)"

definition parseTemporalTimeString :: "string \<Rightarrow> temporalParse option" where
  "parseTemporalTimeString s =
     (case parseISODateTime s of
        Some r \<Rightarrow> if \<not> rHasTime r \<or> rZ r then None else Some r
      | None \<Rightarrow>
          let p = newTparse s; b = peek p;
              designated = (b = CHR ''T'' \<or> b = CHR ''t'');
              p = (if designated then skip 1 p else p)
          in case timeSpec p of
               (None, p1) \<Rightarrow> None
             | (Some (t, n, sep), p1) \<Rightarrow>
                 if peek p1 = CHR ''Z'' \<or> peek p1 = CHR ''z'' then None
                 else (case utcOffset True p1 of (off, p2) \<Rightarrow>
                   let r = (case off of
                              Some (offNs, txt) \<Rightarrow>
                                noParse\<lparr>rHasOffset := True, rOffsetNs := offNs, rOffsetStr := txt\<rparr>
                            | None \<Rightarrow> noParse)
                   in if \<not> designated \<and>
                         (isDateSpecMonthDay (take (tpI p2) s) \<or> isDateSpecYearMonth (take (tpI p2) s))
                      then None
                      else map_option (\<lambda>r. r\<lparr>rHasTime := True, rTime := t\<rparr>) (parseTail r p2)))"

text \<open>
  \<open>strings.Split\<close> and \<open>strings.Join\<close> on a separator of one byte, and the calendar identifiers:
  the list of the supported ones, the aliases, and any case.
\<close>

fun splitOn :: "char \<Rightarrow> string \<Rightarrow> string list" where
  "splitOn c [] = [[]]"
| "splitOn c (b # s) =
     (if b = c then [] # splitOn c s
      else (case splitOn c s of [] \<Rightarrow> [[b]] | w # ws \<Rightarrow> (b # w) # ws))"

fun joinWith :: "char \<Rightarrow> string list \<Rightarrow> string" where
  "joinWith c [] = []"
| "joinWith c [w] = w"
| "joinWith c (w # ws) = w @ c # joinWith c ws"

definition asciiLower :: "string \<Rightarrow> string" where
  "asciiLower s = map (\<lambda>c. if isUpper c then char_of (of_char c + (32 :: nat)) else c) s"

definition supportedCalendars :: "string list" where
  "supportedCalendars =
     [''buddhist'', ''chinese'', ''coptic'', ''dangi'', ''ethioaa'', ''ethiopic'',
      ''gregory'', ''hebrew'', ''indian'', ''islamic-civil'', ''islamic-tbla'',
      ''islamic-umalqura'', ''iso8601'', ''japanese'', ''persian'', ''roc'']"

definition aliasKeywordValue :: "(string \<Rightarrow> string option) \<Rightarrow> string \<Rightarrow> string list \<Rightarrow> string list" where
  "aliasKeywordValue alias key types =
     (if types = [] then types
      else case alias (key @ ''/'' @ joinWith CHR ''-'' types) of
             None \<Rightarrow> types
           | Some repl \<Rightarrow> splitOn CHR ''-'' repl)"

definition supportedCalendar :: "(string \<Rightarrow> string option) \<Rightarrow> string \<Rightarrow> string \<times> bool" where
  "supportedCalendar alias s =
     (let c = joinWith CHR ''-'' (aliasKeywordValue alias ''ca'' (splitOn CHR ''-'' (asciiLower s)))
      in (c, c \<in> set supportedCalendars))"

definition canonicalCalendarID :: "(string \<Rightarrow> string option) \<Rightarrow> string \<Rightarrow> string option" where
  "canonicalCalendarID alias s =
     (let lower = asciiLower s
      in if lower = ''iso8601'' then Some ''iso8601''
         else (case supportedCalendar alias lower of (c, ok) \<Rightarrow> if ok then Some c else None))"

text \<open>A date kept only if, having no time, it has no offset either.\<close>

definition dateWithoutOffset :: "string \<Rightarrow> temporalParse option" where
  "dateWithoutOffset s =
     (case parseTemporalDateString s of
        None \<Rightarrow> None
      | Some r \<Rightarrow> if \<not> rHasTime r \<and> (rZ r \<or> rHasOffset r) then None else Some r)"

text \<open>
  The two forms that leave a field out. The first part of each answers Some when the string has
  the short form, with the refusal or the result; otherwise the string is read as a date.
\<close>

definition yearMonthForm :: "(string \<Rightarrow> string option) \<Rightarrow> string \<Rightarrow> temporalParse option option" where
  "yearMonthForm alias s =
     (case parseYear (newTparse s) of
        (None, p1) \<Rightarrow> None
      | (Some y, p1) \<Rightarrow>
          (case digits 2 (snd (accept CHR ''-'' p1)) of
             (None, p2) \<Rightarrow> None
           | (Some m, p2) \<Rightarrow>
               if eof p2 \<or> peek p2 = CHR ''[''
               then (case parseTail noParse p2 of
                       None \<Rightarrow> None
                     | Some r \<Rightarrow>
                         if m < 1 \<or> 12 < m then Some None
                         else if rCalendar r \<noteq> '''' \<and>
                           canonicalCalendarID alias (rCalendar r) \<noteq> Some ''iso8601'' then Some None
                         else Some (Some (r\<lparr>rHasDate := True, rYear := y, rMonth := m, rDay := 1,
                           rDayAbsent := True\<rparr>)))
               else None))"

definition parseTemporalYearMonthString :: "(string \<Rightarrow> string option) \<Rightarrow> string \<Rightarrow> temporalParse option" where
  "parseTemporalYearMonthString alias s =
     (case yearMonthForm alias s of Some res \<Rightarrow> res | None \<Rightarrow> dateWithoutOffset s)"

definition monthDayForm :: "string \<Rightarrow> temporalParse option option" where
  "monthDayForm s =
     (let p = newTparse s; p = (if take 2 s = ''--'' then skip 2 p else p)
      in case digits 2 p of
           (None, p1) \<Rightarrow> None
         | (Some m, p1) \<Rightarrow>
             (case digits 2 (snd (accept CHR ''-'' p1)) of
                (None, p2) \<Rightarrow> None
              | (Some d, p2) \<Rightarrow>
                  if eof p2 \<or> peek p2 = CHR ''[''
                  then (case parseTail noParse p2 of
                          None \<Rightarrow> None
                        | Some r \<Rightarrow>
                            if m < 1 \<or> 12 < m \<or> d < 1 \<or> isoDaysInMonth 1972 m < d then Some None
                            else Some (Some (r\<lparr>rHasDate := True, rYear := 1972, rMonth := m, rDay := d,
                              rYearAbsent := True\<rparr>)))
                  else None))"

definition parseTemporalMonthDayString :: "string \<Rightarrow> temporalParse option" where
  "parseTemporalMonthDayString s =
     (case monthDayForm s of
        Some res \<Rightarrow> res
      | None \<Rightarrow> if take 2 s = ''--'' then None else dateWithoutOffset s)"

definition parseTemporalInstantString :: "string \<Rightarrow> temporalParse option" where
  "parseTemporalInstantString s =
     (case parseISODateTime s of
        None \<Rightarrow> None
      | Some r \<Rightarrow>
          if \<not> rHasTime r then None
          else if \<not> rZ r \<and> \<not> rHasOffset r then None
          else if \<not> isValidISODate (rYear r) (rMonth r) (rDay r) then None
          else Some r)"

definition parseTemporalZonedDateTimeString :: "string \<Rightarrow> temporalParse option" where
  "parseTemporalZonedDateTimeString s =
     (case parseISODateTime s of
        None \<Rightarrow> None
      | Some r \<Rightarrow>
          if \<not> rHasTZ r then None
          else if \<not> isValidISODate (rYear r) (rMonth r) (rDay r) then None
          else Some r)"

datatype zoneName = ZoneOffset int | ZoneName string

definition parseTimeZoneIdentifier :: "string \<Rightarrow> zoneName option" where
  "parseTimeZoneIdentifier s =
     (let p = newTparse s in
      case utcOffset True p of (off, p1) \<Rightarrow>
      if off \<noteq> None \<and> eof p1 then Some (ZoneOffset (fst (the off)))
      else (case ianaName p of
              (Some name, p2) \<Rightarrow> if eof p2 then Some (ZoneName name) else None
            | (None, p2) \<Rightarrow> None))"

section \<open>Durations\<close>

text \<open>A run of digits, accumulated as a double.\<close>

function digitRun :: "f64 \<Rightarrow> tparse \<Rightarrow> f64 \<times> tparse" where
  "digitRun v p =
     (if \<not> eof p \<and> is_digit (peek p)
      then digitRun (f64_add (f64_mul v (FInt 10)) (FInt (int (digit_val (peek p))))) (skip 1 p)
      else (v, p))"
  by pat_completeness auto
termination
  by (relation "measure (\<lambda>(v, p). length (tpS p) - tpI p)") (auto simp: eof_def)

declare digitRun.simps [simp del]

text \<open>The first unit from index \<open>k\<close> on with this letter, in either case.\<close>

fun matchUnit :: "char list \<Rightarrow> nat \<Rightarrow> char \<Rightarrow> nat option" where
  "matchUnit [] k c = None"
| "matchUnit (u # rest) k c =
     (if c = u \<or> of_char c = of_char u + (32 :: nat) then Some k else matchUnit rest (k + 1) c)"

definition dateUnits :: "char list" where "dateUnits = ''YMWD''"
definition timeUnits :: "char list" where "timeUnits = ''HMS''"

lemma matchUnit_bounds: "matchUnit l k c = Some m \<Longrightarrow> k \<le> m \<and> m < k + length l"
  by (induction l k c rule: matchUnit.induct) (auto split: if_splits)

function durationDate :: "nat \<Rightarrow> bool \<Rightarrow> f64 list \<Rightarrow> tparse \<Rightarrow> (bool \<times> f64 list \<times> tparse) option" where
  "durationDate idx any fs p =
     (if idx < 4 \<and> \<not> eof p \<and> is_digit (peek p)
      then (case digitRun (FInt 0) p of (v, p1) \<Rightarrow>
            if 16 < tpI p1 - tpI p then None
            else (case matchUnit (drop idx dateUnits) idx (peek p1) of
                    None \<Rightarrow> None
                  | Some m \<Rightarrow> durationDate (m + 1) True (fs[m := v]) (skip 1 p1)))
      else Some (any, fs, p))"
  by pat_completeness auto
termination
  by (relation "measure (\<lambda>(idx, any, fs, p). 4 - idx)") (auto dest: matchUnit_bounds)

declare durationDate.simps [simp del]

text \<open>What a fraction of the unit \<open>matched\<close> (0 hours, 1 minutes, 2 seconds) adds to the smaller ones.\<close>

definition addField :: "nat \<Rightarrow> int \<Rightarrow> f64 list \<Rightarrow> f64 list" where
  "addField i n fs = fs[i := f64_add (fs ! i) (f64_of_int n)]"

definition spill :: "nat \<Rightarrow> int \<Rightarrow> f64 list \<Rightarrow> f64 list" where
  "spill matched fr fs =
     (let n0 = (if matched = 0 then fr * 3600 else if matched = 1 then fr * 60 else fr);
          (fs1, n1) = (if matched = 0 then (addField 5 (n0 sdiv nsPerMinute) fs, n0 smod nsPerMinute) else (fs, n0));
          (fs2, n2) = (if matched \<le> 1 then (addField 6 (n1 sdiv nsPerSecond) fs1, n1 smod nsPerSecond) else (fs1, n1))
      in addField 9 (n2 smod 1000) (addField 8 ((n2 sdiv nsPerMicro) smod 1000) (addField 7 (n2 sdiv nsPerMilli) fs2)))"

function durationTime :: "nat \<Rightarrow> bool \<Rightarrow> f64 list \<Rightarrow> tparse \<Rightarrow> (bool \<times> f64 list \<times> tparse) option" where
  "durationTime tidx tany fs p =
     (if tidx < 3 \<and> \<not> eof p \<and> is_digit (peek p)
      then (case digitRun (FInt 0) p of (v, p1) \<Rightarrow>
           (case fraction p1 of (fr, p2) \<Rightarrow>
           (case matchUnit (drop tidx timeUnits) tidx (peek p2) of
              None \<Rightarrow> None
            | Some m \<Rightarrow>
                (case fr of
                   Some f \<Rightarrow> Some (True, spill m f (fs[4 + m := v]), skip 1 p2)
                 | None \<Rightarrow> durationTime (m + 1) True (fs[4 + m := v]) (skip 1 p2)))))
      else Some (tany, fs, p))"
  by pat_completeness auto
termination
  by (relation "measure (\<lambda>(tidx, tany, fs, p). 3 - tidx)") (auto dest: matchUnit_bounds)

declare durationTime.simps [simp del]

definition parseTemporalDurationString :: "string \<Rightarrow> f64 list option" where
  "parseTemporalDurationString s =
     (case signHere (newTparse s) of (sg, p0) \<Rightarrow>
      let sign = (case sg of Some n \<Rightarrow> FInt n | None \<Rightarrow> FInt 1);
          (upper, p1) = accept CHR ''P'' p0;
          (isP, p2) = (if upper then (True, p1) else accept CHR ''p'' p1)
      in if \<not> isP then None
         else (case durationDate 0 False (replicate 10 (FInt 0)) p2 of
            None \<Rightarrow> None
          | Some (any, fs, p3) \<Rightarrow>
              (case (if peek p3 = CHR ''T'' \<or> peek p3 = CHR ''t''
                     then (case durationTime 0 False fs (skip 1 p3) of
                             None \<Rightarrow> None
                           | Some (tany, fs', p4) \<Rightarrow> if \<not> tany then None else Some (True, fs', p4))
                     else Some (any, fs, p3)) of
                 None \<Rightarrow> None
               | Some (any, fs, p4) \<Rightarrow>
                   if \<not> any \<or> \<not> eof p4 then None
                   else Some (map (\<lambda>v. f64_mul v sign) fs))))"

text \<open>
  \<open>formatTemporalDuration\<close>. \<open>abs\<close> there is the identity on a NaN and on zeros; None is the panic on
  a count that is not finite.
\<close>

definition writeUnit :: "f64 \<Rightarrow> char \<Rightarrow> string" where
  "writeUnit v unit = (if f64_ne0 v then formatFloatF (f64_abs v) @ [unit] else '''')"

definition formatTemporalDuration :: "durationRec \<Rightarrow> int \<Rightarrow> string option" where
  "formatTemporalDuration d precision =
     (let b = (if durationSign d < 0 then ''-'' else '''') @ ''P'' @
            writeUnit (dYears d) CHR ''Y'' @ writeUnit (dMonths d) CHR ''M'' @
            writeUnit (dWeeks d) CHR ''W'' @ writeUnit (dDays d) CHR ''D''
      in Option.bind (addCount (f64_abs (dMs d)) nsPerMilli 0) (\<lambda>n1.
         Option.bind (addCount (f64_abs (dUs d)) nsPerMicro n1) (\<lambda>n2.
         map_option (\<lambda>subNs.
           let wholeF = f64_of_int (subNs sdiv nsPerSecond);
               secs = f64_add (f64_abs (dSeconds d)) wholeF;
               rem = subNs smod nsPerSecond;
               timeAny = (f64_ne0 (dHours d) \<or> f64_ne0 (dMinutes d) \<or> f64_ne0 secs \<or> rem \<noteq> 0 \<or> 0 \<le> precision);
               out = (if timeAny
                      then b @ ''T'' @ writeUnit (dHours d) CHR ''H'' @ writeUnit (dMinutes d) CHR ''M'' @
                        (if f64_ne0 secs \<or> rem \<noteq> 0 \<or> 0 \<le> precision \<or>
                            (\<not> f64_ne0 (dHours d) \<and> \<not> f64_ne0 (dMinutes d))
                         then formatFloatF secs @
                           formatFractionalSeconds (rem sdiv nsPerMilli) ((rem sdiv nsPerMicro) smod 1000)
                             (rem smod 1000) precision @ ''S''
                         else '''')
                      else b)
           in if last out = CHR ''P'' then out @ ''T0S'' else out)
         (addCount (f64_abs (dNs d)) 1 n2))))"

end
