(* ===== verification/Temporal_Parse_Laws.thy ===== *)
theory Temporal_Parse_Laws
  imports Temporal_Parse
begin

text \<open>
  What the reader of Temporal strings promises: that it reads back what the formatters write, that
  the fields it returns are in range, and that its cursor stays inside the string.
\<close>

section \<open>The cursor between what was read and what is left\<close>

definition cur :: "string \<Rightarrow> string \<Rightarrow> tparse" where
  "cur pre r = \<lparr>tpS = pre @ r, tpI = length pre\<rparr>"

named_theorems reading "one step of the cursor over text that is known"

lemma newTparse_at [reading]: "newTparse s = cur [] s"
  by (simp add: newTparse_def cur_def)

lemma cur_eof [reading]: "eof (cur pre r) \<longleftrightarrow> r = []"
  by (auto simp: eof_def cur_def)

lemma cur_peek [reading]: "peek (cur pre r) = (case r of [] \<Rightarrow> CHR 0x00 | c # _ \<Rightarrow> c)"
  by (auto simp: peek_def cur_def eof_def split: list.splits)

lemma cur_peekAt [reading]: "peekAt (Suc 0) (cur pre r) = (case r of c # d # _ \<Rightarrow> d | _ \<Rightarrow> CHR 0x00)"
  by (auto simp: peekAt_def cur_def nth_append split: list.splits)

lemma cur_skip1 [reading]: "skip (Suc 0) (cur pre (c # r)) = cur (pre @ [c]) r"
  by (simp add: skip_def cur_def)

lemma cur_accept: "accept b (cur pre r) =
    (case r of [] \<Rightarrow> if b = CHR 0x00 then (True, skip 1 (cur pre r)) else (False, cur pre r)
     | c # r' \<Rightarrow> if c = b then (True, cur (pre @ [c]) r') else (False, cur pre r))"
  by (auto simp: accept_def cur_peek cur_skip1 split: list.splits)

lemma cur_accept_next [reading]: "accept c (cur pre (c # r)) = (True, cur (pre @ [c]) r)"
  "c \<noteq> b \<Longrightarrow> accept b (cur pre (c # r)) = (False, cur pre (c # r))"
  "b \<noteq> CHR 0x00 \<Longrightarrow> accept b (cur pre []) = (False, cur pre [])"
  by (simp_all add: cur_accept)

lemma cur_textFrom [reading]: "textFrom (length pre) (cur (pre @ w) r) = w"
  by (simp add: textFrom_def cur_def)

lemma cur_tpI [simp]: "tpI (cur pre r) = length pre" "tpS (cur pre r) = pre @ r"
  by (simp_all add: cur_def)

lemma digitsLoop_val:
  "list_all is_digit ds \<Longrightarrow> 0 \<le> v \<Longrightarrow>
    digitsLoop (pre @ ds @ r) (length pre) (length ds) v =
      Some (int (foldl (\<lambda>a c. 10 * a + digit_val c) (nat v) ds))"
proof (induction ds arbitrary: pre v)
  case (Cons c ds)
  have "nat (v * 10 + int (digit_val c)) = 10 * nat v + digit_val c" using Cons.prems(2) by simp
  then show ?case using Cons.IH [of "v * 10 + int (digit_val c)" "pre @ [c]"] Cons.prems
    by (simp add: Let_def)
qed simp

lemma cur_digits [reading]:
  assumes "list_all is_digit ds" "length ds = n"
  shows "digits n (cur pre (ds @ r)) = (Some (int (digits_val ds)), cur (pre @ ds) r)"
proof -
  have "digitsLoop (pre @ ds @ r) (length pre) (length ds) 0 = Some (int (digits_val ds))"
    using digitsLoop_val [of ds 0 pre r] assms by (simp add: digits_val_def)
  then show ?thesis using assms by (simp add: digits_def cur_def skip_def)
qed

lemma pad_digits:
  assumes "0 \<le> n" "n < 10 ^ Suc k"
  shows "list_all is_digit (pad n (int (Suc k)))" "length (pad n (int (Suc k))) = Suc k"
    "digits_val (pad n (int (Suc k))) = nat n"
proof -
  show "length (pad n (int (Suc k))) = Suc k" by (rule pad_length [OF assms])
  show "list_all is_digit (pad n (int (Suc k)))"
    using assms(1) by (simp add: pad_nonneg ndigits_digits list_all_append) (simp add: list_all_iff is_digit_def)
  show "digits_val (pad n (int (Suc k))) = nat n"
    using assms(1) by (simp add: pad_nonneg digits_val_zeros)
qed

lemma cur_digits_pad [reading]:
  "0 \<le> n \<Longrightarrow> n < 100 \<Longrightarrow> digits 2 (cur pre (pad n 2 @ r)) = (Some n, cur (pre @ pad n 2) r)"
  "0 \<le> n \<Longrightarrow> n < 10000 \<Longrightarrow> digits 4 (cur pre (pad n 4 @ r)) = (Some n, cur (pre @ pad n 4) r)"
  "0 \<le> n \<Longrightarrow> n < 1000000 \<Longrightarrow> digits 6 (cur pre (pad n 6 @ r)) = (Some n, cur (pre @ pad n 6) r)"
  using cur_digits [of "pad n 2" 2 pre r] pad_digits [of n 1] cur_digits [of "pad n 4" 4 pre r] pad_digits [of n 3]
    cur_digits [of "pad n 6" 6 pre r] pad_digits [of n 5] by simp_all

lemma not_digits_nil [reading]: "0 < n \<Longrightarrow> digits n (cur pre []) = (None, cur pre [])"
  by (simp add: digits_def cur_def)

lemma not_digits [reading]: "0 < n \<Longrightarrow> \<not> is_digit c \<Longrightarrow> digits n (cur pre (c # r)) = (None, cur pre (c # r))"
  by (cases n) (simp_all add: digits_def cur_def Let_def)

section \<open>Years, dates and times that were formatted\<close>

lemma pad_hd: "0 \<le> n \<Longrightarrow> n < 10 ^ Suc k \<Longrightarrow> \<exists>c s. pad n (int (Suc k)) = c # s \<and> is_digit c"
  using pad_digits [of n k] by (cases "pad n (int (Suc k))") auto

lemma digit_no_sign: "is_digit c \<Longrightarrow> c \<noteq> CHR ''+'' \<and> c \<noteq> CHR ''-''"
  using not_digit_sign by auto

lemma cur_year [reading]:
  assumes "- 1000000 < y" "y < 1000000"
  shows "parseYear (cur pre (formatISOYear y @ r)) = (Some y, cur (pre @ formatISOYear y) r)"
proof -
  consider "0 \<le> y" "y \<le> 9999" | "y < 0" | "9999 < y" by linarith
  then show ?thesis
  proof cases
    case 1
    obtain c s where c: "pad y 4 = c # s" "is_digit c" using pad_hd [of y 3] 1 by auto
    have "signHere (cur pre (pad y 4 @ r)) = (None, cur pre (pad y 4 @ r))"
      using digit_no_sign [OF c(2)] by (simp add: signHere_def cur_accept c(1))
    then show ?thesis using 1 by (simp add: parseYear_def formatISOYear_def cur_digits_pad)
  next
    case 2
    then show ?thesis using assms
      by (simp add: parseYear_def signHere_def cur_accept formatISOYear_def cur_digits_pad)
  next
    case 3
    then show ?thesis using assms
      by (simp add: parseYear_def signHere_def cur_accept formatISOYear_def cur_digits_pad)
  qed
qed

lemma valid_date_fields: "valid_date d \<Longrightarrow> 0 \<le> month d \<and> month d < 100 \<and> 0 \<le> day d \<and> day d < 100"
  using isoDaysInMonth_pos [of "month d" "year d"]
  by (auto simp: valid_date_def isValidISODate_def split: if_splits)

lemma cur_date [reading]:
  assumes "valid_date d" "- 1000000 < year d" "year d < 1000000"
  shows "parseDate (cur pre (formatISODate d @ r)) =
    (Some (year d, month d, day d), cur (pre @ formatISODate d) r)"
  using valid_date_fields [OF assms(1)] assms(2,3)
  by (simp add: parseDate_def formatISODate_def cur_year cur_accept cur_digits_pad)

lemma digits_val_less: "list_all is_digit s \<Longrightarrow> digits_val s < 10 ^ length s"
proof (induction s rule: rev_induct)
  case (snoc c s)
  have "digit_val c < 10" using snoc.prems by (auto simp: is_digit_def digit_val_def)
  moreover have "digits_val s < 10 ^ length s" using snoc by simp
  ultimately show ?case by simp
qed (simp add: digits_val_def)

text \<open>A fraction is digits after a point: up to nine of them, then something else.\<close>

definition noDigit :: "string \<Rightarrow> bool" where
  "noDigit r \<longleftrightarrow> (case r of [] \<Rightarrow> True | c # _ \<Rightarrow> \<not> is_digit c)"

lemma cur_fractionLoop:
  assumes "list_all is_digit ds" "length ds \<le> n" "noDigit r"
  shows "fractionLoop n acc (cur pre (ds @ r)) = (acc @ ds, cur (pre @ ds) r)"
  using assms
proof (induction ds arbitrary: n acc pre)
  case Nil
  then show ?case by (cases n) (auto simp: reading noDigit_def split: list.splits)
next
  case (Cons d ds)
  then show ?case using Cons.IH [of "n - 1" "acc @ [d]" "pre @ [d]"] by (cases n) (simp_all add: reading)
qed

lemma cur_fraction:
  assumes "list_all is_digit ds" "ds \<noteq> []" "length ds \<le> 9" "noDigit r"
  shows "fraction (cur pre (CHR ''.'' # ds @ r)) =
    (Some (int (digits_val (ds @ replicate (9 - length ds) CHR ''0''))), cur (pre @ ''.'' @ ds) r)"
proof -
  let ?z = "ds @ replicate (9 - length ds) CHR ''0''"
  obtain d ds' where d: "ds = d # ds'" using assms(2) by (cases ds) auto
  have l: "list_all is_digit ?z" "length ?z = 9"
    using assms(1,3) by (simp_all add: list_all_append) (simp add: list_all_iff is_digit_def)
  have v: "int (digits_val ?z) < 2 ^ 63" using digits_val_less [OF l(1)] l(2) by simp
  have "atoi ?z = Some (int (digits_val ?z))"
  proof -
    obtain e z where z: "?z = e # z" "is_digit e" using l by (cases ?z) auto
    have "udigits ?z = Some (int (digits_val ?z))" using l z by (simp add: udigits_def)
    then show ?thesis using z digit_no_sign [OF z(2)] v by (simp add: atoi_def atoi_range_def)
  qed
  moreover have "fractionLoop 9 [] (cur (pre @ ''.'') (ds @ r)) = (ds, cur (pre @ ''.'' @ ds) r)"
    using cur_fractionLoop [OF assms(1,3,4), of "[]" "pre @ ''.''"] by simp
  ultimately show ?thesis
    using assms(4) assms(1) d by (auto simp: fraction_def reading noDigit_def split: list.splits)
qed

text \<open>A fraction of a second as the formatter writes it, its trailing zeros dropped.\<close>

lemma digits_val_app: "digits_val (a @ b) = digits_val a * 10 ^ length b + digits_val b"
proof (induction b rule: rev_induct)
  case (snoc c b)
  have "digits_val (a @ b @ [c]) = 10 * digits_val (a @ b) + digit_val c"
    using digits_val_append [of "a @ b" c] by simp
  then show ?case using snoc by (simp add: algebra_simps)
qed (simp add: digits_val_def)

lemma trimRight0_split: "s = trimRight0 s @ replicate (length s - length (trimRight0 s)) CHR ''0''"
proof -
  have "rev s = takeWhile (\<lambda>c. c = CHR ''0'') (rev s) @ dropWhile (\<lambda>c. c = CHR ''0'') (rev s)" by simp
  then have e: "s = trimRight0 s @ rev (takeWhile (\<lambda>c. c = CHR ''0'') (rev s))"
    by (metis trimRight0_def rev_append rev_rev_ident)
  have z: "takeWhile (\<lambda>c. c = CHR ''0'') l = replicate (length (takeWhile (\<lambda>c. c = CHR ''0'') l)) CHR ''0''" for l
    by (induction l) auto
  have "length s = length (trimRight0 s) + length (takeWhile (\<lambda>c. c = CHR ''0'') (rev s))"
    using arg_cong [OF e, of length] by simp
  with e z [of "rev s"] show ?thesis by (metis diff_add_inverse rev_replicate)
qed

lemma fraction_text:
  assumes "0 \<le> f_ms" "f_ms < 1000" "0 \<le> f_us" "f_us < 1000" "0 \<le> f_ns" "f_ns < 1000"
  obtains ds where "formatFractionalSeconds f_ms f_us f_ns (- 1) = (if ds = [] then [] else CHR ''.'' # ds)"
    "list_all is_digit ds" "length ds \<le> 9"
    "digits_val (ds @ replicate (9 - length ds) CHR ''0'') = nat (f_ms * 1000000 + f_us * 1000 + f_ns)"
proof
  let ?fr = "pad f_ms 3 @ pad f_us 3 @ pad f_ns 3"
  have p: "list_all is_digit (pad n 3)" "length (pad n 3) = 3" "digits_val (pad n 3) = nat n" if "0 \<le> n" "n < 1000" for n
    using pad_digits [of n 2] that by simp_all
  have l: "length ?fr = 9" "list_all is_digit ?fr" using assms p by simp_all
  note s = trimRight0_split [of ?fr, unfolded l(1)]
  have "length ?fr = length (trimRight0 ?fr) + (9 - length (trimRight0 ?fr))"
    using arg_cong [OF s, of length] by simp
  then show "length (trimRight0 ?fr) \<le> 9" using l(1) by linarith
  show "list_all is_digit (trimRight0 ?fr)" using l(2) s by (metis list_all_append)
  show "formatFractionalSeconds f_ms f_us f_ns (- 1) = (if trimRight0 ?fr = [] then [] else CHR ''.'' # trimRight0 ?fr)"
    by (simp add: formatFractionalSeconds_def Let_def)
  have "digits_val ?fr = nat (f_ms * 1000000 + f_us * 1000 + f_ns)"
    using assms p by (simp add: digits_val_app nat_add_distrib nat_mult_distrib)
  then show "digits_val (trimRight0 ?fr @ replicate (9 - length (trimRight0 ?fr)) CHR ''0'') =
      nat (f_ms * 1000000 + f_us * 1000 + f_ns)"
    using s by simp
qed

lemma millis_split:
  assumes "0 \<le> f_ms" "0 \<le> f_us" "f_us < 1000" "0 \<le> f_ns" "f_ns < 1000" "n = f_ms * 1000000 + f_us * 1000 + f_ns"
  shows "n sdiv nsPerMilli = f_ms" "n sdiv nsPerMicro = f_ms * 1000 + f_us" "n smod 1000 = f_ns"
proof -
  have n: "0 \<le> n" using assms by simp
  have "n div 1000000 = f_ms" by (rule int_div_pos_eq [where r = "f_us * 1000 + f_ns"]) (use assms in auto)
  moreover have "n div 1000 = f_ms * 1000 + f_us" by (rule int_div_pos_eq [where r = f_ns]) (use assms in auto)
  moreover have "n mod 1000 = f_ns" by (rule int_mod_pos_eq [where q = "f_ms * 1000 + f_us"]) (use assms in auto)
  ultimately show "n sdiv nsPerMilli = f_ms" "n sdiv nsPerMicro = f_ms * 1000 + f_us" "n smod 1000 = f_ns"
    using n by (simp_all add: go_arith ns_defs)
qed

lemma micros_split: "0 \<le> (f_ms :: int) \<Longrightarrow> 0 \<le> f_us \<Longrightarrow> f_us < 1000 \<Longrightarrow> (f_ms * 1000 + f_us) smod 1000 = f_us"
  by (simp add: go_arith)

text \<open>Nothing that a time may be followed by continues it.\<close>

definition timeEnds :: "string \<Rightarrow> bool" where
  "timeEnds r \<longleftrightarrow> (case r of [] \<Rightarrow> True | c # _ \<Rightarrow> \<not> is_digit c \<and> c \<noteq> CHR '':'' \<and> c \<noteq> CHR ''.'' \<and> c \<noteq> CHR '','')"

lemma no_fraction [reading]: "timeEnds r \<Longrightarrow> fraction (cur pre r) = (None, cur pre r)"
  by (auto simp: fraction_def reading timeEnds_def split: list.splits)

lemma timeEnds_noDigit: "timeEnds r \<Longrightarrow> noDigit r"
  by (auto simp: timeEnds_def noDigit_def split: list.splits)

lemma cur_timeSpec:
  assumes "valid_time t" "timeEnds r"
  shows "timeSpec (cur pre (formatTimeString t (- 1) @ r)) =
    (Some (t, 3, True), cur (pre @ formatTimeString t (- 1)) r)"
proof -
  note v = assms(1) [unfolded valid_time_def isValidTime_def]
  obtain ds where ds: "formatFractionalSeconds (ms t) (us t) (ns t) (- 1) = (if ds = [] then [] else CHR ''.'' # ds)"
    "list_all is_digit ds" "length ds \<le> 9"
    "digits_val (ds @ replicate (9 - length ds) CHR ''0'') = nat (ms t * 1000000 + us t * 1000 + ns t)"
    using fraction_text [of "ms t" "us t" "ns t"] v by auto
  have f: "formatTimeString t (- 1) = pad (hour t) 2 @ '':'' @ pad (minute t) 2 @ '':'' @ pad (second t) 2 @
      (if ds = [] then [] else CHR ''.'' # ds)"
    by (simp add: formatTimeString_def ds(1))
  show ?thesis
  proof (cases "ds = []")
    case True
    have "int (digits_val (replicate 9 CHR ''0'')) = ms t * 1000000 + us t * 1000 + ns t"
      using ds(4) True v by simp
    then have z: "ms t = 0" "us t = 0" "ns t = 0"
      using v digits_val_zeros [of 9 "[]"] by (simp_all add: digits_val_def)
    show ?thesis using v assms(2) True z
      by (simp add: timeSpec_def f reading midnightTime_def)
  next
    case False
    have m: "int (digits_val (ds @ replicate (9 - length ds) CHR ''0'')) = ms t * 1000000 + us t * 1000 + ns t"
      using ds(4) v by simp
    note fr = cur_fraction [OF ds(2) False ds(3) timeEnds_noDigit [OF assms(2)]]
    show ?thesis using v False millis_split [OF _ _ _ _ _ m] micros_split [of "ms t" "us t"]
      by (simp add: timeSpec_def f reading fr midnightTime_def)
  qed
qed

section \<open>Offsets that were formatted\<close>

lemma offset_parts:
  assumes "0 \<le> a" "a < nsPerDay"
  obtains h m s f_ms f_us f_ns where "a = h * nsPerHour + m * nsPerMinute + s * nsPerSecond + (f_ms * 1000000 + f_us * 1000 + f_ns)"
    "0 \<le> h" "h < 24" "0 \<le> m" "m < 60" "0 \<le> s" "s < 60" "0 \<le> f_ms" "f_ms < 1000" "0 \<le> f_us" "f_us < 1000"
    "0 \<le> f_ns" "f_ns < 1000"
    "a sdiv nsPerHour = h" "(a sdiv nsPerMinute) smod 60 = m" "(a sdiv nsPerSecond) smod 60 = s"
    "a smod nsPerSecond = f_ms * 1000000 + f_us * 1000 + f_ns"
proof -
  define t where "t = timeFromNanoseconds a"
  have v: "valid_time t" "nanosecond t = a" using timeFromNanoseconds_nanosecond [OF assms] by (simp_all add: t_def)
  note w = v(1) [unfolded valid_time_def isValidTime_def]
  let ?sub = "ms t * 1000000 + us t * 1000 + ns t"
  have a: "a = hour t * nsPerHour + minute t * nsPerMinute + second t * nsPerSecond + ?sub"
    using v(2) by (simp add: nanosecond_linear ns_defs)
  have sub: "0 \<le> ?sub" "?sub < 1000000000" using w by auto
  have s: "a div nsPerSecond = hour t * 3600 + minute t * 60 + second t" "a mod nsPerSecond = ?sub"
    by (rule int_div_pos_eq [where r = ?sub] int_mod_pos_eq [where q = "hour t * 3600 + minute t * 60 + second t"];
        use a sub in \<open>simp add: ns_defs\<close>)+
  have m: "a div nsPerMinute = hour t * 60 + minute t"
    by (rule int_div_pos_eq [where r = "second t * nsPerSecond + ?sub"]) (use a sub w in \<open>auto simp: ns_defs\<close>)
  have h: "a div nsPerHour = hour t"
    by (rule int_div_pos_eq [where r = "minute t * nsPerMinute + second t * nsPerSecond + ?sub"]) (use a sub w in \<open>auto simp: ns_defs\<close>)
  have z: "(hour t * 3600 + minute t * 60 + second t) mod 60 = second t" "(hour t * 60 + minute t) mod 60 = minute t"
    by (rule int_mod_pos_eq [where q = "hour t * 60 + minute t"] int_mod_pos_eq [where q = "hour t"]; use w in simp)+
  have p: "0 < nsPerHour" "0 < nsPerMinute" "0 < nsPerSecond" by (simp_all add: ns_defs)
  have "a sdiv nsPerHour = hour t" "(a sdiv nsPerMinute) smod 60 = minute t" "(a sdiv nsPerSecond) smod 60 = second t"
      "a smod nsPerSecond = ?sub"
    using assms(1) p h m s z w by (simp_all add: go_arith)
  with a w show ?thesis by (intro that [of "hour t" "minute t" "second t" "ms t" "us t" "ns t"]) auto
qed

lemma cur_utcOffset:
  assumes "\<bar>off\<bar> < nsPerDay" "timeEnds r"
  shows "utcOffset True (cur pre (formatOffsetNanoseconds off @ r)) =
    (Some (off, formatOffsetNanoseconds off), cur (pre @ formatOffsetNanoseconds off) r)"
proof -
  define sg where "sg = (if off < 0 then CHR ''-'' else CHR ''+'')"
  define g where "g = (if off < 0 then - 1 else (1 :: int))"
  define a where "a = \<bar>off\<bar>"
  have a: "0 \<le> a" "a < nsPerDay" "off = g * a" "(if off < 0 then - off else off) = a" "(if off < 0 then ''-'' else ''+'') = [sg]"
    using assms(1) by (auto simp: a_def g_def sg_def)
  have sign: "signHere (cur pre (sg # x)) = (Some g, cur (pre @ [sg]) x)" for x
    by (simp add: signHere_def reading sg_def g_def)
  obtain h m s f_ms f_us f_ns where p: "a = h * nsPerHour + m * nsPerMinute + s * nsPerSecond + (f_ms * 1000000 + f_us * 1000 + f_ns)"
    "0 \<le> h" "h < 24" "0 \<le> m" "m < 60" "0 \<le> s" "s < 60" "0 \<le> f_ms" "f_ms < 1000" "0 \<le> f_us" "f_us < 1000"
    "0 \<le> f_ns" "f_ns < 1000"
    "a sdiv nsPerHour = h" "(a sdiv nsPerMinute) smod 60 = m" "(a sdiv nsPerSecond) smod 60 = s"
    "a smod nsPerSecond = f_ms * 1000000 + f_us * 1000 + f_ns" using offset_parts [OF a(1,2)] by metis
  define sub where "sub = f_ms * 1000000 + f_us * 1000 + f_ns"
  have subs: "sub sdiv nsPerMilli = f_ms" "(sub sdiv nsPerMicro) smod 1000 = f_us" "sub smod 1000 = f_ns"
    using millis_split [OF p(8,10,11,12,13) sub_def] micros_split p(8,10,11) by simp_all
  obtain ds where ds: "formatFractionalSeconds f_ms f_us f_ns (- 1) = (if ds = [] then [] else CHR ''.'' # ds)"
    "list_all is_digit ds" "length ds \<le> 9"
    "digits_val (ds @ replicate (9 - length ds) CHR ''0'') = nat sub"
    using fraction_text [OF p(8-13)] unfolding sub_def by metis
  have z: "ds = [] \<Longrightarrow> sub = 0"
    using ds(4) digits_val_zeros [of 9 "[]"] p(8-13) by (simp add: digits_val_def sub_def)
  have f: "formatOffsetNanoseconds off = sg # pad h 2 @ '':'' @ pad m 2 @
      (if s \<noteq> 0 \<or> sub \<noteq> 0 then '':'' @ pad s 2 @ (if sub \<noteq> 0 then CHR ''.'' # ds else []) else [])"
    unfolding formatOffsetNanoseconds_def Let_def a(4,5) p(14-17) sub_def [symmetric] subs ds(1)
    using z by auto
  have sub0: "0 \<le> sub" using p by (simp add: sub_def)
  have fr: "sub \<noteq> 0 \<Longrightarrow> fraction (cur q (CHR ''.'' # ds @ r)) = (Some sub, cur (q @ ''.'' @ ds) r)" for q
    using cur_fraction [OF ds(2) _ ds(3) timeEnds_noDigit [OF assms(2)], of q] z ds(4) sub0 by auto
  have tx: "textFrom (length pre) (cur (pre @ sg # w) x) = sg # w" for w x
    using cur_textFrom [of pre "sg # w" x] by simp
  consider "s = 0 \<and> sub = 0" | "s \<noteq> 0 \<and> sub = 0" | "sub \<noteq> 0" by blast
  then show ?thesis
  proof cases
    case 1
    have e: "accept CHR '':'' (cur q r) = (False, cur q r)" for q
      using assms(2) by (auto simp: cur_accept timeEnds_def split: list.splits)
    have n: "g * (h * nsPerHour + m * nsPerMinute) = off" using 1 p(1) a(3) sub_def by simp
    show ?thesis using p(2-13) 1 n
      by (simp add: utcOffset_def Let_def f reading sign e tx)
  next
    case 2
    have n: "g * (h * nsPerHour + m * nsPerMinute + s * nsPerSecond) = off" using 2 p(1) a(3) sub_def by simp
    show ?thesis using 2 p(2-13) assms(2) n
      by (simp add: utcOffset_def Let_def f reading sign tx)
  next
    case 3
    have n: "g * (h * nsPerHour + m * nsPerMinute + s * nsPerSecond + sub) = off" using p(1) a(3) sub_def by simp
    show ?thesis using 3 p(2-13) n
      by (simp add: utcOffset_def Let_def f reading sign tx fr)
  qed
qed

section \<open>Whole strings that were formatted\<close>

lemma cur_tail_end [reading]: "parseTail r (cur pre []) = Some (r\<lparr>rCalendar := []\<rparr>)"
  by (simp add: parseTail_def timeZoneAnnotation_def reading annotations_def annotationsLoop.simps)

definition dateTimeOf :: "isoDateTimeRec \<Rightarrow> temporalParse" where
  "dateTimeOf dt = noParse\<lparr>rHasDate := True, rYear := year (dtDate dt), rMonth := month (dtDate dt),
     rDay := day (dtDate dt), rHasTime := True, rTime := dtTime dt\<rparr>"

lemma formatISODateTime_read:
  assumes "valid_date (dtDate dt)" "\<bar>year (dtDate dt)\<bar> < 1000000" "valid_time (dtTime dt)"
  shows "parseISODateTime (formatISODateTime dt (- 1)) = Some (dateTimeOf dt)"
    "parseISODateTime (formatISODateTime dt (- 1) @ ''Z'') = Some ((dateTimeOf dt)\<lparr>rZ := True\<rparr>)"
    "\<bar>off\<bar> < nsPerDay \<Longrightarrow> parseISODateTime (formatISODateTime dt (- 1) @ formatOffsetNanoseconds off) =
      Some ((dateTimeOf dt)\<lparr>rHasOffset := True, rOffsetNs := off, rOffsetStr := formatOffsetNanoseconds off\<rparr>)"
proof -
  have y: "- 1000000 < year (dtDate dt)" "year (dtDate dt) < 1000000" using assms(2) by auto
  note d = cur_date [OF assms(1) y]
  have o: "\<exists>c w. formatOffsetNanoseconds off = c # w \<and> (c = CHR ''+'' \<or> c = CHR ''-'')"
    by (simp add: formatOffsetNanoseconds_def Let_def)
  have e: "timeEnds []" "timeEnds ''Z''" "timeEnds (formatOffsetNanoseconds off)"
    using o not_digit_sign by (auto simp: timeEnds_def is_digit_def)
  note t = cur_timeSpec [OF assms(3)]
  have n: "utcOffset True (cur q []) = (None, cur q [])" for q
    by (simp add: utcOffset_def signHere_def reading)
  show "parseISODateTime (formatISODateTime dt (- 1)) = Some (dateTimeOf dt)"
    using d [of "[]" "CHR ''T'' # formatTimeString (dtTime dt) (- 1)"] t [OF e(1), of "formatISODate (dtDate dt) @ ''T''"]
    by (simp add: parseISODateTime_def formatISODateTime_def reading n dateTimeOf_def noParse_def)
  show "parseISODateTime (formatISODateTime dt (- 1) @ ''Z'') = Some ((dateTimeOf dt)\<lparr>rZ := True\<rparr>)"
    using d [of "[]" "CHR ''T'' # formatTimeString (dtTime dt) (- 1) @ ''Z''"] t [OF e(2), of "formatISODate (dtDate dt) @ ''T''"]
    by (simp add: parseISODateTime_def formatISODateTime_def reading dateTimeOf_def noParse_def)
  assume off: "\<bar>off\<bar> < nsPerDay"
  have u: "utcOffset True (cur q (formatOffsetNanoseconds off)) =
      (Some (off, formatOffsetNanoseconds off), cur (q @ formatOffsetNanoseconds off) [])" for q
    using cur_utcOffset [OF off e(1), of q] by simp
  obtain c w where cw: "formatOffsetNanoseconds off = c # w" "c = CHR ''+'' \<or> c = CHR ''-''" using o by blast
  then have pk: "peek (cur q (formatOffsetNanoseconds off)) \<noteq> CHR ''Z''" "peek (cur q (formatOffsetNanoseconds off)) \<noteq> CHR ''z''" for q
    by (auto simp: reading)
  show "parseISODateTime (formatISODateTime dt (- 1) @ formatOffsetNanoseconds off) =
      Some ((dateTimeOf dt)\<lparr>rHasOffset := True, rOffsetNs := off, rOffsetStr := formatOffsetNanoseconds off\<rparr>)"
    using d [of "[]" "CHR ''T'' # formatTimeString (dtTime dt) (- 1) @ formatOffsetNanoseconds off"]
      t [OF e(3), of "formatISODate (dtDate dt) @ ''T''"] pk
    by (simp add: parseISODateTime_def formatISODateTime_def cur_skip1 cur_peek [of _ "_ # _"] newTparse_at u cur_tail_end
        dateTimeOf_def noParse_def)
qed

section \<open>What a string that was read can hold\<close>

lemma digitsLoop_range:
  "digitsLoop s i n v = Some w \<Longrightarrow> 0 \<le> v \<Longrightarrow> 0 \<le> w \<and> w < (v + 1) * 10 ^ n"
proof (induction s i n v rule: digitsLoop.induct)
  case (2 s i n v)
  define c where "c = int (digit_val (s ! i))"
  have d: "is_digit (s ! i)" "digitsLoop s (i + 1) n (v * 10 + c) = Some w"
    using 2(2) by (auto simp: Let_def c_def split: if_splits)
  have c: "0 \<le> c" "c < 10" using d(1) by (auto simp: c_def is_digit_def digit_val_def)
  have IH: "0 \<le> w \<and> w < (v * 10 + c + 1) * 10 ^ n"
    using 2(1) [OF refl] d c 2(3) by (simp add: c_def)
  have "(v * 10 + c + 1) * 10 ^ n \<le> ((v + 1) * 10) * (10 :: int) ^ n" by (rule mult_right_mono) (use c in auto)
  then have "w < ((v + 1) * 10) * 10 ^ n" using IH by linarith
  also have "((v + 1) * 10) * (10 :: int) ^ n = (v + 1) * 10 ^ Suc n" by simp
  finally show ?case using IH by blast
qed simp

lemma digits_range: "digits n p = (Some v, p') \<Longrightarrow> 0 \<le> v \<and> v < 10 ^ n"
  using digitsLoop_range [of "tpS p" "tpI p" n 0 v]
  by (auto simp: digits_def split: if_splits option.splits)

lemma fractionLoop_digits: "fractionLoop n acc p = (ds, p') \<Longrightarrow> list_all is_digit acc \<Longrightarrow>
    list_all is_digit ds \<and> length ds \<le> length acc + n"
  by (induction n acc p rule: fractionLoop.induct) (force split: if_splits)+

lemma atoi_of_digits: "list_all is_digit s \<Longrightarrow> s \<noteq> [] \<Longrightarrow> atoi s = Some v \<Longrightarrow> v = int (digits_val s)"
proof -
  assume a: "list_all is_digit s" "s \<noteq> []" "atoi s = Some v"
  then obtain c r where c: "s = c # r" "is_digit c" by (cases s) auto
  then have "atoi s = atoi_range (int (digits_val s))"
    using a(1,2) digit_no_sign [OF c(2)] by (simp add: atoi_def udigits_def)
  then show ?thesis using a(3) by (simp add: atoi_range_def split: if_splits)
qed

lemma fraction_range: "fraction p = (Some v, p') \<Longrightarrow> 0 \<le> v \<and> v < 1000000000"
proof -
  assume f: "fraction p = (Some v, p')"
  obtain ds p1 where l: "fractionLoop 9 [] (skip 1 p) = (ds, p1)" by fastforce
  have d: "list_all is_digit ds" "length ds \<le> 9" using fractionLoop_digits [OF l] by auto
  let ?z = "ds @ replicate (9 - length ds) CHR ''0''"
  have z: "list_all is_digit ?z" "length ?z = 9"
    using d by (simp_all add: list_all_append) (simp add: list_all_iff is_digit_def)
  have "v = 0 \<or> atoi ?z = Some v" using f l by (auto simp: fraction_def split: if_splits option.splits)
  moreover have "?z \<noteq> []" using z(2) by auto
  ultimately have "v = 0 \<or> v = int (digits_val ?z)" using atoi_of_digits [OF z(1)] by blast
  then show ?thesis using digits_val_less [OF z(1)] z(2) by auto
qed

definition readTime :: "isoTimeRec \<Rightarrow> bool" where
  "readTime t \<longleftrightarrow> 0 \<le> hour t \<and> hour t \<le> 23 \<and> 0 \<le> minute t \<and> minute t \<le> 59 \<and>
     0 \<le> second t \<and> second t \<le> 60 \<and> 0 \<le> ms t \<and> ms t < 1000 \<and> 0 \<le> us t \<and> us t < 1000 \<and>
     0 \<le> ns t \<and> ns t < 1000"

lemma readTime_midnight [simp]: "readTime midnightTime"
  by (simp add: readTime_def midnightTime_def)

lemma nanos_range:
  assumes "0 \<le> n" "n < 1000000000"
  shows "0 \<le> n sdiv nsPerMilli \<and> n sdiv nsPerMilli < 1000 \<and> 0 \<le> (n sdiv nsPerMicro) smod 1000 \<and>
    (n sdiv nsPerMicro) smod 1000 < 1000 \<and> 0 \<le> n smod 1000 \<and> n smod 1000 < 1000"
  using assms by (simp add: go_arith ns_defs pos_imp_zdiv_nonneg_iff)

lemma timeSpec_range: "timeSpec p = (Some (t, n, sep), p') \<Longrightarrow> readTime t"
  by (auto simp: timeSpec_def Let_def readTime_def midnightTime_def nanos_range
      split: prod.splits option.splits if_splits bool.splits dest!: digits_range fraction_range)

lemma signHere_range: "signHere p = (Some g, p') \<Longrightarrow> g = 1 \<or> g = - 1"
  by (auto simp: signHere_def split: prod.splits bool.splits)

lemma utcOffset_range: "utcOffset sub p = (Some (off, w), p') \<Longrightarrow> \<bar>off\<bar> < nsPerDay"
  by (auto simp: utcOffset_def Let_def ns_defs split: prod.splits option.splits if_splits bool.splits
      dest!: digits_range fraction_range signHere_range)

lemma parseTail_fields:
  assumes "parseTail r p = Some r'"
  shows "\<exists>z name cal. r' = r\<lparr>rHasTZ := z, rTzName := name, rCalendar := cal\<rparr>"
proof -
  obtain tz p1 where tz: "timeZoneAnnotation p = (tz, p1)" by fastforce
  have id: "r = r\<lparr>rHasTZ := rHasTZ r, rTzName := rTzName r\<rparr>" by simp
  obtain cal where "r' = (case tz of Some name \<Rightarrow> r\<lparr>rHasTZ := True, rTzName := name\<rparr> | None \<Rightarrow> r)\<lparr>rCalendar := cal\<rparr>"
    using assms tz by (auto simp: parseTail_def Let_def split: prod.splits option.splits if_splits)
  then show ?thesis using id by (cases tz) (metis option.simps(4), metis option.simps(5))
qed

lemma parseYear_range: "parseYear p = (Some y, p') \<Longrightarrow> \<bar>y\<bar> < 1000000"
  by (auto simp: parseYear_def split: prod.splits option.splits if_splits
      dest!: digits_range signHere_range)

lemma parseDate_range: "parseDate p = (Some (y, m, d), p') \<Longrightarrow> \<bar>y\<bar> < 1000000 \<and> 0 \<le> m \<and> m < 100 \<and> 0 \<le> d \<and> d < 100"
  by (auto simp: parseDate_def split: prod.splits option.splits if_splits
      dest!: digits_range dest: parseYear_range)

text \<open>The fields of a date and time that was read, before the date is checked.\<close>

definition readFields :: "temporalParse \<Rightarrow> bool" where
  "readFields r \<longleftrightarrow> rHasDate r \<and> \<bar>rYear r\<bar> < 1000000 \<and> 0 \<le> rMonth r \<and> rMonth r < 100 \<and>
     0 \<le> rDay r \<and> rDay r < 100 \<and> readTime (rTime r) \<and> \<bar>rOffsetNs r\<bar> < nsPerDay \<and>
     \<not> (rZ r \<and> rHasOffset r) \<and> (rZ r \<or> rHasOffset r \<longrightarrow> rHasTime r)"

lemma parseTail_readFields: "parseTail r p = Some r' \<Longrightarrow> readFields r \<Longrightarrow> readFields r'"
  by (drule parseTail_fields) (auto simp: readFields_def)

lemma parseISODateTime_range:
  assumes "parseISODateTime s = Some r"
  shows "readFields r"
proof -
  obtain y m d p1 where d: "parseDate (newTparse s) = (Some (y, m, d), p1)"
    using assms by (auto simp: parseISODateTime_def split: prod.splits option.splits)
  define r0 where "r0 = noParse\<lparr>rHasDate := True, rYear := y, rMonth := m, rDay := d\<rparr>"
  have r0: "readFields r0" using parseDate_range [OF d] by (simp add: r0_def readFields_def noParse_def)
  show ?thesis
  proof (cases "peek p1 = CHR ''T'' \<or> peek p1 = CHR ''t'' \<or> peek p1 = CHR '' ''")
    case False
    then have "parseTail r0 p1 = Some r" using assms d by (simp add: parseISODateTime_def r0_def)
    then show ?thesis using r0 by (rule parseTail_readFields)
  next
    case True
    obtain t n sep p2 where t: "timeSpec (skip 1 p1) = (Some (t, n, sep), p2)"
      using assms d True by (auto simp: parseISODateTime_def Let_def split: prod.splits option.splits)
    define r1 where "r1 = r0\<lparr>rHasTime := True, rTime := t\<rparr>"
    have r1: "readFields r1" "\<not> rZ r1" "\<not> rHasOffset r1" "rHasTime r1"
      using r0 timeSpec_range [OF t] by (simp_all add: readFields_def r1_def r0_def noParse_def)
    consider p3 where "parseTail (r1\<lparr>rZ := True\<rparr>) p3 = Some r"
      | off w p3 where "utcOffset True p2 = (Some (off, w), p3)"
          "parseTail (r1\<lparr>rHasOffset := True, rOffsetNs := off, rOffsetStr := w\<rparr>) p3 = Some r"
      | p3 where "parseTail r1 p3 = Some r"
      using assms True t unfolding parseISODateTime_def d
      by (auto simp: Let_def r1_def r0_def split: prod.splits option.splits if_splits)
    then show ?thesis
    proof cases
      case 1
      then show ?thesis by (rule parseTail_readFields) (use r1 in \<open>simp add: readFields_def\<close>)
    next
      case 2
      show ?thesis
        by (rule parseTail_readFields [OF 2(2)]) (use r1 utcOffset_range [OF 2(1)] in \<open>simp add: readFields_def\<close>)
    next
      case 3
      then show ?thesis using r1(1) by (rule parseTail_readFields)
    qed
  qed
qed

section \<open>The cursor stays inside the string\<close>

lemma signHere_adv: "signHere p = (r, p') \<Longrightarrow> adv p p'"
  by (auto simp: signHere_def split: prod.splits bool.splits dest!: accept_adv)

lemma digits_adv: "digits n p = (r, p') \<Longrightarrow> adv p p'"
  by (auto simp: digits_def adv_def split: if_splits option.splits)

lemma accept_advD: "accept b p = (r, p') \<Longrightarrow> b \<noteq> CHR 0x00 \<Longrightarrow> adv p p'"
  by (drule accept_adv) auto

lemma fractionLoop_adv: "fractionLoop n acc p = (ds, p') \<Longrightarrow> adv p p'"
proof (induction n acc p rule: fractionLoop.induct)
  case (2 n ds p)
  show ?case
  proof (cases "\<not> eof p \<and> is_digit (peek p)")
    case True
    then have "adv (skip 1 p) p'" using 2 by simp
    then show ?thesis using adv_skip True adv_trans by blast
  next
    case False
    then have "p' = p" using 2(2) by (auto split: if_splits)
    then show ?thesis by simp
  qed
qed simp

lemma fraction_adv: "fraction p = (r, p') \<Longrightarrow> adv p p'"
proof -
  assume f: "fraction p = (r, p')"
  obtain ds p1 where l: "fractionLoop 9 [] (skip 1 p) = (ds, p1)" by fastforce
  show ?thesis
  proof (cases "p' = p")
    case False
    then have "p' = p1" "peek p = CHR ''.'' \<or> peek p = CHR '',''"
      using f l by (auto simp: fraction_def split: if_splits option.splits)
    then show ?thesis using fractionLoop_adv [OF l] adv_skip [of p] peek_not_eof [of p] adv_trans by auto
  qed simp
qed

lemma parseYear_adv: "parseYear p = (r, p') \<Longrightarrow> adv p p'"
  by (auto simp: parseYear_def split: prod.splits option.splits if_splits
      dest!: digits_adv signHere_adv intro: adv_trans)

lemma parseDate_adv: "parseDate p = (r, p') \<Longrightarrow> adv p p'"
  by (auto simp: parseDate_def split: prod.splits option.splits if_splits
      dest!: digits_adv parseYear_adv accept_advD) (meson adv_trans)+

lemma timeSpec_adv: "timeSpec p = (r, p') \<Longrightarrow> adv p p'"
  by (auto simp: timeSpec_def Let_def split: prod.splits option.splits if_splits
      dest!: digits_adv fraction_adv accept_advD; meson adv_trans)

lemma utcOffset_adv: "utcOffset sub p = (r, p') \<Longrightarrow> adv p p'"
  by (auto simp: utcOffset_def Let_def split: prod.splits option.splits if_splits
      dest!: digits_adv fraction_adv accept_advD signHere_adv; meson adv_trans)

section \<open>Strings outside the grammar\<close>

text \<open>
  Two strings the grammar has no place for. A time written without colons may end in one, which
  \<open>timeSpec\<close> has consumed by the time it notices that the separators differ; and a date and time read for
  its time alone never has its date checked.
\<close>

lemma basic_time_colon_read:
  assumes "valid_date d" "\<bar>year d\<bar> < 1000000" "0 \<le> h" "h \<le> 23" "0 \<le> mi" "mi \<le> 59"
  shows "parseISODateTime (formatISODate d @ ''T'' @ pad h 2 @ pad mi 2 @ '':'') =
    Some (noParse\<lparr>rHasDate := True, rYear := year d, rMonth := month d, rDay := day d, rHasTime := True,
      rTime := midnightTime\<lparr>hour := h, minute := mi\<rparr>\<rparr>)"
proof -
  have y: "- 1000000 < year d" "year d < 1000000" using assms(2) by auto
  obtain c w where c: "pad mi 2 = c # w" "is_digit c" using pad_hd [of mi 1] assms(5,6) by auto
  have nc: "c \<noteq> CHR '':''" using c(2) by (auto simp: is_digit_def)
  have a: "accept CHR '':'' (cur q (pad mi 2 @ r)) = (False, cur q (pad mi 2 @ r))" for q r
    by (simp add: c(1) nc cur_accept)
  have n: "utcOffset True (cur q []) = (None, cur q [])" for q
    by (simp add: utcOffset_def signHere_def reading)
  have ne: "pad mi 2 @ '':'' \<noteq> []" by simp
  show ?thesis
    using cur_date [OF assms(1) y, of "[]" "CHR ''T'' # pad h 2 @ pad mi 2 @ '':''"] assms(3-6)
    by (simp add: parseISODateTime_def timeSpec_def reading a n noParse_def)
qed

lemma unchecked_date_read:
  "parseTemporalTimeString ''2020-13-45T12:00'' = Some (noParse\<lparr>rHasDate := True, rYear := 2020, rMonth := 13,
     rDay := 45, rHasTime := True, rTime := midnightTime\<lparr>hour := 12\<rparr>\<rparr>)"
  by code_simp

end
