(* ===== verification/Duration_Text.thy ===== *)
theory Duration_Text
  imports Temporal_Parse_Laws
begin

text \<open>
  Durations as text: what \<open>formatTemporalDuration\<close> writes of a valid duration is read back by
  \<open>parseTemporalDurationString\<close> as a duration of the same value. The counts under a second are
  written as one decimal number, so they come back carried into the seconds.
\<close>

section \<open>Runs of digits as doubles\<close>

lemma foldl_digits: "foldl (\<lambda>a c. 10 * a + digit_val c) a ds = a * 10 ^ length ds + digits_val ds"
proof (induction ds rule: rev_induct)
  case (snoc c ds)
  have "digits_val (ds @ [c]) = 10 * digits_val ds + digit_val c" by simp
  then show ?case using snoc by (simp add: algebra_simps)
qed (simp add: digits_val_def)

lemma cur_digitRun_from:
  assumes "list_all is_digit ds" "noDigit r" "a * 10 ^ length ds + digits_val ds < 2 ^ 53"
  shows "digitRun (FInt (int a)) (cur pre (ds @ r)) = (FInt (int (a * 10 ^ length ds + digits_val ds)), cur (pre @ ds) r)"
  using assms
proof (induction ds arbitrary: a pre)
  case Nil
  then have "\<not> (\<not> eof (cur pre r) \<and> is_digit (peek (cur pre r)))" by (auto simp: reading noDigit_def split: list.splits)
  then show ?case using digitRun.simps [of "FInt (int a)" "cur pre r"] by (auto simp: digits_val_def)
next
  case (Cons d ds)
  have e: "a * 10 ^ length (d # ds) + digits_val (d # ds) = (10 * a + digit_val d) * 10 ^ length ds + digits_val ds"
    using foldl_digits [of "digit_val d" ds] by (simp add: digits_val_def algebra_simps)
  have "10 * a + digit_val d \<le> (10 * a + digit_val d) * 10 ^ length ds" by simp
  then have "10 * a + digit_val d < 2 ^ 53" using Cons.prems(3) unfolding e by linarith
  then have "f64_add (f64_mul (FInt (int a)) (FInt 10)) (FInt (int (digit_val d))) = FInt (int (10 * a + digit_val d))"
    using f64_digit_step [of "int a" "int (digit_val d)"] by simp
  then show ?case using Cons.IH [of "10 * a + digit_val d" "pre @ [d]"] Cons.prems e
    by (subst digitRun.simps) (simp add: reading)
qed

lemma cur_digitRun [reading]:
  assumes "0 \<le> a" "a < 2 ^ 53" "noDigit r"
  shows "digitRun (FInt 0) (cur pre (ndigits (nat a) @ r)) = (FInt a, cur (pre @ ndigits (nat a)) r)"
  using cur_digitRun_from [OF ndigits_digits assms(3), of 0 "nat a" pre] assms(1,2) by (simp add: nat_less_iff)

lemma ndigits_16: "a < 2 ^ 53 \<Longrightarrow> length (ndigits (nat a)) \<le> 16"
  using ndigits_length [of "nat a" 15] by (simp add: nat_less_iff)

lemma ndigits_starts: "\<exists>c s. ndigits n = c # s \<and> is_digit c"
  using ndigits_digits [of n] by (cases "ndigits n") (auto dest: arg_cong [of _ "[]" length])

section \<open>One unit after the other\<close>

definition unitText :: "int \<Rightarrow> char \<Rightarrow> string" where
  "unitText a c = (if a \<noteq> 0 then ndigits (nat a) @ [c] else [])"

lemma writeUnit_text: "\<bar>a\<bar> < 2 ^ 53 \<Longrightarrow> writeUnit (FInt a) c = unitText \<bar>a\<bar> c"
  using formatFloatF_small [of "\<bar>a\<bar>"] by (simp add: writeUnit_def unitText_def f64_ne0_def)

lemma cur_eof_digits [reading]: "eof (cur pre (ndigits n @ r)) = False" "is_digit (case ndigits n @ r of [] \<Rightarrow> CHR 0x00 | c # x \<Rightarrow> c)"
  using ndigits_starts [of n] by (auto simp: reading)

lemma durationDate_step [reading]:
  assumes "0 \<le> a" "a < 2 ^ 53" "idx < 4" "\<not> is_digit c" "matchUnit (drop idx dateUnits) idx c = Some m"
  shows "durationDate idx any fs (cur pre (ndigits (nat a) @ c # r)) =
    durationDate (m + 1) True (fs[m := FInt a]) (cur (pre @ ndigits (nat a) @ [c]) r)"
proof -
  have "noDigit (c # r)" using assms(4) by (simp add: noDigit_def)
  then show ?thesis using assms ndigits_16 [OF assms(2)]
    by (subst durationDate.simps) (simp add: reading)
qed

lemma durationDate_end [reading]: "noDigit r \<Longrightarrow> durationDate idx any fs (cur pre r) = Some (any, fs, cur pre r)"
  by (subst durationDate.simps) (auto simp: reading noDigit_def split: list.splits)

lemma fraction_letter [reading]: "c \<noteq> CHR ''.'' \<Longrightarrow> c \<noteq> CHR '','' \<Longrightarrow> fraction (cur pre (c # r)) = (None, cur pre (c # r))"
  by (simp add: fraction_def reading)

lemma durationTime_step [reading]:
  assumes "0 \<le> a" "a < 2 ^ 53" "idx < 3" "\<not> is_digit c" "c \<noteq> CHR ''.''" "c \<noteq> CHR '',''"
    "matchUnit (drop idx timeUnits) idx c = Some m"
  shows "durationTime idx any fs (cur pre (ndigits (nat a) @ c # r)) =
    durationTime (m + 1) True (fs[4 + m := FInt a]) (cur (pre @ ndigits (nat a) @ [c]) r)"
proof -
  have "noDigit (c # r)" using assms(4) by (simp add: noDigit_def)
  then show ?thesis using assms by (subst durationTime.simps) (simp add: reading)
qed

lemma durationTime_fraction [reading]:
  assumes "0 \<le> a" "a < 2 ^ 53" "idx < 3" "list_all is_digit ds" "ds \<noteq> []" "length ds \<le> 9" "\<not> is_digit c"
    "matchUnit (drop idx timeUnits) idx c = Some m"
  shows "durationTime idx any fs (cur pre (ndigits (nat a) @ CHR ''.'' # ds @ c # r)) =
    Some (True, spill m (int (digits_val (ds @ replicate (9 - length ds) CHR ''0''))) (fs[4 + m := FInt a]),
      cur (pre @ ndigits (nat a) @ ''.'' @ ds @ [c]) r)"
proof -
  have n: "noDigit (CHR ''.'' # ds @ c # r)" "noDigit (c # r)" using assms(7) by (simp_all add: noDigit_def is_digit_def)
  note f = cur_fraction [OF assms(4-6) n(2)]
  show ?thesis using assms n by (subst durationTime.simps) (simp add: reading f)
qed

lemma durationTime_end [reading]: "noDigit r \<Longrightarrow> durationTime idx any fs (cur pre r) = Some (any, fs, cur pre r)"
  by (subst durationTime.simps) (auto simp: reading noDigit_def split: list.splits)

text \<open>The four counts of a date, then the three of a time.\<close>

lemma unit_letters: "\<not> is_digit CHR ''Y''" "\<not> is_digit CHR ''M''" "\<not> is_digit CHR ''W''" "\<not> is_digit CHR ''D''"
  "\<not> is_digit CHR ''H''" "\<not> is_digit CHR ''S''" "\<not> is_digit CHR ''T''"
  by (simp_all add: is_digit_def)

lemma read_date_units:
  assumes "0 \<le> y" "y < 2 ^ 53" "0 \<le> mo" "mo < 2 ^ 53" "0 \<le> w" "w < 2 ^ 53" "0 \<le> D" "D < 2 ^ 53" "noDigit r"
  shows "durationDate 0 False (replicate 10 (FInt 0))
      (cur pre (unitText y CHR ''Y'' @ unitText mo CHR ''M'' @ unitText w CHR ''W'' @ unitText D CHR ''D'' @ r)) =
    Some (y \<noteq> 0 \<or> mo \<noteq> 0 \<or> w \<noteq> 0 \<or> D \<noteq> 0,
      map FInt [y, mo, w, D, 0, 0, 0, 0, 0, 0],
      cur (pre @ unitText y CHR ''Y'' @ unitText mo CHR ''M'' @ unitText w CHR ''W'' @ unitText D CHR ''D'') r)"
  using assms
  by (cases "y = 0"; cases "mo = 0"; cases "w = 0"; cases "D = 0")
    (simp_all add: unitText_def reading unit_letters dateUnits_def eval_nat_numeral)

text \<open>
  The seconds as they are written: left out when the whole number and the rest are 0, unless
  nothing else is there.
\<close>

definition secsText :: "int \<Rightarrow> int \<Rightarrow> string" where
  "secsText secs rem =
     ndigits (nat secs) @ formatFractionalSeconds (rem sdiv nsPerMilli) ((rem sdiv nsPerMicro) smod 1000) (rem smod 1000) (- 1) @ ''S''"

definition fractionFields :: "int \<Rightarrow> int list" where
  "fractionFields rem = [rem div 1000000, rem div 1000 mod 1000, rem mod 1000]"

lemma rem_parts:
  assumes "0 \<le> rem" "rem < 1000000000"
  shows "rem sdiv nsPerMilli = rem div 1000000" "(rem sdiv nsPerMicro) smod 1000 = rem div 1000 mod 1000"
    "rem smod 1000 = rem mod 1000" "0 \<le> rem div 1000000" "rem div 1000000 < 1000"
    "rem = rem div 1000000 * 1000000 + rem div 1000 mod 1000 * 1000 + rem mod 1000"
proof -
  show "rem sdiv nsPerMilli = rem div 1000000" "(rem sdiv nsPerMicro) smod 1000 = rem div 1000 mod 1000"
    "rem smod 1000 = rem mod 1000" "0 \<le> rem div 1000000" "rem div 1000000 < 1000"
    using assms by (simp_all add: go_arith ns_defs pos_imp_zdiv_nonneg_iff)
  have "rem = rem div 1000 * 1000 + rem mod 1000" "rem div 1000 = rem div 1000 div 1000 * 1000 + rem div 1000 mod 1000" by simp_all
  moreover have "rem div 1000 div 1000 = rem div 1000000" by (simp add: zdiv_zmult2_eq)
  ultimately show "rem = rem div 1000000 * 1000000 + rem div 1000 mod 1000 * 1000 + rem mod 1000" by linarith
qed

lemma read_seconds:
  assumes "0 \<le> secs" "secs < 2 ^ 53" "0 \<le> rem" "rem < 1000000000" "idx < 3"
    and fs: "fs = map FInt [y, mo, w, D, h, mi, 0, 0, 0, 0]"
  shows "\<exists>pre'. durationTime idx any fs (cur pre (secsText secs rem)) =
    Some (True, map FInt ([y, mo, w, D, h, mi, secs] @ fractionFields rem), cur pre' [])"
proof -
  have m: "matchUnit (drop idx timeUnits) idx CHR ''S'' = Some 2"
  proof -
    have "idx = 0 \<or> idx = 1 \<or> idx = 2" using assms(5) by linarith
    then show ?thesis by (auto simp: timeUnits_def eval_nat_numeral)
  qed
  note p = rem_parts [OF assms(3,4)]
  have b: "0 \<le> rem div 1000 mod 1000" "rem div 1000 mod 1000 < 1000" "0 \<le> rem mod 1000" "rem mod 1000 < 1000" by simp_all
  obtain ds where ds: "formatFractionalSeconds (rem div 1000000) (rem div 1000 mod 1000) (rem mod 1000) (- 1) = (if ds = [] then [] else CHR ''.'' # ds)"
    "list_all is_digit ds" "length ds \<le> 9" "digits_val (ds @ replicate (9 - length ds) CHR ''0'') = nat rem"
    using fraction_text [OF p(4,5) b] p(6) by metis
  have t: "secsText secs rem = ndigits (nat secs) @ (if ds = [] then [] else CHR ''.'' # ds) @ ''S''"
    unfolding secsText_def p(1-3) ds(1) ..
  show ?thesis
  proof (cases "ds = []")
    case True
    have "digits_val (replicate 9 CHR ''0'') = 0" using digits_val_zeros [of 9 "[]"] by (simp add: digits_val_def)
    then have "rem = 0" using ds(4) True assms(3) by simp
    then show ?thesis unfolding t using True m assms(1,2,5)
      by (auto simp: reading unit_letters noDigit_def fs fractionFields_def)
  next
    case False
    have v: "int (nat rem) = rem" using assms(3) by simp
    have sm: "f64_of_int n = FInt n" if "0 \<le> n" "n < 1000" for n using that by (simp add: f64_of_int_small)
    have "spill 2 rem (fs[6 := FInt secs]) = map FInt ([y, mo, w, D, h, mi, secs] @ fractionFields rem)"
      using p(4,5) b sm unfolding spill_def Let_def p(1-3) by (simp add: addField_def fs fractionFields_def p(1-3))
    then show ?thesis using False m assms(1,2,5) ds(2,3,4) v
      unfolding t by (auto simp: reading unit_letters)
  qed
qed

lemma read_time_units:
  assumes "0 \<le> h" "h < 2 ^ 53" "0 \<le> mi" "mi < 2 ^ 53" "0 \<le> secs" "secs < 2 ^ 53" "0 \<le> rem" "rem < 1000000000"
    and "x = (if secs \<noteq> 0 \<or> rem \<noteq> 0 \<or> (h = 0 \<and> mi = 0) then secsText secs rem else [])"
  shows "\<exists>pre'. durationTime 0 False (map FInt [y, mo, w, D, 0, 0, 0, 0, 0, 0])
      (cur pre (unitText h CHR ''H'' @ unitText mi CHR ''M'' @ x)) =
    Some (True, map FInt ([y, mo, w, D, h, mi, secs] @ fractionFields rem), cur pre' [])"
proof -
  have n: "noDigit []" by (simp add: noDigit_def)
  have r: "idx < 3 \<Longrightarrow> \<exists>pre'. durationTime idx any [FInt y, FInt mo, FInt w, FInt D, FInt h, FInt mi, FInt 0, FInt 0, FInt 0, FInt 0] (cur q (secsText secs rem)) =
      Some (True, map FInt ([y, mo, w, D, h, mi, secs] @ fractionFields rem), cur pre' [])" for idx any q
    by (rule read_seconds [OF assms(5-8)]) simp_all
  show ?thesis
    using assms(1-4,9) r [of 0 _ pre] r [of 1] r [of 2] n
    by (cases "h = 0"; cases "mi = 0"; cases "secs \<noteq> 0 \<or> rem \<noteq> 0")
      (auto simp add: unitText_def reading unit_letters timeUnits_def eval_nat_numeral fractionFields_def)
qed

section \<open>Writing, then reading\<close>

lemma last_writeUnit: "last (b @ unitText a c) = (if a \<noteq> 0 then c else last b)" if "b \<noteq> []"
  using that by (simp add: unitText_def)

lemma firstSign_neg: "sameSign vs \<Longrightarrow> firstSign (map FInt vs) < 0 \<longleftrightarrow> (\<exists>x \<in> set vs. x < 0)"
proof -
  have "\<forall>v \<in> set vs. 0 \<le> v \<Longrightarrow> 0 \<le> firstSign (map FInt vs)" by (induction vs) auto
  moreover have "\<forall>v \<in> set vs. v \<le> 0 \<Longrightarrow> firstSign (map FInt vs) < 0 \<longleftrightarrow> (\<exists>x \<in> set vs. x < 0)"
    by (induction vs) auto
  moreover assume "sameSign vs"
  ultimately show ?thesis unfolding sameSign_def by fastforce
qed

lemma sameSign_cases:
  "sameSign vs \<Longrightarrow> if \<exists>x \<in> set vs. x < 0 then \<forall>x \<in> set vs. x \<le> 0 else \<forall>x \<in> set vs. 0 \<le> x"
  unfolding sameSign_def by fastforce

text \<open>What is written of a valid duration.\<close>

lemma format_text:
  assumes f: "durationFields d = map FInt [y, mo, w, D, h, mi, s, f_ms, f_us, f_ns]"
    and v: "isValidDuration (durationFields d)"
    and sub: "sub = \<bar>f_ms\<bar> * 1000000 + \<bar>f_us\<bar> * 1000 + \<bar>f_ns\<bar>"
    and secs: "secs = \<bar>s\<bar> + sub div 1000000000" and rem: "rem = sub mod 1000000000"
  shows "formatTemporalDuration d (- 1) = Some
    ((if \<exists>x \<in> {y, mo, w, D, h, mi, s, f_ms, f_us, f_ns}. x < 0 then ''-'' else []) @ ''P'' @
     unitText \<bar>y\<bar> CHR ''Y'' @ unitText \<bar>mo\<bar> CHR ''M'' @ unitText \<bar>w\<bar> CHR ''W'' @ unitText \<bar>D\<bar> CHR ''D'' @
     (if h \<noteq> 0 \<or> mi \<noteq> 0 \<or> secs \<noteq> 0 \<or> rem \<noteq> 0 \<or> (y = 0 \<and> mo = 0 \<and> w = 0 \<and> D = 0)
      then ''T'' @ unitText \<bar>h\<bar> CHR ''H'' @ unitText \<bar>mi\<bar> CHR ''M'' @
        (if secs \<noteq> 0 \<or> rem \<noteq> 0 \<or> (h = 0 \<and> mi = 0) then secsText secs rem else [])
      else []))"
proof -
  have w: "sameSign [y, mo, w, D, h, mi, s, f_ms, f_us, f_ns]" "\<bar>y\<bar> < 2 ^ 32" "\<bar>mo\<bar> < 2 ^ 32" "\<bar>w\<bar> < 2 ^ 32"
      "\<bar>exactNs D h mi s f_ms f_us f_ns\<bar> < 2 ^ 53 * 1000000000"
    using v unfolding f isValidDuration_iff by auto
  have ab: "\<bar>D\<bar> * 86400 * 1000000000 + \<bar>h\<bar> * 3600 * 1000000000 + \<bar>mi\<bar> * 60 * 1000000000 + \<bar>s\<bar> * 1000000000 + sub < 2 ^ 53 * 1000000000"
    using w(1,5) unfolding sub by (auto simp: sameSign_def exactNs_def ns_defs)
  have sub0: "0 \<le> sub" by (simp add: sub)
  have sd: "sub = sub div 1000000000 * 1000000000 + rem" by (simp add: rem)
  have r: "0 \<le> rem" "rem < 1000000000" by (simp_all add: rem)
  have d0: "0 \<le> sub div 1000000000" using sub0 by (simp add: pos_imp_zdiv_nonneg_iff)
  have b: "\<bar>y\<bar> < 2 ^ 53" "\<bar>mo\<bar> < 2 ^ 53" "\<bar>w\<bar> < 2 ^ 53" "\<bar>D\<bar> < 2 ^ 53" "\<bar>h\<bar> < 2 ^ 53" "\<bar>mi\<bar> < 2 ^ 53" "secs < 2 ^ 53"
      "0 \<le> secs" "\<bar>sub div 1000000000\<bar> < 2 ^ 53"
  proof -
    show "\<bar>y\<bar> < 2 ^ 53" "\<bar>mo\<bar> < 2 ^ 53" "\<bar>w\<bar> < 2 ^ 53" using w(2-4) by simp_all
    show "\<bar>D\<bar> < 2 ^ 53" "\<bar>h\<bar> < 2 ^ 53" "\<bar>mi\<bar> < 2 ^ 53" "0 \<le> secs" using ab sub0 d0 by (simp_all add: secs)
    have "\<bar>s\<bar> * 1000000000 + sub < 2 ^ 53 * 1000000000" using ab by simp
    then have "(\<bar>s\<bar> + sub div 1000000000) * 1000000000 < 2 ^ 53 * 1000000000" using sd r by (simp add: algebra_simps)
    then have "\<bar>s\<bar> + sub div 1000000000 < 2 ^ 53" by simp
    then show "secs < 2 ^ 53" "\<bar>sub div 1000000000\<bar> < 2 ^ 53" using d0 by (simp_all add: secs)
  qed
  have whole: "sub sdiv nsPerSecond = sub div 1000000000" "sub smod nsPerSecond = rem"
    using sub0 by (simp_all add: go_arith ns_defs rem)
  have f1: "f64_of_int (sub div 1000000000) = FInt (sub div 1000000000)" by (rule f64_of_int_small [OF b(9)])
  have f2: "f64_add (FInt \<bar>s\<bar>) (FInt (sub div 1000000000)) = FInt secs"
    using b(7,8) by (simp add: secs f64_of_int_small)
  have fs: "formatFloatF (FInt secs) = ndigits (nat secs)" by (rule formatFloatF_small [OF b(8,7)])
  note d = f [unfolded list.map durationFields_eq]
  have sel: "dYears d = FInt y" "dMonths d = FInt mo" "dWeeks d = FInt w" "dDays d = FInt D" "dHours d = FInt h"
      "dMinutes d = FInt mi" "dSeconds d = FInt s" "dMs d = FInt f_ms" "dUs d = FInt f_us" "dNs d = FInt f_ns"
    by (simp_all add: d)
  have sg: "durationSign d < 0 \<longleftrightarrow> (\<exists>x \<in> {y, mo, w, D, h, mi, s, f_ms, f_us, f_ns}. x < 0)"
    using firstSign_neg [OF w(1)] by (simp add: durationSign_def f)
  have c: "Option.bind (addCount (f64_abs (FInt f_ms)) nsPerMilli 0) (\<lambda>n1. Option.bind (addCount (f64_abs (FInt f_us)) nsPerMicro n1)
      (\<lambda>n2. map_option G (addCount (f64_abs (FInt f_ns)) 1 n2))) = Some (G sub)" for G :: "int \<Rightarrow> string"
    by (simp add: addCount_def sub ns_defs)
  have ne: "f64_ne0 (FInt x) \<longleftrightarrow> x \<noteq> 0" for x by (simp add: f64_ne0_def)
  let ?b = "(if \<exists>x \<in> {y, mo, w, D, h, mi, s, f_ms, f_us, f_ns}. x < 0 then ''-'' else []) @ ''P'' @
     unitText \<bar>y\<bar> CHR ''Y'' @ unitText \<bar>mo\<bar> CHR ''M'' @ unitText \<bar>w\<bar> CHR ''W'' @ unitText \<bar>D\<bar> CHR ''D''"
  have lb: "last ?b = CHR ''P'' \<longleftrightarrow> y = 0 \<and> mo = 0 \<and> w = 0 \<and> D = 0"
    by (simp add: unitText_def)
  have z: "secsText 0 0 = ''0S''" by code_simp
  have e: "formatTemporalDuration d (- 1) = Some
      (let timeAny = (h \<noteq> 0 \<or> mi \<noteq> 0 \<or> secs \<noteq> 0 \<or> rem \<noteq> 0);
           out = (if timeAny then ?b @ ''T'' @ unitText \<bar>h\<bar> CHR ''H'' @ unitText \<bar>mi\<bar> CHR ''M'' @
             (if secs \<noteq> 0 \<or> rem \<noteq> 0 \<or> (h = 0 \<and> mi = 0) then secsText secs rem else []) else ?b)
       in if last out = CHR ''P'' then out @ ''T0S'' else out)"
    unfolding formatTemporalDuration_def sg Let_def sel c
    unfolding f64_abs.simps whole f1 f2 ne fs writeUnit_text [OF b(1)] writeUnit_text [OF b(2)] writeUnit_text [OF b(3)]
      writeUnit_text [OF b(4)] writeUnit_text [OF b(5)] writeUnit_text [OF b(6)] secsText_def
    by simp
  show ?thesis
  proof (cases "h \<noteq> 0 \<or> mi \<noteq> 0 \<or> secs \<noteq> 0 \<or> rem \<noteq> 0")
    case True
    have "last (?b @ ''T'' @ unitText \<bar>h\<bar> CHR ''H'' @ unitText \<bar>mi\<bar> CHR ''M'' @
        (if secs \<noteq> 0 \<or> rem \<noteq> 0 \<or> (h = 0 \<and> mi = 0) then secsText secs rem else [])) \<noteq> CHR ''P''"
      by (simp add: unitText_def secsText_def)
    with True show ?thesis unfolding e Let_def by simp
  next
    case False
    then show ?thesis unfolding e Let_def using lb z by (auto simp: unitText_def)
  qed
qed

lemma read_text:
  assumes b: "0 \<le> y" "y < 2 ^ 53" "0 \<le> mo" "mo < 2 ^ 53" "0 \<le> w" "w < 2 ^ 53" "0 \<le> D" "D < 2 ^ 53"
      "0 \<le> h" "h < 2 ^ 53" "0 \<le> mi" "mi < 2 ^ 53" "0 \<le> secs" "secs < 2 ^ 53" "0 \<le> rem" "rem < 1000000000"
  shows "parseTemporalDurationString ((if neg then ''-'' else []) @ ''P'' @
     unitText y CHR ''Y'' @ unitText mo CHR ''M'' @ unitText w CHR ''W'' @ unitText D CHR ''D'' @
     (if h \<noteq> 0 \<or> mi \<noteq> 0 \<or> secs \<noteq> 0 \<or> rem \<noteq> 0 \<or> (y = 0 \<and> mo = 0 \<and> w = 0 \<and> D = 0)
      then ''T'' @ unitText h CHR ''H'' @ unitText mi CHR ''M'' @
        (if secs \<noteq> 0 \<or> rem \<noteq> 0 \<or> (h = 0 \<and> mi = 0) then secsText secs rem else [])
      else [])) =
    Some (map (\<lambda>v. FInt (v * (if neg then - 1 else 1))) ([y, mo, w, D, h, mi, secs] @ fractionFields rem))"
proof -
  define x where "x = (if secs \<noteq> 0 \<or> rem \<noteq> 0 \<or> (h = 0 \<and> mi = 0) then secsText secs rem else [])"
  define any where "any = (h \<noteq> 0 \<or> mi \<noteq> 0 \<or> secs \<noteq> 0 \<or> rem \<noteq> 0 \<or> (y = 0 \<and> mo = 0 \<and> w = 0 \<and> D = 0))"
  define T where "T = (if any then ''T'' @ unitText h CHR ''H'' @ unitText mi CHR ''M'' @ x else [])"
  define g where "g = (if neg then - 1 else (1 :: int))"
  let ?u = "unitText y CHR ''Y'' @ unitText mo CHR ''M'' @ unitText w CHR ''W'' @ unitText D CHR ''D''"
  have n: "noDigit T" using unit_letters by (auto simp: T_def noDigit_def)
  have fr: "0 \<le> v \<and> v < 2 ^ 53" if "v \<in> set (fractionFields rem)" for v
    using that rem_parts(4,5) [OF b(15,16)] by (auto simp: fractionFields_def intro: order_less_trans [of _ 1000])
  have sc: "map (\<lambda>v. f64_mul v (FInt g)) (map FInt vs) = map (\<lambda>v. FInt (v * g)) vs"
    if "\<forall>v \<in> set vs. 0 \<le> v \<and> v < 2 ^ 53" for vs
    using that by (auto simp: g_def f64_of_int_small)
  have start: "signHere (newTparse ((if neg then ''-'' else []) @ ''P'' @ ?u @ T)) =
      ((if neg then Some (- 1) else None), cur (if neg then ''-'' else []) (''P'' @ ?u @ T))"
    by (simp add: signHere_def newTparse_at cur_accept)
  note date = read_date_units [OF b(1-8) n, of "(if neg then ''-'' else []) @ ''P''"]
  have all: "\<forall>v \<in> set ([y, mo, w, D, h, mi, secs] @ fractionFields rem). 0 \<le> v \<and> v < 2 ^ 53"
    using b fr by auto
  have res: "parseTemporalDurationString ((if neg then ''-'' else []) @ ''P'' @ ?u @ T) =
      Some (map (\<lambda>v. FInt (v * g)) ([y, mo, w, D, h, mi, secs] @ fractionFields rem))"
  proof (cases any)
    case True
    obtain q where q: "durationTime 0 False (map FInt [y, mo, w, D, 0, 0, 0, 0, 0, 0])
        (cur ((((if neg then ''-'' else []) @ ''P'') @ ?u) @ ''T'') (unitText h CHR ''H'' @ unitText mi CHR ''M'' @ x)) =
      Some (True, map FInt ([y, mo, w, D, h, mi, secs] @ fractionFields rem), cur q [])"
      using read_time_units [OF b(9-16) x_def] by blast
    show ?thesis
      unfolding parseTemporalDurationString_def start
      using date q sc [OF all] True
      by (cases neg) (simp_all add: T_def cur_accept_next cur_peek cur_skip1 cur_eof g_def del: list.map)
  next
    case False
    have z: "map FInt [y, mo, w, D, 0, 0, 0, 0, 0, 0] = map FInt ([y, mo, w, D, h, mi, secs] @ fractionFields rem)"
      using False by (simp add: any_def fractionFields_def)
    have "y \<noteq> 0 \<or> mo \<noteq> 0 \<or> w \<noteq> 0 \<or> D \<noteq> 0" using False by (auto simp: any_def)
    then show ?thesis
      unfolding parseTemporalDurationString_def start
      using date z sc [OF all] False
      by (cases neg) (simp_all add: T_def cur_accept_next cur_peek cur_eof g_def del: list.map)
  qed
  show ?thesis using res unfolding T_def any_def x_def g_def append_assoc .
qed

text \<open>The value of a duration survives: the counts of a second and less come back as one number.\<close>

lemma duration_text_roundtrip:
  assumes f: "durationFields d = map FInt [y, mo, w, D, h, mi, s, f_ms, f_us, f_ns]"
    and v: "isValidDuration (durationFields d)"
  shows "\<exists>str s' ms' us' ns'. formatTemporalDuration d (- 1) = Some str \<and>
    parseTemporalDurationString str = Some (map FInt [y, mo, w, D, h, mi, s', ms', us', ns']) \<and>
    exactNs 0 0 0 s' ms' us' ns' = exactNs 0 0 0 s f_ms f_us f_ns \<and>
    \<bar>ms'\<bar> < 1000 \<and> \<bar>us'\<bar> < 1000 \<and> \<bar>ns'\<bar> < 1000 \<and>
    isValidDuration (map FInt [y, mo, w, D, h, mi, s', ms', us', ns'])"
proof -
  let ?vs = "[y, mo, w, D, h, mi, s, f_ms, f_us, f_ns]"
  define neg where "neg = (\<exists>x \<in> {y, mo, w, D, h, mi, s, f_ms, f_us, f_ns}. x < 0)"
  define g where "g = (if neg then - 1 else (1 :: int))"
  define sub where "sub = \<bar>f_ms\<bar> * 1000000 + \<bar>f_us\<bar> * 1000 + \<bar>f_ns\<bar>"
  define secs where "secs = \<bar>s\<bar> + sub div 1000000000"
  define rem where "rem = sub mod 1000000000"
  have w: "sameSign ?vs" "\<bar>y\<bar> < 2 ^ 32" "\<bar>mo\<bar> < 2 ^ 32" "\<bar>w\<bar> < 2 ^ 32"
      "\<bar>exactNs D h mi s f_ms f_us f_ns\<bar> < 2 ^ 53 * 1000000000"
    using v unfolding f isValidDuration_iff by auto
  have sg: "\<bar>x\<bar> * g = x" if "x \<in> set ?vs" for x
    using w(1) that by (cases neg) (auto simp: g_def neg_def sameSign_def)
  have ab: "\<bar>D\<bar> * 86400 * 1000000000 + \<bar>h\<bar> * 3600 * 1000000000 + \<bar>mi\<bar> * 60 * 1000000000 + \<bar>s\<bar> * 1000000000 + sub < 2 ^ 53 * 1000000000"
    using w(1,5) unfolding sub_def by (auto simp: sameSign_def exactNs_def ns_defs)
  have sd: "sub = sub div 1000000000 * 1000000000 + rem" "0 \<le> sub" by (simp_all add: rem_def sub_def)
  have r: "0 \<le> rem" "rem < 1000000000" "0 \<le> sub div 1000000000" using sd(2) by (simp_all add: rem_def pos_imp_zdiv_nonneg_iff)
  have "(\<bar>s\<bar> + sub div 1000000000) * 1000000000 < 2 ^ 53 * 1000000000" using ab sd r by (simp add: algebra_simps)
  then have s53: "secs < 2 ^ 53" "0 \<le> secs" using r(3) by (simp_all add: secs_def)
  have b1: "\<bar>y\<bar> < 2 ^ 53" "\<bar>mo\<bar> < 2 ^ 53" "\<bar>w\<bar> < 2 ^ 53" using w(2-4) by simp_all
  have b2: "\<bar>D\<bar> < 2 ^ 53" "\<bar>h\<bar> < 2 ^ 53" "\<bar>mi\<bar> < 2 ^ 53" using ab sd(2) by simp_all
  note b = b1 b2
  define q where "q = map (\<lambda>x. x * g) (secs # fractionFields rem)"
  obtain s' ms' us' ns' where q: "q = [s', ms', us', ns']" "s' = secs * g" "ms' = rem div 1000000 * g"
      "us' = rem div 1000 mod 1000 * g" "ns' = rem mod 1000 * g"
    by (simp add: q_def fractionFields_def)
  note fmt = format_text [OF f v sub_def secs_def rem_def, folded neg_def]
  have p: "parseTemporalDurationString (the (formatTemporalDuration d (- 1))) =
      Some (map (\<lambda>v. FInt (v * g)) ([\<bar>y\<bar>, \<bar>mo\<bar>, \<bar>w\<bar>, \<bar>D\<bar>, \<bar>h\<bar>, \<bar>mi\<bar>, secs] @ fractionFields rem))"
    unfolding fmt option.sel g_def
    using read_text [of "\<bar>y\<bar>" "\<bar>mo\<bar>" "\<bar>w\<bar>" "\<bar>D\<bar>" "\<bar>h\<bar>" "\<bar>mi\<bar>" secs rem neg] b s53 r(1,2)
    by (simp only: abs_ge_zero abs_eq_0 simp_thms)
  have m: "map (\<lambda>v. FInt (v * g)) ([\<bar>y\<bar>, \<bar>mo\<bar>, \<bar>w\<bar>, \<bar>D\<bar>, \<bar>h\<bar>, \<bar>mi\<bar>, secs] @ fractionFields rem) =
      map FInt [y, mo, w, D, h, mi, s', ms', us', ns']"
    using q(2-5) by (simp add: sg fractionFields_def)
  note rp = rem_parts [OF r(1,2)]
  have val: "exactNs 0 0 0 s' ms' us' ns' = exactNs 0 0 0 s f_ms f_us f_ns"
  proof -
    have "exactNs 0 0 0 s' ms' us' ns' = (secs * 1000000000 + (rem div 1000000 * 1000000 + rem div 1000 mod 1000 * 1000 + rem mod 1000)) * g"
      unfolding q(2-5) exactNs_def ns_defs by (simp add: distrib_right)
    also have "\<dots> = (secs * 1000000000 + rem) * g" using rp(6) by simp
    also have "secs * 1000000000 + rem = \<bar>s\<bar> * 1000000000 + sub" using sd(1) by (simp add: secs_def)
    also have "(\<bar>s\<bar> * 1000000000 + sub) * g = exactNs 0 0 0 (\<bar>s\<bar> * g) (\<bar>f_ms\<bar> * g) (\<bar>f_us\<bar> * g) (\<bar>f_ns\<bar> * g)"
      by (simp add: exactNs_def ns_defs sub_def algebra_simps)
    also have "\<dots> = exactNs 0 0 0 s f_ms f_us f_ns"
      by (simp add: sg)
    finally show ?thesis .
  qed
  have pos: "0 \<le> rem div 1000000" "0 \<le> rem div 1000 mod 1000" "0 \<le> rem mod 1000" "0 \<le> secs" using rp(4) s53(2) by simp_all
  have small: "\<bar>ms'\<bar> < 1000" "\<bar>us'\<bar> < 1000" "\<bar>ns'\<bar> < 1000"
    unfolding q(3-5) using pos(1) rp(5) by (cases neg; simp add: g_def)+
  have n: "neg \<longleftrightarrow> (\<exists>x \<in> set ?vs. x < 0)" by (simp add: neg_def)
  have o: "if neg then \<forall>x \<in> set ?vs. x \<le> 0 else \<forall>x \<in> set ?vs. 0 \<le> x"
    unfolding n by (rule sameSign_cases [OF w(1)])
  have "sameSign [y, mo, w, D, h, mi, s', ms', us', ns']"
  proof (cases neg)
    case True
    then have "\<forall>x \<in> set [y, mo, w, D, h, mi, s', ms', us', ns']. x \<le> 0" using o pos by (simp add: q(2-5) g_def)
    then show ?thesis unfolding sameSign_def by (rule disjI2)
  next
    case False
    then have "\<forall>x \<in> set [y, mo, w, D, h, mi, s', ms', us', ns']. 0 \<le> x" using o pos by (simp add: q(2-5) g_def)
    then show ?thesis unfolding sameSign_def by (rule disjI1)
  qed
  moreover have "exactNs D h mi s' ms' us' ns' = exactNs D h mi s f_ms f_us f_ns"
    using val by (simp add: exactNs_def)
  ultimately have "isValidDuration (map FInt [y, mo, w, D, h, mi, s', ms', us', ns'])"
    using w unfolding isValidDuration_iff by simp
  then show ?thesis using fmt p m val small by auto
qed

end
