(* ===== verification/Utf8.thy ===== *)
theory Utf8
  imports Prelude
begin

text \<open>
  UTF-8 as Go's package \<open>unicode/utf8\<close> documents it, on text kept as a list of bytes:
  \<open>decodeRune\<close> is \<open>DecodeRuneInString\<close>, which answers U+FFFD and width 1 for an invalid encoding
  and width 0 for the empty text; \<open>appendRune\<close> is \<open>AppendRune\<close> on an empty slice.
\<close>

abbreviation ord :: "char \<Rightarrow> nat" where "ord c \<equiv> of_char c"

definition runeError :: nat where "runeError = 0xFFFD"

text \<open>How many bytes an encoding that starts with this byte has, and the range of its second byte.\<close>

definition leadBytes :: "nat \<Rightarrow> (nat \<times> nat \<times> nat) option" where
  "leadBytes b =
     (if 0xC2 \<le> b \<and> b \<le> 0xDF then Some (2, 0x80, 0xBF)
      else if b = 0xE0 then Some (3, 0xA0, 0xBF)
      else if b = 0xED then Some (3, 0x80, 0x9F)
      else if 0xE1 \<le> b \<and> b \<le> 0xEF then Some (3, 0x80, 0xBF)
      else if b = 0xF0 then Some (4, 0x90, 0xBF)
      else if 0xF1 \<le> b \<and> b \<le> 0xF3 then Some (4, 0x80, 0xBF)
      else if b = 0xF4 then Some (4, 0x80, 0x8F)
      else None)"

definition isCont :: "nat \<Rightarrow> bool" where "isCont b \<longleftrightarrow> 0x80 \<le> b \<and> b \<le> 0xBF"

definition decodeRune :: "string \<Rightarrow> nat \<times> nat" where
  "decodeRune s =
     (if s = [] then (runeError, 0)
      else let b0 = ord (s ! 0)
      in if b0 < 0x80 then (b0, 1)
         else case leadBytes b0 of
           None \<Rightarrow> (runeError, 1)
         | Some (sz, lo, hi) \<Rightarrow>
             (if length s < sz \<or> ord (s ! 1) < lo \<or> hi < ord (s ! 1) then (runeError, 1)
              else if sz = 2 then ((b0 mod 0x20) * 0x40 + ord (s ! 1) mod 0x40, 2)
              else if \<not> isCont (ord (s ! 2)) then (runeError, 1)
              else if sz = 3 then ((b0 mod 0x10) * 0x1000 + ord (s ! 1) mod 0x40 * 0x40 + ord (s ! 2) mod 0x40, 3)
              else if \<not> isCont (ord (s ! 3)) then (runeError, 1)
              else ((b0 mod 8) * 0x40000 + ord (s ! 1) mod 0x40 * 0x1000 + ord (s ! 2) mod 0x40 * 0x40 + ord (s ! 3) mod 0x40, 4)))"

definition encodeRune :: "nat \<Rightarrow> string" where
  "encodeRune r =
     (if r < 0x80 then [char_of r]
      else if r < 0x800 then [char_of (0xC0 + r div 0x40), char_of (0x80 + r mod 0x40)]
      else if r < 0x10000
      then [char_of (0xE0 + r div 0x1000), char_of (0x80 + r div 0x40 mod 0x40), char_of (0x80 + r mod 0x40)]
      else [char_of (0xF0 + r div 0x40000), char_of (0x80 + r div 0x1000 mod 0x40),
            char_of (0x80 + r div 0x40 mod 0x40), char_of (0x80 + r mod 0x40)])"

definition validRune :: "nat \<Rightarrow> bool" where
  "validRune r \<longleftrightarrow> r < 0xD800 \<or> (0xE000 \<le> r \<and> r \<le> 0x10FFFF)"

definition appendRune :: "nat \<Rightarrow> string" where
  "appendRune r = encodeRune (if validRune r then r else runeError)"

section \<open>Laws\<close>

lemma ord_lt [simp]: "ord c < 256"
  by (rule nat_of_char_less_256)

lemma leadBytes_size: "leadBytes b = Some (sz, lo, hi) \<Longrightarrow> sz = 2 \<or> sz = 3 \<or> sz = 4"
  by (simp add: leadBytes_def split: if_splits)

lemma decodeRune_width: "snd (decodeRune s) \<le> length s \<and> (s \<noteq> [] \<longrightarrow> 0 < snd (decodeRune s))"
proof (cases "s = [] \<or> ord (s ! 0) < 0x80")
  case True
  then show ?thesis by (auto simp: decodeRune_def Let_def Suc_le_eq)
next
  case False
  then have s: "s \<noteq> []" "\<not> ord (s ! 0) < 0x80" "1 \<le> length s" by (auto simp: Suc_le_eq)
  show ?thesis
  proof (cases "leadBytes (ord (s ! 0))")
    case None
    with s show ?thesis by (simp add: decodeRune_def)
  next
    case (Some t)
    then obtain sz lo hi where t: "leadBytes (ord (s ! 0)) = Some (sz, lo, hi)" by (cases t) auto
    from leadBytes_size [OF this] show ?thesis using s t by (auto simp: decodeRune_def Let_def)
  qed
qed

lemma decodeRune_ascii: "s \<noteq> [] \<Longrightarrow> ord (s ! 0) < 0x80 \<Longrightarrow> decodeRune s = (ord (s ! 0), 1)"
  by (simp add: decodeRune_def)

lemma mod_shift: "m dvd k \<Longrightarrow> a < m \<Longrightarrow> (k + a) mod m = (a :: nat)"
  by (auto elim!: dvdE)

lemma mod_sub: "m dvd k \<Longrightarrow> k \<le> b \<Longrightarrow> b < k + m \<Longrightarrow> b mod m = b - (k :: nat)"
  using mod_shift [of m k "b - k"] by simp

lemma split_base: "k * m = n \<Longrightarrow> r div k = r div n * m + r div k mod (m :: nat)"
  using div_mult_mod_eq [of "r div k" m] by (simp only: div_mult2_eq [symmetric])

lemma decode_encode: "validRune r \<Longrightarrow> decodeRune (encodeRune r @ s) = (r, length (encodeRune r))"
proof -
  assume v: "validRune r"
  consider "r < 0x80" | "0x80 \<le> r" "r < 0x800" | "0x800 \<le> r" "r < 0x10000" | "0x10000 \<le> r" "r \<le> 0x10FFFF"
    using v by (fastforce simp: validRune_def)
  then show ?thesis
  proof cases
    case 1
    then show ?thesis by (simp add: encodeRune_def decodeRune_def)
  next
    case 2
    define a b where "a = r div 0x40" and "b = r mod 0x40"
    have r: "r = a * 0x40 + b" "b < 0x40" by (simp_all add: a_def b_def)
    then have a: "2 \<le> a" "a < 0x20" using 2 by linarith+
    have e: "encodeRune r = [char_of (0xC0 + a), char_of (0x80 + b)]" using 2 by (simp add: encodeRune_def a_def b_def)
    have m: "(0xC0 + a) mod 0x20 = a" "(0x80 + b) mod 0x40 = b" using a r(2) by (simp_all add: mod_shift)
    show ?thesis unfolding e using a r by (simp add: decodeRune_def leadBytes_def m)
  next
    case 3
    define a b c where "a = r div 0x1000" and "b = r div 0x40 mod 0x40" and "c = r mod 0x40"
    have "r div 0x40 = a * 0x40 + b" unfolding a_def b_def by (rule split_base) simp
    moreover have "r = r div 0x40 * 0x40 + c" unfolding c_def by (rule div_mult_mod_eq [symmetric])
    ultimately have r: "r = a * 0x1000 + b * 0x40 + c" "b < 0x40" "c < 0x40" by (linarith, simp_all add: b_def c_def)
    then have a: "a < 0x10" using 3 by linarith
    have e: "encodeRune r = [char_of (0xE0 + a), char_of (0x80 + b), char_of (0x80 + c)]"
      using 3 by (simp add: encodeRune_def a_def b_def c_def)
    have "a = 0 \<longrightarrow> 0x20 \<le> b" "a = 0xD \<longrightarrow> b < 0x20" using r 3 v by (auto simp: validRune_def)
    moreover have "(0xE0 + a) mod 0x10 = a" "(0x80 + b) mod 0x40 = b" "(0x80 + c) mod 0x40 = c"
      using a r(2,3) by (simp_all add: mod_shift)
    ultimately show ?thesis unfolding e using a r by (auto simp: decodeRune_def leadBytes_def isCont_def Let_def)
  next
    case 4
    define a b c d where "a = r div 0x40000" and "b = r div 0x1000 mod 0x40" and "c = r div 0x40 mod 0x40" and "d = r mod 0x40"
    have "r div 0x1000 = a * 0x40 + b" unfolding a_def b_def by (rule split_base) simp
    moreover have "r div 0x40 = r div 0x1000 * 0x40 + c" unfolding c_def by (rule split_base) simp
    moreover have "r = r div 0x40 * 0x40 + d" unfolding d_def by (rule div_mult_mod_eq [symmetric])
    ultimately have r: "r = a * 0x40000 + b * 0x1000 + c * 0x40 + d" "b < 0x40" "c < 0x40" "d < 0x40"
      by (linarith, simp_all add: b_def c_def d_def)
    then have a: "a \<le> 4" using 4 by linarith
    have e: "encodeRune r = [char_of (0xF0 + a), char_of (0x80 + b), char_of (0x80 + c), char_of (0x80 + d)]"
      using 4 by (simp add: encodeRune_def a_def b_def c_def d_def)
    have "a = 0 \<longrightarrow> 0x10 \<le> b" "a = 4 \<longrightarrow> b < 0x10" using r 4 by auto
    moreover have "(0xF0 + a) mod 8 = a" "(0x80 + b) mod 0x40 = b" "(0x80 + c) mod 0x40 = c" "(0x80 + d) mod 0x40 = d"
      using a r(2-) by (simp_all add: mod_shift)
    ultimately show ?thesis unfolding e using a r by (auto simp: decodeRune_def leadBytes_def isCont_def Let_def)
  qed
qed

text \<open>The forms an encoding can have.\<close>

lemma decodeRune_cases:
  assumes "decodeRune s = (r, n)"
  obtains (error) "r = runeError" "n \<le> 1"
  | (ascii) "n = 1" "r = ord (s ! 0)" "r < 0x80"
  | (two) "n = 2" "2 \<le> length s" "isCont (ord (s ! 1))" "r < 0x800"
  | (three) "n = 3" "3 \<le> length s" "0xE0 \<le> ord (s ! 0)" "ord (s ! 0) \<le> 0xEF" "isCont (ord (s ! 1))" "isCont (ord (s ! 2))"
      "r = (ord (s ! 0) - 0xE0) * 0x1000 + (ord (s ! 1) - 0x80) * 0x40 + (ord (s ! 2) - 0x80)"
  | (four) "n = 4" "4 \<le> length s" "isCont (ord (s ! 1))" "isCont (ord (s ! 2))" "isCont (ord (s ! 3))" "0x10000 \<le> r"
proof (cases "s = [] \<or> ord (s ! 0) < 0x80")
  case True
  show ?thesis
  proof (cases "s = []")
    case True
    then show ?thesis using assms that(1) by (simp add: decodeRune_def)
  next
    case False
    then show ?thesis using \<open>s = [] \<or> ord (s ! 0) < 0x80\<close> assms that(2) by (simp add: decodeRune_def)
  qed
next
  case False
  then have s: "s \<noteq> []" "\<not> ord (s ! 0) < 0x80" by auto
  show ?thesis
  proof (cases "leadBytes (ord (s ! 0))")
    case None
    then show ?thesis using s assms that(1) by (simp add: decodeRune_def)
  next
    case (Some t)
    obtain sz lo hi where t: "leadBytes (ord (s ! 0)) = Some (sz, lo, hi)" using Some by (cases t) auto
    note d = assms [unfolded decodeRune_def Let_def if_not_P [OF s(1)] if_not_P [OF s(2)] t option.case prod.case]
    have lo: "0x80 \<le> lo" "hi \<le> 0xBF" using t by (auto simp: leadBytes_def split: if_splits)
    have sub: "b mod 0x40 = b - 0x80" if "isCont b" for b using mod_sub [of "0x40" "0x80" b] that by (simp add: isCont_def)
    show ?thesis
    proof (cases "n \<le> 1")
      case True
      then have "r = runeError" using d by (auto split: if_splits)
      then show ?thesis using True that(1) by simp
    next
      case n: False
      then have b1: "sz \<le> length s" "isCont (ord (s ! 1))" "lo \<le> ord (s ! 1)" using d lo by (auto simp: isCont_def split: if_splits)
      have n': "n = sz" using d n leadBytes_size [OF t] by (auto split: if_splits)
      from leadBytes_size [OF t] consider "sz = 2" | "sz = 3" | "sz = 4" by blast
      then show ?thesis
      proof cases
        case 1
        then have "r = ord (s ! 0) mod 0x20 * 0x40 + ord (s ! 1) mod 0x40" using d n by (auto split: if_splits)
        moreover have "ord (s ! 0) mod 0x20 < 0x20" "ord (s ! 1) mod 0x40 < 0x40" by simp_all
        ultimately have "r < 0x800" by linarith
        then show ?thesis using that(3) n' 1 b1 by simp
      next
        case 2
        then have r: "r = ord (s ! 0) mod 0x10 * 0x1000 + ord (s ! 1) mod 0x40 * 0x40 + ord (s ! 2) mod 0x40" "isCont (ord (s ! 2))"
          using d n by (auto split: if_splits)
        have b0: "0xE0 \<le> ord (s ! 0)" "ord (s ! 0) \<le> 0xEF" using t 2 by (auto simp: leadBytes_def split: if_splits)
        then have "ord (s ! 0) mod 0x10 = ord (s ! 0) - 0xE0" using mod_sub [of "0x10" "0xE0" "ord (s ! 0)"] by simp
        then show ?thesis using that(4) n' 2 b1 r b0 sub [OF b1(2)] sub [OF r(2)] by simp
      next
        case 3
        then have r: "r = ord (s ! 0) mod 8 * 0x40000 + ord (s ! 1) mod 0x40 * 0x1000 + ord (s ! 2) mod 0x40 * 0x40 + ord (s ! 3) mod 0x40"
            "isCont (ord (s ! 2))" "isCont (ord (s ! 3))"
          using d n by (auto split: if_splits)
        have f: "0xF0 \<le> ord (s ! 0)" "ord (s ! 0) \<le> 0xF4" "ord (s ! 0) = 0xF0 \<Longrightarrow> 0x90 \<le> lo"
          using t 3 by (auto simp: leadBytes_def split: if_splits)
        have "ord (s ! 0) mod 8 = ord (s ! 0) - 0xF0" using mod_sub [of 8 "0xF0" "ord (s ! 0)"] f by simp
        moreover have "0x90 \<le> ord (s ! 1)" if "ord (s ! 0) - 0xF0 = 0"
          using f(1) f(3) [OF le_antisym] that b1(3) by linarith
        moreover have "ord (s ! 0) - 0xF0 = 0 \<or> 0x40000 \<le> (ord (s ! 0) - 0xF0) * 0x40000" by arith
        ultimately have "0x10000 \<le> r" unfolding r(1) sub [OF b1(2)] by linarith
        then show ?thesis using that(5) n' 3 b1 r by simp
      qed
    qed
  qed
qed

lemma decodeRune_cont: "decodeRune s = (r, n) \<Longrightarrow> 0 < k \<Longrightarrow> k < n \<Longrightarrow> isCont (ord (s ! k))"
proof -
  assume d: "decodeRune s = (r, n)" and k: "0 < k" "k < n"
  from d show ?thesis
  proof (cases rule: decodeRune_cases)
    case two
    then have "k = 1" using k by simp
    then show ?thesis using two by simp
  next
    case three
    then have "k = 1 \<or> k = 2" using k by auto
    then show ?thesis using three by auto
  next
    case four
    then have "k = 1 \<or> k = 2 \<or> k = 3" using k by auto
    then show ?thesis using four by auto
  qed (use k in auto)
qed

lemma decodeRune_separator:
  "fst (decodeRune s) = 0x2028 \<or> fst (decodeRune s) = 0x2029 \<longleftrightarrow>
    2 < length s \<and> ord (s ! 0) = 0xE2 \<and> ord (s ! 1) = 0x80 \<and> (ord (s ! 2) = 0xA8 \<or> ord (s ! 2) = 0xA9)"
proof -
  obtain r n where d: "decodeRune s = (r, n)" by (cases "decodeRune s")
  show ?thesis
  proof
    assume "2 < length s \<and> ord (s ! 0) = 0xE2 \<and> ord (s ! 1) = 0x80 \<and> (ord (s ! 2) = 0xA8 \<or> ord (s ! 2) = 0xA9)"
    then show "fst (decodeRune s) = 0x2028 \<or> fst (decodeRune s) = 0x2029"
      by (auto simp: decodeRune_def leadBytes_def isCont_def)
  next
    assume r: "fst (decodeRune s) = 0x2028 \<or> fst (decodeRune s) = 0x2029"
    from d show "2 < length s \<and> ord (s ! 0) = 0xE2 \<and> ord (s ! 1) = 0x80 \<and> (ord (s ! 2) = 0xA8 \<or> ord (s ! 2) = 0xA9)"
    proof (cases rule: decodeRune_cases)
      case three
      define a b c where "a = ord (s ! 0) - 0xE0" and "b = ord (s ! 1) - 0x80" and "c = ord (s ! 2) - 0x80"
      have bc: "b < 0x40" "c < 0x40" using three(5,6) unfolding isCont_def b_def c_def by linarith+
      have e: "a * 0x1000 + b * 0x40 + c = 0x2028 \<or> a * 0x1000 + b * 0x40 + c = 0x2029"
        using r three(7) d unfolding a_def b_def c_def by (simp only: fst_conv)
      then have "\<not> a \<le> 1" "\<not> 3 \<le> a" using bc by linarith+
      then have a: "a = 2" by simp
      then have "\<not> 1 \<le> b" using e bc by linarith
      then have "b = 0" by simp
      moreover have "c = 0x28 \<or> c = 0x29" using e a calculation by auto
      moreover note a
      moreover have ge: "0xE0 \<le> ord (s ! 0)" "0x80 \<le> ord (s ! 1)" "0x80 \<le> ord (s ! 2)" using three by (simp_all add: isCont_def)
      moreover have "ord (s ! 0) = a + 0xE0" "ord (s ! 1) = b + 0x80" "ord (s ! 2) = c + 0x80" using ge by (simp_all add: a_def b_def c_def)
      ultimately show ?thesis using three(2) by auto
    qed (use r d in \<open>auto simp: runeError_def\<close>)
  qed
qed

end
