(* ===== verification/Tokens.thy ===== *)
theory Tokens
  imports Prelude
begin

text \<open>
  The token kinds (\<open>internal/engine/token.go\<close>): a \<open>uint8\<close> with the numbers the source gives, in
  three bands, and the tables over them. A number is written \<open>nat\<close>; no code computes one.
  \<open>keywordTable\<close> is the specification of \<open>parseKeyword\<close>.
\<close>

type_synonym token = nat

section \<open>The kinds\<close>

abbreviation (input) TokErr :: token where "TokErr \<equiv> 0"
abbreviation (input) TokEOF :: token where "TokEOF \<equiv> 1"
abbreviation (input) TokNumber :: token where "TokNumber \<equiv> 2"
abbreviation (input) TokString :: token where "TokString \<equiv> 3"
abbreviation (input) TokSemicolon :: token where "TokSemicolon \<equiv> 4"
abbreviation (input) TokBigInt :: token where "TokBigInt \<equiv> 5"
abbreviation (input) TokLParen :: token where "TokLParen \<equiv> 6"
abbreviation (input) TokRParen :: token where "TokRParen \<equiv> 7"
abbreviation (input) TokLBrace :: token where "TokLBrace \<equiv> 8"
abbreviation (input) TokRBrace :: token where "TokRBrace \<equiv> 9"
abbreviation (input) TokLBracket :: token where "TokLBracket \<equiv> 10"
abbreviation (input) TokRBracket :: token where "TokRBracket \<equiv> 11"
abbreviation (input) TokIdentifier :: token where "TokIdentifier \<equiv> 50"
abbreviation (input) TokAsync :: token where "TokAsync \<equiv> 51"
abbreviation (input) TokAwait :: token where "TokAwait \<equiv> 52"
abbreviation (input) TokBreak :: token where "TokBreak \<equiv> 53"
abbreviation (input) TokCase :: token where "TokCase \<equiv> 54"
abbreviation (input) TokCatch :: token where "TokCatch \<equiv> 55"
abbreviation (input) TokClass :: token where "TokClass \<equiv> 56"
abbreviation (input) TokConst :: token where "TokConst \<equiv> 57"
abbreviation (input) TokContinue :: token where "TokContinue \<equiv> 58"
abbreviation (input) TokDefault :: token where "TokDefault \<equiv> 59"
abbreviation (input) TokDelete :: token where "TokDelete \<equiv> 60"
abbreviation (input) TokDo :: token where "TokDo \<equiv> 61"
abbreviation (input) TokDebugger :: token where "TokDebugger \<equiv> 62"
abbreviation (input) TokElse :: token where "TokElse \<equiv> 63"
abbreviation (input) TokExport :: token where "TokExport \<equiv> 64"
abbreviation (input) TokFinally :: token where "TokFinally \<equiv> 65"
abbreviation (input) TokFor :: token where "TokFor \<equiv> 66"
abbreviation (input) TokFrom :: token where "TokFrom \<equiv> 67"
abbreviation (input) TokFunc :: token where "TokFunc \<equiv> 68"
abbreviation (input) TokIf :: token where "TokIf \<equiv> 69"
abbreviation (input) TokImport :: token where "TokImport \<equiv> 70"
abbreviation (input) TokIn :: token where "TokIn \<equiv> 71"
abbreviation (input) TokInstanceof :: token where "TokInstanceof \<equiv> 72"
abbreviation (input) TokLet :: token where "TokLet \<equiv> 73"
abbreviation (input) TokNew :: token where "TokNew \<equiv> 74"
abbreviation (input) TokOf :: token where "TokOf \<equiv> 75"
abbreviation (input) TokReturn :: token where "TokReturn \<equiv> 76"
abbreviation (input) TokSuper :: token where "TokSuper \<equiv> 77"
abbreviation (input) TokSwitch :: token where "TokSwitch \<equiv> 78"
abbreviation (input) TokThis :: token where "TokThis \<equiv> 79"
abbreviation (input) TokThrow :: token where "TokThrow \<equiv> 80"
abbreviation (input) TokTry :: token where "TokTry \<equiv> 81"
abbreviation (input) TokVar :: token where "TokVar \<equiv> 82"
abbreviation (input) TokVoid :: token where "TokVoid \<equiv> 83"
abbreviation (input) TokWhile :: token where "TokWhile \<equiv> 84"
abbreviation (input) TokWith :: token where "TokWith \<equiv> 85"
abbreviation (input) TokYield :: token where "TokYield \<equiv> 86"
abbreviation (input) TokUndef :: token where "TokUndef \<equiv> 87"
abbreviation (input) TokNull :: token where "TokNull \<equiv> 88"
abbreviation (input) TokTrue :: token where "TokTrue \<equiv> 89"
abbreviation (input) TokFalse :: token where "TokFalse \<equiv> 90"
abbreviation (input) TokAs :: token where "TokAs \<equiv> 91"
abbreviation (input) TokStatic :: token where "TokStatic \<equiv> 92"
abbreviation (input) TokTypeof :: token where "TokTypeof \<equiv> 93"
abbreviation (input) TokUsing :: token where "TokUsing \<equiv> 94"
abbreviation (input) TokWindow :: token where "TokWindow \<equiv> 95"
abbreviation (input) TokGlobalThis :: token where "TokGlobalThis \<equiv> 96"
abbreviation (input) TokIdentLikeEnd :: token where "TokIdentLikeEnd \<equiv> 97"
abbreviation (input) TokDot :: token where "TokDot \<equiv> 100"
abbreviation (input) TokCall :: token where "TokCall \<equiv> 101"
abbreviation (input) TokBracket :: token where "TokBracket \<equiv> 102"
abbreviation (input) TokPostInc :: token where "TokPostInc \<equiv> 103"
abbreviation (input) TokPostDec :: token where "TokPostDec \<equiv> 104"
abbreviation (input) TokNot :: token where "TokNot \<equiv> 105"
abbreviation (input) TokTilda :: token where "TokTilda \<equiv> 106"
abbreviation (input) TokUPlus :: token where "TokUPlus \<equiv> 107"
abbreviation (input) TokUMinus :: token where "TokUMinus \<equiv> 108"
abbreviation (input) TokExp :: token where "TokExp \<equiv> 109"
abbreviation (input) TokMul :: token where "TokMul \<equiv> 110"
abbreviation (input) TokDiv :: token where "TokDiv \<equiv> 111"
abbreviation (input) TokRem :: token where "TokRem \<equiv> 112"
abbreviation (input) TokOptionalChain :: token where "TokOptionalChain \<equiv> 113"
abbreviation (input) TokRest :: token where "TokRest \<equiv> 114"
abbreviation (input) TokPlus :: token where "TokPlus \<equiv> 115"
abbreviation (input) TokMinus :: token where "TokMinus \<equiv> 116"
abbreviation (input) TokShl :: token where "TokShl \<equiv> 117"
abbreviation (input) TokShr :: token where "TokShr \<equiv> 118"
abbreviation (input) TokZShr :: token where "TokZShr \<equiv> 119"
abbreviation (input) TokLt :: token where "TokLt \<equiv> 120"
abbreviation (input) TokLe :: token where "TokLe \<equiv> 121"
abbreviation (input) TokGt :: token where "TokGt \<equiv> 122"
abbreviation (input) TokGe :: token where "TokGe \<equiv> 123"
abbreviation (input) TokEq :: token where "TokEq \<equiv> 124"
abbreviation (input) TokNe :: token where "TokNe \<equiv> 125"
abbreviation (input) TokSeq :: token where "TokSeq \<equiv> 126"
abbreviation (input) TokSne :: token where "TokSne \<equiv> 127"
abbreviation (input) TokAnd :: token where "TokAnd \<equiv> 128"
abbreviation (input) TokXor :: token where "TokXor \<equiv> 129"
abbreviation (input) TokOr :: token where "TokOr \<equiv> 130"
abbreviation (input) TokLand :: token where "TokLand \<equiv> 131"
abbreviation (input) TokLor :: token where "TokLor \<equiv> 132"
abbreviation (input) TokNullish :: token where "TokNullish \<equiv> 133"
abbreviation (input) TokColon :: token where "TokColon \<equiv> 134"
abbreviation (input) TokQ :: token where "TokQ \<equiv> 135"
abbreviation (input) TokAssign :: token where "TokAssign \<equiv> 136"
abbreviation (input) TokPlusAssign :: token where "TokPlusAssign \<equiv> 137"
abbreviation (input) TokMinusAssign :: token where "TokMinusAssign \<equiv> 138"
abbreviation (input) TokMulAssign :: token where "TokMulAssign \<equiv> 139"
abbreviation (input) TokDivAssign :: token where "TokDivAssign \<equiv> 140"
abbreviation (input) TokRemAssign :: token where "TokRemAssign \<equiv> 141"
abbreviation (input) TokShlAssign :: token where "TokShlAssign \<equiv> 142"
abbreviation (input) TokShrAssign :: token where "TokShrAssign \<equiv> 143"
abbreviation (input) TokZShrAssign :: token where "TokZShrAssign \<equiv> 144"
abbreviation (input) TokAndAssign :: token where "TokAndAssign \<equiv> 145"
abbreviation (input) TokXorAssign :: token where "TokXorAssign \<equiv> 146"
abbreviation (input) TokOrAssign :: token where "TokOrAssign \<equiv> 147"
abbreviation (input) TokExpAssign :: token where "TokExpAssign \<equiv> 148"
abbreviation (input) TokLorAssign :: token where "TokLorAssign \<equiv> 149"
abbreviation (input) TokLandAssign :: token where "TokLandAssign \<equiv> 150"
abbreviation (input) TokNullishAssign :: token where "TokNullishAssign \<equiv> 151"
abbreviation (input) TokComma :: token where "TokComma \<equiv> 152"
abbreviation (input) TokTemplate :: token where "TokTemplate \<equiv> 153"
abbreviation (input) TokArrow :: token where "TokArrow \<equiv> 154"
abbreviation (input) TokHash :: token where "TokHash \<equiv> 155"
abbreviation (input) TokMax :: token where "TokMax \<equiv> 156"

section \<open>Tables\<close>

definition precTable :: "token \<Rightarrow> nat" where
  "precTable t =
     (if t = TokLor then 4
      else if t = TokLand \<or> t = TokNullish then 5
      else if t = TokOr then 6
      else if t = TokXor then 7
      else if t = TokAnd then 8
      else if t = TokEq \<or> t = TokNe \<or> t = TokSeq \<or> t = TokSne then 9
      else if t = TokLt \<or> t = TokLe \<or> t = TokGt \<or> t = TokGe \<or> t = TokInstanceof \<or> t = TokIn then 10
      else if t = TokShl \<or> t = TokShr \<or> t = TokZShr then 11
      else if t = TokPlus \<or> t = TokMinus then 12
      else if t = TokMul \<or> t = TokDiv \<or> t = TokRem then 13
      else if t = TokExp then 14
      else 0)"

definition isIdentLike :: "token \<Rightarrow> bool" where
  "isIdentLike tok \<longleftrightarrow> TokIdentifier \<le> tok \<and> tok < TokIdentLikeEnd"

definition parseKeyword :: "string \<Rightarrow> token" where
  "parseKeyword buf =
     (if buf = [] then TokIdentifier
      else if hd buf = CHR ''a'' then
        (if buf = ''as'' then TokAs
         else if buf = ''async'' then TokAsync
         else if buf = ''await'' then TokAwait else TokIdentifier)
      else if hd buf = CHR ''b'' then
        (if buf = ''break'' then TokBreak else TokIdentifier)
      else if hd buf = CHR ''c'' then
        (if buf = ''case'' then TokCase
         else if buf = ''catch'' then TokCatch
         else if buf = ''class'' then TokClass
         else if buf = ''const'' then TokConst
         else if buf = ''continue'' then TokContinue else TokIdentifier)
      else if hd buf = CHR ''d'' then
        (if buf = ''do'' then TokDo
         else if buf = ''default'' then TokDefault
         else if buf = ''delete'' then TokDelete
         else if buf = ''debugger'' then TokDebugger else TokIdentifier)
      else if hd buf = CHR ''e'' then
        (if buf = ''else'' then TokElse
         else if buf = ''export'' then TokExport else TokIdentifier)
      else if hd buf = CHR ''f'' then
        (if buf = ''for'' then TokFor
         else if buf = ''from'' then TokFrom
         else if buf = ''false'' then TokFalse
         else if buf = ''finally'' then TokFinally
         else if buf = ''function'' then TokFunc else TokIdentifier)
      else if hd buf = CHR ''g'' then
        (if buf = ''globalThis'' then TokGlobalThis else TokIdentifier)
      else if hd buf = CHR ''i'' then
        (if buf = ''if'' then TokIf
         else if buf = ''in'' then TokIn
         else if buf = ''import'' then TokImport
         else if buf = ''instanceof'' then TokInstanceof else TokIdentifier)
      else if hd buf = CHR ''l'' then
        (if buf = ''let'' then TokLet else TokIdentifier)
      else if hd buf = CHR ''n'' then
        (if buf = ''new'' then TokNew
         else if buf = ''null'' then TokNull else TokIdentifier)
      else if hd buf = CHR ''o'' then
        (if buf = ''of'' then TokOf else TokIdentifier)
      else if hd buf = CHR ''r'' then
        (if buf = ''return'' then TokReturn else TokIdentifier)
      else if hd buf = CHR ''s'' then
        (if buf = ''super'' then TokSuper
         else if buf = ''static'' then TokStatic
         else if buf = ''switch'' then TokSwitch else TokIdentifier)
      else if hd buf = CHR ''t'' then
        (if buf = ''try'' then TokTry
         else if buf = ''this'' then TokThis
         else if buf = ''true'' then TokTrue
         else if buf = ''throw'' then TokThrow
         else if buf = ''typeof'' then TokTypeof else TokIdentifier)
      else if hd buf = CHR ''u'' then
        (if buf = ''undefined'' then TokUndef
         else if buf = ''using'' then TokUsing else TokIdentifier)
      else if hd buf = CHR ''v'' then
        (if buf = ''var'' then TokVar
         else if buf = ''void'' then TokVoid else TokIdentifier)
      else if hd buf = CHR ''w'' then
        (if buf = ''while'' then TokWhile
         else if buf = ''with'' then TokWith
         else if buf = ''window'' then TokWindow else TokIdentifier)
      else if hd buf = CHR ''y'' then
        (if buf = ''yield'' then TokYield else TokIdentifier)
      else TokIdentifier)"

definition isEvalOrArgumentsName :: "string \<Rightarrow> bool" where
  "isEvalOrArgumentsName s \<longleftrightarrow> s = ''eval'' \<or> s = ''arguments''"

definition isStrictReservedName :: "string \<Rightarrow> bool" where
  "isStrictReservedName s \<longleftrightarrow> s \<in> {''interface'', ''implements'', ''let'', ''private'', ''package'', ''public'',
     ''protected'', ''static'', ''yield''}"

section \<open>Keywords are a table\<close>

definition keywordTable :: "(string \<times> token) list" where
  "keywordTable =
    [(''as'', TokAs), (''async'', TokAsync), (''await'', TokAwait),
     (''break'', TokBreak),
     (''case'', TokCase), (''catch'', TokCatch), (''class'', TokClass), (''const'', TokConst), (''continue'', TokContinue),
     (''do'', TokDo), (''default'', TokDefault), (''delete'', TokDelete), (''debugger'', TokDebugger),
     (''else'', TokElse), (''export'', TokExport),
     (''for'', TokFor), (''from'', TokFrom), (''false'', TokFalse), (''finally'', TokFinally), (''function'', TokFunc),
     (''globalThis'', TokGlobalThis),
     (''if'', TokIf), (''in'', TokIn), (''import'', TokImport), (''instanceof'', TokInstanceof),
     (''let'', TokLet),
     (''new'', TokNew), (''null'', TokNull),
     (''of'', TokOf),
     (''return'', TokReturn),
     (''super'', TokSuper), (''static'', TokStatic), (''switch'', TokSwitch),
     (''try'', TokTry), (''this'', TokThis), (''true'', TokTrue), (''throw'', TokThrow), (''typeof'', TokTypeof),
     (''undefined'', TokUndef), (''using'', TokUsing),
     (''var'', TokVar), (''void'', TokVoid),
     (''while'', TokWhile), (''with'', TokWith), (''window'', TokWindow),
     (''yield'', TokYield)]"

lemma keywordTable_apart: "distinct (map fst keywordTable)" "distinct (map snd keywordTable)"
  by code_simp+

lemma keywordTable_band: "list_all (\<lambda>(s, t). parseKeyword s = t \<and> TokIdentifier < t \<and> t < TokIdentLikeEnd) keywordTable"
  by code_simp

definition inTable :: "string \<Rightarrow> token \<Rightarrow> bool" where
  "inTable buf t \<longleftrightarrow> t = TokIdentifier \<or> (buf, t) \<in> set keywordTable"

lemma inTable_intros:
  "inTable buf TokIdentifier"
  "(s, t) \<in> set keywordTable \<Longrightarrow> inTable buf e \<Longrightarrow> inTable buf (if buf = s then t else e)"
  "inTable buf e1 \<Longrightarrow> inTable buf e2 \<Longrightarrow> inTable buf (if hd buf = c then e1 else e2)"
  by (simp_all add: inTable_def)

lemma parseKeyword_inTable: "buf \<noteq> [] \<Longrightarrow> inTable buf (parseKeyword buf)"
  unfolding parseKeyword_def if_not_P
  by (intro inTable_intros) (simp_all add: keywordTable_def)

lemma parseKeyword_in: "parseKeyword buf = TokIdentifier \<or> (buf, parseKeyword buf) \<in> set keywordTable"
  using parseKeyword_inTable [of buf] by (cases "buf = []") (auto simp: inTable_def parseKeyword_def)

lemma parseKeyword_table: "parseKeyword buf = t \<and> t \<noteq> TokIdentifier \<longleftrightarrow> (buf, t) \<in> set keywordTable"
  using parseKeyword_in [of buf] keywordTable_band by (auto simp: list_all_iff)

lemma parseKeyword_identLike: "isIdentLike (parseKeyword buf)"
  using parseKeyword_in [of buf] keywordTable_band by (auto simp: list_all_iff isIdentLike_def)

end
