(* ===== verification/Values.thy ===== *)
theory Values
  imports Prelude
begin

text \<open>
  The NaN-boxed value (\<open>internal/engine/value.go\<close>). A \<open>Value\<close> is a 64-bit word: a pattern above
  the one of minus infinity is a tagged value (five bits of type, 47 of data), any other is a double.
  A \<open>float64\<close> is its bit pattern here, as \<open>math.Float64bits\<close> gives it; the one question the code
  asks of it is \<open>d != d\<close>.
\<close>

definition nanboxTypeMask :: u64 where "nanboxTypeMask = 0x1F"
definition nanboxTypeShift :: nat where "nanboxTypeShift = 0x2F"
definition nanboxPrefix :: u64 where "nanboxPrefix = 0xFFF0000000000000"
definition nanboxDataMask :: u64 where "nanboxDataMask = 0x00007FFFFFFFFFFF"
definition canonicalNaN :: u64 where "canonicalNaN = 0x7FF8000000000000"

definition TObj :: u8 where "TObj = 0"
definition TStr :: u8 where "TStr = 1"
definition TArr :: u8 where "TArr = 2"
definition TFunc :: u8 where "TFunc = 3"
definition TCFunc :: u8 where "TCFunc = 4"
definition TPromise :: u8 where "TPromise = 5"
definition TGenerator :: u8 where "TGenerator = 6"
definition TUndef :: u8 where "TUndef = 7"
definition TNull :: u8 where "TNull = 8"
definition TBool :: u8 where "TBool = 9"
definition TNum :: u8 where "TNum = 10"
definition TBigInt :: u8 where "TBigInt = 11"
definition TSymbol :: u8 where "TSymbol = 12"
definition TErr :: u8 where "TErr = 13"
definition TTypedArray :: u8 where "TTypedArray = 14"
definition TNTArg :: u8 where "TNTArg = 15"
definition TMap :: u8 where "TMap = 16"
definition TSet :: u8 where "TSet = 17"
definition TWeakMap :: u8 where "TWeakMap = 18"
definition TWeakSet :: u8 where "TWeakSet = 19"
definition TSentinel :: u8 where "TSentinel = 31"

lemmas type_tags = TObj_def TStr_def TArr_def TFunc_def TCFunc_def TPromise_def TGenerator_def TUndef_def
  TNull_def TBool_def TNum_def TBigInt_def TSymbol_def TErr_def TTypedArray_def TNTArg_def TMap_def
  TSet_def TWeakMap_def TWeakSet_def TSentinel_def

definition tagFlagBit :: "u8 \<Rightarrow> u32" where
  "tagFlagBit t = push_bit (unat t) 1"

definition tObjectMask :: u32 where
  "tObjectMask = tagFlagBit TObj OR tagFlagBit TArr OR tagFlagBit TFunc OR tagFlagBit TPromise OR
     tagFlagBit TGenerator"

definition tSpecialObjectMask :: u32 where
  "tSpecialObjectMask = tagFlagBit TObj OR tagFlagBit TArr"

definition tNonNumericMask :: u32 where
  "tNonNumericMask = tagFlagBit TStr OR tagFlagBit TArr OR tagFlagBit TFunc OR tagFlagBit TCFunc OR
     tagFlagBit TObj OR tagFlagBit TGenerator"

definition tEmpty :: u64 where
  "tEmpty = nanboxPrefix OR push_bit nanboxTypeShift (ucast TSentinel) OR 0xDEAD"

definition lazyBase :: u64 where
  "lazyBase = nanboxPrefix OR push_bit nanboxTypeShift (ucast TSentinel) OR push_bit 46 1"

definition lazyOffsetMask :: u64 where "lazyOffsetMask = push_bit 46 1 - 1"

definition mklazy :: "int \<Rightarrow> u64" where
  "mklazy off = lazyBase OR (word_of_int off AND lazyOffsetMask)"

definition isLazy :: "u64 \<Rightarrow> bool" where "isLazy v \<longleftrightarrow> lazyBase \<le> v"

definition lazyOffset :: "u64 \<Rightarrow> int" where "lazyOffset v = sint (v AND lazyOffsetMask)"

definition isTagged :: "u64 \<Rightarrow> bool" where "isTagged v \<longleftrightarrow> nanboxPrefix < v"

definition valueType :: "u64 \<Rightarrow> u8" where
  "valueType v = (if isTagged v then ucast (drop_bit nanboxTypeShift v AND nanboxTypeMask) else TNum)"

definition valueData :: "u64 \<Rightarrow> u64" where "valueData v = v AND nanboxDataMask"

definition mkval :: "u8 \<Rightarrow> u64 \<Rightarrow> u64" where
  "mkval t data = nanboxPrefix OR push_bit nanboxTypeShift (ucast t) OR (data AND nanboxDataMask)"

text \<open>\<open>d != d\<close> on the bit pattern: all exponent bits set and a fraction that is not zero.\<close>

definition is_nan_bits :: "u64 \<Rightarrow> bool" where
  "is_nan_bits b \<longleftrightarrow> b AND 0x7FF0000000000000 = 0x7FF0000000000000 \<and> b AND 0x000FFFFFFFFFFFFF \<noteq> 0"

definition tov :: "u64 \<Rightarrow> u64" where
  "tov bits = (if is_nan_bits bits then (if nanboxPrefix < bits then canonicalNaN else bits) else bits)"

definition tod :: "u64 \<Rightarrow> u64" where "tod v = v"

definition mkundef :: u64 where "mkundef = mkval TUndef 0"
definition mknull :: u64 where "mknull = mkval TNull 0"
definition mkbool :: "bool \<Rightarrow> u64" where
  "mkbool b = (if b then mkval TBool 1 else mkval TBool 0)"
definition mktrue :: u64 where "mktrue = mkval TBool 1"
definition mkfalse :: u64 where "mkfalse = mkval TBool 0"
definition mknum :: "u64 \<Rightarrow> u64" where "mknum d = tov d"

definition IsUndefined :: "u64 \<Rightarrow> bool" where "IsUndefined v \<longleftrightarrow> valueType v = TUndef"
definition IsNull :: "u64 \<Rightarrow> bool" where "IsNull v \<longleftrightarrow> valueType v = TNull"
definition IsNullish :: "u64 \<Rightarrow> bool" where
  "IsNullish v \<longleftrightarrow> (let t = valueType v in t = TUndef \<or> t = TNull)"
definition IsErr :: "u64 \<Rightarrow> bool" where "IsErr v \<longleftrightarrow> valueType v = TErr"
definition IsNumber :: "u64 \<Rightarrow> bool" where "IsNumber v \<longleftrightarrow> \<not> isTagged v"
definition IsBool :: "u64 \<Rightarrow> bool" where "IsBool v \<longleftrightarrow> valueType v = TBool"
definition IsString :: "u64 \<Rightarrow> bool" where "IsString v \<longleftrightarrow> valueType v = TStr"
definition IsSymbol :: "u64 \<Rightarrow> bool" where "IsSymbol v \<longleftrightarrow> valueType v = TSymbol"
definition IsEmpty :: "u64 \<Rightarrow> bool" where "IsEmpty v \<longleftrightarrow> v = tEmpty"
definition IsObjectType :: "u64 \<Rightarrow> bool" where
  "IsObjectType v \<longleftrightarrow> tagFlagBit (valueType v) AND tObjectMask \<noteq> 0"
definition IsObjectLike :: "u64 \<Rightarrow> bool" where
  "IsObjectLike v \<longleftrightarrow> IsObjectType v \<or> valueType v = TTypedArray"
definition IsSpecialObject :: "u64 \<Rightarrow> bool" where
  "IsSpecialObject v \<longleftrightarrow> tagFlagBit (valueType v) AND tSpecialObjectMask \<noteq> 0"
definition IsNonNumeric :: "u64 \<Rightarrow> bool" where
  "IsNonNumeric v \<longleftrightarrow> tagFlagBit (valueType v) AND tNonNumericMask \<noteq> 0"
definition valueBool :: "u64 \<Rightarrow> bool" where "valueBool v \<longleftrightarrow> valueData v \<noteq> 0"
definition valueNumber :: "u64 \<Rightarrow> u64" where "valueNumber v = tod v"
definition handle :: "u64 \<Rightarrow> u32" where "handle v = ucast (valueData v)"

definition typeName :: "u8 \<Rightarrow> string" where
  "typeName t =
     (if t = TObj then ''object''
      else if t = TStr then ''string''
      else if t = TArr then ''array''
      else if t = TFunc \<or> t = TCFunc then ''function''
      else if t = TPromise then ''promise''
      else if t = TGenerator then ''generator''
      else if t = TUndef then ''undefined''
      else if t = TNull then ''object''
      else if t = TBool then ''boolean''
      else if t = TNum then ''number''
      else if t = TBigInt then ''bigint''
      else if t = TSymbol then ''symbol''
      else if t = TErr then ''error''
      else if t = TTypedArray then ''object''
      else if t = TMap then ''map''
      else if t = TSet then ''set''
      else if t = TWeakMap then ''weakmap''
      else if t = TWeakSet then ''weakset''
      else ''unknown'')"

section \<open>Boxing and unboxing\<close>

lemma box_masks:
  "nanboxTypeMask = mask 5" "nanboxDataMask = mask 47" "nanboxPrefix = push_bit 52 (mask 12)"
  "lazyOffsetMask = mask 46" "nanboxTypeShift = 47"
  by (simp_all add: nanboxTypeMask_def nanboxDataMask_def nanboxPrefix_def lazyOffsetMask_def nanboxTypeShift_def
      mask_eq_exp_minus_1)

lemma unat_drop_bit: "unat (drop_bit n w) = unat (w :: 'a::len word) div 2 ^ n"
proof -
  have "take_bit LENGTH('a) (unat w) = unat w" by (intro take_bit_nat_eq_self) simp
  then show ?thesis by (simp only: unsigned_drop_bit_eq drop_bit_eq_div [of n "unat w"])
qed

lemma type_bits: "t < 32 \<Longrightarrow> 5 \<le> n \<Longrightarrow> \<not> bit (t :: u8) n"
proof -
  assume "t < 32" "5 \<le> n"
  then have "take_bit 5 (uint t) = uint t" by (simp add: word_less_def take_bit_int_eq_self)
  with \<open>5 \<le> n\<close> have "\<not> bit (uint t) n" by (metis bit_take_bit_iff not_le)
  then show ?thesis by (auto simp: bit_uint_iff dest: bit_imp_le_length)
qed

lemma mkval_bits:
  assumes "t < 32"
  shows "valueData (mkval t d) = d AND mask 47"
    and "drop_bit 47 (mkval t d) AND mask 5 = ucast t"
    and "mkval t d = nanboxPrefix + (push_bit 47 (ucast t) OR (d AND mask 47))"
proof -
  have hi: "bit t n \<Longrightarrow> n < 5" for n using type_bits [OF assms, of n] by linarith
  show "valueData (mkval t d) = d AND mask 47"
    by (rule bit_word_eqI) (auto simp: valueData_def mkval_def box_masks bit_simps)
  show "drop_bit 47 (mkval t d) AND mask 5 = ucast t"
    by (rule bit_word_eqI) (auto simp: mkval_def box_masks bit_simps dest: hi)
  show "mkval t d = nanboxPrefix + (push_bit 47 (ucast t) OR (d AND mask 47))"
    unfolding mkval_def box_masks or.assoc
    by (rule disjunctive_add_eq_or [symmetric], rule bit_word_eqI) (auto simp: bit_simps dest: hi)
qed

lemma ucast_back: "ucast (ucast (t :: u8) :: u64) = t"
  by (rule bit_word_eqI) (auto simp: bit_simps dest: bit_imp_le_length)

lemma above_prefix:
  assumes "take_bit 52 x = x"
  shows "nanboxPrefix < nanboxPrefix + x \<longleftrightarrow> x \<noteq> 0"
    and "unat (nanboxPrefix + x) = unat nanboxPrefix + unat x"
proof -
  have "unat x < 2 ^ 52" using assms by (metis take_bit_nat_less_exp unsigned_take_bit_eq)
  then show e: "unat (nanboxPrefix + x) = unat nanboxPrefix + unat x"
    by (subst unat_plus_if') (simp add: nanboxPrefix_def)
  show "nanboxPrefix < nanboxPrefix + x \<longleftrightarrow> x \<noteq> 0"
    by (simp add: word_less_nat_alt e unat_gt_0)
qed

lemma payload_bits:
  assumes "t < 32"
  shows "take_bit 52 (push_bit 47 (ucast (t :: u8)) OR (d AND mask 47 :: u64)) =
      push_bit 47 (ucast t) OR (d AND mask 47)"
    and "push_bit 47 (ucast t) OR (d AND mask 47 :: u64) = 0 \<longleftrightarrow> t = 0 \<and> d AND mask 47 = 0"
proof -
  have hi: "bit t n \<Longrightarrow> n < 5" for n using type_bits [OF assms, of n] by linarith
  show "take_bit 52 (push_bit 47 (ucast (t :: u8)) OR (d AND mask 47 :: u64)) =
      push_bit 47 (ucast t) OR (d AND mask 47)"
    by (rule bit_word_eqI) (auto simp: bit_simps dest: hi)
  have "drop_bit 47 (push_bit 47 (ucast t) OR (d AND mask 47 :: u64)) = ucast t"
    by (rule bit_word_eqI) (auto simp: bit_simps dest: hi)
  moreover have "(ucast t :: u64) = 0 \<longleftrightarrow> t = 0" using ucast_back [of t] by (metis ucast_0)
  ultimately show "push_bit 47 (ucast t) OR (d AND mask 47 :: u64) = 0 \<longleftrightarrow> t = 0 \<and> d AND mask 47 = 0"
    by (metis drop_bit_of_0 or.left_neutral push_bit_of_0)
qed

lemma mkval_tagged: "t < 32 \<Longrightarrow> isTagged (mkval t d) \<longleftrightarrow> t \<noteq> 0 \<or> d AND mask 47 \<noteq> 0"
  unfolding isTagged_def mkval_bits(3) using above_prefix(1) payload_bits by blast

lemma mkval_type:
  assumes "t < 32" "t \<noteq> 0 \<or> d AND mask 47 \<noteq> 0"
  shows "valueType (mkval t d) = t"
proof -
  have "drop_bit nanboxTypeShift (mkval t d) AND nanboxTypeMask = ucast t"
    using mkval_bits(2) [OF assms(1)] by (simp add: box_masks)
  then show ?thesis using mkval_tagged [OF assms(1)] assms(2) by (simp add: valueType_def ucast_back)
qed

text \<open>Above the prefix all exponent bits are set and the fraction is not zero: every such pattern is a NaN.\<close>

lemma above_prefix_nan:
  assumes "nanboxPrefix < b"
  shows "is_nan_bits b"
proof -
  have u: "18442240474082181120 < unat b" "unat b < 18446744073709551616"
    using assms unsigned_less [of b, where ?'a = nat] by (simp_all add: nanboxPrefix_def word_less_nat_alt)
  have "unat (drop_bit 52 b) = unat b div 2 ^ 52" by (rule unat_drop_bit)
  also have "\<dots> = 4095"
    by (rule Euclidean_Rings.div_nat_eqI) (use u in simp_all)
  finally have "unat (drop_bit 52 b) = unat (4095 :: u64)" by simp
  then have "drop_bit 52 b = 4095" by (simp only: word_unat_eq_iff)
  also have "\<dots> = mask 12" by (simp add: mask_eq_exp_minus_1)
  finally have d: "drop_bit 52 b = mask 12" .
  have hb: "bit b n" if "52 \<le> n" "n < 64" for n
  proof -
    have "bit (drop_bit 52 b) (n - 52)" unfolding d bit_mask_iff using that by auto
    with that show ?thesis by (simp add: bit_simps)
  qed
  have "b AND push_bit 52 (mask 11) = push_bit 52 (mask 11)"
    by (rule bit_word_eqI) (use hb in \<open>auto simp: bit_simps\<close>)
  then have e: "b AND 0x7FF0000000000000 = 0x7FF0000000000000" by (simp add: mask_eq_exp_minus_1)
  have "take_bit 52 b \<noteq> 0"
  proof
    assume "take_bit 52 b = 0"
    then have "b = push_bit 52 (drop_bit 52 b)" using bits_ident [of 52 b] by simp
    then show False using assms by (simp add: d mask_eq_exp_minus_1 nanboxPrefix_def)
  qed
  moreover have "b AND 0x000FFFFFFFFFFFFF = take_bit 52 b" by (simp add: take_bit_eq_mask mask_eq_exp_minus_1)
  ultimately show ?thesis using e by (simp add: is_nan_bits_def)
qed

lemma tov_untagged: "\<not> isTagged (tov b)"
  using above_prefix_nan [of b] by (auto simp: tov_def isTagged_def nanboxPrefix_def canonicalNaN_def)

lemma tov_number: "\<not> is_nan_bits b \<Longrightarrow> tov b = b" "is_nan_bits b \<Longrightarrow> is_nan_bits (tov b)"
  by (auto simp: tov_def) (simp add: is_nan_bits_def canonicalNaN_def)

section \<open>The type tests\<close>

lemma object_mask_table:
  "list_all (\<lambda>k. (tagFlagBit (of_nat k) AND tObjectMask \<noteq> 0) = (k \<in> {0, 2, 3, 5, 6}) \<and>
    (tagFlagBit (of_nat k) AND tSpecialObjectMask \<noteq> 0) = (k \<in> {0, 2}) \<and>
    (tagFlagBit (of_nat k) AND tNonNumericMask \<noteq> 0) = (k \<in> {0, 1, 2, 3, 4, 6})) [0..<32]"
  by code_simp

lemma type_small: "valueType v < 32"
proof -
  have m: "ucast (x AND mask 5 :: u64) < (32 :: u8)" for x
  proof -
    have "uint (ucast (x AND mask 5 :: u64) :: u8) = take_bit 5 (uint x)"
      by (simp add: take_bit_eq_mask [symmetric] unsigned_ucast_eq unsigned_take_bit_eq)
    then have "uint (ucast (x AND mask 5 :: u64) :: u8) < 2 ^ 5" by (simp only: take_bit_int_less_exp)
    then show ?thesis by (simp add: word_less_def)
  qed
  then show ?thesis by (simp add: valueType_def box_masks TNum_def)
qed

lemma type_mask_tests:
  "IsObjectType v \<longleftrightarrow> valueType v \<in> {TObj, TArr, TFunc, TPromise, TGenerator}"
  "IsSpecialObject v \<longleftrightarrow> valueType v \<in> {TObj, TArr}"
  "IsNonNumeric v \<longleftrightarrow> valueType v \<in> {TStr, TArr, TFunc, TCFunc, TObj, TGenerator}"
proof -
  define k where "k = unat (valueType v)"
  have k: "k < 32" "valueType v = of_nat k" using type_small [of v] by (simp_all add: k_def word_less_nat_alt)
  have i: "valueType v = n \<longleftrightarrow> k = unat n" for n by (simp add: k_def word_unat_eq_iff)
  from object_mask_table k(1) have
    "(tagFlagBit (of_nat k) AND tObjectMask \<noteq> 0) = (k \<in> {0, 2, 3, 5, 6})"
    "(tagFlagBit (of_nat k) AND tSpecialObjectMask \<noteq> 0) = (k \<in> {0, 2})"
    "(tagFlagBit (of_nat k) AND tNonNumericMask \<noteq> 0) = (k \<in> {0, 1, 2, 3, 4, 6})"
    by (simp_all add: list_all_iff)
  then show "IsObjectType v \<longleftrightarrow> valueType v \<in> {TObj, TArr, TFunc, TPromise, TGenerator}"
    "IsSpecialObject v \<longleftrightarrow> valueType v \<in> {TObj, TArr}"
    "IsNonNumeric v \<longleftrightarrow> valueType v \<in> {TStr, TArr, TFunc, TCFunc, TObj, TGenerator}"
    unfolding IsObjectType_def IsSpecialObject_def IsNonNumeric_def k(2) [symmetric]
    by (auto simp: i type_tags)
qed

section \<open>The sentinels\<close>

lemma lazyBase_eq: "lazyBase = 0xFFFFC00000000000"
  by code_simp

lemma tEmpty_eq: "tEmpty = 0xFFFF80000000DEAD"
  by code_simp

lemma mklazy_sum:
  assumes "0 \<le> off" "off < 2 ^ 46"
  shows "unat (mklazy off) = unat lazyBase + nat off" "mklazy off AND lazyOffsetMask = word_of_int off"
proof -
  have "take_bit 46 off = off" using assms by (simp add: take_bit_int_eq_self)
  then have b: "bit off n \<Longrightarrow> n < 46" for n by (metis bit_take_bit_iff)
  have nb: "46 \<le> n \<Longrightarrow> \<not> bit off n" for n using b [of n] by linarith
  have l: "lazyBase = push_bit 46 (mask 18)" by (simp add: lazyBase_eq mask_eq_exp_minus_1)
  show "mklazy off AND lazyOffsetMask = word_of_int off"
    by (rule bit_word_eqI) (auto simp: mklazy_def l box_masks bit_simps dest: b)
  have s: "mklazy off = lazyBase + word_of_int off"
    unfolding mklazy_def box_masks l
    by (subst disjunctive_add_eq_or) (auto simp: bit_simps nb intro!: bit_word_eqI)
  have "unat (word_of_int off :: u64) = nat off"
    using assms by (simp add: unat_eq_nat_uint uint_word_of_int)
  with assms show "unat (mklazy off) = unat lazyBase + nat off"
    unfolding s by (subst unat_plus_if') (simp add: lazyBase_eq)
qed

lemma lazy_offset:
  assumes "0 \<le> off" "off < 2 ^ 46"
  shows "isLazy (mklazy off) \<and> lazyOffset (mklazy off) = off"
proof -
  have "sint (word_of_int off :: u64) = off"
    using assms by (simp add: sint_uint uint_word_of_int signed_take_bit_int_eq_self)
  with mklazy_sum [OF assms] show ?thesis by (simp add: isLazy_def lazyOffset_def word_le_nat_alt)
qed

text \<open>Nothing else is read as a span: not a double, not the hole, not a value of another type.\<close>

lemma not_lazy:
  "\<not> isTagged v \<Longrightarrow> \<not> isLazy v"
  "\<not> isLazy tEmpty"
  "t < 31 \<Longrightarrow> \<not> isLazy (mkval t d)"
proof -
  show "\<not> isTagged v \<Longrightarrow> \<not> isLazy v"
    by (auto simp: isTagged_def isLazy_def lazyBase_eq nanboxPrefix_def word_le_nat_alt word_less_nat_alt)
  show "\<not> isLazy tEmpty" by (simp add: isLazy_def lazyBase_eq tEmpty_eq)
  assume t: "t < 31"
  then have t': "t < 32" by (simp add: word_less_nat_alt)
  define x :: u64 where "x = push_bit 47 (ucast t) OR (d AND mask 47)"
  have "drop_bit 47 x = ucast t" "unat (ucast t :: u64) = unat t"
  proof -
    have hi: "bit t n \<Longrightarrow> n < 5" for n using type_bits [OF t', of n] by linarith
    show "drop_bit 47 x = ucast t" unfolding x_def by (rule bit_word_eqI) (auto simp: bit_simps dest: hi)
    have "take_bit 64 (unat t) = unat t" using t by (intro take_bit_nat_eq_self) (simp add: word_less_nat_alt)
    then show "unat (ucast t :: u64) = unat t" by (simp add: unsigned_ucast_eq)
  qed
  then have "unat x div 2 ^ 47 = unat t"
    using unat_drop_bit [of 47 x] by simp
  with t have "unat x div 2 ^ 47 < 31" by (simp add: word_less_nat_alt)
  then have "unat x < 31 * 2 ^ 47" by (simp only: div_less_iff_less_mult zero_less_power zero_less_numeral)
  moreover have "unat (mkval t d) = unat nanboxPrefix + unat x"
    unfolding mkval_bits(3) [OF t'] x_def by (rule above_prefix(2)) (rule payload_bits(1) [OF t'])
  ultimately show "\<not> isLazy (mkval t d)"
    by (simp add: isLazy_def lazyBase_eq nanboxPrefix_def word_le_nat_alt)
qed

lemma numbers_are_plain: "\<not> isLazy (mknum b)"
  using not_lazy(1) [OF tov_untagged] by (simp add: mknum_def)

end
