(* ===== verification/Number_Text.thy ===== *)
theory Number_Text
  imports Values Doubles
begin

text \<open>
  From the text of a numeric literal to its double. The conversions Go's library makes, of a ratio of
  naturals, of a decimal text (\<open>strconv.ParseFloat\<close>) and of an integer (\<open>float64(u)\<close>,
  \<open>big.Float.Float64\<close>), are documented as the nearest double, halves to even, infinity on overflow;
  \<open>ratioBits\<close> computes its 64 bits and \<open>ratioBits_nearest\<close> says that it is nearest. On top of it
  stand \<open>parseRadixString\<close> and its helpers (\<open>internal/engine/numbers.go\<close>).
\<close>

section \<open>The double nearest to a ratio\<close>

text \<open>
  A finite double with bits \<open>b\<close> and no sign is a natural number of units of \<open>2 ^ -1074\<close>: the
  fraction, with its leading bit when the exponent field is not 0, moved up by that field less one.
\<close>

definition infBits :: u64 where "infBits = 0x7FF0000000000000"

definition roundedBits :: "nat \<Rightarrow> nat \<Rightarrow> int" where
  "roundedBits n d =
     (let x = n * 2 ^ 1074; j = bitLen (x div d) - 53
      in int j * 2 ^ 52 + roundEven (int x) (int d * 2 ^ j))"

definition ratioBits :: "nat \<Rightarrow> nat \<Rightarrow> u64" where
  "ratioBits n d = (if roundedBits n d < 2047 * 2 ^ 52 then word_of_int (roundedBits n d) else infBits)"

definition unitsOf :: "int \<Rightarrow> int" where
  "unitsOf b = (let e = b div 2 ^ 52; f = b mod 2 ^ 52
                in if e = 0 then f else (2 ^ 52 + f) * 2 ^ nat (e - 1))"

section \<open>Decimal text\<close>

text \<open>
  \<open>strconv.ParseFloat(s, 64)\<close> on the characters a decimal literal is made of: digits, a point, an
  exponent. None is its syntax error; overflow is not an error for the callers here.
\<close>

definition scaled :: "nat \<Rightarrow> int \<Rightarrow> u64" where
  "scaled m x = (if 0 \<le> x then ratioBits (m * 10 ^ nat x) 1 else ratioBits m (10 ^ nat (- x)))"

definition exponentOf :: "string \<Rightarrow> int option" where
  "exponentOf s =
     (let r = tl s; neg = (r \<noteq> [] \<and> hd r = CHR ''-'');
          ds = (if r \<noteq> [] \<and> (hd r = CHR ''+'' \<or> hd r = CHR ''-'') then tl r else r)
      in if (hd s = CHR ''e'' \<or> hd s = CHR ''E'') \<and> ds \<noteq> [] \<and> list_all is_digit ds
         then Some (if neg then - int (digits_val ds) else int (digits_val ds)) else None)"

definition parseFloat :: "string \<Rightarrow> u64 option" where
  "parseFloat s =
     (let ip = takeWhile is_digit s; r1 = dropWhile is_digit s;
          fp = (if r1 \<noteq> [] \<and> hd r1 = CHR ''.'' then takeWhile is_digit (tl r1) else []);
          r2 = (if r1 \<noteq> [] \<and> hd r1 = CHR ''.'' then dropWhile is_digit (tl r1) else r1);
          m = digits_val (ip @ fp)
      in if ip @ fp = [] then None
         else if r2 = [] then Some (scaled m (- int (length fp)))
         else (case exponentOf r2 of None \<Rightarrow> None | Some x \<Rightarrow> Some (scaled m (x - int (length fp)))))"

section \<open>Text in another radix\<close>

definition digitVal :: "char \<Rightarrow> int" where
  "digitVal c =
     (let n = (of_char c :: int)
      in if 97 \<le> n then n - 97 + 10 else if 65 \<le> n then n - 65 + 10
         else uint (word_of_int (n - 48) :: u8))"

definition isRadixDigit :: "char \<Rightarrow> int \<Rightarrow> bool" where
  "isRadixDigit c radix =
     (let d = digitVal c; n = (of_char c :: int)
      in if d < 0 \<or> radix \<le> d then False
         else (48 \<le> n \<and> n \<le> 57) \<or> (97 \<le> n \<and> n \<le> 122) \<or> (65 \<le> n \<and> n \<le> 90))"

definition radixOk :: "char \<Rightarrow> int \<Rightarrow> bool" where
  "radixOk c radix \<longleftrightarrow> \<not> (digitVal c < 0 \<or> radix \<le> digitVal c \<or> \<not> isRadixDigit c radix)"

fun radixWord :: "string \<Rightarrow> int \<Rightarrow> nat \<Rightarrow> u64 \<Rightarrow> u64 option" where
  "radixWord [] radix bits u = Some u"
| "radixWord (c # s) radix bits u =
     (if \<not> radixOk c radix then None
      else radixWord s radix bits (push_bit bits u OR word_of_int (digitVal c)))"

fun radixBig :: "string \<Rightarrow> int \<Rightarrow> int \<Rightarrow> int option" where
  "radixBig [] radix acc = Some acc"
| "radixBig (c # s) radix acc =
     (if \<not> radixOk c radix then None else radixBig s radix (acc * radix + digitVal c))"

definition parseRadixString :: "string \<Rightarrow> int \<Rightarrow> u64" where
  "parseRadixString s radix =
     (if s = [] then canonicalNaN
      else let bits = (if radix = 2 then 1 else if radix = 8 then 3 else if radix = 16 then 4 else (0 :: nat))
      in if bits \<noteq> 0 \<and> length s * bits \<le> 64
         then (case radixWord s radix bits 0 of None \<Rightarrow> canonicalNaN | Some u \<Rightarrow> ratioBits (unat u) 1)
         else (case radixBig s radix 0 of None \<Rightarrow> canonicalNaN | Some n \<Rightarrow> ratioBits (nat n) 1))"

section \<open>Nearest\<close>

lemma roundEven_near: "0 < k \<Longrightarrow> 2 * \<bar>x - roundEven x k * k\<bar> \<le> k"
proof -
  assume k: "0 < k"
  define q r where "q = x div k" and "r = x mod k"
  have x: "x = q * k + r" by (simp add: q_def r_def)
  have r: "0 \<le> r" "r < k" using k by (simp_all add: r_def)
  have e: "roundEven x k = (if 2 * r < k \<or> (2 * r = k \<and> even q) then q else q + 1)"
    by (simp add: roundEven_def q_def r_def Let_def)
  show ?thesis
  proof (cases "2 * r < k \<or> (2 * r = k \<and> even q)")
    case True
    then have "x - roundEven x k * k = r" using x e by simp
    then show ?thesis using True r by auto
  next
    case False
    then have "roundEven x k = q + 1" using e by argo
    then have "x - roundEven x k * k = r - k" using x by (simp add: algebra_simps)
    then show ?thesis using False r by auto
  qed
qed

lemma nearest_multiple:
  assumes "0 < k"
  shows "\<bar>x - roundEven x k * k\<bar> \<le> \<bar>x - y * k\<bar>"
proof (cases "y = roundEven x k")
  case False
  define a b where "a = x - roundEven x k * k" and "b = x - y * k"
  have "1 * k \<le> \<bar>y - roundEven x k\<bar> * k" using False assms by (intro mult_right_mono) auto
  then have "k \<le> \<bar>(y - roundEven x k) * k\<bar>" using assms by (simp add: abs_mult)
  moreover have "(y - roundEven x k) * k = a - b" by (simp add: a_def b_def algebra_simps)
  ultimately have "k \<le> \<bar>a - b\<bar>" by simp
  moreover have "2 * \<bar>a\<bar> \<le> k" using roundEven_near [OF assms, of x] by (simp add: a_def)
  ultimately show ?thesis unfolding a_def [symmetric] b_def [symmetric] by linarith
qed simp

lemma roundEven_le: "x \<le> q * k \<Longrightarrow> 0 < k \<Longrightarrow> roundEven x k \<le> q"
proof -
  assume a: "x \<le> q * k" "0 < k"
  have "roundEven x k * k - x \<le> \<bar>x - q * k\<bar>" using nearest_multiple [OF a(2), of x q] by linarith
  then have "roundEven x k * k \<le> x + (q * k - x)" using a by simp
  then show ?thesis using a(2) by simp
qed

lemma roundEven_lower: "q * k \<le> x \<Longrightarrow> 0 < k \<Longrightarrow> q \<le> roundEven x k"
proof -
  assume a: "q * k \<le> x" "0 < k"
  then have "q \<le> x div k" by (metis nonzero_mult_div_cancel_right order_less_irrefl zdiv_mono1)
  then show ?thesis using roundEven_ge [of x k] by linarith
qed

lemma unitsOf_form:
  assumes "0 \<le> b"
  obtains m i where "unitsOf b = m * 2 ^ i" "0 \<le> m" "m < 2 ^ 53"
proof (cases "b div 2 ^ 52 = 0")
  case True
  have "b mod 2 ^ 52 < 2 ^ 52" by simp
  then show ?thesis using that [of "b mod 2 ^ 52" 0] True by (simp add: unitsOf_def Let_def)
next
  case False
  have "b mod 2 ^ 52 < 2 ^ 52" "0 \<le> b mod 2 ^ 52" by simp_all
  then show ?thesis using that [of "2 ^ 52 + b mod 2 ^ 52" "nat (b div 2 ^ 52 - 1)"] False by (simp add: unitsOf_def Let_def)
qed

lemma unitsOf_bits:
  assumes "0 \<le> q" "q \<le> 2 ^ 53" "0 < j \<longrightarrow> 2 ^ 52 \<le> q"
  shows "unitsOf (int j * 2 ^ 52 + q) = q * 2 ^ j"
proof -
  consider "q < 2 ^ 52" | "2 ^ 52 \<le> q" "q < 2 ^ 53" | "q = 2 ^ 53" using assms(2) by linarith
  then show ?thesis
  proof cases
    case 1
    then have "j = 0" using assms(3) by auto
    then show ?thesis using 1 assms(1) by (simp add: unitsOf_def)
  next
    case 2
    define f where "f = q - 2 ^ 52"
    have f: "0 \<le> f" "f < 2 ^ 52" "q = 2 ^ 52 + f" using 2 by (simp_all add: f_def)
    have "int j * 2 ^ 52 + q = f + (int j + 1) * 2 ^ 52" by (simp add: f(3) algebra_simps)
    then have "(int j * 2 ^ 52 + q) div 2 ^ 52 = int j + 1" "(int j * 2 ^ 52 + q) mod 2 ^ 52 = f"
      using f(1,2) by (simp_all only: div_mult_self3 div_mult_self1 mod_mult_self1 mod_pos_pos_trivial div_pos_pos_trivial)
    then show ?thesis by (simp add: unitsOf_def Let_def f(3))
  next
    case 3
    have "int j * 2 ^ 52 + q = 0 + (int j + 2) * 2 ^ 52" by (simp add: 3 algebra_simps)
    then have "(int j * 2 ^ 52 + q) div 2 ^ 52 = int j + 2" "(int j * 2 ^ 52 + q) mod 2 ^ 52 = 0" by simp_all
    moreover have "nat (int j + 2 - 1) = Suc j" by simp
    ultimately show ?thesis by (simp add: unitsOf_def Let_def 3)
  qed
qed

text \<open>The scale and the quotient \<open>roundedBits\<close> puts together.\<close>

lemma roundedBits_parts:
  assumes "0 < d"
  obtains j q where "roundedBits n d = int j * 2 ^ 52 + q" "q = roundEven (int n * 2 ^ 1074) (int d * 2 ^ j)"
    "0 \<le> q" "q \<le> 2 ^ 53" "0 < j \<longrightarrow> 2 ^ 52 \<le> q \<and> 2 ^ 52 * (int d * 2 ^ j) \<le> int n * 2 ^ 1074"
proof -
  define x where "x = n * 2 ^ 1074"
  define L where "L = bitLen (x div d)"
  define j where "j = L - 53"
  define k where "k = int d * 2 ^ j"
  have k: "0 < k" using assms by (simp add: k_def)
  have L: "x div d < 2 ^ L" "0 < x div d \<Longrightarrow> 2 ^ (L - 1) \<le> x div d"
    using bitLen_bounds [of "x div d"] by (cases "x div d = 0"; simp add: L_def)+
  have "x < 2 ^ L * d" using L(1) assms by (simp add: div_less_iff_less_mult mult.commute)
  also have "\<dots> \<le> 2 ^ (53 + j) * d" by (intro mult_right_mono power_increasing) (simp_all add: j_def)
  finally have "int x \<le> int (2 ^ (53 + j) * d)" by linarith
  then have up: "int x \<le> 2 ^ 53 * k" by (simp add: k_def power_add mult_ac)
  have low: "2 ^ 52 * k \<le> int x" if "0 < j"
  proof -
    have l: "L - 1 = 52 + j" "L \<noteq> 0" using that by (simp_all add: j_def)
    have "0 < x div d" using l(2) by (cases "x div d = 0") (simp_all add: L_def bitLen.simps)
    then have "2 ^ (52 + j) * d \<le> x div d * d" using L(2) l by (intro mult_right_mono) simp_all
    also have "\<dots> \<le> x" by simp
    finally have "int (2 ^ (52 + j) * d) \<le> int x" by (simp only: of_nat_le_iff)
    then show ?thesis by (simp add: k_def power_add mult_ac)
  qed
  show ?thesis
  proof (rule that [of j "roundEven (int x) k"])
    show "roundedBits n d = int j * 2 ^ 52 + roundEven (int x) k"
      by (simp add: roundedBits_def Let_def j_def L_def x_def k_def)
    show "roundEven (int x) k = roundEven (int n * 2 ^ 1074) (int d * 2 ^ j)" by (simp add: x_def k_def)
    show "0 \<le> roundEven (int x) k" using roundEven_lower [of 0 k "int x"] k by simp
    show "roundEven (int x) k \<le> 2 ^ 53" by (rule roundEven_le [OF up k])
    show "0 < j \<longrightarrow> 2 ^ 52 \<le> roundEven (int x) k \<and> 2 ^ 52 * (int d * 2 ^ j) \<le> int n * 2 ^ 1074"
      using roundEven_lower [OF low k] low by (simp add: k_def x_def)
  qed
qed

lemma roundedBits_nearest:
  assumes "0 < d" "0 \<le> b"
  shows "\<bar>int n * 2 ^ 1074 - unitsOf (roundedBits n d) * int d\<bar> \<le> \<bar>int n * 2 ^ 1074 - unitsOf b * int d\<bar>"
proof -
  obtain j q where p: "roundedBits n d = int j * 2 ^ 52 + q" "q = roundEven (int n * 2 ^ 1074) (int d * 2 ^ j)"
    "0 \<le> q" "q \<le> 2 ^ 53" "0 < j \<longrightarrow> 2 ^ 52 \<le> q \<and> 2 ^ 52 * (int d * 2 ^ j) \<le> int n * 2 ^ 1074"
    by (rule roundedBits_parts [OF assms(1), of n])
  define x where "x = int n * 2 ^ 1074"
  define k where "k = int d * 2 ^ j"
  have k: "0 < k" using assms by (simp add: k_def)
  have u: "unitsOf (roundedBits n d) * int d = q * k" unfolding p(1) using unitsOf_bits [of q j] p(3-5) by (simp add: k_def)
  have near: "\<bar>x - q * k\<bar> \<le> \<bar>x - y * k\<bar>" for y
    using nearest_multiple [OF k, of x y] p(2) by (simp add: x_def k_def)
  obtain m i where b: "unitsOf b = m * 2 ^ i" "0 \<le> m" "m < 2 ^ 53" by (rule unitsOf_form [OF assms(2)])
  show ?thesis
  proof (cases "j \<le> i")
    case True
    then have "unitsOf b * int d = (m * 2 ^ (i - j)) * k" by (simp add: b(1) k_def power_add [symmetric] mult_ac)
    then show ?thesis using near u by (simp add: x_def)
  next
    case False
    then have j: "0 < j" "i \<le> j - 1" by simp_all
    have "m * 2 ^ i \<le> 2 ^ 53 * 2 ^ (j - 1)" using b(2,3) j(2) by (intro mult_mono power_increasing) simp_all
    also have "\<dots> = 2 ^ 52 * 2 ^ j" using j(1) by (cases j) simp_all
    finally have "unitsOf b * int d \<le> 2 ^ 52 * 2 ^ j * int d" unfolding b(1) by (intro mult_right_mono) simp_all
    then have "unitsOf b * int d \<le> 2 ^ 52 * k" by (simp add: k_def mult_ac)
    moreover have "2 ^ 52 * k \<le> x" using p(5) j(1) by (simp add: k_def x_def)
    moreover have "\<bar>x - q * k\<bar> \<le> \<bar>x - 2 ^ 52 * k\<bar>" by (rule near)
    ultimately show ?thesis unfolding u x_def [symmetric] by linarith
  qed
qed

lemma roundedBits_nonneg: "0 < d \<Longrightarrow> 0 \<le> roundedBits n d"
proof -
  assume "0 < d"
  then show ?thesis by (rule roundedBits_parts [of d n]) simp
qed

lemma ratioBits_uint: "0 < d \<Longrightarrow> roundedBits n d < 2047 * 2 ^ 52 \<Longrightarrow> uint (ratioBits n d) = roundedBits n d"
  using roundedBits_nonneg [of d n] by (simp add: ratioBits_def uint_word_of_int_eq take_bit_int_eq_self_iff)

lemma ratioBits_le: "0 < d \<Longrightarrow> ratioBits n d \<le> infBits"
proof (cases "roundedBits n d < 2047 * 2 ^ 52")
  case True
  assume d: "0 < d"
  have "uint infBits = 2047 * 2 ^ 52" by (simp add: infBits_def)
  then show ?thesis using ratioBits_uint [OF d True] True by (simp add: word_le_def)
qed (simp add: ratioBits_def)

lemma below_inf_number: "b \<le> infBits \<Longrightarrow> \<not> is_nan_bits b"
proof
  assume b: "b \<le> infBits" "is_nan_bits b"
  then have "infBits = b AND infBits" by (simp add: is_nan_bits_def infBits_def)
  also have "\<dots> \<le> b" by (rule word_and_le2)
  finally have "b = infBits" using b(1) by simp
  with b(2) show False by (simp add: is_nan_bits_def infBits_def)
qed

lemma ratioBits_number: "0 < d \<Longrightarrow> \<not> is_nan_bits (ratioBits n d)"
  by (rule below_inf_number [OF ratioBits_le])

lemma tov_ratio: "0 < d \<Longrightarrow> tov (ratioBits n d) = ratioBits n d"
  by (simp add: tov_number ratioBits_number)

lemma scaled_number: "\<not> is_nan_bits (scaled m x)"
  by (simp add: scaled_def ratioBits_number)

lemma parseFloat_number: "parseFloat s = Some b \<Longrightarrow> \<not> is_nan_bits b"
  by (auto simp: parseFloat_def Let_def scaled_number split: if_splits option.splits)

section \<open>Both ways through a radix agree\<close>

lemma radixWord_big:
  assumes "radix = 2 ^ bits" "0 \<le> acc" "acc < 2 ^ (bits * k)" "bits * (k + length s) \<le> 64"
  shows "radixWord s radix bits (word_of_int acc) = map_option word_of_int (radixBig s radix acc) \<and>
    (\<forall>n. radixBig s radix acc = Some n \<longrightarrow> 0 \<le> n \<and> n < 2 ^ (bits * (k + length s)))"
  using assms(2-)
proof (induction s arbitrary: acc k)
  case (Cons c s)
  show ?case
  proof (cases "radixOk c radix")
    case True
    define a where "a = acc * radix + digitVal c"
    have d: "0 \<le> digitVal c" "digitVal c < 2 ^ bits" using True assms(1) by (auto simp: radixOk_def)
    have "acc * radix + digitVal c < (acc + 1) * 2 ^ bits" using d assms(1) by (simp add: algebra_simps)
    also have "\<dots> \<le> 2 ^ (bits * k) * 2 ^ bits" using Cons.prems(2) by (intro mult_right_mono) simp_all
    finally have a: "0 \<le> a" "a < 2 ^ (bits * Suc k)" using Cons.prems(1) d assms(1) by (simp_all add: a_def power_add mult_ac)
    have "push_bit bits acc OR digitVal c = a" using push_or [OF d, of acc] assms(1) by (simp add: a_def)
    then have "push_bit bits (word_of_int acc :: u64) OR word_of_int (digitVal c) = word_of_int a"
      by (metis of_int_or_eq push_bit_of_int)
    then have "radixWord (c # s) radix bits (word_of_int acc) = radixWord s radix bits (word_of_int a)" using True by simp
    then show ?thesis using Cons.IH [OF a] Cons.prems(3) True by (simp add: a_def)
  qed simp
qed simp

lemma parseRadixString_big:
  assumes "s \<noteq> []" "radixBig s radix 0 = Some n"
  shows "parseRadixString s radix = ratioBits (nat n) 1"
proof -
  have w: "parseRadixString s radix = ratioBits (nat n) 1"
    if "radix = 2 ^ bits" "length s * bits \<le> 64"
      "parseRadixString s radix = (case radixWord s radix bits 0 of None \<Rightarrow> canonicalNaN | Some u \<Rightarrow> ratioBits (unat u) 1)" for bits
  proof -
    have "radixWord s radix bits 0 = Some (word_of_int n)" "0 \<le> n" "n < 2 ^ (bits * length s)"
      using radixWord_big [OF that(1), of 0 0 s] that(2) assms(2) by (simp_all add: mult.commute)
    moreover have "(2::int) ^ (bits * length s) \<le> 2 ^ 64"
      by (rule power_increasing) (use that(2) in \<open>simp_all add: mult.commute\<close>)
    ultimately show ?thesis using that(3) by (simp add: unat_eq_nat_uint uint_word_of_int_eq take_bit_int_eq_self)
  qed
  show ?thesis
    using w [of 1] w [of 3] w [of 4] assms
    by (cases "radix = 2 \<or> radix = 8 \<or> radix = 16") (auto simp: parseRadixString_def)
qed

end
