(* ===== verification/Lexer_Chars.thy ===== *)
theory Lexer_Chars
  imports Utf8 Tokens Number_Text
begin

text \<open>
  The lexer (\<open>internal/engine/lexer.go\<close>), first part: character classes, Unicode identifiers,
  escapes, identifiers, and the scanners of numbers. The text is a list of bytes. The tables of general categories of Go's package
  \<open>unicode\<close> are the parameter \<open>uc\<close>; the tables the repository adds to them are here.
\<close>

section \<open>Character classes\<close>

definition charDigit :: u8 where "charDigit = 0x01"
definition charXDigit :: u8 where "charXDigit = 0x02"
definition charAlpha :: u8 where "charAlpha = 0x04"
definition charIdent :: u8 where "charIdent = 0x08"
definition charIdent1 :: u8 where "charIdent1 = 0x10"
definition charWS :: u8 where "charWS = 0x20"
definition charOctal :: u8 where "charOctal = 0x40"

lemmas char_flags = charDigit_def charXDigit_def charAlpha_def charIdent_def charIdent1_def charWS_def charOctal_def

definition charType :: "char \<Rightarrow> u8" where
  "charType ch =
     (let c = ord ch
      in if c = 9 \<or> c = 10 \<or> c = 13 \<or> c = 32 then charWS
         else if 48 \<le> c \<and> c \<le> 55 then charDigit OR charXDigit OR charIdent OR charOctal
         else if c = 56 \<or> c = 57 then charDigit OR charXDigit OR charIdent
         else if (65 \<le> c \<and> c \<le> 70) \<or> (97 \<le> c \<and> c \<le> 102)
         then charXDigit OR charAlpha OR charIdent OR charIdent1
         else if (71 \<le> c \<and> c \<le> 90) \<or> (103 \<le> c \<and> c \<le> 122) then charAlpha OR charIdent OR charIdent1
         else if c = 95 \<or> c = 36 then charIdent OR charIdent1
         else 0)"

definition isDigitByte :: "char \<Rightarrow> bool" where "isDigitByte c \<longleftrightarrow> charType c AND charDigit \<noteq> 0"
definition isXDigitByte :: "char \<Rightarrow> bool" where "isXDigitByte c \<longleftrightarrow> charType c AND charXDigit \<noteq> 0"
definition isIdentByte :: "char \<Rightarrow> bool" where "isIdentByte c \<longleftrightarrow> charType c AND charIdent \<noteq> 0"
definition isIdent1Byte :: "char \<Rightarrow> bool" where "isIdent1Byte c \<longleftrightarrow> charType c AND charIdent1 \<noteq> 0"
definition isOctalByte :: "char \<Rightarrow> bool" where "isOctalByte c \<longleftrightarrow> charType c AND charOctal \<noteq> 0"

definition singleCharTok :: "char \<Rightarrow> token" where
  "singleCharTok c =
     (if c = CHR ''('' then TokLParen else if c = CHR '')'' then TokRParen
      else if c = CHR ''{'' then TokLBrace else if c = CHR ''}'' then TokRBrace
      else if c = CHR ''['' then TokLBracket else if c = CHR '']'' then TokRBracket
      else if c = CHR '';'' then TokSemicolon else if c = CHR '','' then TokComma
      else if c = CHR '':'' then TokColon else if c = CHR ''~'' then TokTilda
      else if c = CHR ''#'' then TokHash else 0)"

section \<open>Unicode identifiers\<close>

text \<open>
  \<open>letters\<close> is membership in Lu, Ll, Lt, Lm, Lo or Nl, \<open>marks\<close> in Mn, Mc, Nd or Pc, both as Go's
  tables have them.
\<close>

record unicodeTables =
  letters :: "nat \<Rightarrow> bool"
  marks :: "nat \<Rightarrow> bool"

text \<open>Tables with one letter, for evaluation on concrete text.\<close>

definition sampleTables :: unicodeTables where
  "sampleTables = \<lparr>letters = (\<lambda>r. r = 0x3C0), marks = (\<lambda>r. False)\<rparr>"

definition inRanges :: "(nat \<times> nat) list \<Rightarrow> nat \<Rightarrow> bool" where
  "inRanges rs r \<longleftrightarrow> list_ex (\<lambda>(lo, hi). lo \<le> r \<and> r \<le> hi) rs"

definition idStartExt :: "(nat \<times> nat) list" where
  "idStartExt =
    [(0x088F, 0x088F), (0x0C5C, 0x0C5C), (0x0CDC, 0x0CDC), (0x1C89, 0x1C8A), (0xA7CB, 0xA7CF),
     (0xA7D2, 0xA7D2), (0xA7D4, 0xA7D4), (0xA7DA, 0xA7DC), (0xA7F1, 0xA7F1), (0x105C0, 0x105F3),
     (0x10940, 0x10959), (0x10D4A, 0x10D65), (0x10D6F, 0x10D85), (0x10EC2, 0x10EC7), (0x11380, 0x11389),
     (0x1138B, 0x1138B), (0x1138E, 0x1138E), (0x11390, 0x113B5), (0x113B7, 0x113B7), (0x113D1, 0x113D1),
     (0x113D3, 0x113D3), (0x11BC0, 0x11BE0), (0x11DB0, 0x11DDB), (0x13460, 0x143FA), (0x16100, 0x1611D),
     (0x16D40, 0x16D6C), (0x16EA0, 0x16EB8), (0x16EBB, 0x16ED3), (0x16FF2, 0x16FF6), (0x187F8, 0x187FF),
     (0x18CFF, 0x18CFF), (0x18D09, 0x18D1E), (0x18D80, 0x18DF2), (0x1E5D0, 0x1E5ED), (0x1E5F0, 0x1E5F0),
     (0x1E6C0, 0x1E6DE), (0x1E6E0, 0x1E6E2), (0x1E6E4, 0x1E6E5), (0x1E6E7, 0x1E6ED), (0x1E6F0, 0x1E6F4),
     (0x1E6FE, 0x1E6FF), (0x2B73A, 0x2B73F), (0x2CEA2, 0x2CEAD), (0x2EBF0, 0x2EE5D), (0x323B0, 0x33479)]"

definition idContinueExt :: "(nat \<times> nat) list" where
  "idContinueExt =
    [(0x0897, 0x0897), (0x1ACF, 0x1ADD), (0x1AE0, 0x1AEB), (0x200C, 0x200D), (0x30FB, 0x30FB),
     (0xFF65, 0xFF65), (0x10D40, 0x10D49), (0x10D69, 0x10D6D), (0x10EFA, 0x10EFC), (0x113B8, 0x113C0),
     (0x113C2, 0x113C2), (0x113C5, 0x113C5), (0x113C7, 0x113CA), (0x113CC, 0x113D0), (0x113D2, 0x113D2),
     (0x113E1, 0x113E2), (0x116D0, 0x116E3), (0x11B60, 0x11B67), (0x11BF0, 0x11BF9), (0x11DE0, 0x11DE9),
     (0x11F5A, 0x11F5A), (0x1611E, 0x16139), (0x16D70, 0x16D79), (0x1CCF0, 0x1CCF9), (0x1E5EE, 0x1E5EF),
     (0x1E5F1, 0x1E5FA), (0x1E6E3, 0x1E6E3), (0x1E6E6, 0x1E6E6), (0x1E6EE, 0x1E6EF), (0x1E6F5, 0x1E6F5)]"

definition isOtherIDStart :: "nat \<Rightarrow> bool" where
  "isOtherIDStart r \<longleftrightarrow> r = 0x1885 \<or> r = 0x1886 \<or> r = 0x2118 \<or> r = 0x212E \<or> r = 0x309B \<or> r = 0x309C"

definition isOtherIDContinue :: "nat \<Rightarrow> bool" where
  "isOtherIDContinue r \<longleftrightarrow> r = 0x00B7 \<or> r = 0x0387 \<or> r = 0x19DA \<or> (0x1369 \<le> r \<and> r \<le> 0x1371)"

definition isUnicodeIDStart :: "unicodeTables \<Rightarrow> nat \<Rightarrow> bool" where
  "isUnicodeIDStart uc r =
     (if r = 0x2E2F then False
      else if letters uc r then True
      else isOtherIDStart r \<or> inRanges idStartExt r)"

definition isUnicodeIDContinue :: "unicodeTables \<Rightarrow> nat \<Rightarrow> bool" where
  "isUnicodeIDContinue uc r =
     (if isUnicodeIDStart uc r then True
      else if r = 0x200C \<or> r = 0x200D then True
      else if marks uc r then True
      else isOtherIDContinue r \<or> inRanges idContinueExt r)"

text \<open>Bytes below 128 have their class from the table.\<close>

definition isUnicodeIdentBegin :: "unicodeTables \<Rightarrow> nat \<Rightarrow> bool" where
  "isUnicodeIdentBegin uc cp =
     (if cp < 128 then charType (char_of cp) AND charIdent1 \<noteq> 0 else isUnicodeIDStart uc cp)"

definition isUnicodeIdentContinue :: "unicodeTables \<Rightarrow> nat \<Rightarrow> bool" where
  "isUnicodeIdentContinue uc cp =
     (if cp < 128 then charType (char_of cp) AND (charIdent OR charIdent1) \<noteq> 0
      else isUnicodeIDContinue uc cp)"

text \<open>The members of Zs; U+2028 and U+2029 are all of Zl and Zp.\<close>

definition spaceSeparator :: "nat \<Rightarrow> bool" where
  "spaceSeparator r \<longleftrightarrow> r = 0x20 \<or> r = 0xA0 \<or> r = 0x1680 \<or> (0x2000 \<le> r \<and> r \<le> 0x200A) \<or> r = 0x202F \<or> r = 0x205F \<or> r = 0x3000"

definition isUnicodeSpace :: "string \<Rightarrow> nat \<Rightarrow> nat \<times> bool" where
  "isUnicodeSpace code i =
     (case decodeRune (drop i code) of (r, n) \<Rightarrow>
        if r = runeError \<and> n \<le> 1 then (0, False)
        else if r = 0xFEFF then (n, False)
        else if spaceSeparator r then (n, False)
        else if r = 0x2028 \<or> r = 0x2029 then (n, True)
        else (0, False))"

section \<open>Escapes in identifiers\<close>

abbreviation backslash :: char where "backslash \<equiv> CHR 0x5C"

definition hexVal :: "char \<Rightarrow> nat" where
  "hexVal c = (if ord c \<le> 57 then ord c - 48 else (ord c OR 0x20) - 97 + 10)"

text \<open>
  The digits between braces: the code point, the position after them and their number, or None past
  the last code point. A code point stays below \<open>2 ^ 25\<close>, so shifting it in 32 bits loses nothing.
\<close>

function braceHex :: "string \<Rightarrow> nat \<Rightarrow> nat \<Rightarrow> nat \<Rightarrow> (nat \<times> nat \<times> nat) option" where
  "braceHex buf i cp nd =
     (if i < length buf \<and> isXDigitByte (buf ! i)
      then let cp' = 16 * cp + hexVal (buf ! i)
           in if 0x10FFFF < cp' then None else braceHex buf (i + 1) cp' (nd + 1)
      else Some (cp, i, nd))"
  by pat_completeness auto
termination
  by (relation "measure (\<lambda>(buf, i, cp, nd). length buf - i)") auto

declare braceHex.simps [simp del]

definition parseUnicodeEscape :: "string \<Rightarrow> nat \<Rightarrow> nat \<times> nat" where
  "parseUnicodeEscape buf pos =
     (if length buf \<le> pos + 3 \<or> buf ! pos \<noteq> backslash \<or> buf ! (pos + 1) \<noteq> CHR ''u'' then (0, 0)
      else if buf ! (pos + 2) = CHR ''{''
      then (case braceHex buf (pos + 3) 0 0 of
              None \<Rightarrow> (0, 0)
            | Some (cp, i, nd) \<Rightarrow>
                if nd = 0 \<or> length buf \<le> i \<or> buf ! i \<noteq> CHR ''}'' then (0, 0) else (cp, i - pos + 1))
      else if length buf \<le> pos + 5 then (0, 0)
      else let ds = map (\<lambda>i. buf ! (pos + 2 + i)) [0..<4]
      in if \<not> list_all isXDigitByte ds then (0, 0)
         else (foldl (\<lambda>cp d. 16 * cp + hexVal d) 0 ds, 6))"

lemma braceHex_ge: "braceHex buf i cp nd = Some (cp', i', nd') \<Longrightarrow> i \<le> i' \<and> (i \<le> length buf \<longrightarrow> i' \<le> length buf)"
proof (induction buf i cp nd rule: braceHex.induct)
  case (1 buf i cp nd)
  show ?case
  proof (cases "i < length buf \<and> isXDigitByte (buf ! i)")
    case True
    then have "\<not> 0x10FFFF < 16 * cp + hexVal (buf ! i)" "braceHex buf (i + 1) (16 * cp + hexVal (buf ! i)) (nd + 1) = Some (cp', i', nd')"
      using 1(2) by (auto simp: braceHex.simps [of buf i] Let_def split: if_splits)
    then show ?thesis using 1(1) [OF True refl] True by simp
  next
    case False
    then show ?thesis using 1(2) by (auto simp: braceHex.simps [of buf i])
  qed
qed

lemma parseUnicodeEscape_width: "parseUnicodeEscape buf pos = (cp, el) \<Longrightarrow> pos + el \<le> length buf \<or> el = 0"
  by (auto simp: parseUnicodeEscape_def Let_def split: if_splits option.splits dest!: braceHex_ge)

function decodeIdentEscapesFrom :: "string \<Rightarrow> nat \<Rightarrow> string" where
  "decodeIdentEscapesFrom src i =
     (if i < length src
      then case parseUnicodeEscape src i of (cp, el) \<Rightarrow>
        if 0 < el then appendRune cp @ decodeIdentEscapesFrom src (i + el)
        else src ! i # decodeIdentEscapesFrom src (i + 1)
      else [])"
  by pat_completeness auto
termination
  by (relation "measure (\<lambda>(src, i). length src - i)") auto

declare decodeIdentEscapesFrom.simps [simp del]

definition decodeIdentEscapes :: "string \<Rightarrow> string" where
  "decodeIdentEscapes src = decodeIdentEscapesFrom src 0"

section \<open>Identifiers\<close>

text \<open>The loop over ASCII, and whether it stopped at an escape or a byte past 127.\<close>

function identFast :: "string \<Rightarrow> nat \<Rightarrow> nat \<times> bool" where
  "identFast buf i =
     (if i < length buf
      then if 0x80 \<le> ord (buf ! i) \<or> buf ! i = backslash then (i, True)
           else if \<not> isIdentByte (buf ! i) then (i, False)
           else identFast buf (i + 1)
      else (i, False))"
  by pat_completeness auto
termination
  by (relation "measure (\<lambda>(buf, i). length buf - i)") auto

declare identFast.simps [simp del]

function identSlow :: "unicodeTables \<Rightarrow> string \<Rightarrow> nat \<Rightarrow> bool \<Rightarrow> nat \<times> bool" where
  "identSlow uc buf i esc =
     (if i < length buf
      then if buf ! i = backslash
           then case parseUnicodeEscape buf i of (cp, el) \<Rightarrow>
             if el \<le> 0 \<or> \<not> isUnicodeIdentContinue uc cp then (i, esc) else identSlow uc buf (i + el) True
           else if ord (buf ! i) < 0x80
           then if \<not> isIdentByte (buf ! i) then (i, esc) else identSlow uc buf (i + 1) esc
           else case decodeRune (drop i buf) of (r, n) \<Rightarrow>
             if r = runeError \<or> \<not> isUnicodeIDContinue uc r then (i, esc) else identSlow uc buf (i + n) esc
      else (i, esc))"
  by pat_completeness auto
termination
proof (relation "measure (\<lambda>(uc, buf, i, esc). length buf - i)", goal_cases)
  case (4 uc buf i esc r n)
  then have "n = snd (decodeRune (drop i buf))" by (metis snd_conv)
  then show ?case using 4 decodeRune_width [of "drop i buf"] by auto
qed auto

declare identSlow.simps [simp del]

definition identTail :: "unicodeTables \<Rightarrow> string \<Rightarrow> nat \<Rightarrow> bool \<Rightarrow> token \<times> nat \<times> bool" where
  "identTail uc buf i esc =
     (case identSlow uc buf i esc of (j, hasEscapes) \<Rightarrow>
        if hasEscapes
        then if parseKeyword (decodeIdentEscapes (take j buf)) \<noteq> TokIdentifier then (TokErr, j, True)
             else (TokIdentifier, j, False)
        else (parseKeyword (take j buf), j, False))"

text \<open>The token, its width, and whether it is a keyword written with escapes.\<close>

definition parseIdent :: "unicodeTables \<Rightarrow> string \<Rightarrow> nat \<Rightarrow> token \<times> nat \<times> bool" where
  "parseIdent uc code off =
     (let buf = drop off code; c = buf ! 0
      in if buf = [] then (TokErr, 0, False)
         else if ord c < 0x80 \<and> c \<noteq> backslash \<and> isIdent1Byte c
         then (case identFast buf 1 of (i, slow) \<Rightarrow>
                 if slow then identTail uc buf i False else (parseKeyword (take i buf), i, False))
         else if c = backslash
         then (case parseUnicodeEscape buf 0 of (cp, el) \<Rightarrow>
                 if el \<le> 0 \<or> \<not> isUnicodeIdentBegin uc cp then (TokErr, 0, False) else identTail uc buf el True)
         else if 0x80 \<le> ord c
         then (case decodeRune buf of (r, n) \<Rightarrow>
                 if r = runeError \<or> \<not> isUnicodeIDStart uc r then (TokErr, 0, False) else identTail uc buf n False)
         else (TokErr, 0, False))"

end
