(* ===== verification/Lexer_Numbers.thy ===== *)
theory Lexer_Numbers
  imports Lexer_Chars
begin

text \<open>
  Numeric literals of the lexer (\<open>internal/engine/lexer.go\<close>). \<open>scanNumber\<close> is the part of
  \<open>parseNumber\<close> that finds the form, the width and the value of the literal at the start of the text,
  before the token state is written; a value is the bits of a double.
\<close>

definition hasNumericSep :: "string \<Rightarrow> bool" where
  "hasNumericSep s \<longleftrightarrow> list_ex (\<lambda>c. c = CHR ''_'') s"

definition hasBadSeparator :: "string \<Rightarrow> (char \<Rightarrow> bool) \<Rightarrow> bool" where
  "hasBadSeparator s isDigit \<longleftrightarrow>
     list_ex (\<lambda>i. s ! i = CHR ''_'' \<and>
       (i = 0 \<or> length s \<le> i + 1 \<or> \<not> isDigit (s ! (i - 1)) \<or> \<not> isDigit (s ! (i + 1)))) [0..<length s]"

definition stripSep :: "string \<Rightarrow> string" where
  "stripSep s = filter (\<lambda>c. c \<noteq> CHR ''_'') s"

text \<open>The loop over the digits of a radix and separators.\<close>

function scanDigits :: "(char \<Rightarrow> bool) \<Rightarrow> string \<Rightarrow> nat \<Rightarrow> nat" where
  "scanDigits isDigit buf i =
     (if i < length buf \<and> (isDigit (buf ! i) \<or> buf ! i = CHR ''_'') then scanDigits isDigit buf (i + 1) else i)"
  by pat_completeness auto
termination
  by (relation "measure (\<lambda>(isDigit, buf, i). length buf - i)") auto

declare scanDigits.simps [simp del]

definition isByte :: "string \<Rightarrow> nat \<Rightarrow> char \<Rightarrow> bool" where
  "isByte buf i c \<longleftrightarrow> i < length buf \<and> buf ! i = c"

definition scanDecimalLiteral :: "string \<Rightarrow> nat" where
  "scanDecimalLiteral buf =
     (let i = scanDigits isDigitByte buf 0;
          i1 = (if isByte buf i CHR ''.'' then scanDigits isDigitByte buf (i + 1) else i)
      in if i1 < length buf \<and> ord (buf ! i1) OR 0x20 = ord CHR ''e''
         then let i2 = i1 + 1; i3 = (if isByte buf i2 CHR ''+'' \<or> isByte buf i2 CHR ''-'' then i2 + 1 else i2)
              in scanDigits isDigitByte buf i3
         else i1)"

definition decimalBigIntEligible :: "string \<Rightarrow> bool" where
  "decimalBigIntEligible s \<longleftrightarrow>
     \<not> list_ex (\<lambda>c. c = CHR ''.'' \<or> c = CHR ''e'' \<or> c = CHR ''E'') s \<and> (length s = 1 \<or> s ! 0 \<noteq> CHR ''0'')"

function octalRunFrom :: "string \<Rightarrow> nat \<Rightarrow> bool" where
  "octalRunFrom buf i =
     (if i < length buf \<and> isDigitByte (buf ! i)
      then if buf ! i = CHR ''8'' \<or> buf ! i = CHR ''9'' then False else octalRunFrom buf (i + 1)
      else True)"
  by pat_completeness auto
termination
  by (relation "measure (\<lambda>(buf, i). length buf - i)") auto

declare octalRunFrom.simps [simp del]

definition leadingZeroOctalRun :: "string \<Rightarrow> bool" where
  "leadingZeroOctalRun buf = octalRunFrom buf 1"

fun sepBeforePoint :: "string \<Rightarrow> bool" where
  "sepBeforePoint [] = False"
| "sepBeforePoint (c # s) =
     (if c = CHR ''.'' \<or> c = CHR ''e'' \<or> c = CHR ''E'' then False
      else if c = CHR ''_'' then True
      else sepBeforePoint s)"

definition leadingZeroSepBad :: "string \<Rightarrow> bool" where
  "leadingZeroSepBad digits =
     (if length digits < 2 \<or> digits ! 0 \<noteq> CHR ''0'' then False else sepBeforePoint digits)"

text \<open>The width, and the value or None where the text is not a number.\<close>

definition parseDecimalLiteral :: "string \<Rightarrow> nat \<times> u64 option" where
  "parseDecimalLiteral buf =
     (let n = scanDecimalLiteral buf; digits = take n buf
      in (n, parseFloat (if hasNumericSep digits then stripSep digits else digits)))"

definition parseRadix :: "string \<Rightarrow> int \<Rightarrow> nat \<Rightarrow> (char \<Rightarrow> bool) \<Rightarrow> nat \<times> u64" where
  "parseRadix buf radix start isDigit =
     (let i = scanDigits isDigit buf start; digits = stripSep (drop start (take i buf))
      in (i, if digits = [] then 0 else parseRadixString digits radix))"

definition numberHasInvalidTail :: "unicodeTables \<Rightarrow> string \<Rightarrow> nat \<Rightarrow> bool" where
  "numberHasInvalidTail uc buf toklen =
     (if length buf \<le> toklen then False
      else let c = buf ! toklen
      in if ord c < 0x80 then charType c AND (charIdent OR charIdent1) \<noteq> 0
         else isUnicodeIdentContinue uc (fst (decodeRune (drop toklen buf))))"

definition isBin :: "char \<Rightarrow> bool" where "isBin c \<longleftrightarrow> c = CHR ''0'' \<or> c = CHR ''1''"

text \<open>An error with its width, or the width, the value, \<open>sepBad\<close> and \<open>bigIntOK\<close>.\<close>

datatype numScan = NumErr nat | NumOk nat u64 bool bool

definition scanPrefixed :: "string \<Rightarrow> int \<Rightarrow> (char \<Rightarrow> bool) \<Rightarrow> numScan" where
  "scanPrefixed buf radix isDigit =
     (case parseRadix buf radix 2 isDigit of (numlen, value) \<Rightarrow>
        if numlen = 2 then NumErr 2
        else NumOk numlen value (hasBadSeparator (drop 2 (take numlen buf)) isDigit) True)"

definition scanNumber :: "bool \<Rightarrow> string \<Rightarrow> numScan" where
  "scanNumber strict buf =
     (if buf ! 0 = CHR ''0'' \<and> 1 < length buf
      then let c1 = ord (buf ! 1) OR 0x20
      in if c1 = ord CHR ''b'' then scanPrefixed buf 2 isBin
         else if c1 = ord CHR ''o'' then scanPrefixed buf 8 isOctalByte
         else if c1 = ord CHR ''x'' then scanPrefixed buf 16 isXDigitByte
         else if isOctalByte (buf ! 1) \<and> leadingZeroOctalRun buf
         then if strict then NumErr 1
              else (case parseRadix buf 8 1 isOctalByte of (numlen, value) \<Rightarrow>
                      NumOk numlen value (hasNumericSep (take numlen buf)) False)
         else if isDigitByte (buf ! 1) \<and> strict then NumErr 1
         else (case parseDecimalLiteral buf of
                 (numlen, None) \<Rightarrow> NumErr numlen
               | (numlen, Some value) \<Rightarrow>
                   let digits = take numlen buf
                   in NumOk numlen value (hasBadSeparator digits isDigitByte \<or> leadingZeroSepBad digits)
                        (decimalBigIntEligible digits))
      else (case parseDecimalLiteral buf of
              (numlen, None) \<Rightarrow> NumErr numlen
            | (numlen, Some value) \<Rightarrow>
                let digits = take numlen buf
                in NumOk numlen value (hasBadSeparator digits isDigitByte) (decimalBigIntEligible digits)))"

section \<open>Widths\<close>

lemma scanDigits_ge: "i \<le> scanDigits isDigit buf i \<and> (i \<le> length buf \<longrightarrow> scanDigits isDigit buf i \<le> length buf)"
proof (induction isDigit buf i rule: scanDigits.induct)
  case (1 isDigit buf i)
  show ?case
  proof (cases "i < length buf \<and> (isDigit (buf ! i) \<or> buf ! i = CHR ''_'')")
    case True
    with 1 [OF True] show ?thesis by (simp add: scanDigits.simps [of isDigit buf i])
  next
    case False
    then have "scanDigits isDigit buf i = i" by (subst scanDigits.simps) auto
    then show ?thesis by simp
  qed
qed

lemmas scanDigits_le = scanDigits_ge [THEN conjunct2, rule_format]
lemmas scanDigits_from = scanDigits_ge [THEN conjunct1]

lemma scanDigits_step: "i < length buf \<Longrightarrow> isDigit (buf ! i) \<Longrightarrow> i < scanDigits isDigit buf i"
  using scanDigits_from [of "i + 1" isDigit buf] by (subst scanDigits.simps) simp

lemma scanDecimal_width: "buf \<noteq> [] \<Longrightarrow> scanDecimalLiteral buf \<le> length buf"
  unfolding scanDecimalLiteral_def Let_def isByte_def
  by (auto intro!: scanDigits_le simp: Suc_le_eq scanDigits_from)

lemma scanDecimal_pos: "buf \<noteq> [] \<Longrightarrow> isDigitByte (buf ! 0) \<or> (buf ! 0 = CHR ''.'') \<Longrightarrow> 0 < scanDecimalLiteral buf"
proof -
  assume b: "buf \<noteq> []" "isDigitByte (buf ! 0) \<or> (buf ! 0 = CHR ''.'')"
  define i where "i = scanDigits isDigitByte buf 0"
  define i1 where "i1 = (if isByte buf i CHR ''.'' then scanDigits isDigitByte buf (i + 1) else i)"
  have "0 < i1"
  proof (cases "isDigitByte (buf ! 0)")
    case True
    then have "0 < i" using scanDigits_step [of 0 buf isDigitByte] b by (simp add: i_def)
    then show ?thesis using scanDigits_from [of "i + 1" isDigitByte buf] by (simp add: i1_def)
  next
    case False
    then have "i = 0" "isByte buf i CHR ''.''" using b by (simp_all add: i_def isByte_def scanDigits.simps)
    then show ?thesis using scanDigits_from [of 1 isDigitByte buf] by (simp add: i1_def)
  qed
  moreover have "i1 \<le> scanDecimalLiteral buf"
    unfolding scanDecimalLiteral_def Let_def i_def [symmetric] i1_def [symmetric]
    using scanDigits_from [of "i1 + 1" isDigitByte buf] scanDigits_from [of "i1 + 2" isDigitByte buf]
    by simp
  ultimately show ?thesis by simp
qed

end
