(* ===== verification/Lexer_Strings.thy ===== *)
theory Lexer_Strings
  imports Lexer_Chars
begin

text \<open>
  String literals, templates and regular expressions in the lexer (\<open>internal/engine/lexer.go\<close>). The
  scanners take the text from the token's start and answer a token with its width, or a position.
\<close>

abbreviation LF :: char where "LF \<equiv> CHR 0x0A"
abbreviation CR :: char where "CR \<equiv> CHR 0x0D"

section \<open>String literals\<close>

text \<open>What the search for the next quote or backslash finds.\<close>

datatype stringStop = AtQuote nat | AtEscape nat | AtNewline nat | NoStop

function findStop :: "string \<Rightarrow> char \<Rightarrow> nat \<Rightarrow> stringStop" where
  "findStop buf quote j =
     (if j < length buf
      then if buf ! j = quote then AtQuote j
           else if buf ! j = backslash then AtEscape j
           else if buf ! j = LF \<or> buf ! j = CR then AtNewline j
           else findStop buf quote (j + 1)
      else NoStop)"
  by pat_completeness auto
termination
  by (relation "measure (\<lambda>(buf, quote, j). length buf - j)") auto

declare findStop.simps [simp del]

text \<open>The digits of a braced escape; a value past the last code point sticks just above it.\<close>

function stringHex :: "string \<Rightarrow> nat \<Rightarrow> nat \<Rightarrow> nat \<times> nat" where
  "stringHex buf j cp =
     (if j < length buf \<and> isXDigitByte (buf ! j)
      then let cp' = 16 * cp + hexVal (buf ! j)
           in stringHex buf (j + 1) (if 0x10FFFF < cp' then 0x110000 else cp')
      else (j, cp))"
  by pat_completeness auto
termination
  by (relation "measure (\<lambda>(buf, j, cp). length buf - j)") auto

declare stringHex.simps [simp del]

definition xdigitsAt :: "string \<Rightarrow> nat \<Rightarrow> nat \<Rightarrow> bool" where
  "xdigitsAt buf i n \<longleftrightarrow> list_all (\<lambda>k. isXDigitByte (buf ! (i + k))) [0..<n]"

text \<open>
  The escape at a backslash with a byte after it: the width of an error, or the width of the escape.
\<close>

definition escapeWidth :: "bool \<Rightarrow> string \<Rightarrow> nat \<Rightarrow> nat + nat" where
  "escapeWidth strict buf escPos =
     (let rem = length buf; escChar = buf ! (escPos + 1)
      in if strict \<and> 49 \<le> ord escChar \<and> ord escChar \<le> 57 then Inl (escPos + 2)
         else if strict \<and> escChar = CHR ''0'' \<and> escPos + 2 < rem \<and> 48 \<le> ord (buf ! (escPos + 2)) \<and> ord (buf ! (escPos + 2)) \<le> 57
         then Inl (escPos + 3)
         else let skip = (if escChar = CR \<and> escPos + 2 < rem \<and> buf ! (escPos + 2) = LF then 3 else 2)
         in if escChar = CHR ''x''
            then if rem \<le> escPos + 3 \<or> \<not> xdigitsAt buf (escPos + 2) 2 then Inl (escPos + 2) else Inr 4
            else if escChar = CHR ''u''
            then if escPos + 2 < rem \<and> buf ! (escPos + 2) = CHR ''{''
                 then (case stringHex buf (escPos + 3) 0 of (j, cp) \<Rightarrow>
                         if j = escPos + 3 \<or> rem \<le> j \<or> buf ! j \<noteq> CHR ''}'' \<or> 0x10FFFF < cp then Inl j
                         else Inr (j - escPos + 1))
                 else if rem \<le> escPos + 5 \<or> \<not> xdigitsAt buf (escPos + 2) 4 then Inl (escPos + 2) else Inr 6
            else Inr skip)"

definition stopOk :: "string \<Rightarrow> char \<Rightarrow> nat \<Rightarrow> stringStop \<Rightarrow> bool" where
  "stopOk buf quote j st \<longleftrightarrow> (case st of
       AtQuote k \<Rightarrow> j \<le> k \<and> k < length buf \<and> buf ! k = quote
     | AtEscape k \<Rightarrow> j \<le> k \<and> k < length buf \<and> buf ! k = backslash
     | AtNewline k \<Rightarrow> j \<le> k \<and> k < length buf \<and> (buf ! k = LF \<or> buf ! k = CR)
     | NoStop \<Rightarrow> True)"

lemma findStop_ok: "stopOk buf quote j (findStop buf quote j)"
proof (induction buf quote j rule: findStop.induct)
  case (1 buf quote j)
  show ?case
  proof (cases "j < length buf \<and> buf ! j \<noteq> quote \<and> buf ! j \<noteq> backslash \<and> \<not> (buf ! j = LF \<or> buf ! j = CR)")
    case True
    then have "findStop buf quote j = findStop buf quote (j + 1)" by (simp add: findStop.simps [of buf quote j])
    then show ?thesis using 1 True by (auto simp: stopOk_def split: stringStop.splits)
  next
    case False
    then show ?thesis by (subst findStop.simps) (auto simp: stopOk_def)
  qed
qed

lemma findStop_range:
  "findStop buf quote j = AtQuote k \<Longrightarrow> j \<le> k \<and> k < length buf \<and> buf ! k = quote"
  "findStop buf quote j = AtEscape k \<Longrightarrow> j \<le> k \<and> k < length buf \<and> buf ! k = backslash"
  "findStop buf quote j = AtNewline k \<Longrightarrow> j \<le> k \<and> k < length buf \<and> (buf ! k = LF \<or> buf ! k = CR)"
  using findStop_ok [of buf quote j] by (simp_all add: stopOk_def)

lemma stringHex_ge: "j \<le> fst (stringHex buf j cp) \<and> (j \<le> length buf \<longrightarrow> fst (stringHex buf j cp) \<le> length buf)"
proof (induction buf j cp rule: stringHex.induct)
  case (1 buf j cp)
  show ?case
  proof (cases "j < length buf \<and> isXDigitByte (buf ! j)")
    case True
    with 1 [OF True refl] show ?thesis by (simp add: stringHex.simps [of buf j] Let_def)
  next
    case False
    then have "stringHex buf j cp = (j, cp)" by (subst stringHex.simps) auto
    then show ?thesis by simp
  qed
qed

lemma stringHex_range: "stringHex buf j cp = (j', cp') \<Longrightarrow> j \<le> j' \<and> (j \<le> length buf \<longrightarrow> j' \<le> length buf)"
  using stringHex_ge [of j buf cp] by simp

lemma escapeWidth_two: "escapeWidth strict buf escPos = Inr skip \<Longrightarrow> 2 \<le> skip"
  by (auto simp: escapeWidth_def Let_def split: if_splits prod.splits dest!: stringHex_range)

lemma escapeWidth_error: "escapeWidth strict buf b = Inl n \<Longrightarrow> b + 1 < length buf \<Longrightarrow> 0 < n \<and> n \<le> length buf"
  by (auto simp: escapeWidth_def Let_def split: if_splits prod.splits dest!: stringHex_range)

function scanStringFrom :: "bool \<Rightarrow> string \<Rightarrow> char \<Rightarrow> nat \<Rightarrow> token \<times> nat" where
  "scanStringFrom strict buf quote i =
     (if i < length buf
      then case findStop buf quote i of
        AtNewline j \<Rightarrow> (TokErr, j)
      | NoStop \<Rightarrow> (TokErr, length buf)
      | AtQuote q \<Rightarrow> (TokString, q + 1)
      | AtEscape b \<Rightarrow>
          if length buf \<le> b + 1 then (TokErr, length buf)
          else (case escapeWidth strict buf b of
                  Inl n \<Rightarrow> (TokErr, n)
                | Inr skip \<Rightarrow> if length buf < b + skip then (TokErr, length buf)
                              else scanStringFrom strict buf quote (b + skip))
      else (TokErr, length buf))"
  by pat_completeness auto
termination
proof (relation "measure (\<lambda>(strict, buf, quote, i). length buf - i)", goal_cases)
  case (2 strict buf quote i b skip)
  then show ?case using findStop_range(2) [of buf quote i b] escapeWidth_two [of strict buf b skip] by auto
qed auto

declare scanStringFrom.simps [simp del]

definition scanString :: "bool \<Rightarrow> string \<Rightarrow> nat \<Rightarrow> char \<Rightarrow> token \<times> nat" where
  "scanString strict code off quote = scanStringFrom strict (drop off code) quote 1"

section \<open>Templates\<close>

function skipStringFrom :: "string \<Rightarrow> char \<Rightarrow> nat \<Rightarrow> nat" where
  "skipStringFrom buf quote i =
     (if i < length buf
      then if buf ! i = backslash then skipStringFrom buf quote (i + 2)
           else if buf ! i = quote then i + 1
           else skipStringFrom buf quote (i + 1)
      else length buf)"
  by pat_completeness auto
termination
  by (relation "measure (\<lambda>(buf, quote, i). length buf - i)") auto

declare skipStringFrom.simps [simp del]

definition skipStringLiteral :: "string \<Rightarrow> nat \<Rightarrow> char \<Rightarrow> nat" where
  "skipStringLiteral buf start quote = skipStringFrom buf quote (start + 1)"

text \<open>The end of a scan that goes on while the bytes satisfy a test.\<close>

function skipBytes :: "(char \<Rightarrow> bool) \<Rightarrow> string \<Rightarrow> nat \<Rightarrow> nat" where
  "skipBytes f buf i = (if i < length buf \<and> f (buf ! i) then skipBytes f buf (i + 1) else i)"
  by pat_completeness auto
termination
  by (relation "measure (\<lambda>(f, buf, i). length buf - i)") auto

declare skipBytes.simps [simp del]

definition skipLineComment :: "string \<Rightarrow> nat \<Rightarrow> nat" where
  "skipLineComment buf start = skipBytes (\<lambda>c. c \<noteq> LF) buf (start + 2)"

function blockEnd :: "string \<Rightarrow> nat \<Rightarrow> nat" where
  "blockEnd buf i =
     (if i + 1 < length buf \<and> \<not> (buf ! i = CHR ''*'' \<and> buf ! (i + 1) = CHR ''/'') then blockEnd buf (i + 1) else i)"
  by pat_completeness auto
termination
  by (relation "measure (\<lambda>(buf, i). length buf - i)") auto

declare blockEnd.simps [simp del]

definition skipBlockComment :: "string \<Rightarrow> nat \<Rightarrow> nat" where
  "skipBlockComment buf start =
     (let i = blockEnd buf (start + 2) in if i + 1 < length buf then i + 2 else length buf)"

definition isExprWS :: "char \<Rightarrow> bool" where
  "isExprWS c \<longleftrightarrow> c = CHR '' '' \<or> c = CHR 0x09 \<or> c = LF \<or> c = CR \<or> c = CHR 0x0C \<or> c = CHR 0x0B"

definition isIdentASCIIStart :: "char \<Rightarrow> bool" where
  "isIdentASCIIStart c \<longleftrightarrow> c = CHR ''_'' \<or> c = CHR ''$'' \<or> (97 \<le> ord c \<and> ord c \<le> 122) \<or> (65 \<le> ord c \<and> ord c \<le> 90)"

definition isIdentASCIIContinue :: "char \<Rightarrow> bool" where
  "isIdentASCIIContinue c \<longleftrightarrow> isIdentASCIIStart c \<or> (48 \<le> ord c \<and> ord c \<le> 57)"

function regexBody :: "string \<Rightarrow> nat \<Rightarrow> bool \<Rightarrow> nat" where
  "regexBody buf i inClass =
     (if i < length buf
      then let c = buf ! i
      in if c = backslash \<and> i + 1 < length buf then regexBody buf (i + 2) inClass
         else if c = CHR ''['' then regexBody buf (i + 1) True
         else if c = CHR '']'' \<and> inClass then regexBody buf (i + 1) False
         else if c = CHR ''/'' \<and> \<not> inClass then i + 1
         else regexBody buf (i + 1) inClass
      else i)"
  by pat_completeness auto
termination
  by (relation "measure (\<lambda>(buf, i, inClass). length buf - i)") auto

declare regexBody.simps [simp del]

definition skipRegexLiteral :: "string \<Rightarrow> nat \<Rightarrow> nat" where
  "skipRegexLiteral buf start = skipBytes isIdentASCIIStart buf (regexBody buf (start + 1) False)"

definition regexAllowedAfterIdent :: "string \<Rightarrow> bool" where
  "regexAllowedAfterIdent s \<longleftrightarrow> s \<in> {''if'', ''in'', ''do'', ''of'', ''for'', ''else'', ''case'', ''throw'', ''return'',
     ''typeof'', ''delete'', ''void'', ''new'', ''instanceof''}"

lemma skipBytes_ge: "i \<le> skipBytes f buf i \<and> (i \<le> length buf \<longrightarrow> skipBytes f buf i \<le> length buf)"
proof (induction f buf i rule: skipBytes.induct)
  case (1 f buf i)
  show ?case
  proof (cases "i < length buf \<and> f (buf ! i)")
    case True
    with 1 [OF True] show ?thesis by (simp add: skipBytes.simps [of f buf i])
  next
    case False
    then have "skipBytes f buf i = i" by (subst skipBytes.simps) auto
    then show ?thesis by simp
  qed
qed

lemma skipStringFrom_ge: "i \<le> skipStringFrom buf quote i \<or> length buf \<le> skipStringFrom buf quote i"
proof (induction buf quote i rule: skipStringFrom.induct)
  case (1 buf quote i)
  then show ?case by (subst (1 2) skipStringFrom.simps) auto
qed

lemma blockEnd_ge: "i \<le> blockEnd buf i"
proof (induction buf i rule: blockEnd.induct)
  case (1 buf i)
  then show ?case by (subst blockEnd.simps) auto
qed

lemma regexBody_ge: "i \<le> regexBody buf i inClass"
proof (induction buf i inClass rule: regexBody.induct)
  case (1 buf i inClass)
  then show ?case by (subst regexBody.simps) (auto simp: Let_def)
qed

text \<open>
  The loop of \<open>skipTemplateLiteral\<close>: the position, the depth of braces in the expression (0 in the
  text) and whether a slash may begin a regular expression.
\<close>

definition startsRegexAfter :: "char \<Rightarrow> bool" where
  "startsRegexAfter c \<longleftrightarrow> c \<in> {CHR ''('', CHR ''['', CHR '','', CHR '';'', CHR '':'', CHR ''?'', CHR ''!'', CHR ''~'',
     CHR ''+'', CHR ''-'', CHR ''*'', CHR ''%'', CHR ''&'', CHR ''|'', CHR ''^'', CHR ''='', CHR ''<'', CHR ''>''}"

definition backquote :: char where "backquote = CHR 0x60"

function templateLoop :: "string \<Rightarrow> nat \<Rightarrow> nat \<Rightarrow> bool \<Rightarrow> nat \<times> bool" where
  "templateLoop buf i depth regexOk =
     (if i < length buf
      then let c = buf ! i
      in if c = backslash then templateLoop buf (i + 2) depth regexOk
         else if depth = 0
         then if c = backquote then (i + 1, True)
              else if c = CHR ''$'' \<and> i + 1 < length buf \<and> buf ! (i + 1) = CHR ''{'' then templateLoop buf (i + 2) 1 True
              else templateLoop buf (i + 1) depth regexOk
         else if c = CHR 0x27 \<or> c = CHR 0x22 then templateLoop buf (skipStringLiteral buf i c) depth regexOk
         else if c = backquote
         then (case templateLoop buf (i + 1) 0 True of (next, nested) \<Rightarrow>
                 if \<not> nested \<or> next \<le> i then (length buf, False) else templateLoop buf next depth False)
         else if c = CHR ''/'' \<and> i + 1 < length buf
         then if buf ! (i + 1) = CHR ''/'' then templateLoop buf (skipLineComment buf i) depth regexOk
              else if buf ! (i + 1) = CHR ''*'' then templateLoop buf (skipBlockComment buf i) depth regexOk
              else if regexOk then templateLoop buf (skipRegexLiteral buf i) depth False
              else templateLoop buf (i + 1) depth True
         else if isExprWS c then templateLoop buf (i + 1) depth regexOk
         else if isIdentASCIIStart c
         then let j = skipBytes isIdentASCIIContinue buf (i + 1)
              in templateLoop buf j depth (regexAllowedAfterIdent (drop i (take j buf)))
         else if (48 \<le> ord c \<and> ord c \<le> 57) \<or>
             (c = CHR ''.'' \<and> i + 1 < length buf \<and> 48 \<le> ord (buf ! (i + 1)) \<and> ord (buf ! (i + 1)) \<le> 57)
         then templateLoop buf
                (skipBytes (\<lambda>d. (48 \<le> ord d \<and> ord d \<le> 57) \<or> d = CHR ''_'' \<or> d = CHR ''.'') buf (i + 1)) depth False
         else if c = CHR ''{'' then templateLoop buf (i + 1) (depth + 1) True
         else if c = CHR ''}'' then templateLoop buf (i + 1) (depth - 1) False
         else templateLoop buf (i + 1) depth (startsRegexAfter c)
      else (length buf, False))"
  by pat_completeness auto
termination
proof (relation "measure (\<lambda>(buf, i, depth, regexOk). length buf - i)", goal_cases)
  case (5 buf i depth regexOk c)
  then show ?case using skipStringFrom_ge [of "i + 1" buf c] by (auto simp: skipStringLiteral_def)
next
  case (8 buf i depth regexOk c)
  then show ?case using skipBytes_ge [of "i + 2" "\<lambda>c. c \<noteq> LF" buf] by (auto simp: skipLineComment_def)
next
  case (9 buf i depth regexOk c)
  then show ?case using blockEnd_ge [of "i + 2" buf] by (auto simp: skipBlockComment_def Let_def)
next
  case (10 buf i depth regexOk c)
  then show ?case
    using regexBody_ge [of "i + 1" buf False] skipBytes_ge [of "regexBody buf (i + 1) False" isIdentASCIIStart buf]
    by (auto simp: skipRegexLiteral_def)
next
  case (13 buf i depth regexOk c j)
  then show ?case using skipBytes_ge [of "i + 1" isIdentASCIIContinue buf] by auto
next
  case (14 buf i depth regexOk c)
  then show ?case
    using skipBytes_ge [of "i + 1" "\<lambda>d. (48 \<le> ord d \<and> ord d \<le> 57) \<or> d = CHR ''_'' \<or> d = CHR ''.''" buf] by auto
qed auto

declare templateLoop.simps [simp del]

definition skipTemplateLiteral :: "string \<Rightarrow> nat \<Rightarrow> nat \<times> bool" where
  "skipTemplateLiteral buf start = templateLoop buf (start + 1) 0 True"

definition scanTemplate :: "string \<Rightarrow> nat \<Rightarrow> token \<times> nat" where
  "scanTemplate code off =
     (let buf = drop off code
      in case skipTemplateLiteral buf 0 of (e, closed) \<Rightarrow>
        if \<not> closed \<or> e \<le> 1 \<or> length buf < e then (TokErr, length buf) else (TokTemplate, e))"

end
