(* ===== verification/Lexer_Spaces.thy ===== *)
theory Lexer_Spaces
  imports Lexer_Strings
begin

text \<open>
  White space and comments in the lexer (\<open>skipToNext\<close> of \<open>internal/engine/lexer.go\<close> and its helpers).
  A skip answers the position it reached, whether it passed a line terminator, and whether it ran into the
  end of the text inside a block comment, which the source notes in the lexer.
\<close>

definition isSingleByteLineTerm :: "char \<Rightarrow> bool" where
  "isSingleByteLineTerm c \<longleftrightarrow> c = LF \<or> c = CR"

definition isLSorPS :: "string \<Rightarrow> nat \<Rightarrow> nat \<Rightarrow> bool" where
  "isLSorPS code p e \<longleftrightarrow> p + 2 < e \<and> ord (code ! p) = 0xE2 \<and> ord (code ! (p + 1)) = 0x80 \<and>
     (ord (code ! (p + 2)) = 0xA8 \<or> ord (code ! (p + 2)) = 0xA9)"

text \<open>The loop of a line comment, and of the hashbang: to the next line terminator.\<close>

function toLineEnd :: "string \<Rightarrow> nat \<Rightarrow> nat" where
  "toLineEnd code p =
     (if p < length code \<and> \<not> isSingleByteLineTerm (code ! p) \<and> \<not> isLSorPS code p (length code)
      then toLineEnd code (p + 1) else p)"
  by pat_completeness auto
termination
  by (relation "measure (\<lambda>(code, p). length code - p)") auto

declare toLineEnd.simps [simp del]

text \<open>The loop of a block comment: the position, line terminators seen, and whether it was closed.\<close>

function blockComment :: "string \<Rightarrow> nat \<Rightarrow> bool \<Rightarrow> nat \<times> bool \<times> bool" where
  "blockComment code p sawNL =
     (if p + 1 < length code
      then if code ! p = CHR ''*'' \<and> code ! (p + 1) = CHR ''/'' then (p + 2, sawNL, True)
           else blockComment code (p + 1)
             (sawNL \<or> code ! p = LF \<or> code ! p = CR \<or> (0x80 \<le> ord (code ! p) \<and> isLSorPS code p (length code)))
      else (p, sawNL, False))"
  by pat_completeness auto
termination
  by (relation "measure (\<lambda>(code, p, sawNL). length code - p)") auto

declare blockComment.simps [simp del]

lemma toLineEnd_ge: "p \<le> toLineEnd code p \<and> (p \<le> length code \<longrightarrow> toLineEnd code p \<le> length code)"
proof (induction code p rule: toLineEnd.induct)
  case (1 code p)
  show ?case
  proof (cases "p < length code \<and> \<not> isSingleByteLineTerm (code ! p) \<and> \<not> isLSorPS code p (length code)")
    case True
    with 1 [OF True] show ?thesis by (simp add: toLineEnd.simps [of code p])
  next
    case False
    then have "toLineEnd code p = p" by (subst toLineEnd.simps) auto
    then show ?thesis by simp
  qed
qed

lemma blockComment_ge: "blockComment code p nl = (p', nl', closed) \<Longrightarrow>
    p \<le> p' \<and> (p \<le> length code \<longrightarrow> p' \<le> length code) \<and> (closed \<longrightarrow> p + 2 \<le> p')"
proof (induction code p nl rule: blockComment.induct)
  case (1 code p nl)
  show ?case
  proof (cases "p + 1 < length code \<and> \<not> (code ! p = CHR ''*'' \<and> code ! (p + 1) = CHR ''/'')")
    case True
    then have t: "p + 1 < length code" "\<not> (code ! p = CHR ''*'' \<and> code ! (p + 1) = CHR ''/'')" by simp_all
    from 1(1) [OF t] 1(2) show ?thesis
      unfolding blockComment.simps [of code p] if_P [OF t(1)] if_not_P [OF t(2)] using t(1) by fastforce
  next
    case False
    then show ?thesis using 1(2) by (auto simp: blockComment.simps [of code p] split: if_splits)
  qed
qed

text \<open>The main loop.\<close>

function skipSpaces :: "string \<Rightarrow> nat \<Rightarrow> bool \<Rightarrow> nat \<times> bool \<times> bool" where
  "skipSpaces code p sawNL =
     (if p < length code
      then let c = code ! p
      in if 0x80 \<le> ord c
         then (case isUnicodeSpace code p of (w, lt) \<Rightarrow>
                 if 0 < w then skipSpaces code (p + w) (sawNL \<or> lt) else (p, sawNL, False))
         else if c = CHR '' '' \<or> c = CHR 0x09 \<or> c = CHR 0x0B \<or> c = CHR 0x0C then skipSpaces code (p + 1) sawNL
         else if c = LF \<or> c = CR then skipSpaces code (p + 1) True
         else if c = CHR ''/''
         then if length code \<le> p + 1 then (p, sawNL, False)
              else if code ! (p + 1) = CHR ''/'' then skipSpaces code (toLineEnd code (p + 2)) sawNL
              else if code ! (p + 1) = CHR ''*''
              then (case blockComment code (p + 2) sawNL of (p', nl, closed) \<Rightarrow>
                      if closed then skipSpaces code p' nl else (length code, nl, True))
              else (p, sawNL, False)
         else (p, sawNL, False)
      else (p, sawNL, False))"
  by pat_completeness auto
termination
proof (relation "measure (\<lambda>(code, p, sawNL). length code - p)", goal_cases)
  case (5 code p sawNL c)
  then show ?case using toLineEnd_ge [of "p + 2" code] by auto
qed (auto dest!: blockComment_ge [OF sym])

declare skipSpaces.simps [simp del]

definition skipHTMLLineComment :: "string \<Rightarrow> nat \<Rightarrow> bool \<Rightarrow> nat \<times> bool" where
  "skipHTMLLineComment code p sawNL =
     (let q = skipBytes (\<lambda>c. c \<noteq> LF) code p
      in if q < length code then (q + 1, True) else (q, sawNL))"

text \<open>The last opening of a block comment at or before \<open>i\<close>, looking for its two bytes backwards.\<close>

fun openBefore :: "string \<Rightarrow> nat \<Rightarrow> nat option" where
  "openBefore code 0 = None"
| "openBefore code (Suc i) =
     (if code ! (Suc i) = CHR ''*'' \<and> code ! i = CHR ''/'' then Some i else openBefore code i)"

lemma openBefore_lt: "openBefore code i = Some k \<Longrightarrow> k < i"
  by (induction code i rule: openBefore.induct) (auto split: if_splits)

function htmlCloseAtLineStart :: "string \<Rightarrow> nat \<Rightarrow> bool \<Rightarrow> bool" where
  "htmlCloseAtLineStart code p lenient =
     (if 0 < p
      then let c = code ! (p - 1)
      in if c = LF \<or> c = CR then True
         else if c = CHR '' '' \<or> c = CHR 0x09 \<or> c = CHR 0x0C \<or> c = CHR 0x0B
         then htmlCloseAtLineStart code (p - 1) lenient
         else if c = CHR ''/'' \<and> 2 \<le> p \<and> code ! (p - 2) = CHR ''*''
         then (case (if p < 3 then None else openBefore code (p - 3)) of
                 None \<Rightarrow> False
               | Some open' \<Rightarrow>
                   if list_ex (\<lambda>i. code ! i = LF \<or> code ! i = CR \<or> (0x80 \<le> ord (code ! i) \<and> isLSorPS code i p))
                        [open'..<p - 2]
                   then False
                   else htmlCloseAtLineStart code open' lenient)
         else if c = CHR ''{'' \<or> c = CHR ''('' \<or> c = CHR ''['' then lenient
         else False
      else lenient)"
  by pat_completeness auto
termination
proof (relation "measure (\<lambda>(code, p, lenient). p)", goal_cases)
  case (3 code p lenient c open')
  then show ?case using openBefore_lt [of code "p - 3" open'] by (auto split: if_splits)
qed auto

declare htmlCloseAtLineStart.simps [simp del]

definition isHTMLOpen :: "string \<Rightarrow> nat \<Rightarrow> bool" where
  "isHTMLOpen code p \<longleftrightarrow> p + 3 < length code \<and> code ! p = CHR ''<'' \<and> code ! (p + 1) = CHR ''!'' \<and>
     code ! (p + 2) = CHR ''-'' \<and> code ! (p + 3) = CHR ''-''"

definition isHTMLClose :: "string \<Rightarrow> bool \<Rightarrow> nat \<Rightarrow> bool \<Rightarrow> bool" where
  "isHTMLClose code noHTMLClose p sawNL \<longleftrightarrow> p + 2 < length code \<and> code ! p = CHR ''-'' \<and> code ! (p + 1) = CHR ''-'' \<and>
     code ! (p + 2) = CHR ''>'' \<and> (sawNL \<or> htmlCloseAtLineStart code p (\<not> noHTMLClose))"

text \<open>
  \<open>skipToNext\<close> up to its label \<open>done\<close>: the hashbang, then the main loop.
\<close>

definition skipStart :: "string \<Rightarrow> nat \<Rightarrow> nat \<times> bool \<times> bool" where
  "skipStart code n =
     skipSpaces code
       (if n = 0 \<and> 2 \<le> length code \<and> code ! 0 = CHR ''#'' \<and> code ! 1 = CHR ''!'' then toLineEnd code 2 else n) False"

text \<open>
  The loop after the label. The call of \<open>skipToNext\<close> inside it is this loop again, from
  \<open>skipStart\<close> at the end of the comment.
\<close>

definition htmlComment :: "string \<Rightarrow> bool \<Rightarrow> nat \<Rightarrow> bool \<Rightarrow> (nat \<times> bool) option" where
  "htmlComment code noHTMLClose p sawNL =
     (if isHTMLOpen code p then Some (skipHTMLLineComment code (p + 4) sawNL)
      else if isHTMLClose code noHTMLClose p sawNL then Some (skipHTMLLineComment code (p + 3) sawNL)
      else None)"

lemma htmlComment_ge: "htmlComment code no p nl = Some (q, nl') \<Longrightarrow> p + 3 \<le> q \<and> p < length code \<and> q \<le> length code"
  using skipBytes_ge [of "p + 3" "\<lambda>c. c \<noteq> LF" code] skipBytes_ge [of "p + 4" "\<lambda>c. c \<noteq> LF" code]
  by (auto simp: htmlComment_def skipHTMLLineComment_def isHTMLOpen_def isHTMLClose_def Let_def split: if_splits)

lemma isUnicodeSpace_width: "isUnicodeSpace code i = (w, lt) \<Longrightarrow> w \<le> length code - i"
  using decodeRune_width [of "drop i code"] by (auto simp: isUnicodeSpace_def split: prod.splits if_splits)

text \<open>The main loop, byte by byte.\<close>

definition isBlank :: "char \<Rightarrow> bool" where
  "isBlank c \<longleftrightarrow> c = CHR '' '' \<or> c = CHR 0x09 \<or> c = CHR 0x0B \<or> c = CHR 0x0C"

lemma skipSpaces_uni:
  "p < length code \<Longrightarrow> 0x80 \<le> ord (code ! p) \<Longrightarrow> isUnicodeSpace code p = (w, lt) \<Longrightarrow>
    skipSpaces code p nl = (if 0 < w then skipSpaces code (p + w) (nl \<or> lt) else (p, nl, False))"
  by (subst skipSpaces.simps) simp

lemma skipSpaces_blank:
  "p < length code \<Longrightarrow> isBlank (code ! p) \<Longrightarrow> skipSpaces code p nl = skipSpaces code (p + 1) nl"
  by (subst skipSpaces.simps) (auto simp: isBlank_def)

lemma skipSpaces_newline:
  "p < length code \<Longrightarrow> code ! p = LF \<or> code ! p = CR \<Longrightarrow> skipSpaces code p nl = skipSpaces code (p + 1) True"
  by (subst skipSpaces.simps) auto

lemma skipSpaces_slash:
  "p < length code \<Longrightarrow> code ! p = CHR ''/'' \<Longrightarrow> blockComment code (p + 2) nl = (q, l, cl) \<Longrightarrow>
    skipSpaces code p nl = (if length code \<le> p + 1 then (p, nl, False)
              else if code ! (p + 1) = CHR ''/'' then skipSpaces code (toLineEnd code (p + 2)) nl
              else if code ! (p + 1) = CHR ''*'' then if cl then skipSpaces code q l else (length code, l, True)
              else (p, nl, False))"
  by (subst skipSpaces.simps) simp

lemma skipSpaces_stop:
  "length code \<le> p \<or> (ord (code ! p) < 0x80 \<and> \<not> isBlank (code ! p) \<and> code ! p \<noteq> LF \<and> code ! p \<noteq> CR \<and> code ! p \<noteq> CHR ''/'') \<Longrightarrow>
    skipSpaces code p nl = (p, nl, False)"
  by (subst skipSpaces.simps) (auto simp: isBlank_def)

lemma skipSpaces_induct [case_names uni blank newline line block stop]:
  assumes "\<And>p nl w lt. p < length code \<Longrightarrow> 0x80 \<le> ord (code ! p) \<Longrightarrow> isUnicodeSpace code p = (w, lt) \<Longrightarrow> 0 < w \<Longrightarrow>
      w \<le> length code - p \<Longrightarrow> P (p + w) (nl \<or> lt) (skipSpaces code (p + w) (nl \<or> lt)) \<Longrightarrow> P p nl (skipSpaces code (p + w) (nl \<or> lt))"
    and "\<And>p nl. p < length code \<Longrightarrow> isBlank (code ! p) \<Longrightarrow> P (p + 1) nl (skipSpaces code (p + 1) nl) \<Longrightarrow> P p nl (skipSpaces code (p + 1) nl)"
    and "\<And>p nl. p < length code \<Longrightarrow> code ! p = LF \<or> code ! p = CR \<Longrightarrow> P (p + 1) True (skipSpaces code (p + 1) True) \<Longrightarrow>
      P p nl (skipSpaces code (p + 1) True)"
    and "\<And>p nl. p + 1 < length code \<Longrightarrow> code ! p = CHR ''/'' \<Longrightarrow> code ! (p + 1) = CHR ''/'' \<Longrightarrow>
      P (toLineEnd code (p + 2)) nl (skipSpaces code (toLineEnd code (p + 2)) nl) \<Longrightarrow> P p nl (skipSpaces code (toLineEnd code (p + 2)) nl)"
    and "\<And>p nl q l cl. p + 1 < length code \<Longrightarrow> code ! p = CHR ''/'' \<Longrightarrow> code ! (p + 1) = CHR ''*'' \<Longrightarrow>
      blockComment code (p + 2) nl = (q, l, cl) \<Longrightarrow> (cl \<Longrightarrow> P q l (skipSpaces code q l)) \<Longrightarrow>
      P p nl (if cl then skipSpaces code q l else (length code, l, True))"
    and "\<And>p nl. length code \<le> p \<or> (0x80 \<le> ord (code ! p) \<and> fst (isUnicodeSpace code p) = 0) \<or>
        (ord (code ! p) < 0x80 \<and> \<not> isBlank (code ! p) \<and> code ! p \<noteq> LF \<and> code ! p \<noteq> CR \<and>
         (code ! p = CHR ''/'' \<longrightarrow> length code \<le> p + 1 \<or> code ! (p + 1) \<noteq> CHR ''/'' \<and> code ! (p + 1) \<noteq> CHR ''*'')) \<Longrightarrow>
      P p nl (p, nl, False)"
  shows "P p nl (skipSpaces code p nl)"
proof (induction "length code - p" arbitrary: p nl rule: less_induct)
  case less
  obtain w lt where w: "isUnicodeSpace code p = (w, lt)" by (cases "isUnicodeSpace code p")
  obtain q l cl where b: "blockComment code (p + 2) nl = (q, l, cl)" by (metis prod_cases3)
  note stop = assms(6) [of p nl]
  consider (past) "length code \<le> p" | (uni) "p < length code" "0x80 \<le> ord (code ! p)"
    | (blank) "p < length code" "isBlank (code ! p)" | (newline) "p < length code" "code ! p = LF \<or> code ! p = CR"
    | (slash) "p < length code" "code ! p = CHR ''/''"
    | (other) "p < length code" "ord (code ! p) < 0x80" "\<not> isBlank (code ! p)" "code ! p \<noteq> LF" "code ! p \<noteq> CR" "code ! p \<noteq> CHR ''/''"
    by (meson not_le)
  then show ?case
  proof cases
    case past
    then show ?thesis using stop by (simp add: skipSpaces_stop)
  next
    case uni
    show ?thesis
    proof (cases "0 < w")
      case True
      show ?thesis
        unfolding skipSpaces_uni [OF uni w] if_P [OF True]
        by (rule assms(1) [OF uni w True isUnicodeSpace_width [OF w] less]) (use uni True in simp)
    next
      case False
      then show ?thesis using stop uni w by (simp add: skipSpaces_uni)
    qed
  next
    case blank
    show ?thesis unfolding skipSpaces_blank [OF blank] by (rule assms(2) [OF blank less]) (use blank in simp)
  next
    case newline
    show ?thesis unfolding skipSpaces_newline [OF newline] by (rule assms(3) [OF newline less]) (use newline in simp)
  next
    case slash
    note e = skipSpaces_slash [OF slash b]
    show ?thesis
    proof (cases "p + 1 < length code \<and> (code ! (p + 1) = CHR ''/'' \<or> code ! (p + 1) = CHR ''*'')")
      case False
      then show ?thesis using stop slash e by (auto simp: isBlank_def)
    next
      case True
      then have n: "p + 1 < length code" by simp
      show ?thesis
      proof (cases "code ! (p + 1) = CHR ''/''")
        case line: True
        then have "skipSpaces code p nl = skipSpaces code (toLineEnd code (p + 2)) nl" using e n by simp
        moreover have "length code - toLineEnd code (p + 2) < length code - p"
          using toLineEnd_ge [of "p + 2" code] slash(1) by linarith
        ultimately show ?thesis using assms(4) [OF n slash(2) line less] by simp
      next
        case False
        then have s: "code ! (p + 1) = CHR ''*''" using True by simp
        then have "skipSpaces code p nl = (if cl then skipSpaces code q l else (length code, l, True))" using e n by simp
        moreover have "length code - q < length code - p" if cl
          using blockComment_ge [OF b] slash(1) that by linarith
        ultimately show ?thesis using assms(5) [OF n slash(2) s b less] by simp
      qed
    qed
  next
    case other
    then show ?thesis using stop by (simp add: skipSpaces_stop)
  qed
qed

lemma skipSpaces_ge: "p \<le> fst (skipSpaces code p nl) \<and> (p \<le> length code \<longrightarrow> fst (skipSpaces code p nl) \<le> length code)"
proof (rule skipSpaces_induct [where P = "\<lambda>p nl r. p \<le> fst r \<and> (p \<le> length code \<longrightarrow> fst r \<le> length code)"], goal_cases uni blank newline line block stop)
  case (line p nl)
  then show ?case using toLineEnd_ge [of "p + 2" code] by auto
next
  case (block p nl q l cl)
  then show ?case using blockComment_ge [OF block(4)] by auto
qed auto

lemma skipStart_ge: "skipStart code n = (p, nl, err) \<Longrightarrow> n \<le> p \<and> (n \<le> length code \<longrightarrow> p \<le> length code)"
proof -
  assume e: "skipStart code n = (p, nl, err)"
  define m where "m = (if n = 0 \<and> 2 \<le> length code \<and> code ! 0 = CHR ''#'' \<and> code ! 1 = CHR ''!'' then toLineEnd code 2 else n)"
  have "n \<le> m" "n \<le> length code \<Longrightarrow> m \<le> length code" using toLineEnd_ge [of 2 code] by (auto simp: m_def)
  moreover have "skipSpaces code m False = (p, nl, err)" using e by (simp add: skipStart_def m_def)
  ultimately show ?thesis using skipSpaces_ge [of m code False] by auto
qed

function htmlLoop :: "string \<Rightarrow> bool \<Rightarrow> bool \<Rightarrow> nat \<Rightarrow> bool \<Rightarrow> bool \<Rightarrow> nat \<times> bool \<times> bool" where
  "htmlLoop code isModule noHTMLClose p sawNL err =
     (case (if isModule then None else htmlComment code noHTMLClose p sawNL) of
        None \<Rightarrow> (p, sawNL, err)
      | Some (p1, nl1) \<Rightarrow>
          (case skipStart code p1 of (p0, nl0, err0) \<Rightarrow>
             (case htmlLoop code isModule noHTMLClose p0 nl0 err0 of (p2, nl2, err2) \<Rightarrow>
                if p2 = p1 then (p1, nl1 \<or> nl2, err \<or> err2)
                else htmlLoop code isModule noHTMLClose p2 (nl1 \<or> nl2) (err \<or> err2))))"
  by pat_completeness auto

text \<open>One pass keeps the position between the start and the end of the text, when the passes it calls do.\<close>

lemma html_pass:
  assumes e: "htmlLoop code m no p nl err =
      (case (if m then None else htmlComment code no p nl) of
        None \<Rightarrow> (p, nl, err)
      | Some (p1, nl1) \<Rightarrow>
          (case skipStart code p1 of (p0, nl0, err0) \<Rightarrow>
             (case htmlLoop code m no p0 nl0 err0 of (p2, nl2, err2) \<Rightarrow>
                if p2 = p1 then (p1, nl1 \<or> nl2, err \<or> err2)
                else htmlLoop code m no p2 (nl1 \<or> nl2) (err \<or> err2))))"
    and one: "\<And>t p1 nl1 p0 r nl0 err0. (if m then None else htmlComment code no p nl) = Some t \<Longrightarrow> (p1, nl1) = t \<Longrightarrow>
      (p0, r) = skipStart code p1 \<Longrightarrow> (nl0, err0) = r \<Longrightarrow>
      p0 \<le> fst (htmlLoop code m no p0 nl0 err0) \<and> (p0 \<le> length code \<longrightarrow> fst (htmlLoop code m no p0 nl0 err0) \<le> length code)"
    and two: "\<And>t p1 nl1 p0 r nl0 err0 p2 r2 nl2 err2. (if m then None else htmlComment code no p nl) = Some t \<Longrightarrow>
      (p1, nl1) = t \<Longrightarrow> (p0, r) = skipStart code p1 \<Longrightarrow> (nl0, err0) = r \<Longrightarrow>
      (p2, r2) = htmlLoop code m no p0 nl0 err0 \<Longrightarrow> (nl2, err2) = r2 \<Longrightarrow> p2 \<noteq> p1 \<Longrightarrow>
      p2 \<le> fst (htmlLoop code m no p2 (nl1 \<or> nl2) (err \<or> err2)) \<and>
      (p2 \<le> length code \<longrightarrow> fst (htmlLoop code m no p2 (nl1 \<or> nl2) (err \<or> err2)) \<le> length code)"
  shows "p \<le> fst (htmlLoop code m no p nl err) \<and> (p \<le> length code \<longrightarrow> fst (htmlLoop code m no p nl err) \<le> length code)"
proof (cases "if m then None else htmlComment code no p nl")
  case None
  then show ?thesis by (simp add: e)
next
  case (Some t)
  obtain p1 nl1 where t: "t = (p1, nl1)" by (cases t)
  obtain p0 nl0 err0 where s: "skipStart code p1 = (p0, nl0, err0)" by (metis prod_cases3)
  obtain p2 nl2 err2 where h: "htmlLoop code m no p0 nl0 err0 = (p2, nl2, err2)" by (metis prod_cases3)
  have c: "p + 3 \<le> p1" "p1 \<le> length code" using htmlComment_ge [of code no p nl p1 nl1] Some t by (auto split: if_splits)
  have p0: "p1 \<le> p0" "p0 \<le> length code" using skipStart_ge [OF s] c by simp_all
  have p2: "p0 \<le> p2" "p2 \<le> length code" using one [OF Some t [symmetric] s [symmetric] refl] h p0 by simp_all
  show ?thesis
    using two [OF Some t [symmetric] s [symmetric] refl h [symmetric] refl] Some t s h c p0 p2 by (auto simp: e)
qed

lemma htmlLoop_ge_dom:
  "htmlLoop_dom (code, m, no, p, nl, err) \<Longrightarrow> p \<le> fst (htmlLoop code m no p nl err) \<and>
    (p \<le> length code \<longrightarrow> fst (htmlLoop code m no p nl err) \<le> length code)"
proof (induction code m no p nl err rule: htmlLoop.pinduct)
  case (1 code m no p nl err)
  show ?case by (rule html_pass [OF htmlLoop.psimps [OF 1(1)] 1(2,3)])
qed

termination htmlLoop
proof (relation "measure (\<lambda>(code, m, no, p, nl, err). length code - p)", goal_cases)
  case 1
  show ?case by simp
next
  case (2 code m no p nl err t p1 nl1 p0 r nl0 err0)
  then show ?case using htmlComment_ge [of code no p nl p1 nl1] skipStart_ge [of code p1 p0 nl0 err0]
    by (auto split: if_splits prod.splits)
next
  case (3 code m no p nl err t p1 nl1 p0 r nl0 err0 p2 r2 nl2 err2)
  then have "p2 = fst (htmlLoop code m no p0 nl0 err0)" by (metis fst_conv)
  with 3 show ?case
    using htmlComment_ge [of code no p nl p1 nl1] skipStart_ge [of code p1 p0 nl0 err0] htmlLoop_ge_dom [of code m no p0 nl0 err0]
    by (auto split: if_splits prod.splits)
qed

declare htmlLoop.simps [simp del]

lemma htmlLoop_ge:
  "p \<le> fst (htmlLoop code m no p nl err) \<and> (p \<le> length code \<longrightarrow> fst (htmlLoop code m no p nl err) \<le> length code)"
proof (induction code m no p nl err rule: htmlLoop.induct)
  case (1 code m no p nl err)
  show ?case by (rule html_pass [OF htmlLoop.simps 1])
qed

end
