(* ===== verification/Lexer.thy ===== *)
theory Lexer
  imports Lexer_Numbers Lexer_Spaces
begin

text \<open>
  The lexer's state and its entry points (\<open>internal/engine/lexer.go\<close>): every method takes the lexer
  and returns it changed.
\<close>

record lexState =
  lsPos :: nat
  lsToff :: nat
  lsTlen :: nat
  lsPrevEnd :: nat
  lsTval :: u64
  lsTok :: token
  lsConsumed :: bool
  lsHadNewline :: bool
  lsEscKeyword :: bool

record lexer =
  lxCode :: string
  lxStrict :: bool
  lxModule :: bool
  lxNoHTMLClose :: bool
  lxCommentErr :: bool
  lxSt :: lexState

definition freshState :: lexState where
  "freshState = \<lparr>lsPos = 0, lsToff = 0, lsTlen = 0, lsPrevEnd = 0, lsTval = mkundef, lsTok = TokErr, lsConsumed = True,
     lsHadNewline = False, lsEscKeyword = False\<rparr>"

definition newLexer :: "string \<Rightarrow> bool \<Rightarrow> lexer" where
  "newLexer code strict = \<lparr>lxCode = code, lxStrict = strict, lxModule = False, lxNoHTMLClose = False, lxCommentErr = False,
     lxSt = freshState\<rparr>"

definition lexSave :: "lexer \<Rightarrow> lexState" where "lexSave l = lxSt l"
definition lexRestore :: "lexer \<Rightarrow> lexState \<Rightarrow> lexer" where "lexRestore l s = l\<lparr>lxSt := s\<rparr>"
definition tokenText :: "lexer \<Rightarrow> string" where
  "tokenText l = drop (lsToff (lxSt l)) (take (lsToff (lxSt l) + lsTlen (lxSt l)) (lxCode l))"

text \<open>A template's expression is lexed as a source of its own, between a push and a pop.\<close>

record lexCheckpoint =
  cpCode :: string
  cpStrict :: bool
  cpSt :: lexState

definition pushSource :: "lexer \<Rightarrow> string \<Rightarrow> lexer \<times> lexCheckpoint" where
  "pushSource l code =
     (l\<lparr>lxCode := code, lxSt := freshState\<rparr>, \<lparr>cpCode = lxCode l, cpStrict = lxStrict l, cpSt = lxSt l\<rparr>)"

definition popSource :: "lexer \<Rightarrow> lexCheckpoint \<Rightarrow> lexer" where
  "popSource l cp = l\<lparr>lxCode := cpCode cp, lxStrict := cpStrict cp, lxSt := cpSt cp\<rparr>"

section \<open>Tokens into the state\<close>

definition setTok :: "lexer \<Rightarrow> token \<Rightarrow> nat \<Rightarrow> lexer" where
  "setTok l t n = l\<lparr>lxSt := (lxSt l)\<lparr>lsTok := t, lsTlen := n\<rparr>\<rparr>"

definition setVal :: "lexer \<Rightarrow> u64 \<Rightarrow> lexer" where
  "setVal l v = l\<lparr>lxSt := (lxSt l)\<lparr>lsTval := tov v\<rparr>\<rparr>"

definition skipToNext :: "lexer \<Rightarrow> nat \<Rightarrow> lexer \<times> nat \<times> bool" where
  "skipToNext l n =
     (case skipStart (lxCode l) n of (p, nl, err) \<Rightarrow>
        (case htmlLoop (lxCode l) (lxModule l) (lxNoHTMLClose l) p nl err of (p', nl', err') \<Rightarrow>
           (l\<lparr>lxCommentErr := lxCommentErr l \<or> err'\<rparr>, p', nl')))"

definition parseNumber :: "unicodeTables \<Rightarrow> lexer \<Rightarrow> nat \<Rightarrow> lexer" where
  "parseNumber uc l off =
     (let buf = drop off (lxCode l)
      in case scanNumber (lxStrict l) buf of
        NumErr n \<Rightarrow> setTok l TokErr n
      | NumOk numlen value sepBad bigIntOK \<Rightarrow>
          if sepBad then setTok l TokErr numlen
          else let l1 = setVal l value
          in if isByte buf numlen CHR ''n''
             then if \<not> bigIntOK then setTok l1 TokErr (numlen + 1)
                  else if numberHasInvalidTail uc buf (numlen + 1) then setTok l1 TokErr (numlen + 1)
                  else setTok l1 TokBigInt (numlen + 1)
             else if numberHasInvalidTail uc buf numlen then setTok l1 TokErr numlen
             else setTok l1 TokNumber numlen)"

section \<open>Operators\<close>

definition m2 :: "string \<Rightarrow> char \<Rightarrow> bool" where "m2 buf c2 \<longleftrightarrow> isByte buf 1 c2"
definition m3 :: "string \<Rightarrow> char \<Rightarrow> char \<Rightarrow> bool" where "m3 buf c2 c3 \<longleftrightarrow> isByte buf 1 c2 \<and> isByte buf 2 c3"
definition m4 :: "string \<Rightarrow> char \<Rightarrow> char \<Rightarrow> char \<Rightarrow> bool" where
  "m4 buf c2 c3 c4 \<longleftrightarrow> isByte buf 1 c2 \<and> isByte buf 2 c3 \<and> isByte buf 3 c4"

text \<open>Every operator but those that begin with a point, which may begin a number.\<close>

definition operatorTok :: "string \<Rightarrow> (token \<times> nat) option" where
  "operatorTok buf =
     (let c = buf ! 0
      in if c = CHR ''?'' then Some
           (if m3 buf CHR ''?'' CHR ''='' then (TokNullishAssign, 3)
            else if m2 buf CHR ''?'' then (TokNullish, 2)
            else if m2 buf CHR ''.'' \<and> \<not> (3 \<le> length buf \<and> 48 \<le> ord (buf ! 2) \<and> ord (buf ! 2) \<le> 57) then (TokOptionalChain, 2)
            else (TokQ, 1))
         else if c = CHR ''!'' then Some
           (if m3 buf CHR ''='' CHR ''='' then (TokSne, 3) else if m2 buf CHR ''='' then (TokNe, 2) else (TokNot, 1))
         else if c = CHR ''='' then Some
           (if m3 buf CHR ''='' CHR ''='' then (TokSeq, 3) else if m2 buf CHR ''='' then (TokEq, 2)
            else if m2 buf CHR ''>'' then (TokArrow, 2) else (TokAssign, 1))
         else if c = CHR ''<'' then Some
           (if m3 buf CHR ''<'' CHR ''='' then (TokShlAssign, 3) else if m2 buf CHR ''<'' then (TokShl, 2)
            else if m2 buf CHR ''='' then (TokLe, 2) else (TokLt, 1))
         else if c = CHR ''>'' then Some
           (if m4 buf CHR ''>'' CHR ''>'' CHR ''='' then (TokZShrAssign, 4) else if m3 buf CHR ''>'' CHR ''>'' then (TokZShr, 3)
            else if m3 buf CHR ''>'' CHR ''='' then (TokShrAssign, 3) else if m2 buf CHR ''>'' then (TokShr, 2)
            else if m2 buf CHR ''='' then (TokGe, 2) else (TokGt, 1))
         else if c = CHR ''&'' then Some
           (if m3 buf CHR ''&'' CHR ''='' then (TokLandAssign, 3) else if m2 buf CHR ''&'' then (TokLand, 2)
            else if m2 buf CHR ''='' then (TokAndAssign, 2) else (TokAnd, 1))
         else if c = CHR ''|'' then Some
           (if m3 buf CHR ''|'' CHR ''='' then (TokLorAssign, 3) else if m2 buf CHR ''|'' then (TokLor, 2)
            else if m2 buf CHR ''='' then (TokOrAssign, 2) else (TokOr, 1))
         else if c = CHR ''+'' then Some
           (if m2 buf CHR ''+'' then (TokPostInc, 2) else if m2 buf CHR ''='' then (TokPlusAssign, 2) else (TokPlus, 1))
         else if c = CHR ''-'' then Some
           (if m2 buf CHR ''-'' then (TokPostDec, 2) else if m2 buf CHR ''='' then (TokMinusAssign, 2) else (TokMinus, 1))
         else if c = CHR ''*'' then Some
           (if m3 buf CHR ''*'' CHR ''='' then (TokExpAssign, 3) else if m2 buf CHR ''*'' then (TokExp, 2)
            else if m2 buf CHR ''='' then (TokMulAssign, 2) else (TokMul, 1))
         else if c = CHR ''/'' then Some (if m2 buf CHR ''='' then (TokDivAssign, 2) else (TokDiv, 1))
         else if c = CHR ''%'' then Some (if m2 buf CHR ''='' then (TokRemAssign, 2) else (TokRem, 1))
         else if c = CHR ''^'' then Some (if m2 buf CHR ''='' then (TokXorAssign, 2) else (TokXor, 1))
         else None)"

definition parseOperator :: "unicodeTables \<Rightarrow> lexer \<Rightarrow> nat \<Rightarrow> lexer \<times> bool" where
  "parseOperator uc l off =
     (let buf = drop off (lxCode l)
      in if buf ! 0 = CHR ''.''
         then if m3 buf CHR ''.'' CHR ''.'' then (setTok l TokRest 3, True)
              else if 1 < length buf \<and> isDigitByte (buf ! 1)
              then (case parseDecimalLiteral buf of
                      (n, None) \<Rightarrow> (setTok l TokErr n, True)
                    | (n, Some v) \<Rightarrow>
                        if numberHasInvalidTail uc buf n \<or> hasBadSeparator (take n buf) isDigitByte
                        then (setTok l TokErr n, True)
                        else (setTok (setVal l v) TokNumber n, True))
              else (setTok l TokDot 1, True)
         else (case operatorTok buf of
                 None \<Rightarrow> (l, False)
               | Some (t, n) \<Rightarrow> (setTok l t n, True)))"

section \<open>The next token\<close>

text \<open>A token of width 0 takes up one byte; then the position moves past it.\<close>

definition advance :: "lexer \<Rightarrow> nat \<Rightarrow> lexer" where
  "advance l off =
     (let st = lxSt l; n = (if lsTlen st = 0 then 1 else lsTlen st)
      in l\<lparr>lxSt := st\<lparr>lsTlen := n, lsPos := off + n\<rparr>\<rparr>)"

definition setIdent :: "unicodeTables \<Rightarrow> lexer \<Rightarrow> nat \<Rightarrow> lexer" where
  "setIdent uc l off =
     (case parseIdent uc (lxCode l) off of (t, n, esc) \<Rightarrow>
        let l1 = (if esc then l\<lparr>lxSt := (lxSt l)\<lparr>lsEscKeyword := True\<rparr>\<rparr> else l) in setTok l1 t n)"

definition lexAt :: "unicodeTables \<Rightarrow> lexer \<Rightarrow> nat \<Rightarrow> lexer" where
  "lexAt uc l off =
     (let c = lxCode l ! off
      in if ord c < 128 \<and> singleCharTok c \<noteq> 0
         then l\<lparr>lxSt := (lxSt l)\<lparr>lsTok := singleCharTok c, lsTlen := 1, lsPos := off + 1\<rparr>\<rparr>
         else if ord c < 128 \<and> isIdent1Byte c
         then (let l1 = setIdent uc l off in l1\<lparr>lxSt := (lxSt l1)\<lparr>lsPos := off + lsTlen (lxSt l1)\<rparr>\<rparr>)
         else if ord c < 128 \<and> isDigitByte c then advance (parseNumber uc l off) off
         else if c = CHR 0x22 \<or> c = CHR 0x27
         then (case scanString (lxStrict l) (lxCode l) off c of (t, n) \<Rightarrow> advance (setTok l t n) off)
         else if c = backquote
         then (case scanTemplate (lxCode l) off of (t, n) \<Rightarrow> advance (setTok l t n) off)
         else (case parseOperator uc l off of (l1, found) \<Rightarrow>
                 if found then advance l1 off else advance (setIdent uc l off) off))"

definition nextRaw :: "unicodeTables \<Rightarrow> lexer \<Rightarrow> lexer \<times> token" where
  "nextRaw uc l =
     (if \<not> lsConsumed (lxSt l) then (l, lsTok (lxSt l))
      else case skipToNext l (lsPos (lxSt l)) of (l1, p, nl) \<Rightarrow>
        let l2 = l1\<lparr>lxSt := (lxSt l1)\<lparr>lsConsumed := False, lsTok := TokErr, lsToff := p, lsHadNewline := nl, lsPos := p,
                     lsTlen := 0, lsEscKeyword := False\<rparr>\<rparr>
        in if lxCommentErr l2 then (l2, TokErr)
           else if length (lxCode l2) \<le> p then (l2\<lparr>lxSt := (lxSt l2)\<lparr>lsTok := TokEOF\<rparr>\<rparr>, TokEOF)
           else let l3 = lexAt uc l2 p in (l3, lsTok (lxSt l3)))"

definition lexNext :: "unicodeTables \<Rightarrow> lexer \<Rightarrow> lexer \<times> token" where
  "lexNext uc l =
     (if \<not> lsConsumed (lxSt l) then (l, lsTok (lxSt l))
      else nextRaw uc (l\<lparr>lxSt := (lxSt l)\<lparr>lsPrevEnd := lsToff (lxSt l) + lsTlen (lxSt l)\<rparr>\<rparr>))"

definition consume :: "lexer \<Rightarrow> lexer" where
  "consume l = l\<lparr>lxSt := (lxSt l)\<lparr>lsConsumed := True\<rparr>\<rparr>"

definition lookahead :: "unicodeTables \<Rightarrow> lexer \<Rightarrow> lexer \<times> token" where
  "lookahead uc l =
     (case lexNext uc (l\<lparr>lxSt := (lxSt l)\<lparr>lsConsumed := True\<rparr>\<rparr>) of (l', tok) \<Rightarrow> (l'\<lparr>lxSt := lxSt l\<rparr>, tok))"

definition numberValue :: "lexer \<Rightarrow> u64" where "numberValue l = lsTval (lxSt l)"

section \<open>Regular expressions\<close>

function regexLoop :: "string \<Rightarrow> nat \<Rightarrow> nat \<Rightarrow> bool \<Rightarrow> nat" where
  "regexLoop buf start i inClass =
     (if i < length buf
      then let c = buf ! i
      in if c = LF \<or> c = CR \<or> isLSorPS buf i (length buf) then start
         else if c = backslash
         then if length buf \<le> i + 1 then start
              else if buf ! (i + 1) = LF \<or> buf ! (i + 1) = CR \<or> isLSorPS buf (i + 1) (length buf) then start
              else regexLoop buf start (i + 2) inClass
         else if c = CHR ''['' then regexLoop buf start (i + 1) True
         else if c = CHR '']'' \<and> inClass then regexLoop buf start (i + 1) False
         else if c = CHR ''/'' \<and> \<not> inClass
         then skipBytes (\<lambda>c. isIdentASCIIContinue c \<or> 0x80 \<le> ord c) buf (i + 1)
         else regexLoop buf start (i + 1) inClass
      else start)"
  by pat_completeness auto
termination
  by (relation "measure (\<lambda>(buf, start, i, inClass). length buf - i)") auto

declare regexLoop.simps [simp del]

definition skipRegexLiteral2 :: "string \<Rightarrow> nat \<Rightarrow> nat" where
  "skipRegexLiteral2 buf start = regexLoop buf start (start + 1) False"

definition scanRegex :: "lexer \<Rightarrow> nat \<Rightarrow> nat \<times> bool" where
  "scanRegex l off =
     (let e = skipRegexLiteral2 (lxCode l) off in if e \<le> off + 1 then (off, False) else (e, True))"

end
