(* ===== verification/Lexer_Laws.thy ===== *)
theory Lexer_Laws
  imports Lexer
begin

text \<open>
  What the lexer promises: every token lies in the text, after the one before it, and is not empty
  (\<open>nextRaw_spec\<close>), so that the tokens of any text come to an end (\<open>tokens_end\<close>).
\<close>

section \<open>Widths of identifiers\<close>

lemma identFast_ge: "i \<le> fst (identFast buf i) \<and> (i \<le> length buf \<longrightarrow> fst (identFast buf i) \<le> length buf)"
proof (induction buf i rule: identFast.induct)
  case (1 buf i)
  show ?case
  proof (cases "i < length buf \<and> \<not> (0x80 \<le> ord (buf ! i) \<or> buf ! i = backslash) \<and> isIdentByte (buf ! i)")
    case True
    with 1 show ?thesis by (simp add: identFast.simps [of buf i])
  next
    case False
    then have "fst (identFast buf i) = i" by (subst identFast.simps) auto
    then show ?thesis by simp
  qed
qed

lemma identSlow_ge: "i \<le> fst (identSlow uc buf i esc) \<and> (i \<le> length buf \<longrightarrow> fst (identSlow uc buf i esc) \<le> length buf)"
proof (induction uc buf i esc rule: identSlow.induct)
  case (1 uc buf i esc)
  obtain cp el where e: "parseUnicodeEscape buf i = (cp, el)" by (cases "parseUnicodeEscape buf i")
  obtain r n where d: "decodeRune (drop i buf) = (r, n)" by (cases "decodeRune (drop i buf)")
  have n: "n \<le> length buf - i" using decodeRune_width [of "drop i buf"] d by simp
  have el: "i + el \<le> length buf \<or> el = 0" by (rule parseUnicodeEscape_width [OF e])
  show ?case
  proof (cases "i < length buf")
    case i: True
    show ?thesis
    proof (cases "buf ! i = backslash")
      case True
      then have s: "identSlow uc buf i esc = (if el \<le> 0 \<or> \<not> isUnicodeIdentContinue uc cp then (i, esc) else identSlow uc buf (i + el) True)"
        using i e by (subst identSlow.simps) simp
      show ?thesis
      proof (cases "el \<le> 0 \<or> \<not> isUnicodeIdentContinue uc cp")
        case False
        from 1(1) [OF i True e [symmetric] False] show ?thesis unfolding s if_not_P [OF False] using el False by auto
      qed (use s in simp)
    next
      case nb: False
      show ?thesis
      proof (cases "ord (buf ! i) < 0x80")
        case True
        then show ?thesis using 1(2) [OF i nb True] i nb by (cases "isIdentByte (buf ! i)") (simp_all add: identSlow.simps [of uc buf i])
      next
        case False
        then have s: "identSlow uc buf i esc = (if r = runeError \<or> \<not> isUnicodeIDContinue uc r then (i, esc) else identSlow uc buf (i + n) esc)"
          using i nb d by (subst identSlow.simps) simp
        show ?thesis
        proof (cases "r = runeError \<or> \<not> isUnicodeIDContinue uc r")
          case c: False
          from 1(3) [OF i nb False d [symmetric] c] show ?thesis unfolding s if_not_P [OF c] using n i by auto
        qed (use s in simp)
      qed
    qed
  next
    case False
    then have "identSlow uc buf i esc = (i, esc)" by (subst identSlow.simps) simp
    then show ?thesis by simp
  qed
qed

definition identOk :: "string \<Rightarrow> token \<times> nat \<times> bool \<Rightarrow> bool" where
  "identOk buf res \<longleftrightarrow> (case res of (t, n, esc) \<Rightarrow> n \<le> length buf \<and> (t = TokErr \<or> isIdentLike t))"

lemma identTail_ok: "i \<le> length buf \<Longrightarrow> identOk buf (identTail uc buf i esc) \<and> i \<le> fst (snd (identTail uc buf i esc))"
  using identSlow_ge [of i uc buf esc] parseKeyword_identLike
  by (auto simp: identTail_def identOk_def isIdentLike_def split: prod.splits)

lemma ascii_ident: "ord c < 0x80 \<Longrightarrow> isIdent1Byte c \<Longrightarrow> c \<noteq> backslash"
  by (auto simp: isIdent1Byte_def charType_def char_flags)

lemma parseIdent_ok:
  "off \<le> length code \<Longrightarrow> identOk (drop off code) (parseIdent uc code off) \<and>
    (off < length code \<and> ord (code ! off) < 0x80 \<and> isIdent1Byte (code ! off) \<longrightarrow> 0 < fst (snd (parseIdent uc code off)))"
proof -
  assume off: "off \<le> length code"
  define buf where "buf = drop off code"
  define c where "c = buf ! 0"
  have err: "identOk buf (TokErr, 0, False)" by (simp add: identOk_def)
  have kw: "identOk buf (parseKeyword s, n, False)" if "n \<le> length buf" for s n
    using that parseKeyword_identLike by (simp add: identOk_def)
  obtain i slow where f: "identFast buf 1 = (i, slow)" by (cases "identFast buf 1")
  obtain cp el where e: "parseUnicodeEscape buf 0 = (cp, el)" by (cases "parseUnicodeEscape buf 0")
  obtain r n where d: "decodeRune buf = (r, n)" by (cases "decodeRune buf")
  have p: "parseIdent uc code off = (if buf = [] then (TokErr, 0, False)
         else if ord c < 0x80 \<and> c \<noteq> backslash \<and> isIdent1Byte c
         then if slow then identTail uc buf i False else (parseKeyword (take i buf), i, False)
         else if c = backslash
         then if el \<le> 0 \<or> \<not> isUnicodeIdentBegin uc cp then (TokErr, 0, False) else identTail uc buf el True
         else if 0x80 \<le> ord c
         then if r = runeError \<or> \<not> isUnicodeIDStart uc r then (TokErr, 0, False) else identTail uc buf n False
         else (TokErr, 0, False))"
    by (simp add: parseIdent_def Let_def buf_def [symmetric] c_def [symmetric] f [unfolded One_nat_def] e d)
  have i: "1 \<le> i" "i \<le> length buf" if "buf \<noteq> []"
    using identFast_ge [of 1 buf] f that by (simp_all add: Suc_le_eq)
  have el: "el \<le> length buf" using parseUnicodeEscape_width [OF e] by auto
  have n: "n \<le> length buf" using decodeRune_width [of buf] d by simp
  have "identOk buf (parseIdent uc code off)"
    unfolding p using err kw i identTail_ok [of i buf uc False] identTail_ok [OF el, of uc True] identTail_ok [OF n, of uc False] by auto
  moreover have "0 < fst (snd (parseIdent uc code off))"
    if "off < length code" "ord (code ! off) < 0x80" "isIdent1Byte (code ! off)"
  proof -
    have b: "buf \<noteq> []" "c = code ! off" using that(1) by (simp_all add: buf_def c_def)
    then have "parseIdent uc code off = (if slow then identTail uc buf i False else (parseKeyword (take i buf), i, False))"
      unfolding p using that ascii_ident [of c] by simp
    then show ?thesis using i [OF b(1)] identTail_ok [OF i(2) [OF b(1)], of uc False] by auto
  qed
  ultimately show ?thesis by (simp add: buf_def)
qed

section \<open>Widths of the other tokens\<close>

definition numOk :: "string \<Rightarrow> numScan \<Rightarrow> bool" where
  "numOk buf r \<longleftrightarrow> (case r of NumErr n \<Rightarrow> n \<le> length buf | NumOk n v s b \<Rightarrow> n \<le> length buf)"

lemma scanPrefixed_ok: "2 \<le> length buf \<Longrightarrow> numOk buf (scanPrefixed buf radix isDigit)"
  using scanDigits_le [of 2 buf isDigit] by (simp add: scanPrefixed_def parseRadix_def Let_def numOk_def)

lemma decimal_ok: "buf \<noteq> [] \<Longrightarrow> fst (parseDecimalLiteral buf) \<le> length buf"
  using scanDecimal_width [of buf] by (simp add: parseDecimalLiteral_def Let_def)

lemma numOk_if: "(b \<Longrightarrow> numOk buf x) \<Longrightarrow> (\<not> b \<Longrightarrow> numOk buf y) \<Longrightarrow> numOk buf (if b then x else y)"
  by simp

lemma scanNumber_ok: "buf \<noteq> [] \<Longrightarrow> numOk buf (scanNumber strict buf)"
proof -
  assume b: "buf \<noteq> []"
  have d: "numOk buf (case parseDecimalLiteral buf of (numlen, None) \<Rightarrow> NumErr numlen
      | (numlen, Some value) \<Rightarrow> NumOk numlen value (f numlen) (g numlen))" for f g
    using decimal_ok [OF b] by (auto simp: numOk_def split: prod.split option.split)
  have o: "numOk buf (case parseRadix buf 8 1 isOctalByte of (numlen, value) \<Rightarrow>
                      NumOk numlen value (hasNumericSep (take numlen buf)) False)"
    using scanDigits_le [of 1 buf isOctalByte] b by (simp add: parseRadix_def Let_def numOk_def Suc_le_eq)
  have e: "buf ! 0 = CHR ''0'' \<and> 1 < length buf \<Longrightarrow> numOk buf (NumErr 1)"
    "buf ! 0 = CHR ''0'' \<and> 1 < length buf \<Longrightarrow> numOk buf (scanPrefixed buf radix isDigit)" for radix isDigit
    using scanPrefixed_ok [of buf] by (simp_all add: numOk_def)
  show ?thesis
    unfolding scanNumber_def Let_def by (intro numOk_if d o e; assumption)
qed

lemma operatorTok_ok: "operatorTok buf = Some (t, n) \<Longrightarrow> buf \<noteq> [] \<Longrightarrow> n \<le> length buf \<and> 100 \<le> t \<and> 0 < n"
proof -
  assume t: "operatorTok buf = Some (t, n)" and b: "buf \<noteq> []"
  from b have "Suc 0 \<le> length buf" by (cases buf) simp_all
  then show ?thesis using t unfolding operatorTok_def Let_def m2_def m3_def m4_def isByte_def
    by (auto split: if_splits)
qed

lemma scanStringFrom_ok: "buf \<noteq> [] \<Longrightarrow> scanStringFrom strict buf quote i = (t, n) \<Longrightarrow> n \<le> length buf \<and> t \<noteq> TokEOF"
proof (induction strict buf quote i rule: scanStringFrom.induct)
  case (1 strict buf quote i)
  show ?case
  proof (cases "findStop buf quote i")
    case (AtEscape b)
    show ?thesis
    proof (cases "i < length buf \<and> b + 1 < length buf")
      case True
      then have t: "i < length buf" "\<not> length buf \<le> b + 1" by simp_all
      show ?thesis
      proof (cases "escapeWidth strict buf b")
        case (Inl m)
        then show ?thesis using 1(3) AtEscape t escapeWidth_error [OF Inl] by (simp add: scanStringFrom.simps [of strict buf quote i])
      next
        case (Inr skip)
        show ?thesis
        proof (cases "length buf < b + skip")
          case True
          then show ?thesis using 1(3) AtEscape t Inr by (simp add: scanStringFrom.simps [of strict buf quote i])
        next
          case False
          then have "scanStringFrom strict buf quote (b + skip) = (t, n)"
            using 1(3) AtEscape t Inr by (simp add: scanStringFrom.simps [of strict buf quote i])
          then show ?thesis by (rule 1(1) [OF t(1) AtEscape t(2) Inr False 1(2)])
        qed
      qed
    next
      case False
      then show ?thesis using 1(3) AtEscape by (auto simp: scanStringFrom.simps [of strict buf quote i] split: if_splits)
    qed
  next
    case (AtQuote k)
    then show ?thesis using 1(3) findStop_range(1) [OF AtQuote] by (auto simp: scanStringFrom.simps [of strict buf quote i] split: if_splits)
  next
    case (AtNewline k)
    then show ?thesis using 1(3) findStop_range(3) [OF AtNewline] by (auto simp: scanStringFrom.simps [of strict buf quote i] split: if_splits)
  next
    case NoStop
    then show ?thesis using 1(3) by (auto simp: scanStringFrom.simps [of strict buf quote i] split: if_splits)
  qed
qed

lemma scanTemplate_ok: "scanTemplate code off = (t, n) \<Longrightarrow> n \<le> length code - off \<and> t \<noteq> TokEOF"
  by (auto simp: scanTemplate_def Let_def split: prod.splits if_splits)

section \<open>One token\<close>

text \<open>What writing a token keeps of the lexer, and what its width and kind are.\<close>

definition tokenAt :: "lexer \<Rightarrow> nat \<Rightarrow> lexer \<Rightarrow> bool" where
  "tokenAt l off l' \<longleftrightarrow> (\<exists>t n p v e.
     l' = l\<lparr>lxSt := (lxSt l)\<lparr>lsTok := t, lsTlen := n, lsPos := p, lsTval := v, lsEscKeyword := e\<rparr>\<rparr> \<and>
     t \<noteq> TokEOF \<and> off + n \<le> length (lxCode l))"

definition tokenPast :: "lexer \<Rightarrow> nat \<Rightarrow> lexer \<Rightarrow> bool" where
  "tokenPast l off l' \<longleftrightarrow> tokenAt l off l' \<and> 0 < lsTlen (lxSt l') \<and> lsPos (lxSt l') = off + lsTlen (lxSt l')"

lemma tokenAt_I:
  "t \<noteq> TokEOF \<Longrightarrow> off + n \<le> length (lxCode l) \<Longrightarrow>
    tokenAt l off (l\<lparr>lxSt := (lxSt l)\<lparr>lsTok := t, lsTlen := n, lsPos := p, lsTval := v, lsEscKeyword := e\<rparr>\<rparr>)"
  unfolding tokenAt_def by blast

lemma tokenAt_if: "(b \<Longrightarrow> tokenAt l off x) \<Longrightarrow> (\<not> b \<Longrightarrow> tokenAt l off y) \<Longrightarrow> tokenAt l off (if b then x else y)"
  by simp

lemma setTok_tokenAt: "t \<noteq> TokEOF \<Longrightarrow> off + n \<le> length (lxCode l) \<Longrightarrow> tokenAt l off (setTok l t n)"
  using tokenAt_I [of t off n l "lsEscKeyword (lxSt l)" "lsTval (lxSt l)" "lsPos (lxSt l)"] by (simp add: setTok_def)

lemma setVal_tokenAt: "t \<noteq> TokEOF \<Longrightarrow> off + n \<le> length (lxCode l) \<Longrightarrow> tokenAt l off (setTok (setVal l v) t n)"
  using tokenAt_I [of t off n l "lsEscKeyword (lxSt l)" "tov v" "lsPos (lxSt l)"]
  by (cases "lxSt l") (simp add: setTok_def setVal_def)

lemma advance_tokenPast: "tokenAt l off l1 \<Longrightarrow> off < length (lxCode l) \<Longrightarrow> tokenPast l off (advance l1 off)"
proof -
  assume o: "off < length (lxCode l)"
  assume "tokenAt l off l1"
  then obtain t n p v e where l1: "l1 = l\<lparr>lxSt := (lxSt l)\<lparr>lsTok := t, lsTlen := n, lsPos := p, lsTval := v, lsEscKeyword := e\<rparr>\<rparr>"
    and t: "t \<noteq> TokEOF" "off + n \<le> length (lxCode l)" unfolding tokenAt_def by blast
  define k where "k = (if n = 0 then 1 else n)"
  have a: "advance l1 off = l\<lparr>lxSt := (lxSt l)\<lparr>lsTok := t, lsTlen := k, lsPos := off + k, lsTval := v, lsEscKeyword := e\<rparr>\<rparr>"
    by (simp add: advance_def l1 k_def)
  have "off + k \<le> length (lxCode l)" "0 < k" using o t(2) by (simp_all add: k_def)
  then show ?thesis unfolding tokenPast_def a using t(1) by (auto intro: tokenAt_I)
qed

lemma setIdent_tokenAt: "off \<le> length (lxCode l) \<Longrightarrow> tokenAt l off (setIdent uc l off)"
proof -
  assume o: "off \<le> length (lxCode l)"
  obtain t n e where p: "parseIdent uc (lxCode l) off = (t, n, e)" by (metis prod_cases3)
  have "n \<le> length (lxCode l) - off" "t \<noteq> TokEOF"
    using parseIdent_ok [OF o, of uc] p by (auto simp: identOk_def isIdentLike_def)
  then have "tokenAt l off (l\<lparr>lxSt := (lxSt l)\<lparr>lsTok := t, lsTlen := n, lsPos := lsPos (lxSt l), lsTval := lsTval (lxSt l),
      lsEscKeyword := e \<or> lsEscKeyword (lxSt l)\<rparr>\<rparr>)" using o by (intro tokenAt_I) simp_all
  moreover have "setIdent uc l off = l\<lparr>lxSt := (lxSt l)\<lparr>lsTok := t, lsTlen := n, lsPos := lsPos (lxSt l), lsTval := lsTval (lxSt l),
      lsEscKeyword := e \<or> lsEscKeyword (lxSt l)\<rparr>\<rparr>" by (cases "lxSt l") (simp add: setIdent_def p setTok_def)
  ultimately show ?thesis by simp
qed

lemma parseNumber_tokenAt: "off < length (lxCode l) \<Longrightarrow> tokenAt l off (parseNumber uc l off)"
proof -
  assume o: "off < length (lxCode l)"
  define buf where "buf = drop off (lxCode l)"
  have ok: "numOk buf (scanNumber (lxStrict l) buf)" using o by (intro scanNumber_ok) (simp add: buf_def)
  have len: "n \<le> length buf \<Longrightarrow> off + n \<le> length (lxCode l)" for n using o by (auto simp: buf_def)
  show ?thesis
  proof (cases "scanNumber (lxStrict l) buf")
    case (NumErr n)
    then have "tokenAt l off (setTok l TokErr n)" using ok by (intro setTok_tokenAt len) (simp_all add: numOk_def)
    then show ?thesis by (simp add: parseNumber_def Let_def buf_def [symmetric] NumErr)
  next
    case (NumOk n v sb big)
    then have n: "off + n \<le> length (lxCode l)" using ok by (intro len) (simp add: numOk_def)
    have n1: "off + (n + 1) \<le> length (lxCode l)" if "isByte buf n CHR ''n''"
      using that by (intro len) (simp add: isByte_def)
    show ?thesis
      unfolding parseNumber_def Let_def buf_def [symmetric] NumOk numScan.case
      by (intro tokenAt_if setTok_tokenAt setVal_tokenAt n n1; simp)
  qed
qed

definition opOk :: "lexer \<Rightarrow> nat \<Rightarrow> lexer \<times> bool \<Rightarrow> bool" where
  "opOk l off res \<longleftrightarrow> (if snd res then tokenAt l off (fst res) else fst res = l)"

lemma opOk_intros:
  "tokenAt l off l1 \<Longrightarrow> opOk l off (l1, True)"
  "opOk l off (l, False)"
  "(b \<Longrightarrow> opOk l off x) \<Longrightarrow> (\<not> b \<Longrightarrow> opOk l off y) \<Longrightarrow> opOk l off (if b then x else y)"
  by (simp_all add: opOk_def)

lemma parseOperator_ok: "off < length (lxCode l) \<Longrightarrow> opOk l off (parseOperator uc l off)"
proof -
  assume o: "off < length (lxCode l)"
  define buf where "buf = drop off (lxCode l)"
  have b: "buf \<noteq> []" using o by (simp add: buf_def)
  have len: "n \<le> length buf \<Longrightarrow> off + n \<le> length (lxCode l)" for n using o by (auto simp: buf_def)
  obtain n v where d: "parseDecimalLiteral buf = (n, v)" by (cases "parseDecimalLiteral buf")
  have n: "off + n \<le> length (lxCode l)" using decimal_ok [OF b] d by (intro len) simp
  have r: "off + 3 \<le> length (lxCode l)" if "m3 buf c c'" for c c' using that by (intro len) (simp add: m3_def isByte_def)
  have one: "off + 1 \<le> length (lxCode l)" using o by simp
  have err: "opOk l off (setTok l TokErr n, True)" by (intro opOk_intros setTok_tokenAt n) simp
  have num: "opOk l off (case parseDecimalLiteral buf of (n, None) \<Rightarrow> (setTok l TokErr n, True)
      | (n, Some v) \<Rightarrow> if numberHasInvalidTail uc buf n \<or> hasBadSeparator (take n buf) isDigitByte
          then (setTok l TokErr n, True) else (setTok (setVal l v) TokNumber n, True))"
    using err n by (auto simp: d split: option.split intro!: opOk_intros setVal_tokenAt)
  have ops: "opOk l off (case operatorTok buf of None \<Rightarrow> (l, False) | Some (t, n) \<Rightarrow> (setTok l t n, True))"
    using operatorTok_ok [OF _ b] by (auto split: option.split intro!: opOk_intros setTok_tokenAt len)
  show ?thesis
    unfolding parseOperator_def Let_def buf_def [symmetric]
    by (intro opOk_intros(3) num ops opOk_intros(1) setTok_tokenAt r one; simp)
qed

lemma lexAt_spec: "off < length (lxCode l) \<Longrightarrow> tokenPast l off (lexAt uc l off)"
proof -
  assume o: "off < length (lxCode l)"
  define c where "c = lxCode l ! off"
  have single: "tokenPast l off (l\<lparr>lxSt := (lxSt l)\<lparr>lsTok := singleCharTok c, lsTlen := 1, lsPos := off + 1\<rparr>\<rparr>)"
  proof -
    have "singleCharTok c \<noteq> TokEOF" by (simp add: singleCharTok_def)
    then show ?thesis
      using o tokenAt_I [of "singleCharTok c" off 1 l "lsEscKeyword (lxSt l)" "lsTval (lxSt l)" "off + 1"] by (simp add: tokenPast_def)
  qed
  have ident: "tokenPast l off (let l1 = setIdent uc l off in l1\<lparr>lxSt := (lxSt l1)\<lparr>lsPos := off + lsTlen (lxSt l1)\<rparr>\<rparr>)"
    if "ord c < 128" "isIdent1Byte c"
  proof -
    obtain t n e where p: "parseIdent uc (lxCode l) off = (t, n, e)" by (metis prod_cases3)
    have n: "0 < n" using parseIdent_ok [of off "lxCode l" uc] p that o by (simp add: c_def)
    have t: "tokenAt l off (setIdent uc l off)" using o by (intro setIdent_tokenAt) simp
    have w: "lsTlen (lxSt (setIdent uc l off)) = n" by (simp add: setIdent_def p setTok_def Let_def)
    then have "(let l1 = setIdent uc l off in l1\<lparr>lxSt := (lxSt l1)\<lparr>lsPos := off + lsTlen (lxSt l1)\<rparr>\<rparr>) = advance (setIdent uc l off) off"
      using n by (simp add: advance_def Let_def)
    then show ?thesis using advance_tokenPast [OF t o] by simp
  qed
  have other: "tokenPast l off (advance l1 off)" if "tokenAt l off l1" for l1 using that o by (rule advance_tokenPast)
  have str: "tokenAt l off (setTok l t n)" if "scanString (lxStrict l) (lxCode l) off c = (t, n)" for t n
    using scanStringFrom_ok [of "drop off (lxCode l)" "lxStrict l" c 1 t n] that o by (intro setTok_tokenAt) (auto simp: scanString_def)
  have tmpl: "tokenAt l off (setTok l t n)" if "scanTemplate (lxCode l) off = (t, n)" for t n
    using scanTemplate_ok [OF that] o by (intro setTok_tokenAt) auto
  have op: "tokenPast l off (case parseOperator uc l off of (l1, found) \<Rightarrow>
                 if found then advance l1 off else advance (setIdent uc l off) off)"
    using parseOperator_ok [OF o, of uc] other setIdent_tokenAt [of off l uc] o by (auto simp: opOk_def split: prod.split)
  show ?thesis
    unfolding lexAt_def Let_def c_def [symmetric]
    using single ident [unfolded Let_def] other [OF parseNumber_tokenAt [OF o]] op other [OF str] other [OF tmpl]
    by (simp split: if_split prod.split)
qed

text \<open>
  The next token from a consumed one. \<open>lexOk\<close> is the invariant: the position is inside the text, and a
  lexer that ran into an open comment stands at its end.
\<close>

definition lexOk :: "lexer \<Rightarrow> bool" where
  "lexOk l \<longleftrightarrow> lsPos (lxSt l) \<le> length (lxCode l) \<and> lsToff (lxSt l) + lsTlen (lxSt l) \<le> length (lxCode l)"

lemma skipToNext_spec:
  assumes "skipToNext l n = (l', p, nl)" "n \<le> length (lxCode l)"
  shows "n \<le> p" "p \<le> length (lxCode l)" "l' = l\<lparr>lxCommentErr := lxCommentErr l'\<rparr>"
proof -
  obtain p0 nl0 err0 where s: "skipStart (lxCode l) n = (p0, nl0, err0)" by (metis prod_cases3)
  obtain p1 nl1 err1 where h: "htmlLoop (lxCode l) (lxModule l) (lxNoHTMLClose l) p0 nl0 err0 = (p1, nl1, err1)" by (metis prod_cases3)
  have e: "p = p1" "l' = l\<lparr>lxCommentErr := lxCommentErr l \<or> err1\<rparr>" using assms(1) by (auto simp: skipToNext_def s h)
  have "n \<le> p0" "p0 \<le> length (lxCode l)" using skipStart_ge [OF s] assms(2) by simp_all
  moreover have "p0 \<le> p1" "p1 \<le> length (lxCode l)"
    using htmlLoop_ge [of p0 "lxCode l" "lxModule l" "lxNoHTMLClose l" nl0 err0] h calculation by simp_all
  ultimately show "n \<le> p" "p \<le> length (lxCode l)" using e by simp_all
  show "l' = l\<lparr>lxCommentErr := lxCommentErr l'\<rparr>" using e(2) by simp
qed

text \<open>What one call of \<open>nextRaw\<close> does to a lexer whose token is consumed.\<close>

definition steppedFrom :: "lexer \<Rightarrow> lexer \<Rightarrow> token \<Rightarrow> bool" where
  "steppedFrom l l' t \<longleftrightarrow>
     lexOk l' \<and> lxCode l' = lxCode l \<and> lxStrict l' = lxStrict l \<and> lxModule l' = lxModule l \<and>
     t = lsTok (lxSt l') \<and> \<not> lsConsumed (lxSt l') \<and>
     lsPos (lxSt l) \<le> lsToff (lxSt l') \<and> lsPos (lxSt l') = lsToff (lxSt l') + lsTlen (lxSt l') \<and>
     (if lxCommentErr l' then t = TokErr \<and> lsTlen (lxSt l') = 0
      else if lsToff (lxSt l') = length (lxCode l) then t = TokEOF \<and> lsTlen (lxSt l') = 0
      else t \<noteq> TokEOF \<and> 0 < lsTlen (lxSt l'))"

lemma nextRaw_spec:
  assumes "lexOk l" "lsConsumed (lxSt l)" "nextRaw uc l = (l', t)"
  shows "steppedFrom l l' t \<and> lsPrevEnd (lxSt l') = lsPrevEnd (lxSt l)"
proof -
  obtain l1 p nl where s: "skipToNext l (lsPos (lxSt l)) = (l1, p, nl)" by (metis prod_cases3)
  have n: "lsPos (lxSt l) \<le> length (lxCode l)" using assms(1) by (simp add: lexOk_def)
  note S = skipToNext_spec [OF s n]
  obtain e where l1: "l1 = l\<lparr>lxCommentErr := e\<rparr>" using S(3) by blast
  define l2 where "l2 = l1\<lparr>lxSt := (lxSt l1)\<lparr>lsConsumed := False, lsTok := TokErr, lsToff := p, lsHadNewline := nl, lsPos := p,
                     lsTlen := 0, lsEscKeyword := False\<rparr>\<rparr>"
  have N: "nextRaw uc l = (if e then (l2, TokErr)
           else if length (lxCode l) \<le> p then (l2\<lparr>lxSt := (lxSt l2)\<lparr>lsTok := TokEOF\<rparr>\<rparr>, TokEOF)
           else (lexAt uc l2 p, lsTok (lxSt (lexAt uc l2 p))))"
    using assms(2) by (simp add: nextRaw_def s l2_def l1 Let_def)
  show ?thesis
  proof (cases "e \<or> length (lxCode l) \<le> p")
    case True
    then show ?thesis using N assms(3) S(1,2) by (auto simp: steppedFrom_def lexOk_def l2_def l1 split: if_splits)
  next
    case False
    then have p: "p < length (lxCode l2)" "\<not> e" by (simp_all add: l2_def l1)
    have l': "l' = lexAt uc l2 p" "t = lsTok (lxSt l')" using N assms(3) False by auto
    have T: "tokenPast l2 p l'" unfolding l' by (rule lexAt_spec [OF p(1)])
    then obtain t' k q v esc where e': "l' = l2\<lparr>lxSt := (lxSt l2)\<lparr>lsTok := t', lsTlen := k, lsPos := q, lsTval := v, lsEscKeyword := esc\<rparr>\<rparr>"
      and t': "t' \<noteq> TokEOF" "p + k \<le> length (lxCode l2)" unfolding tokenPast_def tokenAt_def by blast
    have k: "0 < k" "q = p + k" using T by (simp_all add: tokenPast_def e')
    have "steppedFrom l l' t" unfolding steppedFrom_def lexOk_def
      using e' t' k l' p S(1,2) by (simp add: l2_def l1)
    then show ?thesis using e' by (simp add: l2_def l1)
  qed
qed

section \<open>All tokens of a text\<close>

text \<open>
  The parser's way through a text: take the token, mark it consumed, go on; \<open>nthLexer\<close> is the lexer after
  a number of such turns, on its token.
\<close>

fun nthLexer :: "unicodeTables \<Rightarrow> lexer \<Rightarrow> nat \<Rightarrow> lexer" where
  "nthLexer uc l 0 = fst (lexNext uc (consume l))"
| "nthLexer uc l (Suc n) = fst (lexNext uc (consume (nthLexer uc l n)))"

definition atEnd :: "lexer \<Rightarrow> bool" where
  "atEnd l \<longleftrightarrow> lsTok (lxSt l) = TokEOF \<or> lxCommentErr l"

lemma lexNext_spec:
  assumes "lexOk l" "lexNext uc (consume l) = (l', t)"
  shows "steppedFrom l l' t \<and> lsPrevEnd (lxSt l') = lsToff (lxSt l) + lsTlen (lxSt l)"
proof -
  define m where "m = l\<lparr>lxSt := (lxSt l)\<lparr>lsConsumed := True, lsPrevEnd := lsToff (lxSt l) + lsTlen (lxSt l)\<rparr>\<rparr>"
  have "nextRaw uc m = (l', t)" using assms(2) by (simp add: lexNext_def consume_def m_def)
  then have s: "steppedFrom m l' t \<and> lsPrevEnd (lxSt l') = lsPrevEnd (lxSt m)"
    using assms(1) by (intro nextRaw_spec) (simp_all add: m_def lexOk_def)
  have e: "lxCode m = lxCode l" "lxStrict m = lxStrict l" "lxModule m = lxModule l" "lsPos (lxSt m) = lsPos (lxSt l)"
    by (simp_all add: m_def)
  have "steppedFrom m l' t = steppedFrom l l' t" unfolding steppedFrom_def e by (rule refl)
  with s show ?thesis by (simp add: m_def)
qed

lemma nthLexer_step: "lexOk l \<Longrightarrow> steppedFrom l (fst (lexNext uc (consume l))) (snd (lexNext uc (consume l)))"
  by (rule lexNext_spec [THEN conjunct1]) simp_all

lemma nthLexer_ok: "lexOk l \<Longrightarrow> lexOk (nthLexer uc l n) \<and> lxCode (nthLexer uc l n) = lxCode l"
proof (induction n)
  case 0
  then show ?case using nthLexer_step [of l uc] by (simp add: steppedFrom_def)
next
  case (Suc n)
  then show ?case using nthLexer_step [of "nthLexer uc l n" uc] by (simp add: steppedFrom_def)
qed

lemma nthLexer_moves: "lexOk l \<Longrightarrow> (\<exists>k \<le> n. atEnd (nthLexer uc l k)) \<or> n < lsPos (lxSt (nthLexer uc l n))"
proof (induction n)
  case 0
  then show ?case using nthLexer_step [of l uc] by (auto simp: steppedFrom_def atEnd_def split: if_splits)
next
  case (Suc n)
  define m where "m = nthLexer uc l n"
  have s: "steppedFrom m (nthLexer uc l (Suc n)) (snd (lexNext uc (consume m)))"
    using nthLexer_step [of m uc] nthLexer_ok [OF Suc.prems, of uc n] by (simp add: m_def)
  show ?case
  proof (cases "(\<exists>k \<le> n. atEnd (nthLexer uc l k)) \<or> atEnd (nthLexer uc l (Suc n))")
    case True
    then show ?thesis by (meson le_SucI le_refl)
  next
    case False
    then have "n < lsPos (lxSt m)" using Suc by (auto simp: m_def)
    moreover have "lsPos (lxSt m) < lsPos (lxSt (nthLexer uc l (Suc n)))"
      using s False by (auto simp: steppedFrom_def atEnd_def split: if_splits)
    ultimately show ?thesis by simp
  qed
qed

theorem tokens_end: "lexOk l \<Longrightarrow> \<exists>k \<le> length (lxCode l). atEnd (nthLexer uc l k)"
  using nthLexer_moves [of l "length (lxCode l)" uc] nthLexer_ok [of l uc "length (lxCode l)"] by (auto simp: lexOk_def)

end
