(* ===== verification/Lexer_Names.thy ===== *)
theory Lexer_Names
  imports Lexer_Laws
begin

text \<open>
  ASCII names: an identifier or keyword, followed by something that cannot continue it, is read whole, and
  its token is the one of the keyword table.
\<close>

definition asciiName :: "string \<Rightarrow> bool" where
  "asciiName s \<longleftrightarrow> s \<noteq> [] \<and> isIdent1Byte (hd s) \<and> list_all isIdentByte s"

definition nameEnd :: "string \<Rightarrow> bool" where
  "nameEnd rest \<longleftrightarrow> rest = [] \<or> (ord (hd rest) < 0x80 \<and> hd rest \<noteq> backslash \<and> \<not> isIdentByte (hd rest))"

lemma identByte_ascii: "isIdentByte c \<Longrightarrow> ord c < 0x80 \<and> c \<noteq> backslash"
  by (auto simp: isIdentByte_def charType_def char_flags Let_def split: if_splits)

lemma ident1_ascii: "isIdent1Byte c \<Longrightarrow> ord c < 0x80"
  by (auto simp: isIdent1Byte_def charType_def char_flags Let_def split: if_splits)

lemma identFast_run:
  "list_all isIdentByte ds \<Longrightarrow> identFast (pre @ ds @ rest) (length pre) = identFast (pre @ ds @ rest) (length pre + length ds)"
proof (induction ds arbitrary: pre)
  case (Cons d ds)
  have d: "isIdentByte d" "\<not> (0x80 \<le> ord d \<or> d = backslash)" using Cons.prems identByte_ascii [of d] by auto
  have "identFast (pre @ (d # ds) @ rest) (length pre) = identFast ((pre @ [d]) @ ds @ rest) (length (pre @ [d]))"
    using d by (subst identFast.simps) (simp add: nth_append)
  then show ?case using Cons.IH [of "pre @ [d]"] Cons.prems by simp
qed simp

lemma identFast_end:
  assumes "list_all isIdentByte ds" "nameEnd rest"
  shows "identFast (pre @ ds @ rest) (length pre) = (length pre + length ds, False)"
proof -
  have "identFast (pre @ ds @ rest) (length pre + length ds) = (length pre + length ds, False)"
    using assms(2) by (subst identFast.simps) (cases rest; simp add: nth_append nameEnd_def)
  then show ?thesis using identFast_run [OF assms(1)] by simp
qed

lemma parseIdent_name:
  assumes "drop off code = s @ rest" "asciiName s" "nameEnd rest"
  shows "parseIdent uc code off = (parseKeyword s, length s, False)"
proof -
  obtain c t where s: "s = c # t" using assms(2) by (cases s) (auto simp: asciiName_def)
  have c: "isIdent1Byte c" "ord c < 0x80" "list_all isIdentByte t" using assms(2) ident1_ascii [of c] by (simp_all add: asciiName_def s)
  have f: "identFast (s @ rest) 1 = (length s, False)"
    using identFast_end [OF c(3) assms(3), of "[c]"] by (simp add: s)
  show ?thesis
    unfolding parseIdent_def Let_def assms(1) f prod.case using c ascii_ident [of c] by (simp add: s)
qed

end

