(* ===== verification/Lexer_String_Laws.thy ===== *)
theory Lexer_String_Laws
  imports Lexer_Strings
begin

text \<open>
  String literals against their grammar. \<open>strBody\<close> derives what may stand between the quotes: bytes
  other than the quote, a backslash and a line terminator, and escapes; \<open>scanString\<close> accepts exactly the
  literals it derives (\<open>string_literal\<close>).
\<close>

section \<open>The grammar\<close>

definition hexNumber :: "string \<Rightarrow> nat" where
  "hexNumber hs = foldl (\<lambda>cp h. 16 * cp + hexVal h) 0 hs"

definition decDigit :: "char \<Rightarrow> bool" where
  "decDigit c \<longleftrightarrow> 48 \<le> ord c \<and> ord c \<le> 57"

text \<open>An escape after its backslash, and the text that follows it.\<close>

inductive strEscape :: "bool \<Rightarrow> string \<Rightarrow> string \<Rightarrow> bool" for strict where
  hex: "length hs = 2 \<Longrightarrow> list_all isXDigitByte hs \<Longrightarrow> strEscape strict (CHR ''x'' # hs) rest"
| unicode: "length hs = 4 \<Longrightarrow> list_all isXDigitByte hs \<Longrightarrow> strEscape strict (CHR ''u'' # hs) rest"
| codePoint: "hs \<noteq> [] \<Longrightarrow> list_all isXDigitByte hs \<Longrightarrow> hexNumber hs \<le> 0x10FFFF \<Longrightarrow>
    strEscape strict (CHR ''u'' # CHR ''{'' # hs @ ''}'') rest"
| crlf: "strEscape strict [CR, LF] rest"
| single: "c \<noteq> CHR ''x'' \<Longrightarrow> c \<noteq> CHR ''u'' \<Longrightarrow> c = CR \<longrightarrow> rest = [] \<or> hd rest \<noteq> LF \<Longrightarrow>
    strict \<longrightarrow> \<not> (49 \<le> ord c \<and> ord c \<le> 57) \<and> (c = CHR ''0'' \<longrightarrow> rest = [] \<or> \<not> decDigit (hd rest)) \<Longrightarrow>
    strEscape strict [c] rest"

text \<open>The body of a literal, up to its quote; \<open>tail'\<close> is what follows the quote.\<close>

inductive strBody :: "bool \<Rightarrow> char \<Rightarrow> string \<Rightarrow> string \<Rightarrow> bool" for strict q tail' where
  empty: "strBody strict q tail' []"
| plain: "c \<noteq> q \<Longrightarrow> c \<noteq> backslash \<Longrightarrow> c \<noteq> LF \<Longrightarrow> c \<noteq> CR \<Longrightarrow> strBody strict q tail' s \<Longrightarrow> strBody strict q tail' (c # s)"
| escape: "strEscape strict e (s @ q # tail') \<Longrightarrow> strBody strict q tail' s \<Longrightarrow> strBody strict q tail' (backslash # e @ s)"

section \<open>One escape\<close>

lemma xdigitsAt_append: "xdigitsAt (pre @ hs @ rest) (length pre) (length hs) \<longleftrightarrow> list_all isXDigitByte hs"
  by (auto simp: xdigitsAt_def list_all_iff nth_append in_set_conv_nth) (metis in_set_conv_nth)

definition satHex :: "string \<Rightarrow> nat \<Rightarrow> nat" where
  "satHex hs cp = foldl (\<lambda>cp h. if 0x10FFFF < 16 * cp + hexVal h then 0x110000 else 16 * cp + hexVal h) cp hs"

lemma stringHex_run:
  "list_all isXDigitByte hs \<Longrightarrow> stringHex (pre @ hs @ rest) (length pre) cp = stringHex (pre @ hs @ rest) (length pre + length hs) (satHex hs cp)"
proof (induction hs arbitrary: pre cp)
  case (Cons h hs)
  have "stringHex (pre @ (h # hs) @ rest) (length pre) cp =
      stringHex ((pre @ [h]) @ hs @ rest) (length (pre @ [h])) (if 0x10FFFF < 16 * cp + hexVal h then 0x110000 else 16 * cp + hexVal h)"
    using Cons.prems by (subst stringHex.simps) (simp add: nth_append Let_def)
  also have "\<dots> = stringHex ((pre @ [h]) @ hs @ rest) (length (pre @ [h]) + length hs) (satHex (h # hs) cp)"
    using Cons.IH [of "pre @ [h]"] Cons.prems by (simp add: satHex_def)
  finally show ?case by simp
qed (simp add: satHex_def)

lemma stringHex_end:
  "list_all isXDigitByte hs \<Longrightarrow> rest = [] \<or> \<not> isXDigitByte (hd rest) \<Longrightarrow>
    stringHex (pre @ hs @ rest) (length pre) cp = (length pre + length hs, satHex hs cp)"
proof -
  assume a: "list_all isXDigitByte hs" "rest = [] \<or> \<not> isXDigitByte (hd rest)"
  have "stringHex (pre @ hs @ rest) (length pre + length hs) (satHex hs cp) = (length pre + length hs, satHex hs cp)"
    using a(2) by (subst stringHex.simps) (cases rest; simp add: nth_append)
  then show ?thesis using stringHex_run [OF a(1)] by simp
qed

lemma satHex_big: "0x10FFFF < cp \<Longrightarrow> 0x10FFFF < satHex hs cp"
  by (induction hs arbitrary: cp) (auto simp: satHex_def)

lemma hexFold_ge: "cp \<le> foldl (\<lambda>cp h. 16 * cp + hexVal h) cp hs"
proof (induction hs arbitrary: cp)
  case (Cons h hs)
  have "cp \<le> 16 * cp + hexVal h" by simp
  also have "\<dots> \<le> foldl (\<lambda>cp h. 16 * cp + hexVal h) (16 * cp + hexVal h) hs" by (rule Cons)
  finally show ?case by simp
qed simp

lemma satHex_fold: "cp \<le> 0x10FFFF \<Longrightarrow> satHex hs cp \<le> 0x10FFFF \<longleftrightarrow> foldl (\<lambda>cp h. 16 * cp + hexVal h) cp hs \<le> 0x10FFFF"
proof (induction hs arbitrary: cp)
  case (Cons h hs)
  show ?case
  proof (cases "0x10FFFF < 16 * cp + hexVal h")
    case True
    then have "\<not> satHex (h # hs) cp \<le> 0x10FFFF" using satHex_big [where cp = "0x110000" and hs = hs] by (simp add: satHex_def not_le)
    moreover have "\<not> foldl (\<lambda>cp h. 16 * cp + hexVal h) cp (h # hs) \<le> 0x10FFFF"
      using hexFold_ge [of "16 * cp + hexVal h" hs] True by simp
    ultimately show ?thesis by simp
  next
    case False
    then show ?thesis using Cons.IH [of "16 * cp + hexVal h"] by (simp add: satHex_def)
  qed
qed (simp add: satHex_def)

lemma satHex_number: "satHex hs 0 \<le> 0x10FFFF \<longleftrightarrow> hexNumber hs \<le> 0x10FFFF"
  by (simp add: satHex_fold hexNumber_def)

lemma xdigit_not: "\<not> isXDigitByte CHR ''}''" "\<not> isXDigitByte CHR ''{''" "\<not> isXDigitByte CHR ''u''" "\<not> isXDigitByte CHR ''x''"
  by (simp_all add: isXDigitByte_def charType_def char_flags)

text \<open>The width the scanner finds for an escape of the grammar, and the escape it has read for a width.\<close>

lemma escape_width:
  assumes "strEscape strict e rest" "rest \<noteq> []"
  shows "escapeWidth strict (pre @ backslash # e @ rest) (length pre) = Inr (length e + 1)"
  using assms(1)
proof cases
  case (hex hs)
  then show ?thesis using xdigitsAt_append [of "pre @ [backslash, CHR ''x'']" hs rest]
    by (auto simp: escapeWidth_def Let_def nth_append)
next
  case (unicode hs)
  then have "hd hs \<noteq> CHR ''{''" using xdigit_not by (cases hs) auto
  then have "(hs @ rest) ! 0 \<noteq> CHR ''{''" using unicode by (cases hs) auto
  then show ?thesis using unicode xdigitsAt_append [of "pre @ [backslash, CHR ''u'']" hs rest]
    by (auto simp: escapeWidth_def Let_def nth_append)
next
  case (codePoint hs)
  have "stringHex ((pre @ [backslash, CHR ''u'', CHR ''{'']) @ hs @ CHR ''}'' # rest) (length (pre @ [backslash, CHR ''u'', CHR ''{''])) 0 =
      (length (pre @ [backslash, CHR ''u'', CHR ''{'']) + length hs, satHex hs 0)"
    by (rule stringHex_end) (use codePoint xdigit_not in auto)
  then show ?thesis using codePoint satHex_number [of hs]
    by (auto simp: escapeWidth_def Let_def nth_append numeral_3_eq_3)
next
  case crlf
  then show ?thesis by (auto simp: escapeWidth_def Let_def nth_append)
next
  case (single c)
  then show ?thesis using assms(2) by (cases rest) (auto simp: escapeWidth_def Let_def nth_append decDigit_def)
qed

text \<open>Conversely, a width the scanner finds is that of an escape of the grammar.\<close>

lemma xdigitsAt_take: "xdigitsAt buf i n \<Longrightarrow> i + n \<le> length buf \<Longrightarrow> list_all isXDigitByte (take n (drop i buf))"
  by (auto simp: xdigitsAt_def list_all_iff in_set_conv_nth)

lemma stringHex_digits:
  "stringHex buf j cp = (j', cp') \<Longrightarrow> j \<le> length buf \<Longrightarrow>
    list_all isXDigitByte (drop j (take j' buf)) \<and> cp' = satHex (drop j (take j' buf)) cp"
proof (induction buf j cp rule: stringHex.induct)
  case (1 buf j cp)
  show ?case
  proof (cases "j < length buf \<and> isXDigitByte (buf ! j)")
    case True
    define c where "c = (if 0x10FFFF < 16 * cp + hexVal (buf ! j) then 0x110000 else 16 * cp + hexVal (buf ! j))"
    have r: "stringHex buf (j + 1) c = (j', cp')" using 1(2) True by (simp add: stringHex.simps [of buf j] Let_def c_def)
    have ge: "j + 1 \<le> j'" using stringHex_range [OF r] by simp
    have IH: "list_all isXDigitByte (drop (j + 1) (take j' buf)) \<and> cp' = satHex (drop (j + 1) (take j' buf)) c"
      using 1(1) [OF True refl] r True by (simp add: c_def)
    have "drop j (take j' buf) = buf ! j # drop (j + 1) (take j' buf)"
      using True ge Cons_nth_drop_Suc [of j "take j' buf"] by simp
    then show ?thesis using IH True by (simp add: satHex_def c_def)
  next
    case False
    then have "stringHex buf j cp = (j, cp)" by (subst stringHex.simps) auto
    then show ?thesis using 1(2) by (simp add: satHex_def)
  qed
qed

lemma escape_read:
  assumes "escapeWidth strict buf b = Inr skip" "b + skip < length buf" "buf ! b = backslash"
  shows "strEscape strict (drop (b + 1) (take (b + skip) buf)) (drop (b + skip) buf)"
proof -
  define c where "c = buf ! (b + 1)"
  have s2: "2 \<le> skip" by (rule escapeWidth_two [OF assms(1)])
  have sub: "drop (b + 1) (take (b + skip) buf) = c # drop (b + 2) (take (b + skip) buf)"
    using Cons_nth_drop_Suc [of "b + 1" "take (b + skip) buf"] assms(2) s2 by (simp add: c_def)
  have part: "drop (b + 2) (take (b + (2 + k)) buf) = take k (drop (b + 2) buf)" for k
    by (simp add: drop_take)
  consider (x) "c = CHR ''x''" | (u) "c = CHR ''u''" "buf ! (b + 2) = CHR ''{''" | (u4) "c = CHR ''u''" "buf ! (b + 2) \<noteq> CHR ''{''"
    | (crlf) "c = CR" "buf ! (b + 2) = LF" | (one) "c \<noteq> CHR ''x''" "c \<noteq> CHR ''u''" "\<not> (c = CR \<and> buf ! (b + 2) = LF)"
    by blast
  then show ?thesis
  proof cases
    case x
    then have "skip = 4" "xdigitsAt buf (b + 2) 2" using assms(1) by (auto simp: escapeWidth_def Let_def c_def split: if_splits)
    then show ?thesis
      unfolding sub x(1) using xdigitsAt_take [of buf "b + 2" 2] assms(2) part [of 2] by (intro strEscape.hex) simp_all
  next
    case u4
    then have "skip = 6" "xdigitsAt buf (b + 2) 4" using assms(1,2) s2 by (auto simp: escapeWidth_def Let_def c_def split: if_splits)
    then show ?thesis
      unfolding sub u4(1) using xdigitsAt_take [of buf "b + 2" 4] assms(2) part [of 4] by (intro strEscape.unicode) simp_all
  next
    case u
    obtain j cp where h: "stringHex buf (b + 3) 0 = (j, cp)" by (cases "stringHex buf (b + 3) 0")
    have b2: "b + 2 < length buf" using assms(2) s2 by simp
    have j: "j \<noteq> b + 3" "j < length buf" "buf ! j = CHR ''}''" "cp \<le> 0x10FFFF" "skip = j - b + 1"
      using assms(1) u h b2 by (auto simp: escapeWidth_def Let_def c_def split: if_splits)
    have jb: "b + 3 \<le> j" using stringHex_range [OF h] by simp
    define hs where "hs = drop (b + 3) (take j buf)"
    have hs: "list_all isXDigitByte hs" "cp = satHex hs 0" using stringHex_digits [OF h] b2 by (simp_all add: hs_def)
    have ne: "hs \<noteq> []" using j(1,2) jb by (simp add: hs_def)
    have "drop (b + 2) (take (j + 1) buf) = CHR ''{'' # drop (b + 3) (take (j + 1) buf)"
      using Cons_nth_drop_Suc [of "b + 2" "take (j + 1) buf"] j(2) jb u(2) by (simp add: numeral_3_eq_3)
    moreover have "drop (b + 3) (take (j + 1) buf) = hs @ ''}''"
      using j(2,3) jb by (simp add: take_Suc_conv_app_nth hs_def)
    moreover have "b + skip = j + 1" using j(5) jb by simp
    ultimately have "drop (b + 1) (take (b + skip) buf) = CHR ''u'' # CHR ''{'' # hs @ ''}''" using sub u(1) by simp
    then show ?thesis using strEscape.codePoint [OF ne hs(1)] satHex_number [of hs] hs(2) j(4) by simp
  next
    case crlf
    then have "skip = 3" using assms(1,2) s2 by (auto simp: escapeWidth_def Let_def c_def split: if_splits)
    moreover have "take 1 (drop (b + 2) buf) = [buf ! (b + 2)]" using assms(2) s2 calculation by (simp add: take_Suc_conv_app_nth hd_drop_conv_nth take_Suc)
    ultimately have "drop (b + 1) (take (b + skip) buf) = [CR, LF]" unfolding sub using part [of 1] crlf by simp
    then show ?thesis by (simp add: strEscape.crlf)
  next
    case one
    have "skip = 2" using assms(1) one by (auto simp: escapeWidth_def Let_def c_def split: if_splits)
    then have e: "drop (b + 1) (take (b + skip) buf) = [c]" unfolding sub by simp
    have hd: "hd (drop (b + skip) buf) = buf ! (b + 2)" using \<open>skip = 2\<close> assms(2) by (simp add: hd_drop_conv_nth)
    show ?thesis unfolding e
    proof (rule strEscape.single)
      show "strict \<longrightarrow> \<not> (49 \<le> ord c \<and> ord c \<le> 57) \<and>
          (c = CHR ''0'' \<longrightarrow> drop (b + skip) buf = [] \<or> \<not> decDigit (hd (drop (b + skip) buf)))"
        using assms(1,2) \<open>skip = 2\<close> unfolding hd by (auto simp: escapeWidth_def Let_def c_def decDigit_def split: if_splits)
    qed (use one hd in auto)
  qed
qed

section \<open>The whole literal\<close>

definition isQuote :: "char \<Rightarrow> bool" where
  "isQuote q \<longleftrightarrow> q \<noteq> backslash \<and> q \<noteq> LF \<and> q \<noteq> CR"

lemma scan_plain:
  assumes "i + 1 < length buf" "buf ! i \<noteq> q" "buf ! i \<noteq> backslash" "buf ! i \<noteq> LF" "buf ! i \<noteq> CR"
  shows "scanStringFrom strict buf q i = scanStringFrom strict buf q (i + 1)"
proof -
  have "findStop buf q i = findStop buf q (i + 1)" using assms by (subst findStop.simps) simp
  then show ?thesis
    unfolding scanStringFrom.simps [of strict buf q i] scanStringFrom.simps [of strict buf q "i + 1"] using assms(1) by simp
qed

lemma scan_body:
  assumes "strBody strict q tail' body" "isQuote q"
  shows "scanStringFrom strict (pre @ body @ q # tail') q (length pre) = (TokString, length pre + length body + 1)"
  using assms(1)
proof (induction body arbitrary: pre)
  case empty
  have "findStop (pre @ q # tail') q (length pre) = AtQuote (length pre)" by (subst findStop.simps) simp
  then show ?case by (simp add: scanStringFrom.simps [of strict "pre @ q # tail'" q])
next
  case (plain c s)
  have "scanStringFrom strict (pre @ (c # s) @ q # tail') q (length pre) = scanStringFrom strict (pre @ (c # s) @ q # tail') q (length pre + 1)"
    by (rule scan_plain) (use plain in auto)
  then show ?case using plain.IH [of "pre @ [c]"] by simp
next
  case (escape e s)
  define buf where "buf = pre @ (backslash # e @ s) @ q # tail'"
  have f: "findStop buf q (length pre) = AtEscape (length pre)"
    using assms(2) by (subst findStop.simps) (auto simp: buf_def isQuote_def)
  have w: "escapeWidth strict buf (length pre) = Inr (length e + 1)"
    using escape_width [OF escape(1), of pre] by (simp add: buf_def)
  have l: "length pre < length buf" "\<not> length buf \<le> length pre + 1" "\<not> length buf < length pre + (length e + 1)" by (simp_all add: buf_def)
  have "scanStringFrom strict buf q (length pre) = scanStringFrom strict buf q (length pre + (length e + 1))"
    using f w l by (simp add: scanStringFrom.simps [of strict buf q "length pre"])
  then show ?case using escape.IH [of "pre @ backslash # e"] by (simp add: buf_def)
qed

lemma strBody_run: "list_all (\<lambda>c. c \<noteq> q \<and> c \<noteq> backslash \<and> c \<noteq> LF \<and> c \<noteq> CR) xs \<Longrightarrow> strBody strict q tail' s \<Longrightarrow> strBody strict q tail' (xs @ s)"
  by (induction xs) (auto intro: strBody.plain)

lemma findStop_run:
  "findStop buf q i = AtQuote k \<or> findStop buf q i = AtEscape k \<Longrightarrow>
    list_all (\<lambda>c. c \<noteq> q \<and> c \<noteq> backslash \<and> c \<noteq> LF \<and> c \<noteq> CR) (drop i (take k buf))"
proof (induction buf q i rule: findStop.induct)
  case (1 buf q i)
  show ?case
  proof (cases "i < length buf \<and> buf ! i \<noteq> q \<and> buf ! i \<noteq> backslash \<and> \<not> (buf ! i = LF \<or> buf ! i = CR)")
    case True
    then have e: "findStop buf q i = findStop buf q (i + 1)" by (subst findStop.simps) simp
    then have k: "findStop buf q (i + 1) = AtQuote k \<or> findStop buf q (i + 1) = AtEscape k" using 1(2) by simp
    then have "i < k" "k < length buf" using findStop_range [of buf q "i + 1" k] by auto
    then have d: "drop i (take k buf) = buf ! i # drop (i + 1) (take k buf)" using Cons_nth_drop_Suc [of i "take k buf"] by simp
    show ?thesis unfolding d using 1(1) [OF _ _ _ _ k] True by simp
  next
    case False
    then have "k = i" using 1(2) by (auto simp: findStop.simps [of buf q i] split: if_splits)
    then show ?thesis by simp
  qed
qed

lemma piece: "i \<le> b \<Longrightarrow> b \<le> m \<Longrightarrow> m \<le> length xs \<Longrightarrow> drop i (take m xs) = drop i (take b xs) @ drop b (take m xs)"
proof -
  assume a: "i \<le> b" "b \<le> m" "m \<le> length xs"
  have "take m xs = take b xs @ drop b (take m xs)" using append_take_drop_id [of b "take m xs"] a(2) by (simp add: min_def)
  then have "drop i (take m xs) = drop i (take b xs @ drop b (take m xs))" by simp
  then show ?thesis using a by simp
qed

lemma scan_sound:
  assumes "scanStringFrom strict buf q i = (TokString, n)" "isQuote q"
  shows "i < n \<and> n \<le> length buf \<and> buf ! (n - 1) = q \<and> strBody strict q (drop n buf) (drop i (take (n - 1) buf))"
  using assms
proof (induction strict buf q i rule: scanStringFrom.induct)
  case (1 strict buf q i)
  have i: "i < length buf" using 1(2) by (simp add: scanStringFrom.simps [of strict buf q i] split: if_splits)
  show ?case
  proof (cases "findStop buf q i")
    case (AtQuote k)
    then have "n = k + 1" using 1(2) i by (simp add: scanStringFrom.simps [of strict buf q i])
    moreover note findStop_range(1) [OF AtQuote]
    moreover have "strBody strict q (drop n buf) (drop i (take k buf))"
      using strBody_run [OF findStop_run [of buf q i k] strBody.empty] AtQuote by simp
    ultimately show ?thesis by simp
  next
    case (AtEscape b)
    note B = findStop_range(2) [OF AtEscape]
    have b: "\<not> length buf \<le> b + 1" using 1(2) i AtEscape by (auto simp: scanStringFrom.simps [of strict buf q i] split: if_splits)
    obtain skip where w: "escapeWidth strict buf b = Inr skip"
      using 1(2) i AtEscape b by (cases "escapeWidth strict buf b") (auto simp: scanStringFrom.simps [of strict buf q i])
    have k: "\<not> length buf < b + skip" using 1(2) i AtEscape b w by (auto simp: scanStringFrom.simps [of strict buf q i] split: if_splits)
    have r: "scanStringFrom strict buf q (b + skip) = (TokString, n)"
      using 1(2) i AtEscape b w k by (simp add: scanStringFrom.simps [of strict buf q i])
    have IH: "b + skip < n" "n \<le> length buf" "buf ! (n - 1) = q" "strBody strict q (drop n buf) (drop (b + skip) (take (n - 1) buf))"
      using 1(1) [OF i AtEscape b w k r 1(3)] by simp_all
    have s2: "2 \<le> skip" by (rule escapeWidth_two [OF w])
    define body where "body = drop (b + skip) (take (n - 1) buf)"
    define e where "e = drop (b + 1) (take (b + skip) buf)"
    have tail: "drop (b + skip) buf = body @ q # drop n buf"
    proof -
      have "drop (n - 1) buf = q # drop n buf" using Cons_nth_drop_Suc [of "n - 1" buf] IH(1-3) by simp
      moreover have "drop (b + skip) buf = body @ drop (n - 1) buf"
        using piece [of "b + skip" "n - 1" "length buf" buf] IH(1,2) by (simp add: body_def)
      ultimately show ?thesis by simp
    qed
    have esc: "strEscape strict e (body @ q # drop n buf)"
      using escape_read [OF w] B IH(1,2) by (simp add: e_def tail)
    have "strBody strict q (drop n buf) (backslash # e @ body)" by (rule strBody.escape [OF esc]) (use IH(4) in \<open>simp add: body_def\<close>)
    moreover have "drop i (take (n - 1) buf) = drop i (take b buf) @ backslash # e @ body"
      using piece [of i b "n - 1" buf] piece [of b "b + skip" "n - 1" buf] Cons_nth_drop_Suc [of b "take (b + skip) buf"] B IH(1,2) s2
      by (simp add: e_def body_def)
    ultimately show ?thesis using strBody_run [OF findStop_run [of buf q i b]] AtEscape IH(1-3) B by simp
  next
    case (AtNewline j)
    then show ?thesis using 1(2) i by (simp add: scanStringFrom.simps [of strict buf q i])
  next
    case NoStop
    then show ?thesis using 1(2) i by (simp add: scanStringFrom.simps [of strict buf q i])
  qed
qed

text \<open>A literal is accepted with its width exactly when the grammar derives its body.\<close>

theorem string_literal:
  assumes "isQuote q"
  shows "scanStringFrom strict (q # text') q 1 = (TokString, n) \<longleftrightarrow>
    (\<exists>body tail'. text' = body @ q # tail' \<and> n = length body + 2 \<and> strBody strict q tail' body)"
proof
  assume "scanStringFrom strict (q # text') q 1 = (TokString, n)"
  then have s: "1 < n" "n \<le> Suc (length text')" "(q # text') ! (n - 1) = q" "strBody strict q (drop n (q # text')) (drop 1 (take (n - 1) (q # text')))"
    using scan_sound [OF _ assms] by fastforce+
  define k where "k = n - 2"
  have n: "n = k + 2" using s(1) by (simp add: k_def)
  have k: "k < length text'" "text' ! k = q" using s(2,3) n by simp_all
  have "text' = take k text' @ q # drop (k + 1) text'" using id_take_nth_drop [OF k(1)] k(2) by simp
  moreover have "strBody strict q (drop (k + 1) text') (take k text')" using s(4) n by simp
  ultimately show "\<exists>body tail'. text' = body @ q # tail' \<and> n = length body + 2 \<and> strBody strict q tail' body"
    using k n by (intro exI [of _ "take k text'"] exI [of _ "drop (k + 1) text'"]) simp
next
  assume "\<exists>body tail'. text' = body @ q # tail' \<and> n = length body + 2 \<and> strBody strict q tail' body"
  then show "scanStringFrom strict (q # text') q 1 = (TokString, n)"
    using scan_body [OF _ assms, of strict _ _ "[q]"] by fastforce
qed

end
