(* ===== verification/Lexer_Number_Laws.thy ===== *)
theory Lexer_Number_Laws
  imports Lexer_Laws Lexer_String_Laws
begin

text \<open>
  Integer literals: the decimal and hexadecimal texts of a natural number lex to one number token, or with
  the suffix \<open>n\<close> to a BigInt token, whose value is the double nearest to that number.
\<close>

section \<open>Digits\<close>

lemma isDigitByte_digit: "isDigitByte c \<longleftrightarrow> is_digit c"
  by (auto simp: isDigitByte_def is_digit_def charType_def char_flags Let_def)

lemma isDigitByte_fun: "isDigitByte = is_digit"
  by (rule ext) (rule isDigitByte_digit)

lemma isOctalByte_digit: "isOctalByte c \<Longrightarrow> is_digit c"
  by (auto simp: isOctalByte_def is_digit_def charType_def char_flags Let_def split: if_splits)

lemma digit_identPart: "is_digit c \<Longrightarrow> charType c AND (charIdent OR charIdent1) \<noteq> 0"
  by (auto simp: is_digit_def charType_def char_flags Let_def)

lemma xdigit_range: "isXDigitByte c \<longleftrightarrow> (48 \<le> ord c \<and> ord c \<le> 57) \<or> (65 \<le> ord c \<and> ord c \<le> 70) \<or> (97 \<le> ord c \<and> ord c \<le> 102)"
  by (auto simp: isXDigitByte_def charType_def char_flags Let_def)

lemma xdigit_value: "isXDigitByte c \<Longrightarrow> digitVal c = int (hexVal c) \<and> radixOk c 16"
proof -
  assume x: "isXDigitByte c"
  have n: "(of_char c :: int) = int (ord c)" by (rule of_nat_of_char [symmetric])
  consider "48 \<le> ord c" "ord c \<le> 57" | "ord c \<in> {65, 66, 67, 68, 69, 70}" | "97 \<le> ord c" "ord c \<le> 102"
    using x unfolding xdigit_range insert_iff empty_iff by linarith
  then show ?thesis
  proof cases
    case 1
    then have "uint (word_of_int (int (ord c) - 48) :: u8) = int (ord c) - 48"
      unfolding uint_word_of_int_eq by (intro take_bit_int_eq_self) simp_all
    then have "digitVal c = int (ord c) - 48" using 1 unfolding digitVal_def Let_def n by (simp del: of_nat_of_char)
    then show ?thesis using 1 unfolding radixOk_def isRadixDigit_def Let_def n by (simp add: hexVal_def del: of_nat_of_char)
  next
    case 2
    then show ?thesis unfolding radixOk_def isRadixDigit_def digitVal_def Let_def n by (auto simp: hexVal_def simp del: of_nat_of_char)
  next
    case 3
    then have "ord c \<in> {97, 98, 99, 100, 101, 102}" by auto
    then show ?thesis unfolding radixOk_def isRadixDigit_def digitVal_def Let_def n by (auto simp: hexVal_def simp del: of_nat_of_char)
  qed
qed

lemma radixBig_hex: "list_all isXDigitByte hs \<Longrightarrow> radixBig hs 16 (int a) = Some (int (foldl (\<lambda>cp h. 16 * cp + hexVal h) a hs))"
proof (induction hs arbitrary: a)
  case (Cons h hs)
  have e: "int a * 16 + digitVal h = int (16 * a + hexVal h)" using xdigit_value [of h] Cons.prems by simp
  have "radixBig (h # hs) 16 (int a) = radixBig hs 16 (int (16 * a + hexVal h))"
    using xdigit_value [of h] Cons.prems unfolding e [symmetric] by simp
  then show ?case using Cons.IH [of "16 * a + hexVal h"] Cons.prems by simp
qed simp

lemma parseRadix_hex: "list_all isXDigitByte hs \<Longrightarrow> hs \<noteq> [] \<Longrightarrow> parseRadixString hs 16 = ratioBits (hexNumber hs) 1"
  using parseRadixString_big [of hs 16 "int (hexNumber hs)"] radixBig_hex [of hs 0] by (simp add: hexNumber_def)

section \<open>Scanning\<close>

lemma scanDigits_run:
  "list_all f ds \<Longrightarrow> scanDigits f (pre @ ds @ rest) (length pre) = scanDigits f (pre @ ds @ rest) (length pre + length ds)"
proof (induction ds arbitrary: pre)
  case (Cons d ds)
  have "scanDigits f (pre @ (d # ds) @ rest) (length pre) = scanDigits f ((pre @ [d]) @ ds @ rest) (length (pre @ [d]))"
    using Cons.prems by (subst scanDigits.simps) (simp add: nth_append)
  then show ?case using Cons.IH [of "pre @ [d]"] Cons.prems by simp
qed simp

lemma scanDigits_end:
  assumes "list_all f ds" "rest = [] \<or> \<not> f (hd rest) \<and> hd rest \<noteq> CHR ''_''"
  shows "scanDigits f (pre @ ds @ rest) (length pre) = length pre + length ds"
proof -
  have "scanDigits f (pre @ ds @ rest) (length pre + length ds) = length pre + length ds"
    using assms(2) by (subst scanDigits.simps) (cases rest; simp add: nth_append)
  then show ?thesis using scanDigits_run [OF assms(1)] by simp
qed

text \<open>A byte that ends an integer literal, before the checks on what follows a number.\<close>

definition numEnd :: "string \<Rightarrow> bool" where
  "numEnd rest \<longleftrightarrow> rest = [] \<or> (\<not> is_digit (hd rest) \<and> hd rest \<notin> {CHR ''_'', CHR ''.''} \<and>
     ord (hd rest) OR 0x20 \<notin> {98, 101, 111, 120})"

lemma scanDecimal_int: "ds \<noteq> [] \<Longrightarrow> list_all is_digit ds \<Longrightarrow> numEnd rest \<Longrightarrow> scanDecimalLiteral (ds @ rest) = length ds"
proof -
  assume a: "ds \<noteq> []" "list_all is_digit ds" "numEnd rest"
  have i: "scanDigits isDigitByte (ds @ rest) 0 = length ds"
    using scanDigits_end [of isDigitByte ds rest "[]"] a unfolding isDigitByte_fun by (auto simp: numEnd_def)
  have "\<not> isByte (ds @ rest) (length ds) CHR ''.''" using a(3) by (cases rest) (auto simp: isByte_def numEnd_def)
  moreover have "\<not> (length ds < length (ds @ rest) \<and> ord ((ds @ rest) ! length ds) OR 0x20 = ord CHR ''e'')"
    using a(3) by (cases rest) (auto simp: numEnd_def)
  ultimately show ?thesis unfolding scanDecimalLiteral_def Let_def i by (simp only: if_False)
qed

lemma no_sep: "CHR ''_'' \<notin> set s \<Longrightarrow> \<not> hasBadSeparator s f"
proof -
  assume "CHR ''_'' \<notin> set s"
  then have "s ! i \<noteq> CHR ''_''" if "i < length s" for i using nth_mem [OF that] by metis
  then show ?thesis by (auto simp: hasBadSeparator_def list_ex_iff)
qed

lemma digits_sep: "list_all is_digit ds \<Longrightarrow> \<not> hasNumericSep ds \<and> \<not> hasBadSeparator ds f"
proof -
  assume d: "list_all is_digit ds"
  have "CHR ''_'' \<notin> set ds" using d by (auto simp: list_all_iff is_digit_def)
  then show ?thesis using no_sep by (auto simp: hasNumericSep_def list_ex_iff)
qed

lemma parseFloat_int: "ds \<noteq> [] \<Longrightarrow> list_all is_digit ds \<Longrightarrow> parseFloat ds = Some (ratioBits (digits_val ds) 1)"
proof -
  assume d: "ds \<noteq> []" "list_all is_digit ds"
  have t: "takeWhile is_digit ds = ds" "dropWhile is_digit ds = []" using d(2) by (simp_all add: list_all_iff)
  show ?thesis unfolding parseFloat_def Let_def t using d(1) by (simp add: scaled_def)
qed

lemma parseDecimal_int:
  "ds \<noteq> [] \<Longrightarrow> list_all is_digit ds \<Longrightarrow> numEnd rest \<Longrightarrow> parseDecimalLiteral (ds @ rest) = (length ds, Some (ratioBits (digits_val ds) 1))"
  by (simp add: parseDecimalLiteral_def scanDecimal_int parseFloat_int digits_sep)

lemma digits_eligible: "list_all is_digit ds \<Longrightarrow> length ds = 1 \<or> ds ! 0 \<noteq> CHR ''0'' \<Longrightarrow> decimalBigIntEligible ds"
  by (auto simp: decimalBigIntEligible_def list_ex_iff list_all_iff is_digit_def)

text \<open>A natural number written in decimal.\<close>

lemma scanNumber_decimal:
  assumes "numEnd rest"
  shows "scanNumber strict (ndigits n @ rest) = NumOk (length (ndigits n)) (ratioBits n 1) False True"
proof -
  define ds where "ds = ndigits n"
  have ds: "ds \<noteq> []" "list_all is_digit ds" "digits_val ds = n" by (simp_all add: ds_def ndigits_digits)
  have p: "parseDecimalLiteral (ds @ rest) = (length ds, Some (ratioBits n 1))" using parseDecimal_int [OF ds(1,2) assms] ds(3) by simp
  have "ndigits 0 = ''0''" by code_simp
  then have lead: "length ds = 1 \<or> ds ! 0 \<noteq> CHR ''0''"
    using ndigits_hd_nonzero [of n] ds(1) by (cases "n = 0") (simp_all add: ds_def hd_conv_nth)
  note el = digits_eligible [OF ds(2) lead] digits_sep [OF ds(2)]
  show ?thesis
  proof (cases "ds ! 0 = CHR ''0'' \<and> 1 < length (ds @ rest)")
    case False
    then have c: "\<not> ((ds @ rest) ! 0 = CHR ''0'' \<and> 1 < length (ds @ rest))" using ds(1) by (simp add: nth_append)
    show ?thesis
      unfolding scanNumber_def Let_def ds_def [symmetric] if_not_P [OF c] p using el by simp
  next
    case True
    then obtain c r where d: "ds = ''0''" "rest = c # r" using lead by (cases ds; cases rest) auto
    have c: "\<not> is_digit c" "ord c OR 0x20 \<notin> {98, 111, 120}" using assms by (auto simp: numEnd_def d(2))
    have "\<not> isOctalByte c" "\<not> isDigitByte c" using c(1) isOctalByte_digit by (auto simp: isDigitByte_digit)
    then show ?thesis
      unfolding scanNumber_def Let_def ds_def [symmetric] p using el c(2) by (simp add: d leadingZeroSepBad_def)
  qed
qed

lemma scanNumber_hex:
  assumes "hs \<noteq> []" "list_all isXDigitByte hs" "rest = [] \<or> \<not> isXDigitByte (hd rest) \<and> hd rest \<noteq> CHR ''_''"
  shows "scanNumber strict (''0x'' @ hs @ rest) = NumOk (2 + length hs) (ratioBits (hexNumber hs) 1) False True"
proof -
  have s: "scanDigits isXDigitByte (''0x'' @ hs @ rest) 2 = 2 + length hs"
    using scanDigits_end [OF assms(2,3), of "''0x''"] by (simp add: numeral_2_eq_2)
  have no: "CHR ''_'' \<notin> set hs" using assms(2) by (auto simp: list_all_iff xdigit_range)
  then have st: "stripSep hs = hs" unfolding stripSep_def filter_id_conv by auto
  have bad: "\<not> hasBadSeparator hs isXDigitByte" by (rule no_sep [OF no])
  have t: "drop 2 (take (2 + length hs) (''0x'' @ hs @ rest)) = hs" by simp
  have r: "parseRadix (''0x'' @ hs @ rest) 16 2 isXDigitByte = (2 + length hs, ratioBits (hexNumber hs) 1)"
    unfolding parseRadix_def Let_def s t st using assms(1,2) by (simp add: parseRadix_hex)
  have "scanPrefixed (''0x'' @ hs @ rest) 16 isXDigitByte = NumOk (2 + length hs) (ratioBits (hexNumber hs) 1) False True"
    unfolding scanPrefixed_def r prod.case t using bad assms(1) by simp
  then show ?thesis by (simp add: scanNumber_def)
qed

section \<open>The token\<close>

lemma tail_append: "numberHasInvalidTail uc (ds @ rest) (length ds) = numberHasInvalidTail uc rest 0"
  by (cases rest) (simp_all add: numberHasInvalidTail_def)

lemma or_32: "x OR 32 = x + of_bool (\<not> bit x 5) * 32" for x :: nat
proof -
  have "x OR 32 = set_bit 5 x" by (simp add: set_bit_eq_or)
  then show ?thesis by (simp add: set_bit_eq)
qed

lemma numEnd_tail: "\<not> numberHasInvalidTail uc rest 0 \<Longrightarrow> rest = [] \<or> hd rest \<noteq> CHR ''.'' \<Longrightarrow> numEnd rest"
proof (cases rest)
  case (Cons c r)
  assume a: "\<not> numberHasInvalidTail uc rest 0" "rest = [] \<or> hd rest \<noteq> CHR ''.''"
  show ?thesis
  proof (cases "ord c < 0x80")
    case True
    then have t: "charType c AND (charIdent OR charIdent1) = 0" using a(1) by (simp add: numberHasInvalidTail_def Cons)
    have "c \<noteq> CHR ''_''" using t by (auto simp: charType_def char_flags)
    moreover have "ord c OR 0x20 \<notin> {98, 101, 111, 120}"
    proof
      assume o: "ord c OR 0x20 \<in> {98, 101, 111, 120}"
      have "ord c OR 0x20 = ord c \<or> ord c OR 0x20 = ord c + 0x20" unfolding or_32 by simp
      then have "ord c \<in> {98, 101, 111, 120, 66, 69, 79, 88}" using o by auto
      then show False using t by (auto simp: charType_def char_flags)
    qed
    ultimately show ?thesis using a(2) t digit_identPart [of c] by (auto simp: numEnd_def Cons)
  next
    case False
    have "\<not> is_digit c" "c \<noteq> CHR ''_''" using False by (auto simp: is_digit_def)
    moreover have "ord c \<le> ord c OR 0x20" unfolding or_32 by simp
    ultimately show ?thesis using a(2) False by (auto simp: numEnd_def Cons)
  qed
qed (simp add: numEnd_def)

theorem parseNumber_decimal:
  assumes "drop off (lxCode l) = ndigits n @ rest"
  shows "\<not> numberHasInvalidTail uc rest 0 \<Longrightarrow> rest = [] \<or> hd rest \<noteq> CHR ''.'' \<Longrightarrow>
      parseNumber uc l off = setTok (setVal l (ratioBits n 1)) TokNumber (length (ndigits n))"
    "rest = CHR ''n'' # rest' \<Longrightarrow> \<not> numberHasInvalidTail uc rest' 0 \<Longrightarrow>
      parseNumber uc l off = setTok (setVal l (ratioBits n 1)) TokBigInt (length (ndigits n) + 1)"
proof -
  define ds where "ds = ndigits n"
  have P: "parseNumber uc l off = (if isByte (ds @ rest) (length ds) CHR ''n''
             then if numberHasInvalidTail uc (ds @ rest) (length ds + 1) then setTok (setVal l (ratioBits n 1)) TokErr (length ds + 1)
                  else setTok (setVal l (ratioBits n 1)) TokBigInt (length ds + 1)
             else if numberHasInvalidTail uc (ds @ rest) (length ds) then setTok (setVal l (ratioBits n 1)) TokErr (length ds)
             else setTok (setVal l (ratioBits n 1)) TokNumber (length ds))" if "numEnd rest"
    using scanNumber_decimal [OF that, of "lxStrict l" n] by (simp add: parseNumber_def Let_def assms ds_def)
  show "parseNumber uc l off = setTok (setVal l (ratioBits n 1)) TokNumber (length (ndigits n))"
    if "\<not> numberHasInvalidTail uc rest 0" "rest = [] \<or> hd rest \<noteq> CHR ''.''"
  proof -
    have "\<not> isByte (ds @ rest) (length ds) CHR ''n''"
      using that(1) by (cases rest) (auto simp: isByte_def numberHasInvalidTail_def charType_def char_flags)
    then show ?thesis unfolding P [OF numEnd_tail [OF that]] tail_append using that(1) by (simp add: ds_def)
  qed
  show "parseNumber uc l off = setTok (setVal l (ratioBits n 1)) TokBigInt (length (ndigits n) + 1)"
    if "rest = CHR ''n'' # rest'" "\<not> numberHasInvalidTail uc rest' 0"
  proof -
    have e: "numEnd rest" using that(1) by (simp add: numEnd_def is_digit_def)
    have "isByte (ds @ rest) (length ds) CHR ''n''" using that(1) by (simp add: isByte_def)
    moreover have "\<not> numberHasInvalidTail uc (ds @ rest) (length ds + 1)"
      using tail_append [of uc "ds @ [CHR ''n'']" rest'] that by simp
    ultimately show ?thesis unfolding P [OF e] by (simp add: ds_def)
  qed
qed

end
