(* ===== verification/Lexer_Operators.thy ===== *)
theory Lexer_Operators
  imports Lexer_Laws
begin

text \<open>
  Operators: \<open>operatorTok\<close> takes the longest punctuator of the table that the text starts with, where
  \<open>?.\<close> before a digit does not count.
\<close>

definition punctuators :: "(string \<times> token) list" where
  "punctuators =
    [(''??='', TokNullishAssign), (''??'', TokNullish), (''?.'', TokOptionalChain), (''?'', TokQ), (''!=='', TokSne),
     (''!='', TokNe), (''!'', TokNot), (''==='', TokSeq), (''=='', TokEq), (''=>'', TokArrow),
     (''='', TokAssign), (''<<='', TokShlAssign), (''<<'', TokShl), (''<='', TokLe), (''<'', TokLt),
     (''>>>='', TokZShrAssign), (''>>>'', TokZShr), (''>>='', TokShrAssign), (''>>'', TokShr), (''>='', TokGe),
     (''>'', TokGt), (''&&='', TokLandAssign), (''&&'', TokLand), (''&='', TokAndAssign), (''&'', TokAnd),
     (''||='', TokLorAssign), (''||'', TokLor), (''|='', TokOrAssign), (''|'', TokOr), (''++'', TokPostInc),
     (''+='', TokPlusAssign), (''+'', TokPlus), (''--'', TokPostDec), (''-='', TokMinusAssign), (''-'', TokMinus),
     (''**='', TokExpAssign), (''**'', TokExp), (''*='', TokMulAssign), (''*'', TokMul), (''/='', TokDivAssign),
     (''/'', TokDiv), (''%='', TokRemAssign), (''%'', TokRem), (''^='', TokXorAssign), (''^'', TokXor)]"

definition digitThird :: "string \<Rightarrow> bool" where
  "digitThird buf \<longleftrightarrow> 3 \<le> length buf \<and> 48 \<le> ord (buf ! 2) \<and> ord (buf ! 2) \<le> 57"

definition startsWith :: "string \<Rightarrow> string \<Rightarrow> bool" where
  "startsWith p buf \<longleftrightarrow> take (length p) buf = p \<and> \<not> (p = ''?.'' \<and> digitThird buf)"

definition longest :: "string \<Rightarrow> token \<Rightarrow> nat \<Rightarrow> bool" where
  "longest buf t n \<longleftrightarrow> list_ex (\<lambda>(p, u). t = u \<and> n = length p \<and> startsWith p buf) punctuators \<and>
     list_all (\<lambda>(p, u). startsWith p buf \<longrightarrow> length p \<le> n) punctuators"

text \<open>Bytes as options, so that a byte that is known decides every test of it.\<close>

definition byteAt :: "string \<Rightarrow> nat \<Rightarrow> char option" where
  "byteAt buf i = (if i < length buf then Some (buf ! i) else None)"

lemma isByte_at: "isByte buf i c \<longleftrightarrow> byteAt buf i = Some c"
  by (simp add: isByte_def byteAt_def)

lemma take_at: "take (length p) (drop i buf) = p \<longleftrightarrow> (\<forall>k < length p. byteAt buf (i + k) = Some (p ! k))"
proof (induction p arbitrary: i)
  case (Cons a p)
  show ?case
  proof (cases "i < length buf")
    case True
    then have "drop i buf = buf ! i # drop (i + 1) buf" by (simp add: Cons_nth_drop_Suc)
    then have "take (length (a # p)) (drop i buf) = a # p \<longleftrightarrow> buf ! i = a \<and> take (length p) (drop (i + 1) buf) = p" by simp
    also have "\<dots> \<longleftrightarrow> (\<forall>k < length (a # p). byteAt buf (i + k) = Some ((a # p) ! k))"
      unfolding Cons using True by (auto simp: byteAt_def All_less_Suc2)
    finally show ?thesis .
  next
    case False
    then show ?thesis by (auto simp: byteAt_def intro!: exI [of _ 0])
  qed
qed simp

lemma startsWith_at:
  "startsWith [a] buf \<longleftrightarrow> byteAt buf 0 = Some a"
  "startsWith [a, b] buf \<longleftrightarrow> byteAt buf 0 = Some a \<and> byteAt buf 1 = Some b \<and> \<not> ([a, b] = ''?.'' \<and> digitThird buf)"
  "startsWith [a, b, c] buf \<longleftrightarrow> byteAt buf 0 = Some a \<and> byteAt buf 1 = Some b \<and> byteAt buf 2 = Some c"
  "startsWith [a, b, c, d] buf \<longleftrightarrow> byteAt buf 0 = Some a \<and> byteAt buf 1 = Some b \<and> byteAt buf 2 = Some c \<and> byteAt buf 3 = Some d"
  using take_at [of "[a]" 0 buf] take_at [of "[a, b]" 0 buf] take_at [of "[a, b, c]" 0 buf] take_at [of "[a, b, c, d]" 0 buf]
  by (auto simp: startsWith_def All_less_Suc2 numeral_2_eq_2 numeral_3_eq_3)

lemma operator_longest: "operatorTok buf = Some (t, n) \<Longrightarrow> buf \<noteq> [] \<Longrightarrow> longest buf t n"
proof -
  assume "operatorTok buf = Some (t, n)" "buf \<noteq> []"
  moreover obtain c where c: "byteAt buf 0 = Some c" "buf ! 0 = c" using \<open>buf \<noteq> []\<close> by (simp add: byteAt_def)
  ultimately show ?thesis
    unfolding operatorTok_def Let_def m2_def m3_def m4_def isByte_at digitThird_def [symmetric] c(2)
    by (simp add: longest_def punctuators_def startsWith_at c(1) split: if_splits)
qed

lemma operator_none: "operatorTok buf = None \<Longrightarrow> buf \<noteq> [] \<Longrightarrow> list_all (\<lambda>(p, u). \<not> startsWith p buf) punctuators"
proof -
  assume "operatorTok buf = None" "buf \<noteq> []"
  moreover obtain c where c: "byteAt buf 0 = Some c" "buf ! 0 = c" using \<open>buf \<noteq> []\<close> by (simp add: byteAt_def)
  ultimately show ?thesis
    unfolding operatorTok_def Let_def c(2)
    by (simp add: punctuators_def startsWith_at c(1) split: if_splits)
qed

end
