(* ===== verification/Lexer_Space_Laws.thy ===== *)
theory Lexer_Space_Laws
  imports Lexer_Laws
begin

text \<open>
  White space and comments: what is skipped holds a line terminator exactly when the lexer says so, and
  where it stops nothing of the kind is left.
\<close>

definition lineTermAt :: "string \<Rightarrow> nat \<Rightarrow> bool" where
  "lineTermAt code i \<longleftrightarrow> i < length code \<and> (code ! i = LF \<or> code ! i = CR \<or> isLSorPS code i (length code))"

definition lineTermIn :: "string \<Rightarrow> nat \<Rightarrow> nat \<Rightarrow> bool" where
  "lineTermIn code a b \<longleftrightarrow> (\<exists>i. a \<le> i \<and> i < b \<and> lineTermAt code i)"

lemma lineTermIn_split: "a \<le> b \<Longrightarrow> b \<le> c \<Longrightarrow> lineTermIn code a c \<longleftrightarrow> lineTermIn code a b \<or> lineTermIn code b c"
  by (auto simp: lineTermIn_def) (meson leI less_le_trans order_trans)+

lemma lineTermIn_none: "lineTermIn code a a = False"
  by (auto simp: lineTermIn_def)

lemma lineTermIn_step: "a < b \<Longrightarrow> lineTermIn code a b \<longleftrightarrow> lineTermAt code a \<or> lineTermIn code (a + 1) b"
  using lineTermIn_split [of a "a + 1" b code] by (auto simp: lineTermIn_def less_Suc_eq_le le_antisym)

lemma notTerm: "code ! i \<noteq> LF \<Longrightarrow> code ! i \<noteq> CR \<Longrightarrow> ord (code ! i) \<noteq> 0xE2 \<Longrightarrow> \<not> lineTermAt code i"
  by (simp add: lineTermAt_def isLSorPS_def)

section \<open>Comments\<close>

lemma toLineEnd_none: "\<not> lineTermIn code p (toLineEnd code p)"
proof (induction code p rule: toLineEnd.induct)
  case (1 code p)
  show ?case
  proof (cases "p < length code \<and> \<not> isSingleByteLineTerm (code ! p) \<and> \<not> isLSorPS code p (length code)")
    case True
    then have "toLineEnd code p = toLineEnd code (p + 1)" by (subst toLineEnd.simps) simp
    moreover have "\<not> lineTermAt code p" using True by (simp add: lineTermAt_def isSingleByteLineTerm_def)
    moreover have "p < toLineEnd code (p + 1)" using toLineEnd_ge [of "p + 1" code] by simp
    ultimately show ?thesis using 1 [OF True] lineTermIn_step by simp
  next
    case False
    then have "toLineEnd code p = p" by (subst toLineEnd.simps) auto
    then show ?thesis by (simp add: lineTermIn_none)
  qed
qed

lemma slash_not: "code ! i = CHR ''/'' \<or> code ! i = CHR ''*'' \<Longrightarrow> \<not> lineTermAt code i"
  by (rule notTerm) auto

lemma blockComment_term: "blockComment code p nl = (q, nl', True) \<Longrightarrow> nl' \<longleftrightarrow> nl \<or> lineTermIn code p q"
proof (induction code p nl rule: blockComment.induct)
  case (1 code p nl)
  show ?case
  proof (cases "p + 1 < length code \<and> \<not> (code ! p = CHR ''*'' \<and> code ! (p + 1) = CHR ''/'')")
    case True
    then have t: "p + 1 < length code" "\<not> (code ! p = CHR ''*'' \<and> code ! (p + 1) = CHR ''/'')" by simp_all
    define m where "m = (nl \<or> code ! p = LF \<or> code ! p = CR \<or> (0x80 \<le> ord (code ! p) \<and> isLSorPS code p (length code)))"
    have r: "blockComment code (p + 1) m = (q, nl', True)"
      using 1(2) unfolding blockComment.simps [of code p] if_P [OF t(1)] if_not_P [OF t(2)] m_def .
    have "m \<longleftrightarrow> nl \<or> lineTermAt code p" using t(1) by (auto simp: m_def lineTermAt_def isLSorPS_def)
    moreover have "nl' \<longleftrightarrow> m \<or> lineTermIn code (p + 1) q" using 1(1) [OF t] r unfolding m_def by blast
    moreover have "p < q" using blockComment_ge [OF r] by simp
    ultimately show ?thesis using lineTermIn_step by blast
  next
    case False
    then have "q = p + 2" "nl' = nl" "code ! p = CHR ''*''" "code ! (p + 1) = CHR ''/''"
      using 1(2) by (auto simp: blockComment.simps [of code p] split: if_splits)
    then show ?thesis
      using lineTermIn_step [of p "p + 2" code] lineTermIn_step [of "p + 1" "p + 2" code] slash_not [of code p] slash_not [of code "p + 1"]
        lineTermIn_none [of code "p + 2"] by simp
  qed
qed

section \<open>Unicode spaces\<close>

lemma LS_decode: "p < length code \<Longrightarrow>
    isLSorPS code p (length code) \<longleftrightarrow> fst (decodeRune (drop p code)) = 0x2028 \<or> fst (decodeRune (drop p code)) = 0x2029"
  unfolding decodeRune_separator isLSorPS_def by auto

lemma unicodeSpace_term:
  assumes "isUnicodeSpace code p = (w, lt)" "0 < w" "p < length code" "0x80 \<le> ord (code ! p)"
  shows "lineTermIn code p (p + w) \<longleftrightarrow> lt"
proof -
  obtain r n where d: "decodeRune (drop p code) = (r, n)" by (cases "decodeRune (drop p code)")
  have w: "w = n" using assms(1,2) by (simp add: isUnicodeSpace_def d split: if_splits)
  have lt: "lt \<longleftrightarrow> r = 0x2028 \<or> r = 0x2029"
    using assms(1,2) by (auto simp: isUnicodeSpace_def d spaceSeparator_def split: if_splits)
  have "\<not> lineTermIn code (p + 1) (p + w)"
  proof
    assume "lineTermIn code (p + 1) (p + w)"
    then obtain i where i: "p + 1 \<le> i" "i < p + w" "lineTermAt code i" by (auto simp: lineTermIn_def)
    then have "isCont (ord (drop p code ! (i - p)))" using w by (intro decodeRune_cont [OF d]) auto
    then have "isCont (ord (code ! i))" using i(1) assms(3) by simp
    then have "code ! i \<noteq> LF" "code ! i \<noteq> CR" "ord (code ! i) \<noteq> 0xE2" by (auto simp: isCont_def)
    then show False using i(3) notTerm by blast
  qed
  moreover have "lineTermAt code p \<longleftrightarrow> lt"
    using LS_decode [OF assms(3)] assms(3,4) lt by (auto simp: lineTermAt_def d)
  ultimately show ?thesis using lineTermIn_step [of p "p + w" code] assms(2) by simp
qed

section \<open>The main loop\<close>

definition nothingLeft :: "string \<Rightarrow> nat \<Rightarrow> bool" where
  "nothingLeft code p \<longleftrightarrow> length code \<le> p \<or> (0x80 \<le> ord (code ! p) \<and> fst (isUnicodeSpace code p) = 0) \<or>
        (ord (code ! p) < 0x80 \<and> \<not> isBlank (code ! p) \<and> code ! p \<noteq> LF \<and> code ! p \<noteq> CR \<and>
         (code ! p = CHR ''/'' \<longrightarrow> length code \<le> p + 1 \<or> code ! (p + 1) \<noteq> CHR ''/'' \<and> code ! (p + 1) \<noteq> CHR ''*''))"

definition spaceSpec :: "string \<Rightarrow> nat \<Rightarrow> bool \<Rightarrow> nat \<times> bool \<times> bool \<Rightarrow> bool" where
  "spaceSpec code p nl r \<longleftrightarrow> (case r of (p', nl', err) \<Rightarrow> p \<le> p' \<and> (\<not> err \<longrightarrow>
     (nl' \<longleftrightarrow> nl \<or> lineTermIn code p p') \<and> nothingLeft code p'))"

lemma spaceSpec_trans: "spaceSpec code q m r \<Longrightarrow> p \<le> q \<Longrightarrow> (m \<longleftrightarrow> nl \<or> lineTermIn code p q) \<Longrightarrow> spaceSpec code p nl r"
proof -
  assume a: "spaceSpec code q m r" "p \<le> q" "m \<longleftrightarrow> nl \<or> lineTermIn code p q"
  obtain p' nl' err where r: "r = (p', nl', err)" by (cases r)
  then have "q \<le> p'" "\<not> err \<longrightarrow> (nl' \<longleftrightarrow> m \<or> lineTermIn code q p') \<and> nothingLeft code p'" using a(1) by (simp_all add: spaceSpec_def)
  then show ?thesis using lineTermIn_split [of p q p' code] a(2,3) by (simp add: spaceSpec_def r)
qed

lemma skipSpaces_spec: "spaceSpec code p nl (skipSpaces code p nl)"
proof (rule skipSpaces_induct [where P = "spaceSpec code"], goal_cases uni blank newline line block stop)
  case (uni p nl w lt)
  show ?case by (rule spaceSpec_trans [OF uni(6)]) (use unicodeSpace_term [OF uni(3,4,1,2)] in simp_all)
next
  case (blank p nl)
  have "\<not> lineTermAt code p" by (rule notTerm) (use blank(2) in \<open>auto simp: isBlank_def\<close>)
  then show ?case
    by (intro spaceSpec_trans [OF blank(3)]) (simp_all add: lineTermIn_step [of p "p + 1"] lineTermIn_none del: One_nat_def)
next
  case (newline p nl)
  then have "lineTermAt code p" by (auto simp: lineTermAt_def)
  then show ?case by (intro spaceSpec_trans [OF newline(3)]) (simp_all add: lineTermIn_step [of p "p + 1"] del: One_nat_def)
next
  case (line p nl)
  have "\<not> lineTermIn code p (toLineEnd code (p + 2))"
    using lineTermIn_step [of p "toLineEnd code (p + 2)" code] lineTermIn_step [of "p + 1" "toLineEnd code (p + 2)" code]
      toLineEnd_none [of code "p + 2"] toLineEnd_ge [of "p + 2" code] slash_not [of code p] slash_not [of code "p + 1"] line(2,3) by simp
  then show ?case using toLineEnd_ge [of "p + 2" code] by (intro spaceSpec_trans [OF line(4)]) simp_all
next
  case (block p nl q l cl)
  show ?case
  proof (cases cl)
    case True
    have "lineTermIn code p q \<longleftrightarrow> lineTermIn code (p + 2) q"
      using lineTermIn_step [of p q code] lineTermIn_step [of "p + 1" q code] slash_not [of code p] slash_not [of code "p + 1"] block(2,3)
        blockComment_ge [OF block(4)] by simp
    then have "spaceSpec code p nl (skipSpaces code q l)"
      using blockComment_term [of code "p + 2" nl q l] block(4) True blockComment_ge [OF block(4)]
      by (intro spaceSpec_trans [OF block(5)]) simp_all
    then show ?thesis using True by simp
  next
    case False
    then show ?thesis using block(1) by (simp add: spaceSpec_def)
  qed
next
  case (stop p nl)
  then show ?case by (simp add: spaceSpec_def nothingLeft_def lineTermIn_none)
qed

section \<open>Up to the next token\<close>

lemma skipStart_spec: "spaceSpec code n False (skipStart code n)"
proof -
  define m where "m = (if n = 0 \<and> 2 \<le> length code \<and> code ! 0 = CHR ''#'' \<and> code ! 1 = CHR ''!'' then toLineEnd code 2 else n)"
  have "\<not> lineTermIn code n m \<and> n \<le> m"
  proof (cases "n = 0 \<and> 2 \<le> length code \<and> code ! 0 = CHR ''#'' \<and> code ! 1 = CHR ''!''")
    case True
    have "\<not> lineTermAt code 0" "\<not> lineTermAt code 1" using True by (simp_all add: notTerm)
    then show ?thesis
      using lineTermIn_step [of 0 m code] lineTermIn_step [of 1 m code] toLineEnd_none [of code 2] toLineEnd_ge [of 2 code] True
      by (simp add: m_def numeral_2_eq_2)
  next
    case False
    then have "m = n" unfolding m_def by (simp only: if_False)
    then show ?thesis by (simp add: lineTermIn_none)
  qed
  then have "spaceSpec code n False (skipSpaces code m False)"
    by (intro spaceSpec_trans [OF skipSpaces_spec [of code m False]]) simp_all
  then show ?thesis by (simp add: skipStart_def m_def)
qed

lemma htmlLineComment_term: "skipHTMLLineComment code q nl = (p1, nl1) \<Longrightarrow> p \<le> q \<Longrightarrow> (nl1 \<longrightarrow> nl \<or> lineTermIn code p p1) \<and> (nl \<longrightarrow> nl1)"
proof -
  assume h: "skipHTMLLineComment code q nl = (p1, nl1)" and pq: "p \<le> q"
  define e where "e = skipBytes (\<lambda>c. c \<noteq> LF) code q"
  have stop: "e < length code \<Longrightarrow> code ! e = LF" unfolding e_def
  proof (induction "\<lambda>c. c \<noteq> LF" code q rule: skipBytes.induct)
    case (1 buf i)
    show ?case
    proof (cases "i < length buf \<and> buf ! i \<noteq> LF")
      case True
      then show ?thesis using 1 by (simp add: skipBytes.simps [of _ buf i])
    next
      case False
      then have "skipBytes (\<lambda>c. c \<noteq> LF) buf i = i" by (subst skipBytes.simps) auto
      then show ?thesis using False 1(2) by simp
    qed
  qed
  show ?thesis
  proof (cases "e < length code")
    case True
    then have "lineTermAt code e" using stop by (simp add: lineTermAt_def)
    moreover have "p \<le> e" using skipBytes_ge [of q "\<lambda>c. c \<noteq> LF" code] pq by (simp add: e_def)
    moreover have "p1 = e + 1" "nl1" using h True by (simp_all add: skipHTMLLineComment_def e_def Let_def)
    ultimately show ?thesis by (auto simp: lineTermIn_def)
  next
    case False
    then show ?thesis using h by (simp add: skipHTMLLineComment_def e_def Let_def)
  qed
qed

lemma htmlComment_term: "htmlComment code no p nl = Some (p1, nl1) \<Longrightarrow> (nl1 \<longrightarrow> nl \<or> lineTermIn code p p1) \<and> (nl \<longrightarrow> nl1)"
  using htmlLineComment_term [of code "p + 4" nl p1 nl1 p] htmlLineComment_term [of code "p + 3" nl p1 nl1 p]
  by (auto simp: htmlComment_def split: if_splits)

definition htmlSpec :: "string \<Rightarrow> nat \<Rightarrow> bool \<Rightarrow> bool \<Rightarrow> nat \<times> bool \<times> bool \<Rightarrow> bool" where
  "htmlSpec code p nl err r \<longleftrightarrow> (case r of (p', nl', err') \<Rightarrow> p \<le> p' \<and> (\<not> err' \<longrightarrow> \<not> err \<and>
     (nl' \<longrightarrow> nl \<or> lineTermIn code p p') \<and> (nothingLeft code p \<longrightarrow> nothingLeft code p')))"

lemma htmlLoop_spec: "htmlSpec code p nl err (htmlLoop code m no p nl err)"
proof (induction code m no p nl err rule: htmlLoop.induct)
  case (1 code m no p nl err)
  show ?case
  proof (cases "if m then None else htmlComment code no p nl")
    case None
    then show ?thesis by (simp add: htmlLoop.simps [of code m] htmlSpec_def)
  next
    case (Some t)
    obtain p1 nl1 where t: "t = (p1, nl1)" by (cases t)
    obtain p0 nl0 err0 where s: "skipStart code p1 = (p0, nl0, err0)" by (metis prod_cases3)
    obtain p2 nl2 err2 where h: "htmlLoop code m no p0 nl0 err0 = (p2, nl2, err2)" by (metis prod_cases3)
    have c: "htmlComment code no p nl = Some (p1, nl1)" using Some t by (auto split: if_splits)
    have c1: "p + 3 \<le> p1" "nl1 \<longrightarrow> nl \<or> lineTermIn code p p1" using htmlComment_ge [OF c] htmlComment_term [OF c] by simp_all
    have s1: "p1 \<le> p0" "\<not> err0 \<longrightarrow> (nl0 \<longleftrightarrow> lineTermIn code p1 p0) \<and> nothingLeft code p0"
      using skipStart_spec [of code p1] s by (simp_all add: spaceSpec_def)
    have h1: "p0 \<le> p2" "\<not> err2 \<longrightarrow> \<not> err0 \<and> (nl2 \<longrightarrow> nl0 \<or> lineTermIn code p0 p2) \<and> (nothingLeft code p0 \<longrightarrow> nothingLeft code p2)"
      using 1(1) [OF Some t [symmetric] s [symmetric] refl] h by (simp_all add: htmlSpec_def)
    have two: "nl1 \<or> nl2 \<longrightarrow> nl \<or> lineTermIn code p p2" "nothingLeft code p2" "p \<le> p2" if "\<not> err2"
      using that c1 s1 h1 lineTermIn_split [of p1 p0 p2 code] lineTermIn_split [of p p1 p2 code] by auto
    have e: "htmlLoop code m no p nl err = (if p2 = p1 then (p1, nl1 \<or> nl2, err \<or> err2) else htmlLoop code m no p2 (nl1 \<or> nl2) (err \<or> err2))"
      using Some t s h by (subst htmlLoop.simps) simp
    show ?thesis
    proof (cases "p2 = p1")
      case True
      then show ?thesis unfolding e using two c1 by (auto simp: htmlSpec_def)
    next
      case False
      have IH: "htmlSpec code p2 (nl1 \<or> nl2) (err \<or> err2) (htmlLoop code m no p2 (nl1 \<or> nl2) (err \<or> err2))"
        using 1(2) [OF Some t [symmetric] s [symmetric] refl h [symmetric] refl False] .
      obtain p3 nl3 err3 where r: "htmlLoop code m no p2 (nl1 \<or> nl2) (err \<or> err2) = (p3, nl3, err3)" by (metis prod_cases3)
      have "p \<le> p3" using IH r c1(1) s1(1) h1(1) by (simp add: htmlSpec_def)
      moreover have "\<not> err \<and> (nl3 \<longrightarrow> nl \<or> lineTermIn code p p3) \<and> (nothingLeft code p \<longrightarrow> nothingLeft code p3)" if "\<not> err3"
      proof -
        have i: "\<not> err" "\<not> err2" "nl3 \<longrightarrow> (nl1 \<or> nl2) \<or> lineTermIn code p2 p3" "nothingLeft code p2 \<longrightarrow> nothingLeft code p3" "p2 \<le> p3"
          using IH r that by (simp_all add: htmlSpec_def)
        then show ?thesis using two [OF i(2)] lineTermIn_split [of p p2 p3 code] by blast
      qed
      ultimately show ?thesis unfolding e using False r by (simp add: htmlSpec_def)
    qed
  qed
qed

theorem skipToNext_newlines:
  assumes "skipToNext l n = (l', p, nl)" "\<not> lxCommentErr l'"
  shows "nothingLeft (lxCode l) p \<and> (nl \<longrightarrow> lineTermIn (lxCode l) n p) \<and> (lxModule l \<longrightarrow> (nl \<longleftrightarrow> lineTermIn (lxCode l) n p))"
proof -
  obtain p0 nl0 err0 where s: "skipStart (lxCode l) n = (p0, nl0, err0)" by (metis prod_cases3)
  obtain p1 nl1 err1 where h: "htmlLoop (lxCode l) (lxModule l) (lxNoHTMLClose l) p0 nl0 err0 = (p1, nl1, err1)" by (metis prod_cases3)
  have e: "p = p1" "nl = nl1" "\<not> err1" using assms by (auto simp: skipToNext_def s h)
  have S: "n \<le> p0" "\<not> err0 \<longrightarrow> (nl0 \<longleftrightarrow> lineTermIn (lxCode l) n p0) \<and> nothingLeft (lxCode l) p0"
    using skipStart_spec [of "lxCode l" n] s by (simp_all add: spaceSpec_def)
  have H: "p0 \<le> p1" "\<not> err0" "nl1 \<longrightarrow> nl0 \<or> lineTermIn (lxCode l) p0 p1" "nothingLeft (lxCode l) p0 \<longrightarrow> nothingLeft (lxCode l) p1"
    using htmlLoop_spec [of "lxCode l" p0 nl0 err0 "lxModule l" "lxNoHTMLClose l"] h e(3) by (simp_all add: htmlSpec_def)
  have "lxModule l \<Longrightarrow> p1 = p0 \<and> nl1 = nl0" using h by (simp add: htmlLoop.simps [of "lxCode l"])
  then show ?thesis using S H e lineTermIn_split [of n p0 p1 "lxCode l"] by auto
qed

end
