(* ===== verification/Pools.thy ===== *)
theory Pools
  imports Prelude
begin

text \<open>
  The handle pools (\<open>internal/engine/pools.go\<close>): cells in chunks that never move, a stack of freed
  handles, a generation per cell, and the mark set and sweep of the collector.

  A handle is a natural number here. The source's is 32 bits wide, and a pool of 2^32 cells does not fit
  in memory; the generation of a cell, which a long run can wrap, keeps its 32 bits. A cell is found by
  its chunk and slot, as in the source; a chunk is made whole, all its cells zero. The element a pool
  holds is a parameter, with its zero value. \<open>poison\<close> is the debug switch \<open>gcPoison\<close>.
\<close>

definition poolChunkShift :: nat where "poolChunkShift = 12"
definition poolChunkSize :: nat where "poolChunkSize = push_bit poolChunkShift 1"
definition poolChunkMask :: nat where "poolChunkMask = poolChunkSize - 1"

definition nullHandle :: nat where "nullHandle = 0"

record 'a poolCell =
  pcElem :: 'a
  pcGen :: u32
  pcLive :: bool
  pcBorn :: bool

record 'a pool =
  plCells :: "nat \<Rightarrow> nat \<Rightarrow> 'a poolCell"
  plChunks :: nat
  plFreeList :: "nat list"
  plNext :: nat
  plLiveN :: int
  plWatermark :: nat
  plReborn :: "nat list"
  plPoisoned :: "nat set"

definition zeroCell :: "'a \<Rightarrow> 'a poolCell" where
  "zeroCell z = \<lparr>pcElem = z, pcGen = 0, pcLive = False, pcBorn = False\<rparr>"

definition newPool :: "'a \<Rightarrow> 'a pool" where
  "newPool z = \<lparr>plCells = (\<lambda>_ _. zeroCell z), plChunks = 0, plFreeList = [], plNext = 1, plLiveN = 0,
     plWatermark = 0, plReborn = [], plPoisoned = {}\<rparr>"

definition locate :: "nat \<Rightarrow> nat \<times> nat" where
  "locate h = (drop_bit poolChunkShift h, h AND poolChunkMask)"

definition cell :: "'a pool \<Rightarrow> nat \<Rightarrow> 'a poolCell option" where
  "cell p h =
     (if h = nullHandle then None
      else (case locate h of (c, s) \<Rightarrow> if plChunks p \<le> c then None else Some (plCells p c s)))"

text \<open>Writing through the pointer \<open>cell\<close> returns.\<close>

definition setCell :: "'a pool \<Rightarrow> nat \<Rightarrow> 'a poolCell \<Rightarrow> 'a pool" where
  "setCell p h cl =
     (case locate h of (c, s) \<Rightarrow> p\<lparr>plCells := (plCells p)(c := (plCells p c)(s := cl))\<rparr>)"

definition ensure :: "'a pool \<Rightarrow> nat \<Rightarrow> 'a pool" where
  "ensure p h = (case locate h of (c, s) \<Rightarrow> p\<lparr>plChunks := max (plChunks p) (c + 1)\<rparr>)"

text \<open>\<open>alloc\<close>: the first part picks the handle, the second readies its cell. None is a nil cell, where the source panics.\<close>

definition allocHandle :: "'a pool \<Rightarrow> 'a pool \<times> nat" where
  "allocHandle p =
     (if 0 < length (plFreeList p)
      then (p\<lparr>plFreeList := butlast (plFreeList p)\<rparr>, last (plFreeList p))
      else (ensure (p\<lparr>plNext := plNext p + 1\<rparr>) (plNext p), plNext p))"

definition alloc :: "'a \<Rightarrow> 'a pool \<Rightarrow> ('a pool \<times> nat) option" where
  "alloc z p =
     (let (p1, h) = allocHandle p
      in case cell p1 h of
           None \<Rightarrow> None
         | Some cl \<Rightarrow>
             (let fresh = h < plWatermark p1 \<and> \<not> pcBorn cl;
                  p2 = (if fresh then p1\<lparr>plReborn := plReborn p1 @ [h]\<rparr> else p1)
              in Some ((setCell p2 h (cl\<lparr>pcLive := True, pcBorn := pcBorn cl \<or> fresh, pcElem := z\<rparr>))
                         \<lparr>plLiveN := plLiveN p2 + 1\<rparr>, h)))"

datatype 'a deref_result = Got 'a | NilPointer | Poisoned nat

definition poolGet :: "bool \<Rightarrow> 'a pool \<Rightarrow> nat \<Rightarrow> 'a deref_result" where
  "poolGet poison p h =
     (case cell p h of
        Some cl \<Rightarrow> if pcLive cl then Got (pcElem cl)
                   else if poison \<and> h \<in> plPoisoned p then Poisoned h else NilPointer
      | None \<Rightarrow> if poison \<and> h \<in> plPoisoned p then Poisoned h else NilPointer)"

definition gen :: "'a pool \<Rightarrow> nat \<Rightarrow> u32" where
  "gen p h = (case cell p h of None \<Rightarrow> 0 | Some cl \<Rightarrow> pcGen cl)"

definition alive :: "'a pool \<Rightarrow> nat \<Rightarrow> u32 \<Rightarrow> bool" where
  "alive p h g \<longleftrightarrow> (case cell p h of None \<Rightarrow> False | Some cl \<Rightarrow> pcLive cl \<and> pcGen cl = g)"

definition free :: "'a \<Rightarrow> 'a pool \<Rightarrow> nat \<Rightarrow> 'a pool" where
  "free z p h =
     (case cell p h of
        None \<Rightarrow> p
      | Some cl \<Rightarrow>
          if \<not> pcLive cl then p
          else (setCell p h (cl\<lparr>pcLive := False, pcGen := pcGen cl + 1, pcElem := z\<rparr>))
                 \<lparr>plFreeList := plFreeList p @ [h], plLiveN := plLiveN p - 1\<rparr>)"

text \<open>The loop of \<open>truncate\<close> over the handles from the watermark up, then the free list.\<close>

fun truncateFrom :: "'a \<Rightarrow> 'a pool \<Rightarrow> nat list \<Rightarrow> 'a pool" where
  "truncateFrom z p [] = p"
| "truncateFrom z p (i # is) =
     (case cell p i of
        None \<Rightarrow> truncateFrom z p is
      | Some cl \<Rightarrow>
          truncateFrom z
            ((setCell p i (cl\<lparr>pcLive := False, pcGen := pcGen cl + 1, pcElem := z\<rparr>))
               \<lparr>plLiveN := (if pcLive cl then plLiveN p - 1 else plLiveN p)\<rparr>) is)"

definition poolTruncate :: "'a \<Rightarrow> 'a pool \<Rightarrow> nat \<Rightarrow> 'a pool" where
  "poolTruncate z p h0 =
     (let h = (if h0 < 1 then 1 else h0);
          p1 = truncateFrom z p [h..<plNext p]
      in p1\<lparr>plFreeList := filter (\<lambda>fh. fh < h) (plFreeList p1), plNext := h\<rparr>)"

definition poolLen :: "'a pool \<Rightarrow> int" where "poolLen p = plLiveN p"

section \<open>Marking and sweeping\<close>

type_synonym markSet = "u64 list"

definition markHas :: "markSet \<Rightarrow> nat \<Rightarrow> bool" where
  "markHas m h =
     (let i = drop_bit 6 h in i < length m \<and> m ! i AND push_bit (h AND 63) 1 \<noteq> 0)"

definition markSetBit :: "markSet \<Rightarrow> nat \<Rightarrow> markSet \<times> bool" where
  "markSetBit m h =
     (let i = drop_bit 6 h
      in if length m \<le> i then (m, True)
         else (let b = push_bit (h AND 63) 1
               in if m ! i AND b \<noteq> 0 then (m, True) else (m[i := m ! i OR b], False)))"

definition newMarks :: "'a pool \<Rightarrow> markSet" where
  "newMarks p = replicate (drop_bit 6 (plNext p) + 1) 0"

definition poisonCell :: "'a \<Rightarrow> 'a pool \<Rightarrow> nat \<Rightarrow> 'a pool" where
  "poisonCell z p h =
     (case locate h of (c, s) \<Rightarrow>
        (setCell p h ((plCells p c s)\<lparr>pcLive := False, pcGen := pcGen (plCells p c s) + 1, pcElem := z\<rparr>))
          \<lparr>plLiveN := plLiveN p - 1, plPoisoned := insert h (plPoisoned p)\<rparr>)"

fun sweepSlots :: "bool \<Rightarrow> 'a \<Rightarrow> markSet \<Rightarrow> nat \<Rightarrow> nat list \<Rightarrow> 'a pool \<times> nat \<Rightarrow> 'a pool \<times> nat" where
  "sweepSlots poison z m c [] st = st"
| "sweepSlots poison z m c (s # ss) (p, freed) =
     (let h = push_bit poolChunkShift c + s
      in if h = nullHandle then sweepSlots poison z m c ss (p, freed)
         else if plNext p \<le> h then (p, freed)
         else if \<not> pcLive (plCells p c s) \<or> markHas m h then sweepSlots poison z m c ss (p, freed)
         else if poison then sweepSlots poison z m c ss (poisonCell z p h, freed + 1)
         else sweepSlots poison z m c ss (free z p h, freed + 1))"

definition sweep :: "bool \<Rightarrow> 'a \<Rightarrow> markSet \<Rightarrow> 'a pool \<Rightarrow> 'a pool \<times> nat" where
  "sweep poison z m p =
     foldl (\<lambda>st c. sweepSlots poison z m c [0..<poolChunkSize] st) (p, 0) [0..<plChunks p]"

section \<open>Cells\<close>

lemma chunk_consts [simp]: "poolChunkSize = 4096" "poolChunkMask = mask 12" "poolChunkShift = 12" "nullHandle = 0"
  by (simp_all add: poolChunkSize_def poolChunkMask_def poolChunkShift_def nullHandle_def mask_eq_exp_minus_1)

lemma locate_eq: "locate h = (h div 4096, h mod 4096)"
  by (simp add: locate_def drop_bit_eq_div take_bit_eq_mask [symmetric] take_bit_eq_mod)

lemma locate_inj: "locate h = locate k \<longleftrightarrow> h = k"
  unfolding locate_eq by (metis div_mult_mod_eq prod.inject)

text \<open>A pool seen by handle: the cell that is there, whatever its chunk.\<close>

definition cellAt :: "'a pool \<Rightarrow> nat \<Rightarrow> 'a poolCell" where
  "cellAt p h = plCells p (fst (locate h)) (snd (locate h))"

definition has_cell :: "'a pool \<Rightarrow> nat \<Rightarrow> bool" where
  "has_cell p h \<longleftrightarrow> 0 < h \<and> fst (locate h) < plChunks p"

lemma cell_eq: "cell p h = (if has_cell p h then Some (cellAt p h) else None)"
  by (auto simp: cell_def has_cell_def cellAt_def split: prod.split)

lemma cellAt_set: "cellAt (setCell p h cl) k = (if k = h then cl else cellAt p k)"
  using locate_inj [of k h] by (auto simp: cellAt_def setCell_def split: prod.split)

lemma setCell_fields [simp]: "plChunks (setCell p h cl) = plChunks p" "plFreeList (setCell p h cl) = plFreeList p"
  "plNext (setCell p h cl) = plNext p" "plLiveN (setCell p h cl) = plLiveN p" "plReborn (setCell p h cl) = plReborn p"
  "plWatermark (setCell p h cl) = plWatermark p" "plPoisoned (setCell p h cl) = plPoisoned p"
  by (simp_all add: setCell_def split: prod.split)

lemma has_cell_cong: "plChunks q = plChunks p \<Longrightarrow> has_cell q h \<longleftrightarrow> has_cell p h"
  by (simp add: has_cell_def)

lemma cellAt_cong: "plCells q = plCells p \<Longrightarrow> cellAt q h = cellAt p h"
  by (simp add: cellAt_def)

lemma cellAt_simps [simp]:
  "cellAt (p\<lparr>plLiveN := n\<rparr>) h = cellAt p h" "cellAt (p\<lparr>plFreeList := fl\<rparr>) h = cellAt p h"
  "cellAt (p\<lparr>plNext := nx\<rparr>) h = cellAt p h" "cellAt (p\<lparr>plReborn := rb\<rparr>) h = cellAt p h"
  "cellAt (p\<lparr>plPoisoned := po\<rparr>) h = cellAt p h" "cellAt (p\<lparr>plChunks := c\<rparr>) h = cellAt p h"
  "has_cell (p\<lparr>plLiveN := n\<rparr>) h = has_cell p h" "has_cell (p\<lparr>plFreeList := fl\<rparr>) h = has_cell p h"
  "has_cell (p\<lparr>plNext := nx\<rparr>) h = has_cell p h" "has_cell (p\<lparr>plReborn := rb\<rparr>) h = has_cell p h"
  "has_cell (p\<lparr>plPoisoned := po\<rparr>) h = has_cell p h" "has_cell (setCell p k cl) h = has_cell p h"
  by (simp_all add: cellAt_def has_cell_def)

text \<open>The invariant: below the high-water mark every cell exists and is live, free or poisoned; above it none is live.\<close>

definition poolInv :: "'a pool \<Rightarrow> bool" where
  "poolInv p \<longleftrightarrow>
     1 \<le> plNext p \<and> (\<forall>h. 0 < h \<and> h < plNext p \<longrightarrow> has_cell p h) \<and>
     distinct (plFreeList p) \<and>
     (\<forall>h \<in> set (plFreeList p). 0 < h \<and> h < plNext p \<and> \<not> pcLive (cellAt p h)) \<and>
     (\<forall>h. 0 < h \<and> h < plNext p \<and> \<not> pcLive (cellAt p h) \<longrightarrow> h \<in> set (plFreeList p) \<or> h \<in> plPoisoned p) \<and>
     (\<forall>h. 0 < h \<and> pcLive (cellAt p h) \<longrightarrow> h < plNext p) \<and>
     plLiveN p = int (card {h. 0 < h \<and> h < plNext p \<and> pcLive (cellAt p h)})"

lemma newPool_inv: "poolInv (newPool z)"
  by (auto simp: poolInv_def newPool_def cellAt_def zeroCell_def)

lemma live_has: "poolInv p \<Longrightarrow> 0 < h \<Longrightarrow> pcLive (cellAt p h) \<Longrightarrow> has_cell p h"
  by (simp add: poolInv_def)

lemma dead_above: "poolInv p \<Longrightarrow> plNext p \<le> k \<Longrightarrow> \<not> pcLive (cellAt p k)"
proof
  assume a: "poolInv p" "plNext p \<le> k" "pcLive (cellAt p k)"
  then have "0 < k" by (simp add: poolInv_def)
  with a(1,3) have "k < plNext p" unfolding poolInv_def by blast
  with a(2) show False by simp
qed

lemma finite_live: "finite {h. 0 < h \<and> h < n \<and> P (h :: nat)}"
  by (rule finite_subset [of _ "{..<n}"]) auto

lemma card_live_add:
  assumes "0 < k" "k < n" "\<not> P k" "\<And>h. h \<noteq> k \<Longrightarrow> Q h = P h" "Q k"
  shows "card {h. 0 < h \<and> h < n \<and> Q h} = card {h. 0 < h \<and> h < n \<and> P (h :: nat)} + 1"
proof -
  have "Q h \<longleftrightarrow> P h \<or> h = k" for h using assms by (cases "h = k") auto
  then have "{h. 0 < h \<and> h < n \<and> Q h} = insert k {h. 0 < h \<and> h < n \<and> P h}" using assms(1,2) by auto
  then show ?thesis using assms(3) finite_live [of n P] by simp
qed


section \<open>Allocating and freeing\<close>

lemma ensure_has: "has_cell (ensure p h) k \<longleftrightarrow> 0 < k \<and> fst (locate k) < max (plChunks p) (fst (locate h) + 1)"
  by (simp add: ensure_def has_cell_def split: prod.split)

lemma ensure_fields [simp]: "cellAt (ensure p h) k = cellAt p k" "plFreeList (ensure p h) = plFreeList p"
  "plNext (ensure p h) = plNext p" "plLiveN (ensure p h) = plLiveN p" "plWatermark (ensure p h) = plWatermark p"
  "plPoisoned (ensure p h) = plPoisoned p" "plReborn (ensure p h) = plReborn p"
  by (simp_all add: ensure_def cellAt_def split: prod.split)

lemma ensure_chunks: "plChunks p \<le> plChunks (ensure p h)"
  by (simp add: ensure_def split: prod.split)

text \<open>What changes when one dead cell below the mark becomes live and leaves the free list.\<close>

lemma poolInv_revive:
  assumes I: "poolInv p" and h: "0 < h" "h < n" "\<not> pcLive (cellAt p h)" "n = max (plNext p) (h + 1)" "h \<le> plNext p"
    and q: "plNext q = n" "\<And>k. cellAt q k = (if k = h then cl else cellAt p k)" "pcLive cl"
      "\<And>k. 0 < k \<Longrightarrow> k < n \<Longrightarrow> has_cell q k" "set (plFreeList q) = set (plFreeList p) - {h}" "distinct (plFreeList q)"
      "plLiveN q = plLiveN p + 1" "plPoisoned q = plPoisoned p"
  shows "poolInv q"
proof -
  have fresh: "plNext p \<le> h \<Longrightarrow> n = plNext p + 1 \<and> h = plNext p" using h by auto
  note dead = dead_above [OF I]
  have card: "card {k. 0 < k \<and> k < n \<and> pcLive (cellAt q k)} = card {k. 0 < k \<and> k < n \<and> pcLive (cellAt p k)} + 1"
    by (rule card_live_add [of h]) (use h q in auto)
  have "{k. 0 < k \<and> k < n \<and> pcLive (cellAt p k)} = {k. 0 < k \<and> k < plNext p \<and> pcLive (cellAt p k)}"
    using dead h(4) by (auto simp: less_max_iff_disj) (meson not_less)
  with card have c: "plLiveN q = int (card {k. 0 < k \<and> k < plNext q \<and> pcLive (cellAt q k)})"
    using I q by (simp add: poolInv_def)
  show ?thesis
    unfolding poolInv_def
  proof (intro conjI allI impI ballI)
    show "1 \<le> plNext q" using I q(1) h(4) by (auto simp: poolInv_def)
    show "distinct (plFreeList q)" by (rule q(6))
    show "plLiveN q = int (card {k. 0 < k \<and> k < plNext q \<and> pcLive (cellAt q k)})" by (rule c)
    fix k
    show "0 < k \<and> k < plNext q \<Longrightarrow> has_cell q k" using q by simp
    show "k \<in> set (plFreeList q) \<Longrightarrow> 0 < k" "k \<in> set (plFreeList q) \<Longrightarrow> k < plNext q"
      "k \<in> set (plFreeList q) \<Longrightarrow> \<not> pcLive (cellAt q k)"
      using I q h(4) by (auto simp: poolInv_def less_max_iff_disj)
    show "0 < k \<and> pcLive (cellAt q k) \<Longrightarrow> k < plNext q"
      using I q h by (auto simp: poolInv_def less_max_iff_disj split: if_splits)
    assume k: "0 < k \<and> k < plNext q \<and> \<not> pcLive (cellAt q k)"
    then have "k \<noteq> h" using q by auto
    moreover from this k q(1) have "k < plNext p" using h fresh by (cases "plNext p \<le> h") auto
    ultimately show "k \<in> set (plFreeList q) \<or> k \<in> plPoisoned q" using I q k by (auto simp: poolInv_def)
  qed
qed

lemma alloc_spec:
  assumes I: "poolInv p"
  obtains q h where "alloc z p = Some (q, h)" "poolInv q" "0 < h" "\<not> pcLive (cellAt p h)" "pcLive (cellAt q h)"
    "pcElem (cellAt q h) = z" "pcGen (cellAt q h) = pcGen (cellAt p h)"
    "\<forall>k. k \<noteq> h \<longrightarrow> cellAt q k = cellAt p k" "plChunks p \<le> plChunks q" "plLiveN q = plLiveN p + 1"
proof -
  obtain p1 h where a: "allocHandle p = (p1, h)" by (cases "allocHandle p")
  have P: "0 < h \<and> \<not> pcLive (cellAt p h) \<and> h \<le> plNext p \<and> plNext p1 = max (plNext p) (h + 1) \<and>
      set (plFreeList p1) = set (plFreeList p) - {h} \<and> distinct (plFreeList p1) \<and> plLiveN p1 = plLiveN p \<and>
      plPoisoned p1 = plPoisoned p \<and> (\<forall>k. cellAt p1 k = cellAt p k) \<and> plChunks p \<le> plChunks p1 \<and>
      (\<forall>k. 0 < k \<and> k < plNext p1 \<longrightarrow> has_cell p1 k)"
  proof (cases "plFreeList p = []")
    case True
    then have e: "h = plNext p" "p1 = ensure (p\<lparr>plNext := plNext p + 1\<rparr>) (plNext p)" using a by (auto simp: allocHandle_def)
    have dead: "\<not> pcLive (cellAt p h)" "0 < h" using I e dead_above [OF I, of h] by (auto simp: poolInv_def)
    have "has_cell p1 k" if "0 < k" "k < plNext p + 1" for k
      using that I unfolding e(2) ensure_has by (auto simp: poolInv_def has_cell_def less_Suc_eq locate_eq)
    then show ?thesis using dead True ensure_chunks [of "p\<lparr>plNext := plNext p + 1\<rparr>" "plNext p"] unfolding e by simp
  next
    case False
    then have e: "h = last (plFreeList p)" "p1 = p\<lparr>plFreeList := butlast (plFreeList p)\<rparr>" using a by (auto simp: allocHandle_def)
    have l: "plFreeList p = butlast (plFreeList p) @ [h]" using False e by simp
    have m: "h \<in> set (plFreeList p)" using l by (metis in_set_conv_decomp)
    have d: "distinct (butlast (plFreeList p) @ [h])" using I l by (simp add: poolInv_def)
    have s: "set (plFreeList p) = insert h (set (butlast (plFreeList p)))" using l by (metis list.simps(15) rotate1.simps(2) set_rotate1)
    have b: "0 < h" "h < plNext p" "\<not> pcLive (cellAt p h)" using I m by (auto simp: poolInv_def)
    then have "max (plNext p) (h + 1) = plNext p" by simp
    with b d s e I show ?thesis by (auto simp: poolInv_def)
  qed
  then have hc: "has_cell p1 h" by simp
  define fresh where "fresh \<longleftrightarrow> h < plWatermark p1 \<and> \<not> pcBorn (cellAt p1 h)"
  define p2 where "p2 = (if fresh then p1\<lparr>plReborn := plReborn p1 @ [h]\<rparr> else p1)"
  define cl where "cl = (cellAt p1 h)\<lparr>pcLive := True, pcBorn := pcBorn (cellAt p1 h) \<or> fresh, pcElem := z\<rparr>"
  define q where "q = (setCell p2 h cl)\<lparr>plLiveN := plLiveN p2 + 1\<rparr>"
  have eq: "alloc z p = Some (q, h)"
    using hc by (simp add: alloc_def a cell_eq Let_def fresh_def [symmetric] p2_def [symmetric] cl_def [symmetric] q_def [symmetric])
  have c: "cellAt q k = (if k = h then cl else cellAt p k)" for k using P by (simp add: q_def cellAt_set p2_def)
  have hq: "has_cell q k \<longleftrightarrow> has_cell p1 k" for k by (simp add: q_def p2_def)
  have f: "plNext q = plNext p1" "plFreeList q = plFreeList p1" "plLiveN q = plLiveN p1 + 1" "plPoisoned q = plPoisoned p1"
    "plChunks q = plChunks p1" by (simp_all add: q_def p2_def)
  have "poolInv q"
    by (rule poolInv_revive [OF I, of h "plNext p1" q cl]) (use P c hq f in \<open>auto simp: cl_def\<close>)
  then show thesis
    by (rule that [OF eq]) (use P c f in \<open>auto simp: cl_def\<close>)
qed

text \<open>What changes when one live cell dies and goes onto the free list, or is poisoned.\<close>

lemma card_live_remove:
  assumes "0 < k" "k < n" "P k" "\<And>h. h \<noteq> k \<Longrightarrow> Q h = P h" "\<not> Q k"
  shows "int (card {h. 0 < h \<and> h < n \<and> Q h}) = int (card {h. 0 < h \<and> h < n \<and> P (h :: nat)}) - 1"
  using card_live_add [of k n Q P] assms by simp

lemma poolInv_die:
  assumes I: "poolInv p" and h: "0 < h" "pcLive (cellAt p h)"
    and q: "plNext q = plNext p" "plChunks q = plChunks p" "\<And>k. cellAt q k = (if k = h then cl else cellAt p k)" "\<not> pcLive cl"
      "plLiveN q = plLiveN p - 1"
    and d: "plFreeList q = plFreeList p @ [h] \<and> plPoisoned q = plPoisoned p \<or>
      plFreeList q = plFreeList p \<and> plPoisoned q = insert h (plPoisoned p)"
  shows "poolInv q"
proof -
  have hn: "h < plNext p" using I h by (simp add: poolInv_def)
  have nf: "h \<notin> set (plFreeList p)" using I h by (auto simp: poolInv_def)
  have c: "int (card {k. 0 < k \<and> k < plNext p \<and> pcLive (cellAt q k)}) =
      int (card {k. 0 < k \<and> k < plNext p \<and> pcLive (cellAt p k)}) - 1"
    by (rule card_live_remove [of h]) (use h hn q in auto)
  show ?thesis
    using I q c d nf h(1) hn unfolding poolInv_def has_cell_def by (auto split: if_splits)
qed

lemma free_spec:
  assumes I: "poolInv p"
  shows "poolInv (free z p h)" "plNext (free z p h) = plNext p" "plChunks (free z p h) = plChunks p"
    "0 < h \<Longrightarrow> pcLive (cellAt p h) \<Longrightarrow> cellAt (free z p h) k =
       (if k = h then (cellAt p h)\<lparr>pcLive := False, pcGen := pcGen (cellAt p h) + 1, pcElem := z\<rparr> else cellAt p k)"
    "\<not> (0 < h \<and> pcLive (cellAt p h)) \<Longrightarrow> free z p h = p"
proof -
  let ?cl = "(cellAt p h)\<lparr>pcLive := False, pcGen := pcGen (cellAt p h) + 1, pcElem := z\<rparr>"
  have live: "free z p h = (setCell p h ?cl)\<lparr>plFreeList := plFreeList p @ [h], plLiveN := plLiveN p - 1\<rparr>"
    if "0 < h" "pcLive (cellAt p h)"
    using that live_has [OF I] by (simp add: free_def cell_eq)
  show dead: "\<not> (0 < h \<and> pcLive (cellAt p h)) \<Longrightarrow> free z p h = p"
    by (auto simp: free_def cell_eq has_cell_def)
  show "0 < h \<Longrightarrow> pcLive (cellAt p h) \<Longrightarrow> cellAt (free z p h) k = (if k = h then ?cl else cellAt p k)"
    by (simp add: live cellAt_set)
  show "plNext (free z p h) = plNext p" "plChunks (free z p h) = plChunks p"
    using live dead by (cases "0 < h \<and> pcLive (cellAt p h)"; simp)+
  show "poolInv (free z p h)"
  proof (cases "0 < h \<and> pcLive (cellAt p h)")
    case True
    then show ?thesis unfolding live [OF conjunct1 [OF True] conjunct2 [OF True]]
      by (intro poolInv_die [OF I, of h _ ?cl]) (simp_all add: cellAt_set)
  qed (use dead I in simp)
qed


section \<open>Truncating\<close>

definition killed :: "'a \<Rightarrow> 'a poolCell \<Rightarrow> 'a poolCell" where
  "killed z cl = cl\<lparr>pcLive := False, pcGen := pcGen cl + 1, pcElem := z\<rparr>"

lemma killed_fields [simp]: "\<not> pcLive (killed z cl)" "pcGen (killed z cl) = pcGen cl + 1" "pcElem (killed z cl) = z"
  by (simp_all add: killed_def)

lemma truncateFrom_spec:
  assumes "distinct is" "\<forall>i \<in> set is. has_cell p i"
  shows "plNext (truncateFrom z p is) = plNext p \<and> plFreeList (truncateFrom z p is) = plFreeList p \<and>
    plPoisoned (truncateFrom z p is) = plPoisoned p \<and> plChunks (truncateFrom z p is) = plChunks p \<and>
    (\<forall>k. cellAt (truncateFrom z p is) k = (if k \<in> set is then killed z (cellAt p k) else cellAt p k)) \<and>
    plLiveN (truncateFrom z p is) = plLiveN p - int (length (filter (\<lambda>i. pcLive (cellAt p i)) is))"
  using assms
proof (induction "is" arbitrary: p)
  case (Cons i "is")
  define q where "q = (setCell p i (killed z (cellAt p i)))\<lparr>plLiveN := (if pcLive (cellAt p i) then plLiveN p - 1 else plLiveN p)\<rparr>"
  have step: "truncateFrom z p (i # is) = truncateFrom z q is"
    using Cons.prems(2) by (simp add: cell_eq q_def killed_def)
  have q: "plNext q = plNext p" "plFreeList q = plFreeList p" "plPoisoned q = plPoisoned p" "plChunks q = plChunks p"
    "cellAt q k = (if k = i then killed z (cellAt p i) else cellAt p k)" for k
    by (simp_all add: q_def cellAt_set)
  have ih: "plNext (truncateFrom z q is) = plNext q \<and> plFreeList (truncateFrom z q is) = plFreeList q \<and>
    plPoisoned (truncateFrom z q is) = plPoisoned q \<and> plChunks (truncateFrom z q is) = plChunks q \<and>
    (\<forall>k. cellAt (truncateFrom z q is) k = (if k \<in> set is then killed z (cellAt q k) else cellAt q k)) \<and>
    plLiveN (truncateFrom z q is) = plLiveN q - int (length (filter (\<lambda>i. pcLive (cellAt q i)) is))"
    by (rule Cons.IH) (use Cons.prems has_cell_cong [OF q(4)] in auto)
  have "filter (\<lambda>k. pcLive (cellAt q k)) is = filter (\<lambda>k. pcLive (cellAt p k)) is"
    using Cons.prems(1) q(5) by (auto intro: filter_cong)
  moreover have "plLiveN q = plLiveN p - (if pcLive (cellAt p i) then 1 else 0)" by (simp add: q_def)
  ultimately show ?case using ih q Cons.prems(1) unfolding step by auto
qed simp

lemma truncate_spec:
  assumes I: "poolInv p" and q: "q = poolTruncate z p h0" and h: "h = max 1 h0" and le: "h0 \<le> plNext p"
  shows "poolInv q" "plNext q = h" "plChunks q = plChunks p"
    "cellAt q k = (if h \<le> k \<and> k < plNext p then killed z (cellAt p k) else cellAt p k)"
proof -
  let ?is = "[h..<plNext p]"
  have h1: "1 \<le> h" "h \<le> plNext p" using h le I by (auto simp: poolInv_def)
  have hh: "(if h0 < 1 then 1 else h0) = h" using h by auto
  have hc: "\<forall>i \<in> set ?is. has_cell p i" using I h1 by (auto simp: poolInv_def)
  note T = truncateFrom_spec [OF distinct_upt hc, of z]
  have eq: "q = (truncateFrom z p ?is)\<lparr>plFreeList := filter (\<lambda>fh. fh < h) (plFreeList p), plNext := h\<rparr>"
    unfolding q poolTruncate_def Let_def hh using T by simp
  show n: "plNext q = h" by (simp add: eq)
  show ch: "plChunks q = plChunks p" using T by (simp add: eq)
  show c: "cellAt q k = (if h \<le> k \<and> k < plNext p then killed z (cellAt p k) else cellAt p k)" for k
    using T by (simp add: eq)
  have "{k. 0 < k \<and> k < plNext p \<and> pcLive (cellAt p k)} =
      {k. 0 < k \<and> k < h \<and> pcLive (cellAt p k)} \<union> set (filter (\<lambda>i. pcLive (cellAt p i)) ?is)"
    using h1 by auto
  moreover have "card (set (filter (\<lambda>i. pcLive (cellAt p i)) ?is)) = length (filter (\<lambda>i. pcLive (cellAt p i)) ?is)"
    by (intro distinct_card) simp
  moreover have "{k. 0 < k \<and> k < h \<and> pcLive (cellAt p k)} \<inter> set (filter (\<lambda>i. pcLive (cellAt p i)) ?is) = {}" by auto
  ultimately have "card {k. 0 < k \<and> k < plNext p \<and> pcLive (cellAt p k)} =
      card {k. 0 < k \<and> k < h \<and> pcLive (cellAt p k)} + length (filter (\<lambda>i. pcLive (cellAt p i)) ?is)"
    using finite_live [of h "\<lambda>k. pcLive (cellAt p k)"] by (simp add: card_Un_disjoint)
  then have "plLiveN q = int (card {k. 0 < k \<and> k < h \<and> pcLive (cellAt p k)})"
    using T I by (simp add: eq poolInv_def)
  also have "{k. 0 < k \<and> k < h \<and> pcLive (cellAt p k)} = {k. 0 < k \<and> k < h \<and> pcLive (cellAt q k)}" using c by auto
  finally have L: "plLiveN q = int (card {k. 0 < k \<and> k < plNext q \<and> pcLive (cellAt q k)})" unfolding n .
  have live: "pcLive (cellAt q k) \<Longrightarrow> k < h" for k
    using c [of k] dead_above [OF I, of k] by (auto split: if_splits simp: not_less)
  have F: "plFreeList q = filter (\<lambda>fh. fh < h) (plFreeList p)" "plPoisoned q = plPoisoned p" using T by (simp_all add: eq)
  show "poolInv q"
    unfolding poolInv_def
  proof (intro conjI allI impI ballI)
    show "1 \<le> plNext q" using n h1 by simp
    show "distinct (plFreeList q)" using I F by (simp add: poolInv_def)
    show "plLiveN q = int (card {h. 0 < h \<and> h < plNext q \<and> pcLive (cellAt q h)})" by (rule L)
    fix k
    show "0 < k \<and> k < plNext q \<Longrightarrow> has_cell q k" using I n h1 has_cell_cong [OF ch] by (simp add: poolInv_def)
    show "k \<in> set (plFreeList q) \<Longrightarrow> 0 < k" "k \<in> set (plFreeList q) \<Longrightarrow> k < plNext q"
      "k \<in> set (plFreeList q) \<Longrightarrow> \<not> pcLive (cellAt q k)"
      using I F n c [of k] by (auto simp: poolInv_def)
    show "0 < k \<and> pcLive (cellAt q k) \<Longrightarrow> k < plNext q" using live n by simp
    show "0 < k \<and> k < plNext q \<and> \<not> pcLive (cellAt q k) \<Longrightarrow> k \<in> set (plFreeList q) \<or> k \<in> plPoisoned q"
      using I F n h1 c [of k] by (auto simp: poolInv_def)
  qed
qed

section \<open>Marks\<close>

lemma mark_index: "drop_bit 6 (h :: nat) = h div 64" "h AND 63 = h mod 64"
proof -
  have "(63 :: nat) = mask 6" by (simp add: mask_eq_exp_minus_1)
  then have "h AND 63 = take_bit 6 h" by (simp only: take_bit_eq_mask)
  then show "h AND 63 = h mod 64" by (simp add: take_bit_eq_mod)
qed (simp add: drop_bit_eq_div)

lemma bit_test: "n < 64 \<Longrightarrow> (w :: u64) AND push_bit n 1 \<noteq> 0 \<longleftrightarrow> bit w n"
  by (metis and_exp_eq_0_iff_not_bit push_bit_of_1)

lemma markHas_iff: "markHas m h \<longleftrightarrow> h div 64 < length m \<and> bit (m ! (h div 64)) (h mod 64)"
  using bit_test [of "h mod 64" "m ! (h div 64)"] by (simp add: markHas_def Let_def mark_index)

lemma markSetBit_spec:
  assumes "markSetBit m h = (m', already)"
  shows "markHas m' k \<longleftrightarrow> markHas m k \<or> k = h \<and> h div 64 < length m"
    "already \<longleftrightarrow> markHas m h \<or> length m \<le> h div 64" "length m' = length m"
proof -
  have same: "k div 64 = h div 64 \<Longrightarrow> k mod 64 = h mod 64 \<Longrightarrow> k = h" by (metis div_mult_mod_eq)
  have b: "bit (w OR 2 ^ (h mod 64)) j \<longleftrightarrow> bit w j \<or> j = h mod 64" for w :: u64 and j
    by (auto simp: bit_simps)
  show "markHas m' k \<longleftrightarrow> markHas m k \<or> k = h \<and> h div 64 < length m"
    using assms same bit_test [of "h mod 64" "m ! (h div 64)"]
    by (auto simp: markSetBit_def Let_def mark_index markHas_iff b nth_list_update split: if_splits)
  show "already \<longleftrightarrow> markHas m h \<or> length m \<le> h div 64" "length m' = length m"
    using assms bit_test [of "h mod 64" "m ! (h div 64)"]
    by (auto simp: markSetBit_def Let_def mark_index markHas_iff split: if_splits)
qed

lemma newMarks_empty: "\<not> markHas (newMarks p) h"
  by (auto simp: markHas_iff newMarks_def simp del: replicate_Suc)

lemma newMarks_covers: "h \<le> plNext p \<Longrightarrow> h div 64 < length (newMarks p)"
  by (simp add: newMarks_def drop_bit_eq_div div_le_mono less_Suc_eq_le)


section \<open>Sweeping\<close>

definition sweepOne :: "bool \<Rightarrow> 'a \<Rightarrow> markSet \<Rightarrow> 'a pool \<times> nat \<Rightarrow> nat \<Rightarrow> 'a pool \<times> nat" where
  "sweepOne poison z m st h =
     (if pcLive (cellAt (fst st) h) \<and> \<not> markHas m h
      then (if poison then poisonCell z (fst st) h else free z (fst st) h, snd st + 1) else st)"

lemma poisonCell_eq: "poisonCell z p h =
    (setCell p h (killed z (cellAt p h)))\<lparr>plLiveN := plLiveN p - 1, plPoisoned := insert h (plPoisoned p)\<rparr>"
  by (simp add: poisonCell_def killed_def cellAt_def split: prod.split)

lemma sweepOne_spec:
  assumes I: "poolInv p" and h: "0 < h" and q: "sweepOne poison z m (p, n) h = (q, n')"
  shows "poolInv q" "plNext q = plNext p" "plChunks q = plChunks p"
    "cellAt q k = (if k = h \<and> pcLive (cellAt p h) \<and> \<not> markHas m h then killed z (cellAt p h) else cellAt p k)"
    "n' = n + (if pcLive (cellAt p h) \<and> \<not> markHas m h then 1 else 0)"
proof -
  have "poolInv (poisonCell z p h)" if "pcLive (cellAt p h)"
    unfolding poisonCell_eq by (rule poolInv_die [OF I h that, of _ "killed z (cellAt p h)"]) (simp_all add: cellAt_set)
  then show "poolInv q" using q free_spec(1) [OF I, of z h] I by (auto simp: sweepOne_def split: if_splits)
  show "plNext q = plNext p" "plChunks q = plChunks p"
    using q free_spec(2,3) [OF I, of z h] by (auto simp: sweepOne_def poisonCell_eq split: if_splits)
  show "cellAt q k = (if k = h \<and> pcLive (cellAt p h) \<and> \<not> markHas m h then killed z (cellAt p h) else cellAt p k)"
    using q free_spec(4) [OF I h, of z k] by (auto simp: sweepOne_def poisonCell_eq cellAt_set killed_def split: if_splits)
  show "n' = n + (if pcLive (cellAt p h) \<and> \<not> markHas m h then 1 else 0)"
    using q by (auto simp: sweepOne_def split: if_splits)
qed

lemma sweepAll_spec:
  assumes "poolInv p" "distinct hs" "\<forall>h \<in> set hs. 0 < h" "foldl (sweepOne poison z m) (p, n) hs = (q, n')"
  shows "poolInv q \<and> plNext q = plNext p \<and> plChunks q = plChunks p \<and>
    (\<forall>k. cellAt q k = (if k \<in> set hs \<and> pcLive (cellAt p k) \<and> \<not> markHas m k then killed z (cellAt p k) else cellAt p k)) \<and>
    n' = n + length (filter (\<lambda>k. pcLive (cellAt p k) \<and> \<not> markHas m k) hs)"
  using assms
proof (induction hs arbitrary: p n)
  case (Cons h hs)
  obtain p1 n1 where one: "sweepOne poison z m (p, n) h = (p1, n1)" by (cases "sweepOne poison z m (p, n) h")
  have h: "0 < h" using Cons.prems(3) by simp
  note S = sweepOne_spec [OF Cons.prems(1) h one]
  have "filter (\<lambda>k. pcLive (cellAt p1 k) \<and> \<not> markHas m k) hs = filter (\<lambda>k. pcLive (cellAt p k) \<and> \<not> markHas m k) hs"
    using Cons.prems(2) S(4) by (auto intro: filter_cong)
  moreover have "poolInv q \<and> plNext q = plNext p1 \<and> plChunks q = plChunks p1 \<and>
    (\<forall>k. cellAt q k = (if k \<in> set hs \<and> pcLive (cellAt p1 k) \<and> \<not> markHas m k then killed z (cellAt p1 k) else cellAt p1 k)) \<and>
    n' = n1 + length (filter (\<lambda>k. pcLive (cellAt p1 k) \<and> \<not> markHas m k) hs)"
    by (rule Cons.IH [OF S(1)]) (use Cons.prems one in simp_all)
  ultimately show ?case using S Cons.prems(2) by auto
qed simp

lemma cell_chunk: "s < 4096 \<Longrightarrow> plCells p c s = cellAt p (c * 4096 + s)"
  by (simp add: cellAt_def locate_eq)

lemma sweepSlots_fold:
  assumes "poolInv p" "a \<le> 4096"
  shows "sweepSlots poison z m c [a..<4096] (p, n) =
    foldl (sweepOne poison z m) (p, n) (filter (\<lambda>h. 0 < h \<and> h < plNext p) (map (\<lambda>s. c * 4096 + s) [a..<4096]))"
  using assms(2,1)
proof (induction a arbitrary: p n rule: inc_induct)
  case (step a)
  have l: "[a..<4096] = a # [Suc a..<4096]" using step.hyps by (simp add: upt_conv_Cons)
  let ?h = "c * 4096 + a"
  have a: "a < 4096" by (rule step.hyps(2))
  have push: "push_bit 12 c + a = ?h" by (simp add: push_bit_eq_mult)
  show ?case
  proof (cases "?h = 0")
    case True
    then show ?thesis using step.IH [OF step.prems, of n] unfolding l by (simp add: push Let_def)
  next
    case pos: False
    show ?thesis
    proof (cases "plNext p \<le> ?h")
      case True
      then have "filter (\<lambda>h. 0 < h \<and> h < plNext p) (map (\<lambda>s. c * 4096 + s) [a..<4096]) = []"
        by (auto simp: filter_empty_conv)
      then show ?thesis using True pos unfolding l by (auto simp: push Let_def)
    next
      case False
      obtain p1 n1 where one: "sweepOne poison z m (p, n) ?h = (p1, n1)" by (cases "sweepOne poison z m (p, n) ?h")
      have h0: "0 < ?h" using pos by simp
      note S = sweepOne_spec [OF step.prems h0 one]
      have "sweepSlots poison z m c [a..<4096] (p, n) = sweepSlots poison z m c [Suc a..<4096] (p1, n1)"
        using one pos False cell_chunk [OF a, of p c] unfolding l
        by (auto simp: push Let_def sweepOne_def split: if_splits)
      also have "\<dots> = foldl (sweepOne poison z m) (p1, n1) (filter (\<lambda>h. 0 < h \<and> h < plNext p) (map (\<lambda>s. c * 4096 + s) [Suc a..<4096]))"
        using step.IH [OF S(1)] S(2) by simp
      finally show ?thesis using one pos False unfolding l by simp
    qed
  qed
qed simp

lemma concat_handles: "concat (map (\<lambda>c. map (\<lambda>s. c * 4096 + s) [0..<4096]) [0..<n]) = [0..<n * 4096]"
proof (induction n)
  case (Suc n)
  have "map (\<lambda>s. n * 4096 + s) [0..<4096] = [n * 4096..<n * 4096 + 4096]"
    using map_add_upt [of "n * 4096" 4096] by (simp add: add.commute)
  moreover have "[0..<n * 4096] @ [n * 4096..<n * 4096 + 4096] = [0..<n * 4096 + 4096]"
    by (simp add: upt_add_eq_append [of 0 "n * 4096" 4096, simplified] del: upt_Suc)
  ultimately show ?case using Suc by (simp add: add.commute del: upt_conv_Cons_Cons)
qed simp

lemma sweep_fold:
  assumes "poolInv p"
  shows "sweep poison z m p = foldl (sweepOne poison z m) (p, 0) (filter (\<lambda>h. 0 < h \<and> h < plNext p) [0..<plChunks p * 4096])"
proof -
  have "foldl (\<lambda>st c. sweepSlots poison z m c [0..<4096] st) (q, n) cs =
      foldl (sweepOne poison z m) (q, n) (filter (\<lambda>h. 0 < h \<and> h < plNext q) (concat (map (\<lambda>c. map (\<lambda>s. c * 4096 + s) [0..<4096]) cs)))"
    if "poolInv q" for q n cs
    using that
  proof (induction cs arbitrary: q n)
    case (Cons c cs)
    let ?hs = "filter (\<lambda>h. 0 < h \<and> h < plNext q) (map (\<lambda>s. c * 4096 + s) [0..<4096])"
    obtain q1 n1 where one: "foldl (sweepOne poison z m) (q, n) ?hs = (q1, n1)" by (cases "foldl (sweepOne poison z m) (q, n) ?hs")
    have d: "distinct ?hs" by (intro distinct_filter) (simp add: distinct_map inj_on_def)
    have pos: "\<forall>h \<in> set ?hs. 0 < h" by simp
    have S: "poolInv q1" "plNext q1 = plNext q" using sweepAll_spec [OF Cons.prems d pos one] by simp_all
    have "foldl (\<lambda>st c. sweepSlots poison z m c [0..<4096] st) (q, n) (c # cs) =
        foldl (\<lambda>st c. sweepSlots poison z m c [0..<4096] st) (q1, n1) cs"
      using sweepSlots_fold [OF Cons.prems, of 0 poison z m c n] one by simp
    then show ?case using Cons.IH [OF S(1), of n1] S(2) one by simp
  qed simp
  from this [OF assms, of 0 "[0..<plChunks p]"] show ?thesis by (simp only: sweep_def chunk_consts concat_handles)
qed

lemma sweep_spec:
  assumes I: "poolInv p" and q: "sweep poison z m p = (q, n)"
  shows "poolInv q" "plNext q = plNext p" "plChunks q = plChunks p"
    "0 < k \<Longrightarrow> cellAt q k = (if pcLive (cellAt p k) \<and> \<not> markHas m k then killed z (cellAt p k) else cellAt p k)"
    "n = card {k. 0 < k \<and> pcLive (cellAt p k) \<and> \<not> markHas m k}"
proof -
  let ?hs = "filter (\<lambda>h. 0 < h \<and> h < plNext p) [0..<plChunks p * 4096]"
  have pos: "\<forall>h \<in> set ?hs. 0 < h" "distinct ?hs" by simp_all
  note S = sweepAll_spec [OF I pos(2,1) q [unfolded sweep_fold [OF I]]]
  have hs: "pcLive (cellAt p k) \<Longrightarrow> 0 < k \<Longrightarrow> k \<in> set ?hs" for k
    using I live_has [OF I, of k] by (auto simp: poolInv_def has_cell_def locate_eq div_less_iff_less_mult)
  show "poolInv q" "plNext q = plNext p" "plChunks q = plChunks p" using S by simp_all
  show "0 < k \<Longrightarrow> cellAt q k = (if pcLive (cellAt p k) \<and> \<not> markHas m k then killed z (cellAt p k) else cellAt p k)"
    using S hs by auto
  have "{k. 0 < k \<and> pcLive (cellAt p k) \<and> \<not> markHas m k} = set (filter (\<lambda>k. pcLive (cellAt p k) \<and> \<not> markHas m k) ?hs)"
    using hs by auto
  moreover have "card (set (filter (\<lambda>k. pcLive (cellAt p k) \<and> \<not> markHas m k) ?hs)) =
      length (filter (\<lambda>k. pcLive (cellAt p k) \<and> \<not> markHas m k) ?hs)"
    by (rule distinct_card) simp
  ultimately show "n = card {k. 0 < k \<and> pcLive (cellAt p k) \<and> \<not> markHas m k}" using S by simp
qed


section \<open>Runs\<close>

text \<open>
  A run of the pool: allocations, frees, region reclamations and sweeps. None is a run that ends in a
  panic, which the invariant excludes.
\<close>

datatype poolOp = PAlloc | PFree nat | PTruncate nat | PSweep bool markSet

fun poolStep :: "'a \<Rightarrow> poolOp \<Rightarrow> 'a pool \<Rightarrow> 'a pool option" where
  "poolStep z PAlloc p = map_option fst (alloc z p)"
| "poolStep z (PFree h) p = Some (free z p h)"
| "poolStep z (PTruncate h) p = (if h \<le> plNext p then Some (poolTruncate z p h) else None)"
| "poolStep z (PSweep poison m) p = Some (fst (sweep poison z m p))"

fun poolRun :: "'a \<Rightarrow> poolOp list \<Rightarrow> 'a pool \<Rightarrow> 'a pool option" where
  "poolRun z [] p = Some p"
| "poolRun z (op # ops) p = Option.bind (poolStep z op p) (poolRun z ops)"

lemma poolStep_inv:
  assumes I: "poolInv p" and s: "poolStep z op p = Some q"
  shows "poolInv q" "plChunks p \<le> plChunks q"
    "0 < k \<Longrightarrow> pcGen (cellAt q k) = pcGen (cellAt p k) \<and> (pcLive (cellAt p k) \<longrightarrow> pcLive (cellAt q k)) \<or>
      pcGen (cellAt q k) = pcGen (cellAt p k) + 1"
proof -
  have all: "poolInv q \<and> plChunks p \<le> plChunks q \<and> (0 < k \<longrightarrow>
      pcGen (cellAt q k) = pcGen (cellAt p k) \<and> (pcLive (cellAt p k) \<longrightarrow> pcLive (cellAt q k)) \<or>
      pcGen (cellAt q k) = pcGen (cellAt p k) + 1)"
  proof (cases op)
    case PAlloc
    obtain q' h where a: "alloc z p = Some (q', h)" "poolInv q'" "0 < h" "\<not> pcLive (cellAt p h)" "pcLive (cellAt q' h)"
      "pcElem (cellAt q' h) = z" "pcGen (cellAt q' h) = pcGen (cellAt p h)"
      "\<forall>k. k \<noteq> h \<longrightarrow> cellAt q' k = cellAt p k" "plChunks p \<le> plChunks q'" "plLiveN q' = plLiveN p + 1"
      by (rule alloc_spec [OF I])
    then show ?thesis using s PAlloc by (cases "k = h") auto
  next
    case (PFree h)
    then show ?thesis
      using s free_spec(1) [OF I, of z h] free_spec(3) [OF I, of z h] free_spec(5) [OF I, of h z] free_spec(4) [OF I, of h z k]
      by (cases "0 < h \<and> pcLive (cellAt p h)") auto
  next
    case (PTruncate h)
    then have "h \<le> plNext p" "q = poolTruncate z p h" using s by (auto split: if_splits)
    from truncate_spec [OF I this(2) refl this(1)] show ?thesis by auto
  next
    case (PSweep poison m)
    then have "sweep poison z m p = (q, snd (sweep poison z m p))" using s by auto
    from sweep_spec [OF I this] show ?thesis by auto
  qed
  show "poolInv q" "plChunks p \<le> plChunks q" using all by simp_all
  show "0 < k \<Longrightarrow> pcGen (cellAt q k) = pcGen (cellAt p k) \<and> (pcLive (cellAt p k) \<longrightarrow> pcLive (cellAt q k)) \<or>
      pcGen (cellAt q k) = pcGen (cellAt p k) + 1" using all by simp
qed

lemma poolRun_inv: "poolInv p \<Longrightarrow> poolRun z ops p = Some q \<Longrightarrow> poolInv q"
proof (induction ops arbitrary: p)
  case (Cons op ops)
  then obtain p1 where "poolStep z op p = Some p1" "poolRun z ops p1 = Some q" by (auto simp: bind_eq_Some_conv)
  then show ?case using Cons.IH [of p1] poolStep_inv(1) [OF Cons.prems(1)] by simp
qed simp

text \<open>
  The generations of a run: a cell whose generation has not moved has been live all along, and a run of
  n steps moves a generation at most n times.
\<close>

lemma poolRun_gen:
  assumes "poolInv p" "poolRun z ops p = Some q" "0 < h"
  shows "\<exists>k \<le> length ops. pcGen (cellAt q h) = pcGen (cellAt p h) + of_nat k \<and>
    (k = 0 \<and> pcLive (cellAt p h) \<longrightarrow> (\<forall>n \<le> length ops. \<exists>r. poolRun z (take n ops) p = Some r \<and>
       pcLive (cellAt r h) \<and> pcGen (cellAt r h) = pcGen (cellAt p h)))"
  using assms
proof (induction ops arbitrary: p)
  case Nil
  then show ?case by auto
next
  case (Cons op ops)
  then obtain p1 where p1: "poolStep z op p = Some p1" "poolRun z ops p1 = Some q" by (auto simp: bind_eq_Some_conv)
  note S = poolStep_inv [OF Cons.prems(1) p1(1)]
  from Cons.IH [OF S(1) p1(2) Cons.prems(3)] obtain k where
    k: "k \<le> length ops" "pcGen (cellAt q h) = pcGen (cellAt p1 h) + of_nat k"
      "k = 0 \<and> pcLive (cellAt p1 h) \<Longrightarrow> \<forall>n \<le> length ops. \<exists>r. poolRun z (take n ops) p1 = Some r \<and>
       pcLive (cellAt r h) \<and> pcGen (cellAt r h) = pcGen (cellAt p1 h)" by blast
  from S(3) [OF Cons.prems(3)] show ?case
  proof
    assume a: "pcGen (cellAt p1 h) = pcGen (cellAt p h) + 1"
    show ?thesis by (rule exI [of _ "Suc k"]) (use k(1,2) a in simp)
  next
    assume a: "pcGen (cellAt p1 h) = pcGen (cellAt p h) \<and> (pcLive (cellAt p h) \<longrightarrow> pcLive (cellAt p1 h))"
    have "\<exists>r. poolRun z (take n (op # ops)) p = Some r \<and> pcLive (cellAt r h) \<and> pcGen (cellAt r h) = pcGen (cellAt p h)"
      if "k = 0" "pcLive (cellAt p h)" "n \<le> length (op # ops)" for n
      using that k(3) a p1(1) by (cases n) auto
    then show ?thesis using k(1,2) a by (intro exI [of _ k]) auto
  qed
qed

lemma alive_iff: "poolInv p \<Longrightarrow> alive p h g \<longleftrightarrow> 0 < h \<and> pcLive (cellAt p h) \<and> pcGen (cellAt p h) = g"
  using live_has [of p h] by (auto simp: alive_def cell_eq has_cell_def)

lemma poolRun_alive:
  assumes I: "poolInv p" and r: "poolRun z ops p = Some q" and a: "alive p h g" "alive q h g" and n: "length ops < 2 ^ 32"
    and m: "m \<le> length ops"
  shows "\<exists>r. poolRun z (take m ops) p = Some r \<and> alive r h g"
proof -
  have h: "0 < h" "pcLive (cellAt p h)" "pcGen (cellAt p h) = g" using a(1) alive_iff [OF I] by auto
  have q: "pcGen (cellAt q h) = g" using a(2) alive_iff [OF poolRun_inv [OF I r]] by simp
  obtain k where k: "k \<le> length ops" "pcGen (cellAt q h) = pcGen (cellAt p h) + of_nat k"
    "k = 0 \<and> pcLive (cellAt p h) \<longrightarrow> (\<forall>n \<le> length ops. \<exists>r. poolRun z (take n ops) p = Some r \<and>
       pcLive (cellAt r h) \<and> pcGen (cellAt r h) = pcGen (cellAt p h))"
    using poolRun_gen [OF I r h(1)] by blast
  have "(of_nat k :: u32) = 0" using k(2) q h(3) by simp
  moreover have "k < 2 ^ 32" using k(1) n by simp
  ultimately have "k = 0" by (auto simp: word_of_nat_eq_0_iff dest: dvd_imp_le)
  with k(3) h m obtain r where r: "poolRun z (take m ops) p = Some r" "pcLive (cellAt r h)" "pcGen (cellAt r h) = g" by blast
  then show ?thesis using alive_iff [OF poolRun_inv [OF I r(1)]] h(1) by auto
qed

text \<open>A pool with one live cell, and a run that allocates another and frees it.\<close>

lemma pool_example:
  obtains p :: "nat pool" where "poolRun 0 [PAlloc] (newPool 0) = Some p" "alive p 1 0" "poolInv p"
    "alive (the (poolRun 0 [PAlloc, PFree 2] p)) 1 0" "poolRun 0 [PAlloc, PFree 2] p \<noteq> None"
proof -
  obtain p h where a: "alloc 0 (newPool (0 :: nat)) = Some (p, h)" "poolInv p" "0 < h" "\<not> pcLive (cellAt (newPool (0 :: nat)) h)"
    "pcLive (cellAt p h)" "pcElem (cellAt p h) = 0" "pcGen (cellAt p h) = pcGen (cellAt (newPool (0 :: nat)) h)"
    "\<forall>k. k \<noteq> h \<longrightarrow> cellAt p k = cellAt (newPool 0) k" "plChunks (newPool (0 :: nat)) \<le> plChunks p" "plLiveN p = plLiveN (newPool (0 :: nat)) + 1"
    by (rule alloc_spec [OF newPool_inv])
  have z: "cellAt (newPool (0 :: nat)) k = zeroCell 0" for k by (simp add: cellAt_def newPool_def)
  have h: "h = 1" using a(1) by (auto simp: alloc_def allocHandle_def newPool_def Let_def split: option.splits)
  have al: "alive p 1 0" using a(5,7) alive_iff [OF a(2)] by (simp add: h z zeroCell_def)
  obtain q k where b: "alloc 0 p = Some (q, k)" "poolInv q" "0 < k" "\<not> pcLive (cellAt p k)" "pcLive (cellAt q k)"
    "pcElem (cellAt q k) = 0" "pcGen (cellAt q k) = pcGen (cellAt p k)" "\<forall>j. j \<noteq> k \<longrightarrow> cellAt q j = cellAt p j"
    "plChunks p \<le> plChunks q" "plLiveN q = plLiveN p + 1"
    by (rule alloc_spec [OF a(2)])
  have k: "k \<noteq> 1" using b(4) a(5) h by auto
  have "cellAt (free 0 q 2) 1 = cellAt q 1"
    using free_spec(4) [OF b(2), of 2 0 1] free_spec(5) [OF b(2), of 2 0] by (cases "pcLive (cellAt q 2)") auto
  then have "alive (free 0 q 2) 1 0"
    using b(8) k al alive_iff [OF a(2)] alive_iff [OF free_spec(1) [OF b(2)]] by auto
  then show thesis
    by (intro that [of p]) (use a b al in simp_all)
qed

end
