(* ===== verification/Shapes.thy ===== *)
theory Shapes
  imports Values
begin

text \<open>
  Hidden classes (\<open>internal/engine/shapes.go\<close>): the transition tree of shapes, each a list of property
  descriptors with an index once it is long.

  Shapes are mutated in place and shared by pointer, so they live in a store: an address is a natural
  number, \<open>None\<close> is the nil pointer, and every operation takes the store and returns it. The roots
  of a runtime and the process-wide cache epoch are fields of the store. Slot numbers are natural
  numbers (the source's are 32 bits wide, and a shape has fewer properties than that); a lookup that
  the source answers with -1 is None. Reference counts and the epoch keep their 32 bits.
\<close>

definition attrWritable :: u8 where "attrWritable = 1"
definition attrEnumerable :: u8 where "attrEnumerable = 2"
definition attrConfigurable :: u8 where "attrConfigurable = 4"
definition attrDefault :: u8 where "attrDefault = attrWritable OR attrEnumerable OR attrConfigurable"

definition inobjMaxSlots :: nat where "inobjMaxSlots = 4"
definition shapeLinearMax :: nat where "shapeLinearMax = 16"

record propKey =
  pkSym :: bool
  pkStr :: string
  pkOff :: u32

definition strKey :: "string \<Rightarrow> propKey" where
  "strKey s = \<lparr>pkSym = False, pkStr = s, pkOff = 0\<rparr>"

definition symKey :: "u32 \<Rightarrow> propKey" where
  "symKey off = \<lparr>pkSym = True, pkStr = [], pkOff = off\<rparr>"

definition keyEq :: "propKey \<Rightarrow> propKey \<Rightarrow> bool" where
  "keyEq k l = (if pkSym k then pkSym l \<and> pkOff k = pkOff l else \<not> pkSym l \<and> pkStr k = pkStr l)"

type_synonym childKey = "propKey \<times> u8"

record shapeProp =
  spKey :: propKey
  spAttrs :: u8
  spAccessor :: bool
  spHasGetter :: bool
  spHasSetter :: bool
  spGetter :: u64
  spSetter :: u64

definition newProp :: "propKey \<Rightarrow> u8 \<Rightarrow> shapeProp" where
  "newProp key attrs = \<lparr>spKey = key, spAttrs = attrs, spAccessor = False, spHasGetter = False,
     spHasSetter = False, spGetter = 0, spSetter = 0\<rparr>"

record shape =
  shRefCount :: u32
  shInobjLimit :: nat
  shProps :: "shapeProp list"
  shIndex :: "(propKey \<Rightarrow> nat option) option"
  shChildren :: "childKey \<Rightarrow> nat option"
  shParent :: "nat option"
  shParentKey :: childKey
  shTrKey :: childKey
  shTrChild :: "nat option"
  shTrSlot :: nat

definition noKey :: childKey where "noKey = (strKey [], 0)"

definition newShapeRec :: "u32 \<Rightarrow> nat \<Rightarrow> shape" where
  "newShapeRec refs limit = \<lparr>shRefCount = refs, shInobjLimit = limit, shProps = [], shIndex = None,
     shChildren = Map.empty, shParent = None, shParentKey = noKey, shTrKey = noKey, shTrChild = None,
     shTrSlot = 0\<rparr>"

record heap =
  hpShape :: "nat \<Rightarrow> shape"
  hpNext :: nat
  hpEpoch :: u32
  hpRoots :: "nat \<Rightarrow> nat option"

definition setShape :: "heap \<Rightarrow> nat \<Rightarrow> shape \<Rightarrow> heap" where
  "setShape h a s = h\<lparr>hpShape := (hpShape h)(a := s)\<rparr>"

definition allocShape :: "heap \<Rightarrow> shape \<Rightarrow> heap \<times> nat" where
  "allocShape h s = (h\<lparr>hpShape := (hpShape h)(hpNext h := s), hpNext := hpNext h + 1\<rparr>, hpNext h)"

definition deref :: "heap \<Rightarrow> nat option \<Rightarrow> shape option" where
  "deref h p = map_option (hpShape h) p"

definition icEpochBump :: "heap \<Rightarrow> heap" where
  "icEpochBump h =
     (let c = hpEpoch h + 1 in if c = 0 then h\<lparr>hpEpoch := 1\<rparr> else h\<lparr>hpEpoch := c\<rparr>)"

definition clampInobjLimit :: "nat \<Rightarrow> nat" where
  "clampInobjLimit limit = (if inobjMaxSlots < limit then inobjMaxSlots else limit)"

definition newShapeWithLimit :: "heap \<Rightarrow> nat \<Rightarrow> heap \<times> nat" where
  "newShapeWithLimit h limit =
     (let c = clampInobjLimit limit;
          (h1, a) = (case hpRoots h c of
                       Some a \<Rightarrow> (h, a)
                     | None \<Rightarrow> (let (h', a) = allocShape h (newShapeRec 1 c)
                                in (h'\<lparr>hpRoots := (hpRoots h')(c := Some a)\<rparr>, a)))
      in (setShape h1 a ((hpShape h1 a)\<lparr>shRefCount := shRefCount (hpShape h1 a) + 1\<rparr>), a))"

definition newShape :: "heap \<Rightarrow> heap \<times> nat" where
  "newShape h = newShapeWithLimit h inobjMaxSlots"

fun retain :: "heap \<Rightarrow> nat option \<Rightarrow> heap" where
  "retain h None = h"
| "retain h (Some a) = setShape h a ((hpShape h a)\<lparr>shRefCount := shRefCount (hpShape h a) + 1\<rparr>)"

fun release :: "heap \<Rightarrow> nat option \<Rightarrow> heap" where
  "release h None = h"
| "release h (Some a) =
     (if 0 < shRefCount (hpShape h a)
      then setShape h a ((hpShape h a)\<lparr>shRefCount := shRefCount (hpShape h a) - 1\<rparr>) else h)"

text \<open>\<open>buildIndex\<close>: the properties are entered in order, so a later one of the same key wins.\<close>

definition indexOf :: "shapeProp list \<Rightarrow> propKey \<Rightarrow> nat option" where
  "indexOf props = foldl (\<lambda>m i. m(spKey (props ! i) \<mapsto> i)) Map.empty [0..<length props]"

definition buildIndex :: "shape \<Rightarrow> shape" where
  "buildIndex s = s\<lparr>shIndex := Some (indexOf (shProps s))\<rparr>"

definition cloneRec :: "shape \<Rightarrow> shape" where
  "cloneRec s =
     (let c = newShapeRec 1 (clampInobjLimit (shInobjLimit s))
      in if 0 < length (shProps s)
         then (let c' = c\<lparr>shProps := shProps s\<rparr>
               in if shapeLinearMax < length (shProps c') then buildIndex c' else c')
         else c)"

definition clone :: "heap \<Rightarrow> nat \<Rightarrow> heap \<times> nat" where
  "clone h a = allocShape h (cloneRec (hpShape h a))"

definition isInTree :: "shape option \<Rightarrow> bool" where
  "isInTree p = (case p of None \<Rightarrow> False | Some s \<Rightarrow> 1 < shRefCount s \<or> shParent s \<noteq> None)"

fun findKey :: "shapeProp list \<Rightarrow> propKey \<Rightarrow> nat option" where
  "findKey [] key = None"
| "findKey (p # ps) key = (if keyEq (spKey p) key then Some 0 else map_option Suc (findKey ps key))"

definition lookup :: "shape option \<Rightarrow> propKey \<Rightarrow> nat option" where
  "lookup p key =
     (case p of
        None \<Rightarrow> None
      | Some s \<Rightarrow> (case shIndex s of None \<Rightarrow> findKey (shProps s) key | Some m \<Rightarrow> m key))"

definition lookupInterned :: "shape option \<Rightarrow> string \<Rightarrow> nat option" where
  "lookupInterned p s = lookup p (strKey s)"

definition lookupSymbol :: "shape option \<Rightarrow> u32 \<Rightarrow> nat option" where
  "lookupSymbol p off = lookup p (symKey off)"

text \<open>The append branch of \<open>addKey\<close>, and \<open>addKey\<close>: the slot, or None where it reports failure.\<close>

definition appendProp :: "shape \<Rightarrow> shapeProp \<Rightarrow> shape" where
  "appendProp s p =
     (let s' = s\<lparr>shProps := shProps s @ [p]\<rparr>
      in case shIndex s of
           Some m \<Rightarrow> s'\<lparr>shIndex := Some (m(spKey p \<mapsto> length (shProps s)))\<rparr>
         | None \<Rightarrow> if shapeLinearMax < length (shProps s') then buildIndex s' else s')"

fun addKey :: "heap \<Rightarrow> nat option \<Rightarrow> propKey \<Rightarrow> u8 \<Rightarrow> heap \<times> nat option" where
  "addKey h None key attrs = (h, None)"
| "addKey h (Some a) key attrs =
     (let s = hpShape h a
      in case lookup (Some s) key of
           Some slot \<Rightarrow>
             (icEpochBump (setShape h a
                (s\<lparr>shProps := (shProps s)[slot := (shProps s ! slot)\<lparr>spAttrs := attrs\<rparr>]\<rparr>)), Some slot)
         | None \<Rightarrow> (setShape h a (appendProp s (newProp key attrs)), Some (length (shProps s))))"

fun findChild :: "heap \<Rightarrow> nat option \<Rightarrow> childKey \<Rightarrow> nat option" where
  "findChild h None ck = None"
| "findChild h (Some a) ck = shChildren (hpShape h a) ck"

definition recordChild :: "heap \<Rightarrow> nat \<Rightarrow> childKey \<Rightarrow> nat \<Rightarrow> heap" where
  "recordChild h a ck b =
     (if shChildren (hpShape h a) ck \<noteq> None then h
      else
        (let h1 = retain h (Some b);
             sa = hpShape h1 a;
             h2 = setShape h1 a (sa\<lparr>shChildren := (shChildren sa)(ck \<mapsto> b)\<rparr>)
         in setShape h2 b ((hpShape h2 b)\<lparr>shParent := Some a, shParentKey := ck\<rparr>)))"

text \<open>
  \<open>addKeyTr\<close>: the new store, the new value of the pointer it is given the address of, and the slot.
  \<open>makeTransition\<close> is its last part, for a transition nobody has taken: the shared shape becomes the
  child, and the object gets a private copy of it.
\<close>

definition makeTransition :: "heap \<Rightarrow> nat \<Rightarrow> propKey \<Rightarrow> u8 \<Rightarrow> heap \<times> nat option \<times> nat option" where
  "makeTransition h a key attrs =
     (let (h1, b) = clone h a;
          (h2, slot) = addKey h1 (Some b) key attrs
      in case slot of
           None \<Rightarrow> (h2, Some a, None)
         | Some sl \<Rightarrow>
             (let h3 = recordChild h2 a (key, attrs) b;
                  h4 = release h3 (Some b);
                  (h5, n) = clone h4 b
              in (release h5 (Some a), Some n, Some sl)))"

fun addKeyTr :: "heap \<Rightarrow> nat option \<Rightarrow> propKey \<Rightarrow> u8 \<Rightarrow> heap \<times> nat option \<times> nat option" where
  "addKeyTr h None key attrs = (h, None, None)"
| "addKeyTr h (Some a) key attrs =
     (let s = hpShape h a; ck = (key, attrs)
      in if \<not> isInTree (Some s)
         then (let (h', slot) = addKey (icEpochBump h) (Some a) key attrs in (h', Some a, slot))
         else if shTrChild s \<noteq> None \<and> shTrKey s = ck
         then (release (retain h (shTrChild s)) (Some a), shTrChild s, Some (shTrSlot s))
         else
           (case findChild h (Some a) ck of
              None \<Rightarrow> makeTransition h a key attrs
            | Some b \<Rightarrow>
                (case lookup (Some (hpShape h b)) key of
                   None \<Rightarrow> makeTransition h a key attrs
                 | Some slot \<Rightarrow>
                     (let h1 = setShape h a (s\<lparr>shTrKey := ck, shTrChild := Some b, shTrSlot := slot\<rparr>)
                      in (release (retain h1 (Some b)) (Some a), Some b, Some slot)))))"

declare retain.simps [simp del] release.simps [simp del] addKey.simps [simp del] addKeyTr.simps [simp del]

definition addInternedTr :: "heap \<Rightarrow> nat option \<Rightarrow> string \<Rightarrow> u8 \<Rightarrow> heap \<times> nat option \<times> nat option" where
  "addInternedTr h p s attrs = addKeyTr h p (strKey s) attrs"

definition addSymbolTr :: "heap \<Rightarrow> nat option \<Rightarrow> u32 \<Rightarrow> u8 \<Rightarrow> heap \<times> nat option \<times> nat option" where
  "addSymbolTr h p off attrs = addKeyTr h p (symKey off) attrs"

definition countProps :: "shape option \<Rightarrow> nat" where
  "countProps p = (case p of None \<Rightarrow> 0 | Some s \<Rightarrow> length (shProps s))"

definition propAt :: "shape option \<Rightarrow> nat \<Rightarrow> shapeProp option" where
  "propAt p slot =
     (case p of None \<Rightarrow> None | Some s \<Rightarrow> if length (shProps s) \<le> slot then None else Some (shProps s ! slot))"

definition attrsAt :: "shape option \<Rightarrow> nat \<Rightarrow> u8" where
  "attrsAt p slot = (case propAt p slot of Some q \<Rightarrow> spAttrs q | None \<Rightarrow> attrDefault)"

definition getInobjLimit :: "shape option \<Rightarrow> nat" where
  "getInobjLimit p = (case p of None \<Rightarrow> inobjMaxSlots | Some s \<Rightarrow> clampInobjLimit (shInobjLimit s))"

fun setAttrs :: "heap \<Rightarrow> nat option \<Rightarrow> propKey \<Rightarrow> u8 \<Rightarrow> heap \<times> bool" where
  "setAttrs h p key attrs =
     (case lookup (deref h p) key of
        None \<Rightarrow> (h, False)
      | Some slot \<Rightarrow>
          (case p of
             None \<Rightarrow> (h, False)
           | Some a \<Rightarrow>
               (let s = hpShape h a
                in (icEpochBump (setShape h a
                      (s\<lparr>shProps := (shProps s)[slot := (shProps s ! slot)\<lparr>spAttrs := attrs\<rparr>]\<rparr>)), True))))"

definition dropSlot :: "nat \<Rightarrow> 'a list \<Rightarrow> 'a list" where
  "dropSlot n xs = take n xs @ drop (Suc n) xs"

definition removeProp :: "shape \<Rightarrow> nat \<Rightarrow> shape" where
  "removeProp s slot =
     (let gone = spKey (shProps s ! slot);
          props = dropSlot slot (shProps s)
      in s\<lparr>shTrChild := None, shProps := props,
          shIndex := map_option (\<lambda>m. foldl (\<lambda>m i. m(spKey (props ! i) \<mapsto> i)) (m(gone := None))
                                       [slot..<length props]) (shIndex s)\<rparr>)"

fun removeSlot :: "heap \<Rightarrow> nat option \<Rightarrow> nat \<Rightarrow> heap \<times> bool" where
  "removeSlot h None slot = (h, False)"
| "removeSlot h (Some a) slot =
     (if length (shProps (hpShape h a)) \<le> slot then (h, False)
      else (icEpochBump (setShape h a (removeProp (hpShape h a) slot)), True))"

fun clearAccessor :: "heap \<Rightarrow> nat option \<Rightarrow> nat \<Rightarrow> heap \<times> bool" where
  "clearAccessor h p slot =
     (case (p, propAt (deref h p) slot) of
        (Some a, Some q) \<Rightarrow>
          (icEpochBump (setShape h a ((hpShape h a)\<lparr>shProps := (shProps (hpShape h a))[slot :=
             q\<lparr>spAccessor := False, spHasGetter := False, spHasSetter := False, spGetter := 0, spSetter := 0\<rparr>]\<rparr>)), True)
      | _ \<Rightarrow> (h, False))"

text \<open>Keys as the engine makes them; on those, \<open>eq\<close> is equality.\<close>

definition canonicalKey :: "propKey \<Rightarrow> bool" where
  "canonicalKey k \<longleftrightarrow> (if pkSym k then pkStr k = [] else pkOff k = 0)"

lemma canonical_keys [simp]: "canonicalKey (strKey s)" "canonicalKey (symKey off)"
  by (simp_all add: canonicalKey_def strKey_def symKey_def)

lemma keyEq_iff: "canonicalKey k \<Longrightarrow> canonicalKey l \<Longrightarrow> keyEq k l \<longleftrightarrow> k = l"
  by (cases k; cases l) (auto simp: canonicalKey_def keyEq_def split: if_splits)

definition slotOf :: "shapeProp list \<Rightarrow> propKey \<Rightarrow> nat \<Rightarrow> bool" where
  "slotOf props k i \<longleftrightarrow> i < length props \<and> spKey (props ! i) = k"

lemma slotOf_ex: "(\<exists>i. slotOf ps k i) \<longleftrightarrow> k \<in> spKey ` set ps"
  using in_set_conv_nth [of k "map spKey ps"] by (auto simp: slotOf_def)

lemma slotOf_in: "slotOf ps k i \<Longrightarrow> k \<in> spKey ` set ps"
  using slotOf_ex by blast

definition wfShape :: "shape \<Rightarrow> bool" where
  "wfShape s \<longleftrightarrow>
     list_all canonicalKey (map spKey (shProps s)) \<and> distinct (map spKey (shProps s)) \<and>
     (case shIndex s of
        None \<Rightarrow> length (shProps s) \<le> shapeLinearMax
      | Some m \<Rightarrow> \<forall>k i. m k = Some i \<longleftrightarrow> slotOf (shProps s) k i)"

lemma findKey_slot:
  assumes "list_all canonicalKey (map spKey ps)" "distinct (map spKey ps)" "canonicalKey k"
  shows "findKey ps k = Some i \<longleftrightarrow> slotOf ps k i"
  using assms
proof (induction ps arbitrary: i)
  case Nil
  then show ?case by (simp add: slotOf_def)
next
  case (Cons p ps)
  show ?case
  proof (cases i)
    case 0
    with Cons.prems show ?thesis by (auto simp: slotOf_def keyEq_iff)
  next
    case (Suc j)
    have "spKey p = k \<Longrightarrow> \<not> slotOf ps k j" using Cons.prems slotOf_in by fastforce
    then show ?thesis using Cons Suc by (auto simp: slotOf_def keyEq_iff)
  qed
qed

lemma lookup_slot:
  assumes "wfShape s" "canonicalKey k"
  shows "lookup (Some s) k = Some i \<longleftrightarrow> slotOf (shProps s) k i"
  using assms findKey_slot [of "shProps s" k i]
  by (auto simp: wfShape_def lookup_def split: option.splits)

lemma slot_unique: "distinct (map spKey ps) \<Longrightarrow> slotOf ps k i \<Longrightarrow> slotOf ps k j \<Longrightarrow> i = j"
  by (auto simp: slotOf_def distinct_conv_nth)

lemma lookup_none:
  assumes "wfShape s" "canonicalKey k"
  shows "lookup (Some s) k = None \<longleftrightarrow> k \<notin> spKey ` set (shProps s)"
  using lookup_slot [OF assms] slotOf_ex [of "shProps s" k] by (cases "lookup (Some s) k") auto

text \<open>The index built by entering the properties in order is the index of their slots.\<close>

lemma indexFold_slot:
  assumes "distinct (map spKey props)" "n \<le> length props"
  shows "foldl (\<lambda>m i. m(spKey (props ! i) \<mapsto> i)) Map.empty [0..<n] k = Some i \<longleftrightarrow> i < n \<and> spKey (props ! i) = k"
  using assms(2)
proof (induction n arbitrary: i)
  case (Suc n)
  then show ?case using assms(1) by (auto simp: distinct_conv_nth less_Suc_eq)
qed simp

lemma indexOf_slot: "distinct (map spKey props) \<Longrightarrow> indexOf props k = Some i \<longleftrightarrow> slotOf props k i"
  by (simp add: indexOf_def indexFold_slot slotOf_def)

lemma wf_new: "wfShape (newShapeRec n l)"
  by (simp add: wfShape_def newShapeRec_def)

lemma clone_fields:
  "shProps (cloneRec s) = shProps s" "shRefCount (cloneRec s) = 1" "shParent (cloneRec s) = None"
  "shChildren (cloneRec s) = Map.empty" "shTrChild (cloneRec s) = None"
  "shInobjLimit (cloneRec s) = clampInobjLimit (shInobjLimit s)"
  by (simp_all add: cloneRec_def newShapeRec_def buildIndex_def Let_def)

lemma wf_clone: "wfShape s \<Longrightarrow> wfShape (cloneRec s)"
  by (auto simp: wfShape_def cloneRec_def newShapeRec_def buildIndex_def Let_def indexOf_slot split: option.splits)

lemma append_fields:
  "shProps (appendProp s p) = shProps s @ [p]" "shRefCount (appendProp s p) = shRefCount s"
  "shParent (appendProp s p) = shParent s" "shChildren (appendProp s p) = shChildren s"
  "shTrChild (appendProp s p) = shTrChild s" "shInobjLimit (appendProp s p) = shInobjLimit s"
  "shTrKey (appendProp s p) = shTrKey s" "shTrSlot (appendProp s p) = shTrSlot s"
  by (simp_all add: appendProp_def buildIndex_def Let_def split: option.split)

lemma slotOf_append: "slotOf (ps @ [p]) k i \<longleftrightarrow> slotOf ps k i \<or> i = length ps \<and> spKey p = k"
  by (auto simp: slotOf_def nth_append less_Suc_eq)

lemma wf_append:
  assumes "wfShape s" "canonicalKey (spKey p)" "spKey p \<notin> spKey ` set (shProps s)"
  shows "wfShape (appendProp s p)"
proof -
  have d: "distinct (map spKey (shProps s @ [p]))" "list_all canonicalKey (map spKey (shProps s @ [p]))"
    using assms by (auto simp: wfShape_def)
  have n: "\<not> slotOf (shProps s) (spKey p) i" for i using assms(3) slotOf_in by blast
  show ?thesis
  proof (cases "shIndex s")
    case None
    with d show ?thesis by (auto simp: wfShape_def appendProp_def Let_def buildIndex_def indexOf_slot)
  next
    case (Some m)
    with d n assms(1) show ?thesis
      by (auto simp: wfShape_def appendProp_def Let_def slotOf_append)
  qed
qed

lemma slotOf_update:
  "spKey q = spKey (ps ! n) \<Longrightarrow> slotOf (ps[n := q]) k i \<longleftrightarrow> slotOf ps k i"
  by (cases "n < length ps") (auto simp: slotOf_def nth_list_update)

lemma map_key_update: "spKey q = spKey (ps ! n) \<Longrightarrow> map spKey (ps[n := q]) = map spKey ps"
  by (metis list_update_beyond list_update_id map_update not_le nth_map)

lemma wf_update:
  assumes "wfShape s" "spKey q = spKey (shProps s ! n)"
  shows "wfShape (s\<lparr>shProps := (shProps s)[n := q]\<rparr>)"
proof -
  show ?thesis
    using assms map_key_update [OF assms(2)]
    by (simp add: wfShape_def slotOf_update split: option.splits)
qed

section \<open>Removing a slot\<close>

lemma dropSlot_nth: "n < length xs \<Longrightarrow> i < length (dropSlot n xs) \<Longrightarrow> dropSlot n xs ! i = (if i < n then xs ! i else xs ! Suc i)"
  by (auto simp: dropSlot_def nth_append min_def)

lemma dropSlot_length: "n < length xs \<Longrightarrow> length (dropSlot n xs) = length xs - 1"
  by (simp add: dropSlot_def)

lemma map_dropSlot: "map f (dropSlot n xs) = dropSlot n (map f xs)"
  by (simp add: dropSlot_def take_map drop_map)

lemma removeFold_slot:
  assumes "distinct (map spKey props)" "slot \<le> n" "n \<le> length props"
  shows "foldl (\<lambda>m i. m(spKey (props ! i) \<mapsto> i)) m0 [slot..<n] k = Some i \<longleftrightarrow>
    (if \<exists>j. slot \<le> j \<and> j < n \<and> spKey (props ! j) = k then slot \<le> i \<and> i < n \<and> spKey (props ! i) = k
     else m0 k = Some i)"
  using assms(2,3)
proof (induction n arbitrary: i rule: dec_induct)
  case base
  have n: "\<not> (\<exists>j. slot \<le> j \<and> j < slot \<and> spKey (props ! j) = k)" by auto
  show ?case unfolding if_not_P [OF n] by simp
next
  case (step q)
  have ih: "foldl (\<lambda>m i. m(spKey (props ! i) \<mapsto> i)) m0 [slot..<q] k = Some i \<longleftrightarrow>
      (if \<exists>j. slot \<le> j \<and> j < q \<and> spKey (props ! j) = k then slot \<le> i \<and> i < q \<and> spKey (props ! i) = k
       else m0 k = Some i)" by (rule step.IH) (use step.prems in simp)
  have u: "spKey (props ! j) = spKey (props ! q) \<Longrightarrow> j < Suc q \<Longrightarrow> j = q" for j
    using nth_eq_iff_index_eq [OF assms(1), of j q] step.prems by simp
  have s: "foldl (\<lambda>m i. m(spKey (props ! i) \<mapsto> i)) m0 [slot..<Suc q] k =
      (if k = spKey (props ! q) then Some q else foldl (\<lambda>m i. m(spKey (props ! i) \<mapsto> i)) m0 [slot..<q] k)"
    using step.hyps(1) by simp
  show ?case
  proof (cases "spKey (props ! q) = k")
    case True
    then have "\<exists>j. slot \<le> j \<and> j < Suc q \<and> spKey (props ! j) = k" using step.hyps(1) by blast
    with True u [of i] step.hyps(1) show ?thesis unfolding s by auto
  next
    case False
    then have "(\<exists>j. slot \<le> j \<and> j < Suc q \<and> spKey (props ! j) = k) \<longleftrightarrow>
        (\<exists>j. slot \<le> j \<and> j < q \<and> spKey (props ! j) = k)" by (metis less_Suc_eq)
    moreover have "slot \<le> i \<and> i < Suc q \<and> spKey (props ! i) = k \<longleftrightarrow> slot \<le> i \<and> i < q \<and> spKey (props ! i) = k"
      using False by (metis less_Suc_eq)
    moreover have "k \<noteq> spKey (props ! q)" using False by simp
    ultimately show ?thesis unfolding s by (simp only: ih if_False)
  qed
qed

lemma wf_remove:
  assumes "wfShape s" "slot < length (shProps s)"
  shows "wfShape (removeProp s slot)"
proof -
  define ps where "ps = shProps s"
  define qs where "qs = dropSlot slot ps"
  have d: "distinct (map spKey ps)" "list_all canonicalKey (map spKey ps)" using assms by (auto simp: wfShape_def ps_def)
  have l: "slot < length ps" "length qs = length ps - 1"
    using assms(2) by (simp_all add: ps_def qs_def dropSlot_length)
  have dq: "distinct (map spKey qs)"
    unfolding qs_def map_dropSlot unfolding dropSlot_def distinct_append
    using d(1) by (simp add: set_take_disj_set_drop_if_distinct)
  have cq: "list_all canonicalKey (map spKey qs)"
    using d(2) by (auto simp: qs_def dropSlot_def list_all_iff dest: in_set_takeD in_set_dropD)
  have nth: "i < length qs \<Longrightarrow> qs ! i = (if i < slot then ps ! i else ps ! Suc i)" for i
    unfolding qs_def by (rule dropSlot_nth) (use l in \<open>simp_all add: qs_def\<close>)
  show ?thesis
  proof (cases "shIndex s")
    case None
    then show ?thesis using assms(1) cq dq l(2)
      by (simp add: wfShape_def removeProp_def Let_def ps_def [symmetric] qs_def [symmetric] list_all_iff le_diff_conv)
  next
    case (Some m)
    have m: "m k = Some i \<longleftrightarrow> slotOf ps k i" for k i using assms(1) Some by (simp add: wfShape_def ps_def)
    have "foldl (\<lambda>m i. m(spKey (qs ! i) \<mapsto> i)) (m(spKey (ps ! slot) := None)) [slot..<length qs] k = Some i \<longleftrightarrow>
        slotOf qs k i" for k i
    proof (cases "\<exists>j. slot \<le> j \<and> j < length qs \<and> spKey (qs ! j) = k")
      case True
      then obtain j where j: "slot \<le> j" "j < length qs" "spKey (qs ! j) = k" by blast
      have "slotOf qs k i \<Longrightarrow> i = j" using j dq slot_unique [of qs k i j] by (simp add: slotOf_def)
      with True j l show ?thesis by (subst removeFold_slot [OF dq]) (auto simp: slotOf_def)
    next
      case False
      have "(m(spKey (ps ! slot) := None)) k = Some i \<longleftrightarrow> slotOf qs k i"
      proof
        assume a: "(m(spKey (ps ! slot) := None)) k = Some i"
        then have k: "k \<noteq> spKey (ps ! slot)" "i < length ps" "spKey (ps ! i) = k" using m by (auto simp: slotOf_def split: if_splits)
        then have "i \<noteq> slot" by auto
        show "slotOf qs k i"
        proof (cases "i < slot")
          case True
          with k l nth [of i] show ?thesis by (simp add: slotOf_def)
        next
          case f: False
          then have i: "slot \<le> i - 1" "i - 1 < length qs" "Suc (i - 1) = i"
            using \<open>i \<noteq> slot\<close> k(2) l(2) by linarith+
          then have "spKey (qs ! (i - 1)) = k" using nth [of "i - 1"] k(3) by simp
          with i(1,2) False show ?thesis by blast
        qed
      next
        assume a: "slotOf qs k i"
        then have "i < length qs" "spKey (qs ! i) = k" by (simp_all add: slotOf_def)
        with False have "\<not> slot \<le> i" by blast
        then have "i < slot" by simp
        with a nth [of i] l have "spKey (ps ! i) = k" "i < length ps" by (auto simp: slotOf_def)
        moreover have "k \<noteq> spKey (ps ! slot)" using d(1) calculation l \<open>i < slot\<close> by (auto simp: distinct_conv_nth)
        ultimately show "(m(spKey (ps ! slot) := None)) k = Some i" using m by (simp add: slotOf_def)
      qed
      with False l show ?thesis by (subst removeFold_slot [OF dq]) auto
    qed
    with Some cq dq show ?thesis
      by (simp add: wfShape_def removeProp_def Let_def ps_def [symmetric] qs_def [symmetric])
  qed
qed

end
