(* ===== verification/Objects.thy ===== *)
theory Objects
  imports Shapes
begin

text \<open>
  Ordinary objects over hidden classes (\<open>internal/engine/object.go\<close>): the slots of an object, its
  own properties, and the objects of a runtime. Of a proxy the model has that it is one.

  A method of an object takes the shape store and the object and returns both. \<open>force\<close> stands for
  \<open>forceSlot\<close> of the lazily parsed JSON documents (\<open>json_lazy.go\<close>): given the object, the slot
  and the unparsed span it returns the object with the value in place, and the value.
\<close>

record jsObject =
  oShape :: "nat option"
  oInobj :: "u64 list"
  oOverflow :: "u64 list"
  oExtensible :: bool
  oUsedAsProto :: bool
  oImmutableProto :: bool
  oIsProxy :: bool
  oProto :: u64

type_synonym forceFun = "jsObject \<Rightarrow> nat \<Rightarrow> u64 \<Rightarrow> jsObject \<times> u64"

abbreviation shapeOf :: "heap \<Rightarrow> jsObject \<Rightarrow> shape option" where
  "shapeOf h obj \<equiv> deref h (oShape obj)"

definition inobjLimit :: "heap \<Rightarrow> jsObject \<Rightarrow> nat" where
  "inobjLimit h obj = getInobjLimit (shapeOf h obj)"

definition slotGetRaw :: "heap \<Rightarrow> jsObject \<Rightarrow> nat \<Rightarrow> u64" where
  "slotGetRaw h obj slot =
     (let limit = inobjLimit h obj
      in if slot < limit then oInobj obj ! slot
         else let idx = slot - limit
              in if idx < length (oOverflow obj) then oOverflow obj ! idx else mkundef)"

definition slotGet :: "forceFun \<Rightarrow> heap \<Rightarrow> jsObject \<Rightarrow> nat \<Rightarrow> jsObject \<times> u64" where
  "slotGet force h obj slot =
     (let limit = inobjLimit h obj
      in if \<not> slot < limit \<and> \<not> slot - limit < length (oOverflow obj) then (obj, mkundef)
         else let v = (if slot < limit then oInobj obj ! slot else oOverflow obj ! (slot - limit))
              in if isLazy v then force obj slot v else (obj, v))"

definition slotSet :: "heap \<Rightarrow> jsObject \<Rightarrow> nat \<Rightarrow> u64 \<Rightarrow> jsObject" where
  "slotSet h obj slot v =
     (let limit = inobjLimit h obj
      in if slot < limit then obj\<lparr>oInobj := (oInobj obj)[slot := v]\<rparr>
         else let idx = slot - limit;
                  ov = oOverflow obj @ replicate (idx + 1 - length (oOverflow obj)) mkundef
              in obj\<lparr>oOverflow := ov[idx := v]\<rparr>)"

definition noteLayoutChange :: "heap \<Rightarrow> jsObject \<Rightarrow> heap" where
  "noteLayoutChange h obj = (if oUsedAsProto obj then icEpochBump h else h)"

definition ensureUniqueShape :: "heap \<Rightarrow> jsObject \<Rightarrow> heap \<times> jsObject" where
  "ensureUniqueShape h obj =
     (case oShape obj of
        None \<Rightarrow> (h, obj)
      | Some a \<Rightarrow>
          if isInTree (shapeOf h obj)
          then (let (h', n) = clone (release h (Some a)) a in (h', obj\<lparr>oShape := Some n\<rparr>))
          else (h, obj))"

definition getOwnKey :: "forceFun \<Rightarrow> heap \<Rightarrow> jsObject \<Rightarrow> propKey \<Rightarrow> jsObject \<times> u64 \<times> bool" where
  "getOwnKey force h obj key =
     (case lookup (shapeOf h obj) key of
        None \<Rightarrow> (obj, mkundef, False)
      | Some slot \<Rightarrow> (case slotGet force h obj slot of (obj', v) \<Rightarrow> (obj', v, True)))"

definition getOwn :: "forceFun \<Rightarrow> heap \<Rightarrow> jsObject \<Rightarrow> string \<Rightarrow> jsObject \<times> u64 \<times> bool" where
  "getOwn force h obj key = getOwnKey force h obj (strKey key)"

definition getOwnSymbol :: "forceFun \<Rightarrow> heap \<Rightarrow> jsObject \<Rightarrow> u32 \<Rightarrow> jsObject \<times> u64 \<times> bool" where
  "getOwnSymbol force h obj off = getOwnKey force h obj (symKey off)"

definition hasOwn :: "heap \<Rightarrow> jsObject \<Rightarrow> string \<Rightarrow> bool" where
  "hasOwn h obj key \<longleftrightarrow> lookupInterned (shapeOf h obj) key \<noteq> None"

text \<open>Writing through the pointer that \<open>propAt\<close> returns.\<close>

definition stampProp :: "heap \<Rightarrow> jsObject \<Rightarrow> nat \<Rightarrow> (shapeProp \<Rightarrow> shapeProp) \<Rightarrow> heap" where
  "stampProp h obj slot f =
     (case (oShape obj, propAt (shapeOf h obj) slot) of
        (Some a, Some p) \<Rightarrow>
          setShape h a ((hpShape h a)\<lparr>shProps := (shProps (hpShape h a))[slot := f p]\<rparr>)
      | _ \<Rightarrow> h)"

definition isAccessorSlot :: "heap \<Rightarrow> jsObject \<Rightarrow> nat \<Rightarrow> bool" where
  "isAccessorSlot h obj slot \<longleftrightarrow>
     (case propAt (shapeOf h obj) slot of None \<Rightarrow> False | Some p \<Rightarrow> spAccessor p)"

definition asData :: "shapeProp \<Rightarrow> shapeProp" where
  "asData p = p\<lparr>spAccessor := False, spHasGetter := False, spHasSetter := False,
     spGetter := mkundef, spSetter := mkundef\<rparr>"

definition asAccessor :: "u64 \<Rightarrow> u64 \<Rightarrow> bool \<Rightarrow> bool \<Rightarrow> shapeProp \<Rightarrow> shapeProp" where
  "asAccessor getter setter hasGet hasSet p = p\<lparr>spAccessor := True, spHasGetter := hasGet,
     spHasSetter := hasSet, spGetter := getter, spSetter := setter\<rparr>"

text \<open>What \<open>defineOwn\<close> and \<open>defineOwnSymbol\<close> do once the slot is there, and likewise the accessors.\<close>

definition defineDataAt :: "heap \<times> nat option \<times> nat option \<Rightarrow> jsObject \<Rightarrow> u64 \<Rightarrow> heap \<times> jsObject \<times> bool" where
  "defineDataAt added obj0 v =
     (case added of
        (h, p, None) \<Rightarrow> (h, obj0\<lparr>oShape := p\<rparr>, False)
      | (h, p, Some slot) \<Rightarrow>
          (let obj = obj0\<lparr>oShape := p\<rparr>;
               (h1, obj1) = (if isAccessorSlot h obj slot
                             then (let (h', obj') = ensureUniqueShape h obj
                                   in (stampProp h' obj' slot asData, obj'))
                             else (h, obj));
               obj2 = slotSet h1 obj1 slot v
           in (noteLayoutChange h1 obj2, obj2, True)))"

definition defineAccessorAt ::
  "heap \<times> nat option \<times> nat option \<Rightarrow> jsObject \<Rightarrow> u64 \<Rightarrow> u64 \<Rightarrow> bool \<Rightarrow> bool \<Rightarrow> heap \<times> jsObject \<times> bool" where
  "defineAccessorAt added obj0 getter setter hasGet hasSet =
     (case added of
        (h, p, None) \<Rightarrow> (h, obj0\<lparr>oShape := p\<rparr>, False)
      | (h, p, Some slot) \<Rightarrow>
          (let (h', obj1) = ensureUniqueShape h (obj0\<lparr>oShape := p\<rparr>);
               h1 = stampProp h' obj1 slot (asAccessor getter setter hasGet hasSet);
               obj2 = slotSet h1 obj1 slot mkundef
           in (noteLayoutChange h1 obj2, obj2, True)))"

definition defineOwn :: "heap \<Rightarrow> jsObject \<Rightarrow> string \<Rightarrow> u64 \<Rightarrow> u8 \<Rightarrow> heap \<times> jsObject \<times> bool" where
  "defineOwn h obj key v attrs = defineDataAt (addInternedTr h (oShape obj) key attrs) obj v"

definition defineOwnSymbol :: "heap \<Rightarrow> jsObject \<Rightarrow> u32 \<Rightarrow> u64 \<Rightarrow> u8 \<Rightarrow> heap \<times> jsObject \<times> bool" where
  "defineOwnSymbol h obj off v attrs = defineDataAt (addSymbolTr h (oShape obj) off attrs) obj v"

definition defineAccessor ::
  "heap \<Rightarrow> jsObject \<Rightarrow> string \<Rightarrow> u64 \<Rightarrow> u64 \<Rightarrow> bool \<Rightarrow> bool \<Rightarrow> u8 \<Rightarrow> heap \<times> jsObject \<times> bool" where
  "defineAccessor h obj key getter setter hasGet hasSet attrs =
     defineAccessorAt (addInternedTr h (oShape obj) key attrs) obj getter setter hasGet hasSet"

definition defineAccessorSymbol ::
  "heap \<Rightarrow> jsObject \<Rightarrow> u32 \<Rightarrow> u64 \<Rightarrow> u64 \<Rightarrow> bool \<Rightarrow> bool \<Rightarrow> u8 \<Rightarrow> heap \<times> jsObject \<times> bool" where
  "defineAccessorSymbol h obj off getter setter hasGet hasSet attrs =
     defineAccessorAt (addSymbolTr h (oShape obj) off attrs) obj getter setter hasGet hasSet"

definition setOwn :: "heap \<Rightarrow> jsObject \<Rightarrow> string \<Rightarrow> u64 \<Rightarrow> heap \<times> jsObject \<times> bool" where
  "setOwn h obj key v =
     (case lookupInterned (shapeOf h obj) key of
        Some slot \<Rightarrow>
          if attrsAt (shapeOf h obj) slot AND attrWritable = 0 then (h, obj, False)
          else (h, slotSet h obj slot v, True)
      | None \<Rightarrow> if \<not> oExtensible obj then (h, obj, False) else defineOwn h obj key v attrDefault)"

text \<open>The first loop of \<open>deleteSlot\<close> reads the values behind the slot, the second writes them back one lower.\<close>

fun readSlots :: "forceFun \<Rightarrow> heap \<Rightarrow> jsObject \<Rightarrow> nat list \<Rightarrow> jsObject \<times> u64 list" where
  "readSlots force h obj [] = (obj, [])"
| "readSlots force h obj (i # is) =
     (let (obj1, v) = slotGet force h obj i; (obj2, vs) = readSlots force h obj1 is in (obj2, v # vs))"

fun writeSlots :: "heap \<Rightarrow> jsObject \<Rightarrow> nat \<Rightarrow> u64 list \<Rightarrow> jsObject" where
  "writeSlots h obj slot [] = obj"
| "writeSlots h obj slot (v # vs) = writeSlots h (slotSet h obj slot v) (slot + 1) vs"

fun deleteSlot :: "forceFun \<Rightarrow> heap \<Rightarrow> jsObject \<Rightarrow> nat option \<Rightarrow> heap \<times> jsObject \<times> bool" where
  "deleteSlot force h obj None = (h, obj, True)"
| "deleteSlot force h obj (Some slot) =
     (if attrsAt (shapeOf h obj) slot AND attrConfigurable = 0 then (h, obj, False)
      else
        (let (h1, obj1) = ensureUniqueShape h obj;
             n = countProps (shapeOf h1 obj1);
             (obj2, tail) = readSlots force h1 obj1 [slot + 1..<n]
         in case removeSlot h1 (oShape obj2) slot of
              (h2, False) \<Rightarrow> (h2, obj2, False)
            | (h2, True) \<Rightarrow>
                (let obj3 = writeSlots h2 obj2 slot tail in (noteLayoutChange h2 obj3, obj3, True))))"

definition deleteOwn :: "forceFun \<Rightarrow> heap \<Rightarrow> jsObject \<Rightarrow> string \<Rightarrow> heap \<times> jsObject \<times> bool" where
  "deleteOwn force h obj key = deleteSlot force h obj (lookupInterned (shapeOf h obj) key)"

definition deleteOwnSymbol :: "forceFun \<Rightarrow> heap \<Rightarrow> jsObject \<Rightarrow> u32 \<Rightarrow> heap \<times> jsObject \<times> bool" where
  "deleteOwnSymbol force h obj off = deleteSlot force h obj (lookupSymbol (shapeOf h obj) off)"

definition setAttrsOwn :: "heap \<Rightarrow> jsObject \<Rightarrow> string \<Rightarrow> u8 \<Rightarrow> heap \<times> jsObject" where
  "setAttrsOwn h obj key attrs =
     (let (h1, obj1) = ensureUniqueShape h obj;
          (h2, b) = setAttrs h1 (oShape obj1) (strKey key) attrs
      in (noteLayoutChange h2 obj1, obj1))"

section \<open>Own keys\<close>

text \<open>\<open>canonicalIndex\<close> (\<open>elements.go\<close>): the array index a name is the decimal text of.\<close>

fun digitsFold :: "nat \<Rightarrow> string \<Rightarrow> nat option" where
  "digitsFold n [] = Some n"
| "digitsFold n (c # cs) = (if is_digit c then digitsFold (n * 10 + digit_val c) cs else None)"

definition canonicalIndex :: "string \<Rightarrow> u32 option" where
  "canonicalIndex s =
     (if s = [] \<or> 10 < length s \<or> (1 < length s \<and> hd s = CHR ''0'') then None
      else case digitsFold 0 s of
             None \<Rightarrow> None
           | Some n \<Rightarrow> if 0xFFFFFFFF \<le> n then None else Some (of_nat n))"

definition indexOfKey :: "string \<Rightarrow> u32" where
  "indexOfKey k = (case canonicalIndex k of Some n \<Rightarrow> n | None \<Rightarrow> 0)"

definition orderOwnKeys :: "string list \<Rightarrow> string list" where
  "orderOwnKeys keys =
     (if \<not> list_ex (\<lambda>k. canonicalIndex k \<noteq> None) keys then keys
      else sort_key indexOfKey (filter (\<lambda>k. canonicalIndex k \<noteq> None) keys) @
           filter (\<lambda>k. canonicalIndex k = None) keys)"

definition propsOf :: "heap \<Rightarrow> jsObject \<Rightarrow> shapeProp list" where
  "propsOf h obj = (case shapeOf h obj of None \<Rightarrow> [] | Some s \<Rightarrow> shProps s)"

definition ownKeys :: "heap \<Rightarrow> jsObject \<Rightarrow> string list" where
  "ownKeys h obj =
     orderOwnKeys (map (\<lambda>p. pkStr (spKey p)) (filter (\<lambda>p. \<not> pkSym (spKey p)) (propsOf h obj)))"

definition ownKeysEnumerable :: "heap \<Rightarrow> jsObject \<Rightarrow> string list" where
  "ownKeysEnumerable h obj =
     orderOwnKeys (map (\<lambda>p. pkStr (spKey p))
       (filter (\<lambda>p. \<not> pkSym (spKey p) \<and> spAttrs p AND attrEnumerable \<noteq> 0) (propsOf h obj)))"

definition ownKeysForIn :: "heap \<Rightarrow> jsObject \<Rightarrow> string list \<times> (string \<Rightarrow> bool option)" where
  "ownKeysForIn h obj =
     (ownKeys h obj,
      foldl (\<lambda>m p. if pkSym (spKey p) then m else m(pkStr (spKey p) \<mapsto> spAttrs p AND attrEnumerable \<noteq> 0))
        Map.empty (propsOf h obj))"

definition ownSymbolKeys :: "heap \<Rightarrow> jsObject \<Rightarrow> u32 list" where
  "ownSymbolKeys h obj = map (\<lambda>p. pkOff (spKey p)) (filter (\<lambda>p. pkSym (spKey p)) (propsOf h obj))"

record ownDesc =
  odExists :: bool
  odIsAccessor :: bool
  odValue :: u64
  odGetter :: u64
  odSetter :: u64
  odWritable :: bool
  odEnumerable :: bool
  odConfigable :: bool

definition noDesc :: ownDesc where
  "noDesc = \<lparr>odExists = False, odIsAccessor = False, odValue = 0, odGetter = 0, odSetter = 0,
     odWritable = False, odEnumerable = False, odConfigable = False\<rparr>"

definition ownDescriptorSym :: "forceFun \<Rightarrow> heap \<Rightarrow> jsObject \<Rightarrow> u32 \<Rightarrow> jsObject \<times> ownDesc" where
  "ownDescriptorSym force h obj off =
     (case lookupSymbol (shapeOf h obj) off of
        None \<Rightarrow> (obj, noDesc)
      | Some slot \<Rightarrow>
          (let attrs = attrsAt (shapeOf h obj) slot;
               d = noDesc\<lparr>odExists := True, odWritable := (attrs AND attrWritable \<noteq> 0),
                     odEnumerable := (attrs AND attrEnumerable \<noteq> 0),
                     odConfigable := (attrs AND attrConfigurable \<noteq> 0)\<rparr>
           in case propAt (shapeOf h obj) slot of
                Some p \<Rightarrow>
                  if spAccessor p
                  then (obj, d\<lparr>odIsAccessor := True,
                               odGetter := (if spHasGetter p then spGetter p else mkundef),
                               odSetter := (if spHasSetter p then spSetter p else mkundef)\<rparr>)
                  else (let (obj', v) = slotGet force h obj slot in (obj', d\<lparr>odValue := v\<rparr>))
              | None \<Rightarrow> (let (obj', v) = slotGet force h obj slot in (obj', d\<lparr>odValue := v\<rparr>))))"

section \<open>The objects of a runtime\<close>

record runtime =
  rtHeap :: heap
  rtObjs :: "nat \<Rightarrow> jsObject"
  rtNext :: nat

definition newObject :: "runtime \<Rightarrow> u64 \<Rightarrow> runtime \<times> nat" where
  "newObject rt proto =
     (let (h, a) = newShape (rtHeap rt);
          obj = \<lparr>oShape = Some a, oInobj = replicate inobjMaxSlots 0, oOverflow = [],
                 oExtensible = True, oUsedAsProto = False, oImmutableProto = False, oIsProxy = False,
                 oProto = proto\<rparr>
      in (rt\<lparr>rtHeap := h, rtObjs := (rtObjs rt)(rtNext rt := obj), rtNext := rtNext rt + 1\<rparr>, rtNext rt))"

text \<open>
  \<open>objPtr\<close> without its translation cache: the object of an object value, nil for any other value and
  for a handle that names no cell. A handle is the number of the object here.
\<close>

definition objPtr :: "runtime \<Rightarrow> u64 \<Rightarrow> nat option" where
  "objPtr rt v =
     (if \<not> IsObjectType v \<and> valueType v \<noteq> TTypedArray then None
      else let n = unat (handle v) in if 0 < n \<and> n < rtNext rt then Some n else None)"

definition maxProtoChainDepth :: nat where "maxProtoChainDepth = 256"

fun resolveFrom :: "nat \<Rightarrow> runtime \<Rightarrow> u64 \<Rightarrow> string \<Rightarrow> (nat \<times> nat) option" where
  "resolveFrom 0 rt cur key = None"
| "resolveFrom (Suc n) rt cur key =
     (case objPtr rt cur of
        None \<Rightarrow> None
      | Some i \<Rightarrow>
          (case lookupInterned (shapeOf (rtHeap rt) (rtObjs rt i)) key of
             Some slot \<Rightarrow> Some (i, slot)
           | None \<Rightarrow> resolveFrom n rt (oProto (rtObjs rt i)) key))"

definition resolveProp :: "runtime \<Rightarrow> u64 \<Rightarrow> string \<Rightarrow> (nat \<times> nat) option" where
  "resolveProp rt start key = resolveFrom maxProtoChainDepth rt start key"

definition getProp :: "forceFun \<Rightarrow> runtime \<Rightarrow> u64 \<Rightarrow> string \<Rightarrow> runtime \<times> u64 \<times> bool" where
  "getProp force rt obj key =
     (case resolveProp rt obj key of
        None \<Rightarrow> (rt, mkundef, False)
      | Some (i, slot) \<Rightarrow>
          (case slotGet force (rtHeap rt) (rtObjs rt i) slot of
             (obj', v) \<Rightarrow> (rt\<lparr>rtObjs := (rtObjs rt)(i := obj')\<rparr>, v, True)))"

text \<open>Running a method of an object of the runtime.\<close>

definition onObject :: "(heap \<Rightarrow> jsObject \<Rightarrow> heap \<times> jsObject \<times> 'a) \<Rightarrow> runtime \<Rightarrow> nat \<Rightarrow> runtime \<times> 'a" where
  "onObject f rt i =
     (case f (rtHeap rt) (rtObjs rt i) of
        (h, obj, r) \<Rightarrow> (rt\<lparr>rtHeap := h, rtObjs := (rtObjs rt)(i := obj)\<rparr>, r))"

end
