(* ===== verification/Shapes_Laws.thy ===== *)
theory Shapes_Laws
  imports Shapes
begin

text \<open>
  The shape store as the objects of a runtime see it. \<open>heapInv\<close> is the invariant of the store: \<open>U\<close>
  counts the objects that point at each shape. A shape of the transition tree (a root, or a shape with
  a parent) may be shared and is never changed; any other shape belongs to one object at most. Each
  operation keeps the invariant, does to the properties of its own object what its name says, and
  leaves the properties of every other shape alone.
\<close>

definition withKey :: "shapeProp list \<Rightarrow> propKey \<Rightarrow> u8 \<Rightarrow> shapeProp list" where
  "withKey ps key attrs =
     (case findKey ps key of
        Some slot \<Rightarrow> ps[slot := (ps ! slot)\<lparr>spAttrs := attrs\<rparr>]
      | None \<Rightarrow> ps @ [newProp key attrs])"

definition isRoot :: "heap \<Rightarrow> nat \<Rightarrow> bool" where
  "isRoot h a \<longleftrightarrow> (\<exists>c. hpRoots h c = Some a)"

definition inTree :: "heap \<Rightarrow> nat \<Rightarrow> bool" where
  "inTree h a \<longleftrightarrow> isRoot h a \<or> shParent (hpShape h a) \<noteq> None"

abbreviation propsAt :: "heap \<Rightarrow> nat \<Rightarrow> shapeProp list" where
  "propsAt h a \<equiv> shProps (hpShape h a)"

abbreviation limitAt :: "heap \<Rightarrow> nat \<Rightarrow> nat" where
  "limitAt h a \<equiv> clampInobjLimit (shInobjLimit (hpShape h a))"

definition edgeOk :: "heap \<Rightarrow> nat \<Rightarrow> childKey \<Rightarrow> nat \<Rightarrow> bool" where
  "edgeOk h a ck b \<longleftrightarrow> b < hpNext h \<and> shParent (hpShape h b) \<noteq> None \<and> \<not> isRoot h b \<and>
     propsAt h b = withKey (propsAt h a) (fst ck) (snd ck) \<and> limitAt h b = limitAt h a"

definition nodeOk :: "heap \<Rightarrow> nat \<Rightarrow> bool" where
  "nodeOk h a \<longleftrightarrow>
     wfShape (hpShape h a) \<and>
     (\<forall>ck b. shChildren (hpShape h a) ck = Some b \<longrightarrow> inTree h a \<and> edgeOk h a ck b) \<and>
     (\<forall>b. shTrChild (hpShape h a) = Some b \<longrightarrow> shChildren (hpShape h a) (shTrKey (hpShape h a)) = Some b \<and>
        slotOf (propsAt h b) (fst (shTrKey (hpShape h a))) (shTrSlot (hpShape h a)))"

definition heapInv :: "heap \<Rightarrow> (nat \<Rightarrow> nat) \<Rightarrow> bool" where
  "heapInv h U \<longleftrightarrow>
     (\<forall>a < hpNext h. nodeOk h a) \<and>
     (\<forall>a. isRoot h a \<longrightarrow> a < hpNext h \<and> shParent (hpShape h a) = None \<and> U a < unat (shRefCount (hpShape h a))) \<and>
     (\<forall>a < hpNext h. \<not> inTree h a \<longrightarrow> U a \<le> 1 \<and> shRefCount (hpShape h a) = 1) \<and>
     (\<forall>a. hpNext h \<le> a \<longrightarrow> U a = 0)"

text \<open>What an operation on one object may change.\<close>

definition moveUser :: "(nat \<Rightarrow> nat) \<Rightarrow> nat \<Rightarrow> nat \<Rightarrow> nat \<Rightarrow> nat" where
  "moveUser U a b = (U(a := U a - 1))(b := (U(a := U a - 1)) b + 1)"

definition rootsLe :: "heap \<Rightarrow> heap \<Rightarrow> bool" where
  "rootsLe h h' \<longleftrightarrow> hpRoots h' = hpRoots h \<and>
     (\<forall>x. isRoot h x \<longrightarrow> shRefCount (hpShape h' x) \<le> shRefCount (hpShape h x) \<and>
        propsAt h' x = propsAt h x \<and> limitAt h' x = limitAt h x)"

definition framed :: "heap \<Rightarrow> heap \<Rightarrow> nat \<Rightarrow> bool" where
  "framed h h' a \<longleftrightarrow> hpNext h \<le> hpNext h' \<and> rootsLe h h' \<and>
     (\<forall>b < hpNext h. b \<noteq> a \<or> inTree h a \<longrightarrow> propsAt h' b = propsAt h b \<and> limitAt h' b = limitAt h b)"

lemma rootsLe_trans: "rootsLe h h1 \<Longrightarrow> rootsLe h1 h2 \<Longrightarrow> rootsLe h h2"
  by (auto simp: rootsLe_def isRoot_def intro: order_trans)

lemma moveUser_same: "1 \<le> U a \<Longrightarrow> moveUser U a a = U"
  by (auto simp: moveUser_def fun_eq_iff)

lemma wf_cong: "shProps s = shProps t \<Longrightarrow> shIndex s = shIndex t \<Longrightarrow> wfShape s \<longleftrightarrow> wfShape t"
  by (simp add: wfShape_def split: option.split)

lemma isInTree_iff:
  assumes "heapInv h U" "1 \<le> U a"
  shows "isInTree (Some (hpShape h a)) \<longleftrightarrow> inTree h a"
proof (cases "inTree h a")
  case True
  have "1 < shRefCount (hpShape h a) \<or> shParent (hpShape h a) \<noteq> None"
  proof (cases "isRoot h a")
    case True
    then have "1 < unat (shRefCount (hpShape h a))" using assms by (auto simp: heapInv_def)
    then show ?thesis by (simp add: word_less_nat_alt)
  next
    case False
    with True show ?thesis by (simp add: inTree_def)
  qed
  with True show ?thesis by (simp add: isInTree_def)
next
  case False
  moreover have "a < hpNext h" using assms by (auto simp: heapInv_def not_less [symmetric])
  ultimately show ?thesis using assms by (auto simp: isInTree_def heapInv_def inTree_def)
qed

lemma withKey_slot:
  assumes "list_all canonicalKey (map spKey ps)" "distinct (map spKey ps)" "canonicalKey key"
  shows "\<exists>slot. slotOf (withKey ps key attrs) key slot"
    and "map spKey (withKey ps key attrs) = map spKey ps \<or>
      key \<notin> spKey ` set ps \<and> map spKey (withKey ps key attrs) = map spKey ps @ [key]"
proof -
  show "\<exists>slot. slotOf (withKey ps key attrs) key slot"
  proof (cases "findKey ps key")
    case None
    then show ?thesis by (auto simp: withKey_def slotOf_append newProp_def)
  next
    case (Some s)
    then have "slotOf ps key s" using findKey_slot [OF assms] by simp
    then have "slotOf (ps[s := (ps ! s)\<lparr>spAttrs := attrs\<rparr>]) key s" by (subst slotOf_update) simp_all
    with Some show ?thesis by (auto simp: withKey_def)
  qed
  show "map spKey (withKey ps key attrs) = map spKey ps \<or>
      key \<notin> spKey ` set ps \<and> map spKey (withKey ps key attrs) = map spKey ps @ [key]"
  proof (cases "findKey ps key")
    case None
    then have "\<not> (\<exists>i. slotOf ps key i)" using findKey_slot [OF assms] by simp
    then show ?thesis using None slotOf_ex [of ps key] by (simp add: withKey_def newProp_def)
  next
    case (Some s)
    then show ?thesis using map_key_update [of "(ps ! s)\<lparr>spAttrs := attrs\<rparr>" ps s] by (simp add: withKey_def)
  qed
qed

text \<open>\<open>addKey\<close> on one shape.\<close>

lemma addKey_shape:
  assumes "wfShape (hpShape h a)" "canonicalKey key"
  obtains s slot e where "addKey h (Some a) key attrs = (setShape h a s\<lparr>hpEpoch := e\<rparr>, Some slot)"
    "wfShape s" "shProps s = withKey (propsAt h a) key attrs" "slotOf (shProps s) key slot"
    "shRefCount s = shRefCount (hpShape h a)" "shInobjLimit s = shInobjLimit (hpShape h a)"
    "shParent s = shParent (hpShape h a)" "shChildren s = shChildren (hpShape h a)"
    "shTrChild s = shTrChild (hpShape h a)" "shTrKey s = shTrKey (hpShape h a)" "shTrSlot s = shTrSlot (hpShape h a)"
proof -
  define s0 where "s0 = hpShape h a"
  have w: "list_all canonicalKey (map spKey (shProps s0))" "distinct (map spKey (shProps s0))"
    using assms(1) by (auto simp: wfShape_def s0_def)
  have f: "lookup (Some s0) key = findKey (shProps s0) key"
    using lookup_slot [OF assms(1) assms(2), folded s0_def] findKey_slot [OF w assms(2)]
    by (metis not_None_eq)
  show thesis
  proof (cases "findKey (shProps s0) key")
    case None
    then have n: "key \<notin> spKey ` set (shProps s0)" using f lookup_none [OF assms(1,2)] by (simp add: s0_def)
    show thesis
    proof (rule that [of "hpEpoch h" "appendProp s0 (newProp key attrs)" "length (shProps s0)"])
      show "addKey h (Some a) key attrs =
          (setShape h a (appendProp s0 (newProp key attrs))\<lparr>hpEpoch := hpEpoch h\<rparr>, Some (length (shProps s0)))"
        using None f by (simp add: s0_def setShape_def Let_def addKey.simps)
      show "wfShape (appendProp s0 (newProp key attrs))"
        using assms n by (intro wf_append) (simp_all add: s0_def newProp_def)
    qed (use None in \<open>simp_all add: append_fields withKey_def slotOf_append newProp_def s0_def\<close>)
  next
    case (Some i)
    define s where "s = s0\<lparr>shProps := (shProps s0)[i := (shProps s0 ! i)\<lparr>spAttrs := attrs\<rparr>]\<rparr>"
    have k: "slotOf (shProps s0) key i" using Some findKey_slot [OF w assms(2)] by simp
    have eq: "addKey h (Some a) key attrs = (icEpochBump (setShape h a s), Some i)"
      using Some f by (simp add: s_def s0_def [symmetric] Let_def addKey.simps)
    obtain e where e: "icEpochBump (setShape h a s) = setShape h a s\<lparr>hpEpoch := e\<rparr>"
      by (simp add: icEpochBump_def Let_def) metis
    show thesis
    proof (rule that [of e s i])
      show "wfShape s" unfolding s_def by (rule wf_update) (simp_all add: assms(1) s0_def)
      show "slotOf (shProps s) key i" using k by (simp add: s_def slotOf_update)
    qed (use Some eq e in \<open>simp_all add: s_def withKey_def s0_def\<close>)
  qed
qed

text \<open>What \<open>makeTransition\<close> leaves in the store.\<close>

lemma makeTransition_store:
  assumes a: "a < hpNext h" and new: "shChildren (hpShape h a) (key, attrs) = None"
    and wf: "wfShape (hpShape h a)" "canonicalKey key" and b: "b = hpNext h" and s: "s = hpShape h a"
  obtains bs e slot where
    "makeTransition h a key attrs =
      (h\<lparr>hpShape := (hpShape h)(a := s\<lparr>shRefCount := (if 0 < shRefCount s then shRefCount s - 1 else shRefCount s),
             shChildren := (shChildren s)((key, attrs) \<mapsto> b)\<rparr>, b := bs, Suc b := cloneRec bs),
         hpNext := Suc (Suc b), hpEpoch := e\<rparr>, Some (Suc b), Some slot)"
    "wfShape bs" "shProps bs = withKey (shProps s) key attrs" "slotOf (shProps bs) key slot"
    "shParent bs = Some a" "shChildren bs = Map.empty" "shTrChild bs = None"
    "shInobjLimit bs = clampInobjLimit (shInobjLimit s)"
proof -
  have ab: "a \<noteq> b" using a by (simp add: b)
  define h1 where "h1 = h\<lparr>hpShape := (hpShape h)(b := cloneRec s), hpNext := Suc b\<rparr>"
  have c: "clone h a = (h1, b)" by (simp add: clone_def allocShape_def h1_def s b)
  have h1b: "hpShape h1 b = cloneRec s" by (simp add: h1_def)
  have "wfShape (hpShape h1 b)" unfolding h1b by (rule wf_clone) (simp add: s wf)
  from addKey_shape [OF this wf(2), of attrs] obtain c' slot e where
    k: "addKey h1 (Some b) key attrs = (setShape h1 b c'\<lparr>hpEpoch := e\<rparr>, Some slot)"
      "wfShape c'" "shProps c' = withKey (shProps s) key attrs" "slotOf (shProps c') key slot"
      "shRefCount c' = 1" "shInobjLimit c' = clampInobjLimit (shInobjLimit s)" "shParent c' = None"
      "shChildren c' = Map.empty" "shTrChild c' = None"
    unfolding h1b clone_fields by blast
  define bs where "bs = c'\<lparr>shParent := Some a, shParentKey := (key, attrs)\<rparr>"
  define sa where "sa = s\<lparr>shChildren := (shChildren s)((key, attrs) \<mapsto> b)\<rparr>"
  define h2 where "h2 = h\<lparr>hpShape := (hpShape h)(b := c'), hpNext := Suc b, hpEpoch := e\<rparr>"
  define h3 where "h3 = h\<lparr>hpShape := (hpShape h)(a := sa, b := bs\<lparr>shRefCount := 2\<rparr>), hpNext := Suc b, hpEpoch := e\<rparr>"
  define h4 where "h4 = h\<lparr>hpShape := (hpShape h)(a := sa, b := bs), hpNext := Suc b, hpEpoch := e\<rparr>"
  define h5 where "h5 = h\<lparr>hpShape := (hpShape h)(a := sa, b := bs, Suc b := cloneRec bs), hpNext := Suc (Suc b), hpEpoch := e\<rparr>"
  have 2: "addKey h1 (Some b) key attrs = (h2, Some slot)" unfolding k(1) by (simp add: h2_def h1_def setShape_def)
  have s2: "hpShape h2 a = s" using ab by (simp add: h2_def s)
  have 3: "recordChild h2 a (key, attrs) b = h3"
    using new ab k(5) by (simp add: recordChild_def s2 s [symmetric] retain.simps setShape_def Let_def)
      (auto simp: h2_def h3_def sa_def bs_def s fun_eq_iff)
  have 4: "release h3 (Some b) = h4"
    using k(5) ab by (auto simp: release.simps h3_def h4_def setShape_def bs_def fun_eq_iff)
  have 5: "clone h4 b = (h5, Suc b)" by (simp add: clone_def allocShape_def h4_def h5_def)
  have 6: "release h5 (Some a) = h\<lparr>hpShape := (hpShape h)(a := s\<lparr>shRefCount := (if 0 < shRefCount s then shRefCount s - 1 else shRefCount s),
             shChildren := (shChildren s)((key, attrs) \<mapsto> b)\<rparr>, b := bs, Suc b := cloneRec bs),
         hpNext := Suc (Suc b), hpEpoch := e\<rparr>"
    using a ab b by (auto simp: release.simps h5_def setShape_def sa_def fun_eq_iff)
  have "makeTransition h a key attrs = (release h5 (Some a), Some (Suc b), Some slot)"
    unfolding makeTransition_def c Let_def prod.case 2 option.case 3 4 5 ..
  moreover have "wfShape bs" using k(2) wf_cong [of bs c'] by (simp add: bs_def)
  ultimately show thesis
    using that [of e bs slot] k unfolding 6 by (simp add: bs_def)
qed

section \<open>What keeps the invariant\<close>

text \<open>Two stores that agree on what the nodes of the tree rest on.\<close>

definition sameNodes :: "heap \<Rightarrow> heap \<Rightarrow> bool" where
  "sameNodes h h' \<longleftrightarrow> hpNext h \<le> hpNext h' \<and> hpRoots h' = hpRoots h \<and>
     (\<forall>x < hpNext h. propsAt h' x = propsAt h x \<and> shParent (hpShape h' x) = shParent (hpShape h x) \<and>
        limitAt h' x = limitAt h x)"

lemma sameNodes_tree: "sameNodes h h' \<Longrightarrow> x < hpNext h \<Longrightarrow> inTree h' x \<longleftrightarrow> inTree h x"
  by (simp add: sameNodes_def inTree_def isRoot_def)

lemma nodeOk_trChild: "nodeOk h a \<Longrightarrow> shTrChild (hpShape h a) = Some b \<Longrightarrow>
    edgeOk h a (shTrKey (hpShape h a)) b"
  unfolding nodeOk_def by blast

lemma nodeOkI:
  assumes "wfShape (hpShape h a)"
    and "\<And>ck b. shChildren (hpShape h a) ck = Some b \<Longrightarrow> inTree h a \<and> edgeOk h a ck b"
    and "\<And>b. shTrChild (hpShape h a) = Some b \<Longrightarrow> shChildren (hpShape h a) (shTrKey (hpShape h a)) = Some b \<and>
        slotOf (propsAt h b) (fst (shTrKey (hpShape h a))) (shTrSlot (hpShape h a))"
  shows "nodeOk h a"
  using assms unfolding nodeOk_def by blast

lemma nodeOk_trSlot: "nodeOk h a \<Longrightarrow> shTrChild (hpShape h a) = Some b \<Longrightarrow>
    shChildren (hpShape h a) (shTrKey (hpShape h a)) = Some b \<and>
    slotOf (propsAt h b) (fst (shTrKey (hpShape h a))) (shTrSlot (hpShape h a))"
  unfolding nodeOk_def by blast

lemma nodeOk_wf: "nodeOk h a \<Longrightarrow> wfShape (hpShape h a)"
  unfolding nodeOk_def by blast

lemma nodeOk_child: "nodeOk h a \<Longrightarrow> shChildren (hpShape h a) ck = Some b \<Longrightarrow> inTree h a \<and> edgeOk h a ck b"
  unfolding nodeOk_def by blast

lemma nodeOk_same:
  assumes n: "nodeOk h a" "a < hpNext h" and s: "sameNodes h h'"
    and f: "shIndex (hpShape h' a) = shIndex (hpShape h a)" "shChildren (hpShape h' a) = shChildren (hpShape h a)"
      "shTrChild (hpShape h' a) = shTrChild (hpShape h a)" "shTrKey (hpShape h' a) = shTrKey (hpShape h a)"
      "shTrSlot (hpShape h' a) = shTrSlot (hpShape h a)"
  shows "nodeOk h' a"
proof -
  have e: "edgeOk h a ck b \<Longrightarrow> edgeOk h' a ck b" for ck b
    using s n(2) by (auto simp: edgeOk_def sameNodes_def isRoot_def)
  have w: "wfShape (hpShape h' a)"
    using n s f(1) wf_cong [of "hpShape h' a" "hpShape h a"] by (simp add: nodeOk_def sameNodes_def)
  have t: "inTree h' a \<longleftrightarrow> inTree h a" by (rule sameNodes_tree [OF s n(2)])
  have b: "shTrChild (hpShape h a) = Some b \<Longrightarrow> propsAt h' b = propsAt h b" for b
    using nodeOk_trChild [OF n(1), of b] s by (simp add: edgeOk_def sameNodes_def)
  show ?thesis
    using n(1) w e t b f unfolding nodeOk_def by simp
qed

lemma heapInv_node: "heapInv h U \<Longrightarrow> a < hpNext h \<Longrightarrow> nodeOk h a"
  by (simp add: heapInv_def)

lemma rootsLeI:
  assumes "heapInv h U" "sameNodes h h'"
    and "\<And>x. isRoot h x \<Longrightarrow> shRefCount (hpShape h' x) \<le> shRefCount (hpShape h x)"
  shows "rootsLe h h'"
  using assms by (simp add: rootsLe_def sameNodes_def heapInv_def)

text \<open>Changing reference counts and the counts of users.\<close>

lemma heapInv_refs:
  assumes I: "heapInv h U" and s: "sameNodes h h'" "hpNext h' = hpNext h"
    and r: "\<And>x. isRoot h x \<Longrightarrow> U' x < unat (shRefCount (hpShape h' x))"
    and p: "\<And>x. x < hpNext h \<Longrightarrow> \<not> inTree h x \<Longrightarrow> U' x \<le> 1 \<and> shRefCount (hpShape h' x) = 1"
    and u: "\<And>x. hpNext h \<le> x \<Longrightarrow> U' x = 0"
    and n: "\<And>x. x < hpNext h \<Longrightarrow> nodeOk h' x"
  shows "heapInv h' U'"
proof -
  have "isRoot h' x \<longleftrightarrow> isRoot h x" for x using s(1) by (simp add: sameNodes_def isRoot_def)
  moreover have "isRoot h x \<Longrightarrow> x < hpNext h \<and> shParent (hpShape h' x) = None" for x
    using I s by (auto simp: heapInv_def sameNodes_def)
  ultimately show ?thesis
    using s(2) r p u n sameNodes_tree [OF s(1)] by (simp add: heapInv_def)
qed

lemma epoch_same: "sameNodes h (h\<lparr>hpEpoch := e\<rparr>)"
  by (simp add: sameNodes_def)

lemma heapInv_epoch [simp]: "heapInv (h\<lparr>hpEpoch := e\<rparr>) U \<longleftrightarrow> heapInv h U"
  by (simp add: heapInv_def nodeOk_def edgeOk_def inTree_def isRoot_def)

lemma bump_epoch: "\<exists>e. icEpochBump h = h\<lparr>hpEpoch := e\<rparr>"
  by (simp add: icEpochBump_def Let_def) metis

text \<open>A private shape may be changed in place.\<close>

lemma heapInv_private:
  assumes I: "heapInv h U" and a: "a < hpNext h" "\<not> inTree h a"
    and s: "wfShape s" "shParent s = None" "shRefCount s = shRefCount (hpShape h a)" "shChildren s = Map.empty"
      "shTrChild s = None"
  shows "heapInv (setShape h a s) U" "\<not> inTree (setShape h a s) a"
proof -
  have e: "edgeOk h x ck b \<Longrightarrow> b \<noteq> a" for x ck b using a by (auto simp: edgeOk_def inTree_def)
  have kids: "shChildren (hpShape h x) ck = Some b \<Longrightarrow> x < hpNext h \<Longrightarrow> x \<noteq> a" for x ck b
    using nodeOk_child [OF heapInv_node [OF I], of x ck b] a(2) by blast
  have t: "inTree (setShape h a s) x \<longleftrightarrow> inTree h x" for x
    using a(2) s(2) by (auto simp: inTree_def isRoot_def setShape_def)
  have n: "nodeOk (setShape h a s) x" if x: "x < hpNext h" for x
  proof (cases "x = a")
    case True
    then show ?thesis using s by (simp add: nodeOk_def setShape_def)
  next
    case False
    have N: "nodeOk h x" using I x by (rule heapInv_node)
    have ed: "shChildren (hpShape h x) ck = Some b \<Longrightarrow> edgeOk (setShape h a s) x ck b" for ck b
      using nodeOk_child [OF N, of ck b] e [of x ck b] False by (simp add: edgeOk_def setShape_def isRoot_def)
    have tr: "shTrChild (hpShape h x) = Some b \<Longrightarrow> b \<noteq> a" for b
      using nodeOk_trChild [OF N, of b] e by blast
    show ?thesis
    proof (rule nodeOkI)
      show "wfShape (hpShape (setShape h a s) x)" using nodeOk_wf [OF N] False by (simp add: setShape_def)
      show "shChildren (hpShape (setShape h a s) x) ck = Some b \<Longrightarrow>
          inTree (setShape h a s) x \<and> edgeOk (setShape h a s) x ck b" for ck b
        using nodeOk_child [OF N, of ck b] ed [of ck b] t False by (simp add: setShape_def)
    next
      fix b
      assume "shTrChild (hpShape (setShape h a s) x) = Some b"
      then have b: "shTrChild (hpShape h x) = Some b" using False by (simp add: setShape_def)
      show "shChildren (hpShape (setShape h a s) x) (shTrKey (hpShape (setShape h a s) x)) = Some b \<and>
          slotOf (propsAt (setShape h a s) b) (fst (shTrKey (hpShape (setShape h a s) x)))
            (shTrSlot (hpShape (setShape h a s) x))"
        using nodeOk_trSlot [OF N b] tr [OF b] False by (simp add: setShape_def)
    qed
  qed
  show "\<not> inTree (setShape h a s) a" using t a(2) by simp
  show "heapInv (setShape h a s) U"
    using I n a s t by (auto simp: heapInv_def setShape_def isRoot_def)
qed

lemma u32_pred_le: "0 < n \<Longrightarrow> n - 1 \<le> (n :: u32)"
  by (simp add: word_le_nat_alt unat_minus_one unat_gt_0)

lemma take_child:
  assumes I: "heapInv h U" and a: "1 \<le> U a" "a < hpNext h" "inTree h a" and e: "edgeOk h a ck b"
    and h': "h' = release (retain h (Some b)) (Some a)"
  shows "heapInv h' (moveUser U a b)" "sameNodes h h'" "hpNext h' = hpNext h" "rootsLe h h'"
proof -
  have x: "hpShape h' x = (hpShape h x)\<lparr>shRefCount := shRefCount (hpShape h' x)\<rparr>" for x
    unfolding h' by (simp add: retain.simps release.simps setShape_def)
  have next': "hpNext h' = hpNext h" "hpRoots h' = hpRoots h"
    unfolding h' by (simp_all add: retain.simps release.simps setShape_def)
  have other: "x \<noteq> a \<Longrightarrow> x \<noteq> b \<Longrightarrow> shRefCount (hpShape h' x) = shRefCount (hpShape h x)" for x
    unfolding h' by (simp add: retain.simps release.simps setShape_def)
  have root: "a \<noteq> b \<Longrightarrow> 0 < shRefCount (hpShape h a) \<Longrightarrow> shRefCount (hpShape h' a) = shRefCount (hpShape h a) - 1"
    unfolding h' by (simp add: retain.simps release.simps setShape_def)
  have same: "shProps (hpShape h' x) = shProps (hpShape h x)" "shIndex (hpShape h' x) = shIndex (hpShape h x)"
    "shParent (hpShape h' x) = shParent (hpShape h x)" "shInobjLimit (hpShape h' x) = shInobjLimit (hpShape h x)"
    "shChildren (hpShape h' x) = shChildren (hpShape h x)" "shTrChild (hpShape h' x) = shTrChild (hpShape h x)"
    "shTrKey (hpShape h' x) = shTrKey (hpShape h x)" "shTrSlot (hpShape h' x) = shTrSlot (hpShape h x)" for x
    by (subst x, simp)+
  show sn: "sameNodes h h'" using next' same by (simp add: sameNodes_def)
  show "hpNext h' = hpNext h" by (rule next')
  have b: "b < hpNext h" "\<not> isRoot h b" "shParent (hpShape h b) \<noteq> None" using e by (auto simp: edgeOk_def)
  show "rootsLe h h'"
  proof (rule rootsLeI [OF I sn])
    fix x
    assume r: "isRoot h x"
    then have xb: "x \<noteq> b" using b by auto
    have "0 < shRefCount (hpShape h x)" using I r by (auto simp: heapInv_def word_less_nat_alt)
    then show "shRefCount (hpShape h' x) \<le> shRefCount (hpShape h x)"
      using xb other [of x] root u32_pred_le by (cases "x = a") simp_all
  qed
  show "heapInv h' (moveUser U a b)"
  proof (rule heapInv_refs [OF I sn next'(1)])
    fix x
    assume r: "isRoot h x"
    then have xb: "x \<noteq> b" using b by auto
    have u: "U x < unat (shRefCount (hpShape h x))" using I r by (simp add: heapInv_def)
    show "moveUser U a b x < unat (shRefCount (hpShape h' x))"
    proof (cases "x = a")
      case True
      with u a(1) have "0 < shRefCount (hpShape h a)" by (simp add: word_less_nat_alt)
      moreover from this have "unat (shRefCount (hpShape h a) - 1) = unat (shRefCount (hpShape h a)) - 1"
        by (simp add: unat_minus_one unat_gt_0)
      ultimately show ?thesis using u True xb root a(1) by (simp add: moveUser_def)
    next
      case False
      with xb u other show ?thesis by (simp add: moveUser_def)
    qed
  next
    fix x
    assume x: "x < hpNext h" "\<not> inTree h x"
    then have "x \<noteq> a" "x \<noteq> b" using a(3) b by (auto simp: inTree_def)
    with I x other show "moveUser U a b x \<le> 1 \<and> shRefCount (hpShape h' x) = 1"
      by (simp add: heapInv_def moveUser_def)
  next
    fix x
    assume "hpNext h \<le> x"
    with I a(2) b(1) show "moveUser U a b x = 0" by (auto simp: heapInv_def moveUser_def)
  next
    fix x
    assume "x < hpNext h"
    then show "nodeOk h' x" using nodeOk_same [OF heapInv_node [OF I] _ sn] same by simp
  qed
qed

lemma set_memo:
  assumes I: "heapInv h U" and a: "a < hpNext h" and c: "shChildren (hpShape h a) ck = Some b"
    "slotOf (propsAt h b) (fst ck) slot"
    and h': "h' = setShape h a ((hpShape h a)\<lparr>shTrKey := ck, shTrChild := Some b, shTrSlot := slot\<rparr>)"
  shows "heapInv h' U" "sameNodes h h'" "hpNext h' = hpNext h" "rootsLe h h'"
proof -
  show "rootsLe h h'" unfolding h' by (simp add: rootsLe_def setShape_def)
  show sn: "sameNodes h h'" unfolding h' by (simp add: sameNodes_def setShape_def)
  show n: "hpNext h' = hpNext h" unfolding h' by (simp add: setShape_def)
  have rc: "shRefCount (hpShape h' x) = shRefCount (hpShape h x)" for x unfolding h' by (simp add: setShape_def)
  have N: "nodeOk h' x" if "x < hpNext h" for x
  proof (cases "x = a")
    case False
    then show ?thesis
      using nodeOk_same [OF heapInv_node [OF I that] that sn] unfolding h' by (simp add: setShape_def)
  next
    case True
    have N: "nodeOk h a" using I a by (rule heapInv_node)
    have pr: "propsAt h' y = propsAt h y" for y unfolding h' by (simp add: setShape_def)
    have ch: "shChildren (hpShape h' a) = shChildren (hpShape h a)" "shTrKey (hpShape h' a) = ck"
      "shTrChild (hpShape h' a) = Some b" "shTrSlot (hpShape h' a) = slot" "shIndex (hpShape h' a) = shIndex (hpShape h a)"
      unfolding h' by (simp_all add: setShape_def)
    have e: "edgeOk h a ck' b' \<Longrightarrow> edgeOk h' a ck' b'" for ck' b'
      using sn a by (auto simp: edgeOk_def sameNodes_def isRoot_def)
    have "nodeOk h' a"
    proof (rule nodeOkI)
      show "wfShape (hpShape h' a)" using nodeOk_wf [OF N] wf_cong [of "hpShape h' a" "hpShape h a"] pr ch by simp
      show "shChildren (hpShape h' a) ck' = Some b' \<Longrightarrow> inTree h' a \<and> edgeOk h' a ck' b'" for ck' b'
        using nodeOk_child [OF N, of ck' b'] e [of ck' b'] sameNodes_tree [OF sn a] ch(1) by simp
      show "shTrChild (hpShape h' a) = Some b' \<Longrightarrow> shChildren (hpShape h' a) (shTrKey (hpShape h' a)) = Some b' \<and>
        slotOf (propsAt h' b') (fst (shTrKey (hpShape h' a))) (shTrSlot (hpShape h' a))" for b'
        using c pr ch by simp
    qed
    with True show ?thesis by simp
  qed
  show "heapInv h' U"
    by (rule heapInv_refs [OF I sn n]) (use I N rc in \<open>auto simp: heapInv_def\<close>)
qed

lemma sameNodes_framed: "sameNodes h h' \<Longrightarrow> rootsLe h h' \<Longrightarrow> framed h h' a"
  by (simp add: sameNodes_def framed_def)

lemma makeTransition_inv:
  assumes I: "heapInv h U" and a: "1 \<le> U a" "a < hpNext h" "inTree h a"
    and new: "shChildren (hpShape h a) (key, attrs) = None" and key: "canonicalKey key"
  obtains h' n slot where "makeTransition h a key attrs = (h', Some n, Some slot)"
    "heapInv h' (moveUser U a n)" "n < hpNext h'" "propsAt h' n = withKey (propsAt h a) key attrs"
    "slotOf (propsAt h' n) key slot" "limitAt h' n = limitAt h a" "sameNodes h h'" "rootsLe h h'"
proof -
  define s b where "s = hpShape h a" and "b = hpNext h"
  have N: "nodeOk h a" using I a(2) by (rule heapInv_node)
  obtain bs e slot where m: "makeTransition h a key attrs =
      (h\<lparr>hpShape := (hpShape h)(a := s\<lparr>shRefCount := (if 0 < shRefCount s then shRefCount s - 1 else shRefCount s),
             shChildren := (shChildren s)((key, attrs) \<mapsto> b)\<rparr>, b := bs, Suc b := cloneRec bs),
         hpNext := Suc (Suc b), hpEpoch := e\<rparr>, Some (Suc b), Some slot)"
    and bs: "wfShape bs" "shProps bs = withKey (shProps s) key attrs" "slotOf (shProps bs) key slot"
      "shParent bs = Some a" "shChildren bs = Map.empty" "shTrChild bs = None"
      "shInobjLimit bs = clampInobjLimit (shInobjLimit s)"
    by (rule makeTransition_store [OF a(2) new nodeOk_wf [OF N] key b_def s_def])
  define h' where "h' = h\<lparr>hpShape := (hpShape h)(a := s\<lparr>shRefCount := (if 0 < shRefCount s then shRefCount s - 1 else shRefCount s),
             shChildren := (shChildren s)((key, attrs) \<mapsto> b)\<rparr>, b := bs, Suc b := cloneRec bs),
         hpNext := Suc (Suc b), hpEpoch := e\<rparr>"
  have ab: "a \<noteq> b" "a \<noteq> Suc b" using a(2) by (auto simp: b_def)
  have clamp: "clampInobjLimit (clampInobjLimit l) = clampInobjLimit l" for l by (simp add: clampInobjLimit_def)
  have at: "hpShape h' b = bs" "hpShape h' (Suc b) = cloneRec bs"
    "hpShape h' a = s\<lparr>shRefCount := (if 0 < shRefCount s then shRefCount s - 1 else shRefCount s),
             shChildren := (shChildren s)((key, attrs) \<mapsto> b)\<rparr>"
    "x < b \<Longrightarrow> x \<noteq> a \<Longrightarrow> hpShape h' x = hpShape h x" for x
    using ab by (simp_all add: h'_def)
  have nx: "hpNext h' = Suc (Suc b)" "hpRoots h' = hpRoots h" by (simp_all add: h'_def)
  have same: "propsAt h' x = propsAt h x \<and> shParent (hpShape h' x) = shParent (hpShape h x) \<and>
      limitAt h' x = limitAt h x" if "x < b" for x
    using at(3) at(4) [OF that] by (cases "x = a") (simp_all add: s_def)
  have sn: "sameNodes h h'" using same by (simp add: sameNodes_def nx b_def)
  have rootb: "\<not> isRoot h' b" "\<not> isRoot h' (Suc b)" using I by (auto simp: isRoot_def nx heapInv_def b_def)
  have rt: "isRoot h' x \<longleftrightarrow> isRoot h x" for x by (simp add: isRoot_def nx)
  have tb: "inTree h' b" using bs at by (simp add: inTree_def)
  have tn: "\<not> inTree h' (Suc b)" using rootb at by (simp add: inTree_def clone_fields)
  have ta: "inTree h' a" using sameNodes_tree [OF sn a(2)] a(3) by simp
  have new_edge: "edgeOk h' a (key, attrs) b"
    using bs rootb ab clamp unfolding edgeOk_def nx at fst_conv snd_conv by (simp add: s_def)
  have e: "edgeOk h x ck c \<Longrightarrow> edgeOk h' x ck c" if "x < b" for x ck c
    using sn that by (auto simp: edgeOk_def sameNodes_def isRoot_def b_def [symmetric])
  have nodes: "nodeOk h' x" if "x < hpNext h'" for x
  proof -
    have "x = a \<or> x < b \<and> x \<noteq> a \<or> x = b \<or> x = Suc b" using that unfolding nx by linarith
    then consider "x = a" | "x < b" "x \<noteq> a" | "x = b" | "x = Suc b" by blast
    then show ?thesis
    proof cases
      case 1
      have "nodeOk h' a"
      proof (rule nodeOkI)
        show "wfShape (hpShape h' a)" using nodeOk_wf [OF N] wf_cong [of "hpShape h' a" s] at by (simp add: s_def)
        show "shChildren (hpShape h' a) ck = Some c \<Longrightarrow> inTree h' a \<and> edgeOk h' a ck c" for ck c
          using nodeOk_child [OF N, of ck c] new_edge e [of a ck c] ta a(2) at(3)
          by (cases "ck = (key, attrs)") (simp_all add: s_def b_def)
        show "shTrChild (hpShape h' a) = Some c \<Longrightarrow> shChildren (hpShape h' a) (shTrKey (hpShape h' a)) = Some c \<and>
          slotOf (propsAt h' c) (fst (shTrKey (hpShape h' a))) (shTrSlot (hpShape h' a))" for c
          using nodeOk_trSlot [OF N, of c] nodeOk_trChild [OF N, of c] new at(3) sn
          by (auto simp: s_def edgeOk_def sameNodes_def)
      qed
      with 1 show ?thesis by simp
    next
      case 2
      then show ?thesis
        using nodeOk_same [OF heapInv_node [OF I, of x] _ sn] at(4) [of x] by (simp add: b_def)
    next
      case 3
      then show ?thesis using bs tb by (intro nodeOkI) (simp_all add: at)
    next
      case 4
      then show ?thesis using bs wf_clone [of bs] by (intro nodeOkI) (simp_all add: at clone_fields)
    qed
  qed
  have ua: "isRoot h a \<Longrightarrow> U a - 1 < unat (if 0 < shRefCount s then shRefCount s - 1 else shRefCount s)"
  proof -
    assume "isRoot h a"
    then have u: "U a < unat (shRefCount s)" using I by (simp add: heapInv_def s_def)
    then have p: "0 < shRefCount s" by (simp add: word_less_nat_alt)
    then have "unat (shRefCount s - 1) = unat (shRefCount s) - 1" by (simp add: unat_minus_one unat_gt_0)
    with u p a(1) show ?thesis by simp
  qed
  have inv: "heapInv h' (moveUser U a (Suc b))"
    unfolding heapInv_def
  proof (intro conjI allI impI)
    fix x
    show "x < hpNext h' \<Longrightarrow> nodeOk h' x" by (rule nodes)
    show "isRoot h' x \<Longrightarrow> x < hpNext h'" using I rt by (fastforce simp: heapInv_def nx b_def)
    show "isRoot h' x \<Longrightarrow> shParent (hpShape h' x) = None"
      using I rt sn by (fastforce simp: heapInv_def sameNodes_def)
    assume r: "isRoot h' x"
    then have x: "x < b" "U x < unat (shRefCount (hpShape h x))" using I rt by (auto simp: heapInv_def b_def)
    show "moveUser U a (Suc b) x < unat (shRefCount (hpShape h' x))"
      using x ua r rt ab at by (cases "x = a") (simp_all add: moveUser_def)
  next
    fix x
    assume x: "x < hpNext h'" "\<not> inTree h' x"
    then have c: "x = Suc b \<or> x < b \<and> x \<noteq> a" using tb ta nx by (auto simp: less_Suc_eq)
    have "U (Suc b) = 0" using I by (simp add: heapInv_def b_def)
    then show "moveUser U a (Suc b) x \<le> 1" "shRefCount (hpShape h' x) = 1"
      using c I x sameNodes_tree [OF sn, of x] at ab by (auto simp: moveUser_def clone_fields heapInv_def b_def)
  next
    fix x
    assume "hpNext h' \<le> x"
    with I a(2) show "moveUser U a (Suc b) x = 0" by (auto simp: heapInv_def nx moveUser_def b_def)
  qed
  have rl: "rootsLe h h'"
  proof (rule rootsLeI [OF I sn])
    fix x
    assume "isRoot h x"
    then have "x < b" using I by (auto simp: heapInv_def b_def)
    then show "shRefCount (hpShape h' x) \<le> shRefCount (hpShape h x)"
      using at(3) at(4) [of x] u32_pred_le [of "shRefCount s"] by (cases "x = a") (simp_all add: s_def)
  qed
  have "makeTransition h a key attrs = (h', Some (Suc b), Some slot)" unfolding m h'_def ..
  from that [OF this inv] show thesis
    using bs clamp sn rl nx at by (simp add: clone_fields s_def)
qed


lemma user_in: "heapInv h U \<Longrightarrow> 1 \<le> U a \<Longrightarrow> a < hpNext h"
  by (metis heapInv_def not_less not_one_le_zero)

lemma private_shape:
  assumes "heapInv h U" "1 \<le> U a" "\<not> inTree h a"
  shows "shParent (hpShape h a) = None" "shChildren (hpShape h a) = Map.empty" "shTrChild (hpShape h a) = None"
    "shRefCount (hpShape h a) = 1" "wfShape (hpShape h a)" "U a = 1" "U b \<le> 1 \<or> inTree h b"
proof -
  note a = user_in [OF assms(1,2)]
  note N = heapInv_node [OF assms(1) a]
  show "shParent (hpShape h a) = None" using assms(3) by (simp add: inTree_def)
  show c: "shChildren (hpShape h a) = Map.empty"
    using nodeOk_child [OF N] assms(3) by (intro ext) (meson not_Some_eq)
  show "shTrChild (hpShape h a) = None"
    using nodeOk_trSlot [OF N] c by (cases "shTrChild (hpShape h a)") auto
  show "shRefCount (hpShape h a) = 1" "U a = 1" using assms a by (auto simp: heapInv_def)
  show "wfShape (hpShape h a)" by (rule nodeOk_wf [OF N])
  show "U b \<le> 1 \<or> inTree h b" using assms by (cases "b < hpNext h") (auto simp: heapInv_def not_less)
qed

text \<open>Changing the private shape of an object in place.\<close>

lemma private_update:
  assumes I: "heapInv h U" "1 \<le> U a" "\<not> inTree h a"
    and s: "wfShape s" "shParent s = None" "shRefCount s = 1" "shChildren s = Map.empty" "shTrChild s = None"
  shows "heapInv (setShape h a s\<lparr>hpEpoch := e\<rparr>) U" "framed h (setShape h a s\<lparr>hpEpoch := e\<rparr>) a"
    "\<not> inTree (setShape h a s\<lparr>hpEpoch := e\<rparr>) a"
proof -
  note a = user_in [OF I(1,2)] and P = private_shape [OF I]
  note p = heapInv_private [OF I(1) a I(3) s(1,2) _ s(4,5)]
  show "heapInv (setShape h a s\<lparr>hpEpoch := e\<rparr>) U" using p P(4) s(3) by simp
  show "framed h (setShape h a s\<lparr>hpEpoch := e\<rparr>) a" 
    using I(3) by (auto simp: framed_def setShape_def rootsLe_def inTree_def)
  show "\<not> inTree (setShape h a s\<lparr>hpEpoch := e\<rparr>) a" using p(2) P(4) s(3) by (simp add: inTree_def isRoot_def)
qed

lemma addKeyTr_inv:
  assumes I: "heapInv h U" and a: "1 \<le> U a" and key: "canonicalKey key"
  obtains h' n slot where "addKeyTr h (Some a) key attrs = (h', Some n, Some slot)"
    "heapInv h' (moveUser U a n)" "n < hpNext h'" "propsAt h' n = withKey (propsAt h a) key attrs"
    "slotOf (propsAt h' n) key slot" "limitAt h' n = limitAt h a" "framed h h' a"
proof (cases "inTree h a")
  case False
  note P = private_shape [OF I a False]
  obtain e where e: "icEpochBump h = h\<lparr>hpEpoch := e\<rparr>" using bump_epoch by blast
  have w: "wfShape (hpShape (h\<lparr>hpEpoch := e\<rparr>) a)" using P by simp
  obtain s slot e' where
    k: "addKey (h\<lparr>hpEpoch := e\<rparr>) (Some a) key attrs = (setShape (h\<lparr>hpEpoch := e\<rparr>) a s\<lparr>hpEpoch := e'\<rparr>, Some slot)"
      "wfShape s" "shProps s = withKey (propsAt h a) key attrs" "slotOf (shProps s) key slot"
      "shRefCount s = 1" "shInobjLimit s = shInobjLimit (hpShape h a)" "shParent s = None"
      "shChildren s = Map.empty" "shTrChild s = None"
    by (rule addKey_shape [OF w key, of attrs]) (use P in simp)
  have same: "setShape (h\<lparr>hpEpoch := e\<rparr>) a s\<lparr>hpEpoch := e'\<rparr> = setShape h a s\<lparr>hpEpoch := e'\<rparr>"
    by (simp add: setShape_def)
  have "addKeyTr h (Some a) key attrs = (setShape h a s\<lparr>hpEpoch := e'\<rparr>, Some a, Some slot)"
    using isInTree_iff [OF I a] False e k(1) same by (simp add: addKeyTr.simps Let_def)
  then show thesis
  proof (rule that)
    show "heapInv (setShape h a s\<lparr>hpEpoch := e'\<rparr>) (moveUser U a a)" "framed h (setShape h a s\<lparr>hpEpoch := e'\<rparr>) a"
      using private_update [OF I a False k(2,7,5,8,9), of e'] moveUser_same [of U, OF a] by simp_all
  qed (use k user_in [OF I a] in \<open>simp_all add: setShape_def\<close>)
next
  case True
  note a' = user_in [OF I a]
  note N = heapInv_node [OF I a']
  have tr: "isInTree (Some (hpShape h a))" using isInTree_iff [OF I a] True by simp
  show thesis
  proof (cases "shTrChild (hpShape h a) \<noteq> None \<and> shTrKey (hpShape h a) = (key, attrs)")
    case True
    then obtain b where b: "shTrChild (hpShape h a) = Some b" "shTrKey (hpShape h a) = (key, attrs)" by auto
    have ed: "edgeOk h a (key, attrs) b" using nodeOk_trChild [OF N b(1)] b(2) by simp
    have sl: "slotOf (propsAt h b) key (shTrSlot (hpShape h a))" using nodeOk_trSlot [OF N b(1)] b(2) by simp
    let ?h = "release (retain h (Some b)) (Some a)"
    note t = take_child [OF I a a' \<open>inTree h a\<close> ed refl]
    have "addKeyTr h (Some a) key attrs = (?h, Some b, Some (shTrSlot (hpShape h a)))"
      using tr b by (simp add: addKeyTr.simps Let_def)
    then show thesis
      by (rule that) (use t ed sl sameNodes_framed [OF t(2,4)] in \<open>auto simp: edgeOk_def sameNodes_def\<close>)
  next
    case memo: False
    show thesis
    proof (cases "shChildren (hpShape h a) (key, attrs)")
      case None
      from makeTransition_inv [OF I a a' True None key] obtain h' n slot where
        m: "makeTransition h a key attrs = (h', Some n, Some slot)"
        "heapInv h' (moveUser U a n)" "n < hpNext h'" "propsAt h' n = withKey (propsAt h a) key attrs"
        "slotOf (propsAt h' n) key slot" "limitAt h' n = limitAt h a" "sameNodes h h'" "rootsLe h h'" by blast
      have "addKeyTr h (Some a) key attrs = (h', Some n, Some slot)"
        using tr memo None m(1) by (simp only: addKeyTr.simps Let_def findChild.simps option.case if_False not_True_eq_False)
      then show thesis by (rule that) (use m sameNodes_framed [OF m(7,8)] in auto)
    next
      case (Some b)
      have ed: "edgeOk h a (key, attrs) b" using nodeOk_child [OF N Some] by simp
      then have b: "b < hpNext h" "propsAt h b = withKey (propsAt h a) key attrs" by (auto simp: edgeOk_def)
      have w: "list_all canonicalKey (map spKey (propsAt h a))" "distinct (map spKey (propsAt h a))"
        using nodeOk_wf [OF N] by (auto simp: wfShape_def)
      obtain slot where sl: "slotOf (propsAt h b) key slot" using withKey_slot(1) [OF w key, of attrs] b(2) by auto
      have lk: "lookup (Some (hpShape h b)) key = Some slot"
        using lookup_slot [OF nodeOk_wf [OF heapInv_node [OF I b(1)]] key] sl by simp
      let ?h1 = "setShape h a ((hpShape h a)\<lparr>shTrKey := (key, attrs), shTrChild := Some b, shTrSlot := slot\<rparr>)"
      have sl': "slotOf (propsAt h b) (fst (key, attrs)) slot" using sl by simp
      note m = set_memo [OF I a' Some sl' refl]
      have tr1: "inTree ?h1 a" using sameNodes_tree [OF m(2) a'] True by simp
      have ed1: "edgeOk ?h1 a (key, attrs) b" using ed m(2) a' by (auto simp: edgeOk_def sameNodes_def isRoot_def)
      have a1: "a < hpNext ?h1" using a' m(3) by simp
      let ?h = "release (retain ?h1 (Some b)) (Some a)"
      note t = take_child [OF m(1) a a1 tr1 ed1 refl]
      have "addKeyTr h (Some a) key attrs = (?h, Some b, Some slot)"
        using tr memo Some lk by (simp only: addKeyTr.simps Let_def findChild.simps option.case if_False not_True_eq_False)
      then show thesis
      proof (rule that)
        have "rootsLe h ?h" using rootsLe_trans [OF m(4) t(4)] .
        then show "framed h ?h a" using m(2) t(2) m(3) by (auto simp: framed_def sameNodes_def)
      qed (use t m ed b sl a' in \<open>auto simp: edgeOk_def sameNodes_def\<close>)
    qed
  qed
qed

end
