(* ===== verification/Objects_Laws.thy ===== *)
theory Objects_Laws
  imports Objects Shapes_Laws
begin

text \<open>
  What the methods of an object do, seen from outside: an object is the ordered list of its own
  properties (\<open>absObj\<close>), and \<open>objStep\<close> is what every method keeps: the invariant of the shape
  store, the properties of every object that is not the receiver, and the receiver's other fields.
\<close>

datatype propVal = DataVal u64 | AccVal "u64 option" "u64 option"

type_synonym aprop = "propKey \<times> u8 \<times> propVal"

definition absVal :: "shapeProp \<Rightarrow> u64 \<Rightarrow> propVal" where
  "absVal p v =
     (if spAccessor p
      then AccVal (if spHasGetter p then Some (spGetter p) else None) (if spHasSetter p then Some (spSetter p) else None)
      else DataVal v)"

definition absObj :: "heap \<Rightarrow> jsObject \<Rightarrow> aprop list" where
  "absObj h obj =
     map (\<lambda>i. (spKey (propsOf h obj ! i), spAttrs (propsOf h obj ! i), absVal (propsOf h obj ! i) (slotGetRaw h obj i)))
       [0..<length (propsOf h obj)]"

fun putProp :: "aprop list \<Rightarrow> aprop \<Rightarrow> aprop list" where
  "putProp [] p = [p]"
| "putProp (q # qs) p = (if fst q = fst p then p # qs else q # putProp qs p)"

definition dropProp :: "aprop list \<Rightarrow> propKey \<Rightarrow> aprop list" where
  "dropProp ps key = filter (\<lambda>p. fst p \<noteq> key) ps"

section \<open>Steps of one object\<close>

definition addrOf :: "jsObject \<Rightarrow> nat" where
  "addrOf obj = the (oShape obj)"

definition userStep :: "(nat \<Rightarrow> nat) \<Rightarrow> jsObject \<Rightarrow> jsObject \<Rightarrow> nat \<Rightarrow> nat" where
  "userStep U obj obj' = moveUser U (addrOf obj) (addrOf obj')"

definition others :: "(nat \<Rightarrow> nat) \<Rightarrow> jsObject \<Rightarrow> nat \<Rightarrow> nat" where
  "others U obj = U(addrOf obj := U (addrOf obj) - 1)"

text \<open>The receiver: it has a shape, that shape counts it, and it has the slots that are inside the object.\<close>

definition objOk :: "heap \<Rightarrow> (nat \<Rightarrow> nat) \<Rightarrow> jsObject \<Rightarrow> bool" where
  "objOk h U obj \<longleftrightarrow> oShape obj \<noteq> None \<and> 1 \<le> U (addrOf obj) \<and> length (oInobj obj) = inobjMaxSlots"

definition sameFor :: "(nat \<Rightarrow> nat) \<Rightarrow> heap \<Rightarrow> heap \<Rightarrow> bool" where
  "sameFor V h h' \<longleftrightarrow> (\<forall>b. 0 < V b \<longrightarrow> propsAt h' b = propsAt h b \<and> limitAt h' b = limitAt h b)"

definition objStep :: "(nat \<Rightarrow> nat) \<Rightarrow> heap \<Rightarrow> jsObject \<Rightarrow> heap \<Rightarrow> jsObject \<Rightarrow> bool" where
  "objStep U h obj h' obj' \<longleftrightarrow>
     heapInv h' (userStep U obj obj') \<and> objOk h' (userStep U obj obj') obj' \<and> sameFor (others U obj) h h' \<and>
     rootsLe h h' \<and> inobjLimit h' obj' = inobjLimit h obj \<and>
     oExtensible obj' = oExtensible obj \<and> oUsedAsProto obj' = oUsedAsProto obj \<and> oProto obj' = oProto obj"

lemma others_step: "1 \<le> U (addrOf obj) \<Longrightarrow> others (userStep U obj obj1) obj1 = others U obj"
  by (auto simp: others_def userStep_def moveUser_def fun_eq_iff)

lemma userStep_trans: "1 \<le> U (addrOf obj) \<Longrightarrow> userStep (userStep U obj obj1) obj1 obj2 = userStep U obj obj2"
  by (auto simp: userStep_def moveUser_def fun_eq_iff)

lemma userStep_same: "addrOf obj' = addrOf obj \<Longrightarrow> 1 \<le> U (addrOf obj) \<Longrightarrow> userStep U obj obj' = U"
  using moveUser_same [of U "addrOf obj"] by (simp add: userStep_def)

lemma objStep_trans:
  assumes "objOk h U obj" "objStep U h obj h1 obj1" "objStep (userStep U obj obj1) h1 obj1 h2 obj2"
  shows "objStep U h obj h2 obj2"
  using assms others_step [of U obj obj1] userStep_trans [of U obj obj1 obj2] rootsLe_trans [of h h1 h2]
  by (simp add: objStep_def sameFor_def objOk_def)

lemma objOk_addr: "objOk h U obj \<Longrightarrow> oShape obj = Some (addrOf obj)"
  by (auto simp: objOk_def addrOf_def)

lemma objOk_heap: "objOk h U obj \<Longrightarrow> objOk h' U obj"
  by (simp add: objOk_def)

lemma propsOf_at: "objOk h U obj \<Longrightarrow> propsOf h' obj = propsAt h' (addrOf obj)"
  using objOk_addr [of h U obj] by (simp add: propsOf_def deref_def)

lemma limit_at: "objOk h U obj \<Longrightarrow> inobjLimit h' obj = limitAt h' (addrOf obj)"
  using objOk_addr [of h U obj] by (simp add: inobjLimit_def deref_def getInobjLimit_def)

lemma objStep_refl: "heapInv h U \<Longrightarrow> objOk h U obj \<Longrightarrow> objStep U h obj h obj"
  using userStep_same [of obj obj U] by (simp add: objStep_def sameFor_def objOk_def rootsLe_def)

text \<open>A framed change of the store that moves the receiver is a step.\<close>

lemma framed_sameFor:
  assumes "heapInv h U" "1 \<le> U (addrOf obj)" "framed h h' (addrOf obj)"
  shows "sameFor (others U obj) h h'"
  unfolding sameFor_def
proof (intro allI impI)
  fix b
  assume b: "0 < others U obj b"
  have in_h: "b < hpNext h" using b assms(1) by (cases "b < hpNext h") (auto simp: heapInv_def others_def not_less split: if_splits)
  have "b \<noteq> addrOf obj \<or> inTree h (addrOf obj)"
  proof (rule disjCI)
    assume "\<not> inTree h (addrOf obj)"
    then have "U (addrOf obj) = 1" by (rule private_shape(6) [OF assms(1,2)])
    with b show "b \<noteq> addrOf obj" by (auto simp: others_def)
  qed
  with in_h assms(3) show "propsAt h' b = propsAt h b \<and> limitAt h' b = limitAt h b" by (simp add: framed_def)
qed

lemma objStep_framed:
  assumes "heapInv h U" "objOk h U obj" "framed h h' (addrOf obj)" "heapInv h' (moveUser U (addrOf obj) n)"
    and "limitAt h' n = limitAt h (addrOf obj)"
  shows "objStep U h obj h' (obj\<lparr>oShape := Some n\<rparr>)"
proof -
  have u: "1 \<le> U (addrOf obj)" using assms(2) by (simp add: objOk_def)
  have n: "addrOf (obj\<lparr>oShape := Some n\<rparr>) = n" by (simp add: addrOf_def)
  have ok: "objOk h' (userStep U obj (obj\<lparr>oShape := Some n\<rparr>)) (obj\<lparr>oShape := Some n\<rparr>)"
    using assms(2) n by (simp add: objOk_def userStep_def moveUser_def)
  show ?thesis
    unfolding objStep_def
    using framed_sameFor [OF assms(1) u assms(3)] assms(3-5) ok limit_at [OF ok, of h'] limit_at [OF assms(2), of h]
    by (simp add: n userStep_def framed_def)
qed

lemma objStep_inplace:
  assumes "heapInv h U" "objOk h U obj" "framed h h' (addrOf obj)" "heapInv h' U"
    and "limitAt h' (addrOf obj) = limitAt h (addrOf obj)"
  shows "objStep U h obj h' obj"
proof -
  have m: "moveUser U (addrOf obj) (addrOf obj) = U" using assms(2) moveUser_same [of U] by (simp add: objOk_def)
  have o: "obj\<lparr>oShape := Some (addrOf obj)\<rparr> = obj" using objOk_addr [OF assms(2)] by (cases obj) simp
  have "objStep U h obj h' (obj\<lparr>oShape := Some (addrOf obj)\<rparr>)"
    by (rule objStep_framed [OF assms(1-3)]) (simp_all add: m assms(4,5))
  then show ?thesis unfolding o .
qed

section \<open>The parts of the methods\<close>

lemma addKeyTr_step:
  assumes I: "heapInv h U" "objOk h U obj" and key: "canonicalKey key"
  obtains h' n slot where "addKeyTr h (oShape obj) key attrs = (h', Some n, Some slot)"
    "objStep U h obj h' (obj\<lparr>oShape := Some n\<rparr>)"
    "propsOf h' (obj\<lparr>oShape := Some n\<rparr>) = withKey (propsOf h obj) key attrs"
    "slotOf (propsOf h' (obj\<lparr>oShape := Some n\<rparr>)) key slot"
proof -
  have u: "1 \<le> U (addrOf obj)" using I(2) by (simp add: objOk_def)
  obtain h' n slot where k: "addKeyTr h (Some (addrOf obj)) key attrs = (h', Some n, Some slot)"
    "heapInv h' (moveUser U (addrOf obj) n)" "n < hpNext h'" "propsAt h' n = withKey (propsAt h (addrOf obj)) key attrs"
    "slotOf (propsAt h' n) key slot" "limitAt h' n = limitAt h (addrOf obj)" "framed h h' (addrOf obj)"
    by (rule addKeyTr_inv [OF I(1) u key])
  have p: "propsOf h' (obj\<lparr>oShape := Some n\<rparr>) = propsAt h' n" by (simp add: propsOf_def deref_def)
  show thesis
  proof (rule that)
    show "addKeyTr h (oShape obj) key attrs = (h', Some n, Some slot)" using k(1) objOk_addr [OF I(2)] by simp
    show "objStep U h obj h' (obj\<lparr>oShape := Some n\<rparr>)" by (rule objStep_framed [OF I k(7,2,6)])
    show "propsOf h' (obj\<lparr>oShape := Some n\<rparr>) = withKey (propsOf h obj) key attrs"
      using k(4) p propsOf_at [OF I(2), of h] by simp
    show "slotOf (propsOf h' (obj\<lparr>oShape := Some n\<rparr>)) key slot" using k(5) p by simp
  qed
qed

lemma ensureUnique_step:
  assumes I: "heapInv h U" "objOk h U obj"
  obtains h' n where "ensureUniqueShape h obj = (h', obj\<lparr>oShape := Some n\<rparr>)"
    "objStep U h obj h' (obj\<lparr>oShape := Some n\<rparr>)" "propsAt h' n = propsOf h obj" "\<not> inTree h' n"
proof (cases "inTree h (addrOf obj)")
  case False
  have u: "1 \<le> U (addrOf obj)" using I(2) by (simp add: objOk_def)
  have o: "obj\<lparr>oShape := Some (addrOf obj)\<rparr> = obj" using objOk_addr [OF I(2)] by (cases obj) simp
  show thesis
  proof (rule that [of h "addrOf obj"])
    show "ensureUniqueShape h obj = (h, obj\<lparr>oShape := Some (addrOf obj)\<rparr>)"
      using isInTree_iff [OF I(1) u] False o objOk_addr [OF I(2)] by (simp add: ensureUniqueShape_def deref_def)
  qed (use o objStep_refl [OF I] propsOf_at [OF I(2), of h] False in simp_all)
next
  case True
  define a where "a = addrOf obj"
  have u: "1 \<le> U a" using I(2) by (simp add: objOk_def a_def)
  note a = user_in [OF I(1) u] and N = heapInv_node [OF I(1)]
  have tr: "isInTree (Some (hpShape h a))" using isInTree_iff [OF I(1) u] True by (simp add: a_def)
  define s where "s = hpShape h a"
  define n where "n = hpNext h"
  define sa where "sa = s\<lparr>shRefCount := (if 0 < shRefCount s then shRefCount s - 1 else shRefCount s)\<rparr>"
  define h' where "h' = h\<lparr>hpShape := (hpShape h)(a := sa, n := cloneRec s), hpNext := Suc n\<rparr>"
  have an: "a \<noteq> n" using a by (simp add: n_def)
  have cl: "cloneRec (s\<lparr>shRefCount := r\<rparr>) = cloneRec s" for r by (simp add: cloneRec_def Let_def)
  have eq: "clone (release h (Some a)) a = (h', n)"
    using an by (auto simp: clone_def allocShape_def release.simps setShape_def h'_def sa_def s_def n_def
        cl [unfolded s_def] fun_eq_iff)
  have at: "hpShape h' a = sa" "hpShape h' n = cloneRec s" "x < n \<Longrightarrow> x \<noteq> a \<Longrightarrow> hpShape h' x = hpShape h x" for x
    using an by (simp_all add: h'_def)
  have nx: "hpNext h' = Suc n" "hpRoots h' = hpRoots h" by (simp_all add: h'_def)
  have same: "propsAt h' x = propsAt h x \<and> shParent (hpShape h' x) = shParent (hpShape h x) \<and>
      limitAt h' x = limitAt h x" if "x < n" for x
    using at(1) at(3) [OF that] by (cases "x = a") (simp_all add: s_def sa_def)
  have sn: "sameNodes h h'" using same by (simp add: sameNodes_def nx n_def)
  have rt: "isRoot h' x \<longleftrightarrow> isRoot h x" for x by (simp add: isRoot_def nx)
  have rootn: "\<not> isRoot h' n" using I(1) by (auto simp: rt heapInv_def n_def)
  have tn: "\<not> inTree h' n" using rootn at by (simp add: inTree_def clone_fields)
  have ta: "inTree h' a" using sameNodes_tree [OF sn] a True by (simp add: a_def)
  have nodes: "nodeOk h' x" if "x < hpNext h'" for x
  proof (cases "x = n")
    case True
    then show ?thesis using wf_clone [OF nodeOk_wf [OF N [OF a]], folded s_def]
      by (intro nodeOkI) (simp_all add: at clone_fields)
  next
    case False
    then have x: "x < n" using that nx by simp
    have "x \<noteq> a \<Longrightarrow> hpShape h' x = hpShape h x" using at(3) [OF x] .
    then show ?thesis
      using nodeOk_same [OF N [of x] _ sn] x at(1)
      by (cases "x = a") (simp_all add: n_def sa_def s_def)
  qed
  have ua: "U a - 1 < unat (shRefCount sa)" if r: "isRoot h a"
  proof -
    have w: "U a < unat (shRefCount s)" using I(1) r by (simp add: heapInv_def s_def)
    then have p: "0 < shRefCount s" by (simp add: word_less_nat_alt)
    then have "unat (shRefCount s - 1) = unat (shRefCount s) - 1" by (simp add: unat_minus_one unat_gt_0)
    with w p u show ?thesis by (simp add: sa_def)
  qed
  have inv: "heapInv h' (moveUser U a n)"
    unfolding heapInv_def
  proof (intro conjI allI impI)
    fix x
    show "x < hpNext h' \<Longrightarrow> nodeOk h' x" by (rule nodes)
    show "isRoot h' x \<Longrightarrow> x < hpNext h'" using I(1) rt by (fastforce simp: heapInv_def nx n_def)
    show "isRoot h' x \<Longrightarrow> shParent (hpShape h' x) = None"
      using I(1) rt sn by (fastforce simp: heapInv_def sameNodes_def)
    assume r: "isRoot h' x"
    then have x: "x < n" "U x < unat (shRefCount (hpShape h x))" using I(1) rt by (auto simp: heapInv_def n_def)
    show "moveUser U a n x < unat (shRefCount (hpShape h' x))"
      using x ua r rt an at by (cases "x = a") (simp_all add: moveUser_def)
  next
    fix x
    assume x: "x < hpNext h'" "\<not> inTree h' x"
    then have c: "x = n \<or> x < n \<and> x \<noteq> a" using ta nx by (auto simp: less_Suc_eq)
    have "U n = 0" using I(1) by (simp add: heapInv_def n_def)
    then show "moveUser U a n x \<le> 1" "shRefCount (hpShape h' x) = 1"
      using c I(1) x sameNodes_tree [OF sn, of x] at an by (auto simp: moveUser_def clone_fields heapInv_def n_def)
  next
    fix x
    assume "hpNext h' \<le> x"
    with I(1) a show "moveUser U a n x = 0" by (auto simp: heapInv_def nx moveUser_def n_def)
  qed
  have rl: "rootsLe h h'"
  proof (rule rootsLeI [OF I(1) sn])
    fix x
    assume "isRoot h x"
    then have "x < n" using I(1) by (auto simp: heapInv_def n_def)
    then show "shRefCount (hpShape h' x) \<le> shRefCount (hpShape h x)"
      using at(1) at(3) [of x] u32_pred_le [of "shRefCount s"] by (cases "x = a") (simp_all add: s_def sa_def)
  qed
  have clamp: "clampInobjLimit (clampInobjLimit l) = clampInobjLimit l" for l by (simp add: clampInobjLimit_def)
  have lim: "limitAt h' n = limitAt h a" by (simp add: at clone_fields clamp s_def)
  show thesis
  proof (rule that [of h' n])
    show "ensureUniqueShape h obj = (h', obj\<lparr>oShape := Some n\<rparr>)"
      using tr eq objOk_addr [OF I(2)] by (simp add: ensureUniqueShape_def deref_def a_def [symmetric])
    show "objStep U h obj h' (obj\<lparr>oShape := Some n\<rparr>)"
      using objStep_framed [OF I] sameNodes_framed [OF sn rl] inv lim by (simp add: a_def)
    show "propsAt h' n = propsOf h obj" using propsOf_at [OF I(2), of h] by (simp add: at clone_fields s_def a_def)
  qed (rule tn)
qed


lemma private_edit:
  assumes I: "heapInv h U" "objOk h U obj" "\<not> inTree h (addrOf obj)"
    and s: "wfShape s" "shParent s = None" "shRefCount s = 1" "shChildren s = Map.empty" "shTrChild s = None"
      "shInobjLimit s = shInobjLimit (hpShape h (addrOf obj))"
  shows "objStep U h obj (setShape h (addrOf obj) s\<lparr>hpEpoch := e\<rparr>) obj"
    "propsOf (setShape h (addrOf obj) s\<lparr>hpEpoch := e\<rparr>) obj = shProps s"
    "\<not> inTree (setShape h (addrOf obj) s\<lparr>hpEpoch := e\<rparr>) (addrOf obj)"
proof -
  have u: "1 \<le> U (addrOf obj)" using I(2) by (simp add: objOk_def)
  note p = private_update [OF I(1) u I(3) s(1-5), of e]
  show "objStep U h obj (setShape h (addrOf obj) s\<lparr>hpEpoch := e\<rparr>) obj"
    by (rule objStep_inplace [OF I(1,2) p(2,1)]) (simp add: setShape_def s(6))
  show "propsOf (setShape h (addrOf obj) s\<lparr>hpEpoch := e\<rparr>) obj = shProps s"
    unfolding propsOf_at [OF I(2)] by (simp add: setShape_def)
  show "\<not> inTree (setShape h (addrOf obj) s\<lparr>hpEpoch := e\<rparr>) (addrOf obj)" by (rule p(3))
qed

lemma noteLayout_epoch: "\<exists>e. noteLayoutChange h obj = h\<lparr>hpEpoch := e\<rparr>"
proof -
  have "h = h\<lparr>hpEpoch := hpEpoch h\<rparr>" by simp
  then show ?thesis using bump_epoch [of h] unfolding noteLayoutChange_def by (cases "oUsedAsProto obj") metis+
qed

lemma epoch_views [simp]:
  "propsOf (h\<lparr>hpEpoch := e\<rparr>) obj = propsOf h obj" "inobjLimit (h\<lparr>hpEpoch := e\<rparr>) obj = inobjLimit h obj"
  "slotGetRaw (h\<lparr>hpEpoch := e\<rparr>) obj i = slotGetRaw h obj i" "slotSet (h\<lparr>hpEpoch := e\<rparr>) obj i v = slotSet h obj i v"
  "absObj (h\<lparr>hpEpoch := e\<rparr>) obj = absObj h obj"
  by (simp_all add: propsOf_def deref_def inobjLimit_def slotGetRaw_def slotSet_def absObj_def)

lemma objStep_epoch [simp]: "objStep U h obj (h'\<lparr>hpEpoch := e\<rparr>) obj' \<longleftrightarrow> objStep U h obj h' obj'"
  by (simp add: objStep_def objOk_def sameFor_def rootsLe_def)

text \<open>Slots.\<close>

lemma slotSet_fields [simp]: "oShape (slotSet h obj i v) = oShape obj" "addrOf (slotSet h obj i v) = addrOf obj"
  "oExtensible (slotSet h obj i v) = oExtensible obj" "oUsedAsProto (slotSet h obj i v) = oUsedAsProto obj"
  "oProto (slotSet h obj i v) = oProto obj" "length (oInobj (slotSet h obj i v)) = length (oInobj obj)"
  "propsOf h' (slotSet h obj i v) = propsOf h' obj" "inobjLimit h' (slotSet h obj i v) = inobjLimit h' obj"
  "noteLayoutChange h' (slotSet h obj i v) = noteLayoutChange h' obj"
  by (simp_all add: slotSet_def Let_def addrOf_def propsOf_def inobjLimit_def noteLayoutChange_def)

lemma inobjLimit_le: "inobjLimit h obj \<le> inobjMaxSlots"
  by (simp add: inobjLimit_def getInobjLimit_def clampInobjLimit_def split: option.split)

lemma objOk_limit: "objOk h U obj \<Longrightarrow> inobjLimit h' obj \<le> length (oInobj obj)"
  using inobjLimit_le [of h' obj] by (simp add: objOk_def)

lemma slotGetRaw_set:
  assumes "inobjLimit h obj \<le> length (oInobj obj)"
  shows "slotGetRaw h (slotSet h obj slot v) i = (if i = slot then v else slotGetRaw h obj i)"
proof -
  have l: "inobjLimit h (slotSet h obj slot v) = inobjLimit h obj" by simp
  show ?thesis
  proof (cases "slot < inobjLimit h obj")
    case True
    with assms show ?thesis
      by (simp add: slotGetRaw_def l Let_def del: slotSet_fields) (auto simp: slotSet_def nth_list_update)
  next
    case False
    then show ?thesis
      by (simp add: slotGetRaw_def l Let_def del: slotSet_fields)
        (auto simp: slotSet_def Let_def nth_list_update nth_append)
  qed
qed

lemma slotGetRaw_cong:
  "inobjLimit h' obj' = inobjLimit h obj \<Longrightarrow> oInobj obj' = oInobj obj \<Longrightarrow> oOverflow obj' = oOverflow obj \<Longrightarrow>
   slotGetRaw h' obj' i = slotGetRaw h obj i"
  by (simp add: slotGetRaw_def Let_def)

lemma objStep_slot:
  assumes "objOk h U obj" "objStep U h obj h' obj'"
  shows "objStep U h obj h' (slotSet h'' obj' slot v)"
  using assms(2) by (simp add: objStep_def objOk_def userStep_def)

definition noLazy :: "heap \<Rightarrow> jsObject \<Rightarrow> bool" where
  "noLazy h obj \<longleftrightarrow> (\<forall>i. \<not> isLazy (slotGetRaw h obj i))"

lemma mkundef_plain [simp]: "\<not> isLazy mkundef"
  by code_simp

lemma noLazy_epoch [simp]: "noLazy (h\<lparr>hpEpoch := e\<rparr>) obj \<longleftrightarrow> noLazy h obj"
  by (simp add: noLazy_def)

lemma noLazy_set: "inobjLimit h obj \<le> length (oInobj obj) \<Longrightarrow> noLazy h obj \<Longrightarrow> \<not> isLazy v \<Longrightarrow> noLazy h (slotSet h obj slot v)"
  by (simp add: noLazy_def slotGetRaw_set)

section \<open>The list of own properties\<close>

lemma absObj_length [simp]: "length (absObj h obj) = length (propsOf h obj)"
  by (simp add: absObj_def)

lemma absObj_nth: "i < length (propsOf h obj) \<Longrightarrow>
    absObj h obj ! i = (spKey (propsOf h obj ! i), spAttrs (propsOf h obj ! i), absVal (propsOf h obj ! i) (slotGetRaw h obj i))"
  by (simp add: absObj_def)

lemma absObj_keys: "map fst (absObj h obj) = map spKey (propsOf h obj)"
  by (rule nth_equalityI) (simp_all add: absObj_nth)

lemma putProp_at:
  "distinct (map fst xs) \<Longrightarrow> i < length xs \<Longrightarrow> fst (xs ! i) = fst p \<Longrightarrow> putProp xs p = xs[i := p]"
proof (induction xs arbitrary: i)
  case (Cons x xs)
  show ?case
  proof (cases i)
    case (Suc j)
    with Cons.prems have "fst p \<in> fst ` set xs" by (metis (no_types) image_eqI length_Cons not_less_eq nth_Cons_Suc nth_mem)
    with Cons Suc show ?thesis by auto
  qed (use Cons.prems in simp)
qed simp

lemma putProp_new: "fst p \<notin> fst ` set xs \<Longrightarrow> putProp xs p = xs @ [p]"
  by (induction xs) auto

lemma own_wf:
  assumes "heapInv h U" "objOk h U obj"
  shows "wfShape (hpShape h (addrOf obj))" "list_all canonicalKey (map spKey (propsOf h obj))"
    "distinct (map spKey (propsOf h obj))" "shapeOf h obj = Some (hpShape h (addrOf obj))"
proof -
  have u: "1 \<le> U (addrOf obj)" using assms(2) by (simp add: objOk_def)
  show w: "wfShape (hpShape h (addrOf obj))"
    by (rule nodeOk_wf [OF heapInv_node [OF assms(1) user_in [OF assms(1) u]]])
  show "list_all canonicalKey (map spKey (propsOf h obj))" "distinct (map spKey (propsOf h obj))"
    using w propsOf_at [OF assms(2), of h] by (simp_all add: wfShape_def)
  show "shapeOf h obj = Some (hpShape h (addrOf obj))" using objOk_addr [OF assms(2)] by (simp add: deref_def)
qed

lemma withKey_at:
  assumes "list_all canonicalKey (map spKey ps)" "distinct (map spKey ps)" "canonicalKey key"
    and "slotOf (withKey ps key attrs) key slot"
  shows "slotOf ps key slot \<and> withKey ps key attrs = ps[slot := (ps ! slot)\<lparr>spAttrs := attrs\<rparr>] \<or>
    key \<notin> spKey ` set ps \<and> slot = length ps \<and> withKey ps key attrs = ps @ [newProp key attrs]"
proof (cases "findKey ps key")
  case None
  then have "\<not> (\<exists>i. slotOf ps key i)" using findKey_slot [OF assms(1-3)] by simp
  then show ?thesis using None assms(4) slotOf_ex [of ps key] by (auto simp: withKey_def slotOf_append)
next
  case (Some s)
  then have s: "slotOf ps key s" using findKey_slot [OF assms(1-3)] by simp
  have "slotOf ps key slot" using assms(4) Some by (simp add: withKey_def slotOf_update)
  then have "slot = s" using slot_unique [OF assms(2)] s by blast
  with s Some show ?thesis by (simp add: withKey_def)
qed

lemma withKey_attrs:
  assumes "list_all canonicalKey (map spKey ps)" "distinct (map spKey ps)" "canonicalKey key"
    and "slotOf (withKey ps key attrs) key slot"
  shows "spAttrs (withKey ps key attrs ! slot) = attrs" "spKey (withKey ps key attrs ! slot) = key"
    "slot < length (withKey ps key attrs)"
  using withKey_at [OF assms] assms(4) by (auto simp: slotOf_def newProp_def)

lemma absObj_put:
  assumes ps: "list_all canonicalKey (map spKey (propsOf h obj))" "distinct (map spKey (propsOf h obj))"
      "canonicalKey key" "slotOf (withKey (propsOf h obj) key attrs) key slot"
    and q: "propsOf h' obj' = (withKey (propsOf h obj) key attrs)[slot := q]" "spKey q = key"
    and v: "\<And>i. slotGetRaw h' obj' i = (if i = slot then v else slotGetRaw h obj i)"
  shows "absObj h' obj' = putProp (absObj h obj) (key, spAttrs q, absVal q v)"
proof -
  from withKey_at [OF ps] show ?thesis
  proof
    assume a: "slotOf (propsOf h obj) key slot \<and>
      withKey (propsOf h obj) key attrs = (propsOf h obj)[slot := (propsOf h obj ! slot)\<lparr>spAttrs := attrs\<rparr>]"
    then have p: "propsOf h' obj' = (propsOf h obj)[slot := q]" "slot < length (propsOf h obj)"
      "spKey (propsOf h obj ! slot) = key"
      using q(1) by (auto simp: slotOf_def)
    have "putProp (absObj h obj) (key, spAttrs q, absVal q v) = (absObj h obj)[slot := (key, spAttrs q, absVal q v)]"
      by (rule putProp_at) (use p ps(2) in \<open>simp_all add: absObj_keys absObj_nth\<close>)
    also have "\<dots> = absObj h' obj'"
      by (rule nth_equalityI) (use p q(2) v in \<open>auto simp: absObj_nth nth_list_update\<close>)
    finally show ?thesis by simp
  next
    assume a: "key \<notin> spKey ` set (propsOf h obj) \<and> slot = length (propsOf h obj) \<and>
      withKey (propsOf h obj) key attrs = propsOf h obj @ [newProp key attrs]"
    then have p: "propsOf h' obj' = propsOf h obj @ [q]" "slot = length (propsOf h obj)" using q(1) by simp_all
    have "key \<notin> fst ` set (absObj h obj)"
      using a absObj_keys [of h obj] by (metis list.set_map)
    then have "putProp (absObj h obj) (key, spAttrs q, absVal q v) = absObj h obj @ [(key, spAttrs q, absVal q v)]"
      by (intro putProp_new) simp
    also have "\<dots> = absObj h' obj'"
      by (rule nth_equalityI) (use p q(2) v in \<open>auto simp: absObj_nth nth_append less_Suc_eq\<close>)
    finally show ?thesis by simp
  qed
qed


section \<open>The methods\<close>

lemma stampProp_eq:
  assumes "objOk h U obj" "slot < length (propsOf h obj)"
  shows "stampProp h obj slot f = setShape h (addrOf obj)
    ((hpShape h (addrOf obj))\<lparr>shProps := (propsOf h obj)[slot := f (propsOf h obj ! slot)]\<rparr>)"
  using assms objOk_addr [OF assms(1)] propsOf_at [OF assms(1), of h]
  by (simp add: stampProp_def propAt_def deref_def)

text \<open>Making the shape private and writing a property of it in place.\<close>

lemma unique_stamp:
  assumes I: "heapInv h U" "objOk h U obj" and slot: "slot < length (propsOf h obj)"
    and f: "spKey (f (propsOf h obj ! slot)) = spKey (propsOf h obj ! slot)"
    and e: "ensureUniqueShape h obj = (h1, obj1)"
  shows "objStep U h obj (stampProp h1 obj1 slot f) obj1"
    "propsOf (stampProp h1 obj1 slot f) obj1 = (propsOf h obj)[slot := f (propsOf h obj ! slot)]"
    "oInobj obj1 = oInobj obj" "oOverflow obj1 = oOverflow obj"
proof -
  obtain h' n where k: "ensureUniqueShape h obj = (h', obj\<lparr>oShape := Some n\<rparr>)"
    "objStep U h obj h' (obj\<lparr>oShape := Some n\<rparr>)" "propsAt h' n = propsOf h obj" "\<not> inTree h' n"
    by (rule ensureUnique_step [OF I])
  define U1 where "U1 = userStep U obj (obj\<lparr>oShape := Some n\<rparr>)"
  have eq: "h1 = h'" "obj1 = obj\<lparr>oShape := Some n\<rparr>" using e k(1) by simp_all
  have n: "addrOf obj1 = n" by (simp add: eq addrOf_def)
  have I1: "heapInv h1 U1" "objOk h1 U1 obj1" using k(2) by (simp_all add: objStep_def eq U1_def)
  have p: "propsOf h1 obj1 = propsOf h obj" using k(3) propsOf_at [OF I1(2), of h1] n eq by simp
  have u: "1 \<le> U1 (addrOf obj1)" using I1(2) by (simp add: objOk_def)
  have t: "\<not> inTree h1 (addrOf obj1)" using k(4) n eq by simp
  note P = private_shape [OF I1(1) u t]
  define s where "s = (hpShape h1 (addrOf obj1))\<lparr>shProps := (propsOf h obj)[slot := f (propsOf h obj ! slot)]\<rparr>"
  have st: "stampProp h1 obj1 slot f = setShape h1 (addrOf obj1) s\<lparr>hpEpoch := hpEpoch h1\<rparr>"
    using stampProp_eq [OF I1(2), of slot f] slot p by (simp add: s_def setShape_def)
  have w: "wfShape s"
    unfolding s_def using wf_update [OF P(5), of "f (propsOf h obj ! slot)" slot] f p propsOf_at [OF I1(2), of h1] by simp
  have step: "objStep U1 h1 obj1 (stampProp h1 obj1 slot f) obj1"
    "propsOf (stampProp h1 obj1 slot f) obj1 = shProps s"
    unfolding st using private_edit [OF I1 t w, of "hpEpoch h1"] P by (simp_all add: s_def)
  show "objStep U h obj (stampProp h1 obj1 slot f) obj1"
    by (rule objStep_trans [OF I(2), of h1 obj1]) (use k(2) step(1) in \<open>simp_all add: eq U1_def\<close>)
  show "propsOf (stampProp h1 obj1 slot f) obj1 = (propsOf h obj)[slot := f (propsOf h obj ! slot)]"
    using step(2) by (simp add: s_def)
  show "oInobj obj1 = oInobj obj" "oOverflow obj1 = oOverflow obj" by (simp_all add: eq)
qed

lemma key_props:
  assumes I: "heapInv h U" "objOk h U obj" and key: "canonicalKey key"
    and k: "propsOf h1 obj1 = withKey (propsOf h obj) key attrs" "slotOf (propsOf h1 obj1) key slot"
  shows "slot < length (propsOf h1 obj1)" "spKey (propsOf h1 obj1 ! slot) = key"
    "spAttrs (propsOf h1 obj1 ! slot) = attrs"
  using withKey_attrs [OF own_wf(2,3) [OF I] key, of attrs slot] k by simp_all

lemma define_result:
  assumes I: "heapInv h U" "objOk h U obj" and key: "canonicalKey key"
    and k: "propsOf h1 obj1 = withKey (propsOf h obj) key attrs" "slotOf (propsOf h1 obj1) key slot"
    and st: "objStep U h obj h2 obj2" "propsOf h2 obj2 = (propsOf h1 obj1)[slot := q]" "spKey q = key" "spAttrs q = attrs"
      "oInobj obj2 = oInobj obj" "oOverflow obj2 = oOverflow obj"
  shows "objStep U h obj (noteLayoutChange h2 obj2) (slotSet h2 obj2 slot v)"
    "absObj (noteLayoutChange h2 obj2) (slotSet h2 obj2 slot v) = putProp (absObj h obj) (key, attrs, absVal q v)"
    "noLazy h obj \<Longrightarrow> \<not> isLazy v \<Longrightarrow> noLazy (noteLayoutChange h2 obj2) (slotSet h2 obj2 slot v)"
proof -
  obtain e where e: "noteLayoutChange h2 obj2 = h2\<lparr>hpEpoch := e\<rparr>" using noteLayout_epoch by blast
  have lim: "inobjLimit h2 obj2 = inobjLimit h obj" using st(1) by (simp add: objStep_def)
  have l: "inobjLimit h2 obj2 \<le> length (oInobj obj2)" using objOk_limit [OF I(2), of h] lim st(5) by simp
  show "objStep U h obj (noteLayoutChange h2 obj2) (slotSet h2 obj2 slot v)"
    unfolding e using objStep_slot [OF I(2) st(1)] by simp
  have "absObj h2 (slotSet h2 obj2 slot v) = putProp (absObj h obj) (key, spAttrs q, absVal q v)"
  proof (rule absObj_put [OF own_wf(2,3) [OF I] key])
    show "slotOf (withKey (propsOf h obj) key attrs) key slot" using k by simp
    show "propsOf h2 (slotSet h2 obj2 slot v) = (withKey (propsOf h obj) key attrs)[slot := q]" using st(2) k(1) by simp
    show "slotGetRaw h2 (slotSet h2 obj2 slot v) i = (if i = slot then v else slotGetRaw h obj i)" for i
      using slotGetRaw_set [OF l] slotGetRaw_cong [OF lim st(5,6)] by simp
  qed (rule st(3))
  then show "absObj (noteLayoutChange h2 obj2) (slotSet h2 obj2 slot v) = putProp (absObj h obj) (key, attrs, absVal q v)"
    unfolding e using st(4) by simp
  show "noLazy h obj \<Longrightarrow> \<not> isLazy v \<Longrightarrow> noLazy (noteLayoutChange h2 obj2) (slotSet h2 obj2 slot v)"
    unfolding e using noLazy_set [OF l, of v slot] slotGetRaw_cong [OF lim st(5,6)] by (simp add: noLazy_def)
qed

lemma defineData_step:
  assumes I: "heapInv h U" "objOk h U obj" and key: "canonicalKey key"
  obtains h' obj' where "defineDataAt (addKeyTr h (oShape obj) key attrs) obj v = (h', obj', True)"
    "objStep U h obj h' obj'" "absObj h' obj' = putProp (absObj h obj) (key, attrs, DataVal v)"
    "noLazy h obj \<Longrightarrow> \<not> isLazy v \<Longrightarrow> noLazy h' obj'"
proof -
  obtain h1 n slot where k: "addKeyTr h (oShape obj) key attrs = (h1, Some n, Some slot)"
    "objStep U h obj h1 (obj\<lparr>oShape := Some n\<rparr>)"
    "propsOf h1 (obj\<lparr>oShape := Some n\<rparr>) = withKey (propsOf h obj) key attrs"
    "slotOf (propsOf h1 (obj\<lparr>oShape := Some n\<rparr>)) key slot"
    by (rule addKeyTr_step [OF I key])
  define obj1 where "obj1 = obj\<lparr>oShape := Some n\<rparr>"
  define U1 where "U1 = userStep U obj obj1"
  have I1: "heapInv h1 U1" "objOk h1 U1 obj1" using k(2) by (simp_all add: objStep_def obj1_def U1_def)
  note K = key_props [OF I key k(3,4)]
  have acc: "isAccessorSlot h1 obj1 slot \<longleftrightarrow> spAccessor (propsOf h1 obj1 ! slot)"
    using K(1) own_wf(4) [OF I1] propsOf_at [OF I1(2), of h1] by (simp add: isAccessorSlot_def propAt_def obj1_def)
  show thesis
  proof (cases "spAccessor (propsOf h1 obj1 ! slot)")
    case False
    note D = define_result [OF I key k(3,4), of h1 obj1 "propsOf h1 obj1 ! slot" v, folded obj1_def, OF k(2) [folded obj1_def]]
    have eq: "defineDataAt (addKeyTr h (oShape obj) key attrs) obj v =
        (noteLayoutChange h1 obj1, slotSet h1 obj1 slot v, True)"
      using acc False by (simp add: defineDataAt_def k(1) Let_def obj1_def)
    show thesis
      by (rule that [OF eq]) (use D K False in \<open>simp_all add: obj1_def absVal_def\<close>)
  next
    case True
    obtain h2 obj2 where e: "ensureUniqueShape h1 obj1 = (h2, obj2)" by (cases "ensureUniqueShape h1 obj1")
    note S = unique_stamp [OF I1 _ _ e, of slot asData]
    have S': "objStep U1 h1 obj1 (stampProp h2 obj2 slot asData) obj2"
      "propsOf (stampProp h2 obj2 slot asData) obj2 = (propsOf h1 obj1)[slot := asData (propsOf h1 obj1 ! slot)]"
      "oInobj obj2 = oInobj obj1" "oOverflow obj2 = oOverflow obj1"
      using S K by (simp_all add: obj1_def asData_def)
    have t: "objStep U h obj (stampProp h2 obj2 slot asData) obj2"
      by (rule objStep_trans [OF I(2) k(2)]) (use S'(1) in \<open>simp add: U1_def obj1_def\<close>)
    have eq: "defineDataAt (addKeyTr h (oShape obj) key attrs) obj v =
        (noteLayoutChange (stampProp h2 obj2 slot asData) obj2, slotSet (stampProp h2 obj2 slot asData) obj2 slot v, True)"
      using acc True e by (simp add: defineDataAt_def k(1) Let_def obj1_def)
    note D = define_result [OF I key k(3,4) t S'(2) [unfolded obj1_def], of v]
    show thesis
      by (rule that [OF eq]) (use D S' K in \<open>simp_all add: obj1_def asData_def absVal_def\<close>)
  qed
qed

lemma defineAccessor_step:
  assumes I: "heapInv h U" "objOk h U obj" and key: "canonicalKey key"
  obtains h' obj' where "defineAccessorAt (addKeyTr h (oShape obj) key attrs) obj getter setter hasGet hasSet = (h', obj', True)"
    "objStep U h obj h' obj'" "absObj h' obj' = putProp (absObj h obj)
       (key, attrs, AccVal (if hasGet then Some getter else None) (if hasSet then Some setter else None))"
    "noLazy h obj \<Longrightarrow> noLazy h' obj'"
proof -
  obtain h1 n slot where k: "addKeyTr h (oShape obj) key attrs = (h1, Some n, Some slot)"
    "objStep U h obj h1 (obj\<lparr>oShape := Some n\<rparr>)"
    "propsOf h1 (obj\<lparr>oShape := Some n\<rparr>) = withKey (propsOf h obj) key attrs"
    "slotOf (propsOf h1 (obj\<lparr>oShape := Some n\<rparr>)) key slot"
    by (rule addKeyTr_step [OF I key])
  define obj1 where "obj1 = obj\<lparr>oShape := Some n\<rparr>"
  define U1 where "U1 = userStep U obj obj1"
  define f where "f = asAccessor getter setter hasGet hasSet"
  have I1: "heapInv h1 U1" "objOk h1 U1 obj1" using k(2) by (simp_all add: objStep_def obj1_def U1_def)
  note K = key_props [OF I key k(3,4)]
  obtain h2 obj2 where e: "ensureUniqueShape h1 obj1 = (h2, obj2)" by (cases "ensureUniqueShape h1 obj1")
  note S = unique_stamp [OF I1 _ _ e, of slot f]
  have S': "objStep U1 h1 obj1 (stampProp h2 obj2 slot f) obj2"
    "propsOf (stampProp h2 obj2 slot f) obj2 = (propsOf h1 obj1)[slot := f (propsOf h1 obj1 ! slot)]"
    "oInobj obj2 = oInobj obj1" "oOverflow obj2 = oOverflow obj1"
    using S K by (simp_all add: obj1_def f_def asAccessor_def)
  have t: "objStep U h obj (stampProp h2 obj2 slot f) obj2"
    by (rule objStep_trans [OF I(2) k(2)]) (use S'(1) in \<open>simp add: U1_def obj1_def\<close>)
  have eq: "defineAccessorAt (addKeyTr h (oShape obj) key attrs) obj getter setter hasGet hasSet =
      (noteLayoutChange (stampProp h2 obj2 slot f) obj2, slotSet (stampProp h2 obj2 slot f) obj2 slot mkundef, True)"
    using e by (simp add: defineAccessorAt_def k(1) Let_def obj1_def f_def)
  note D = define_result [OF I key k(3,4) t S'(2) [unfolded obj1_def], of mkundef]
  show thesis
    by (rule that [OF eq]) (use D S' K in \<open>simp_all add: obj1_def f_def asAccessor_def absVal_def\<close>)
qed


section \<open>Looking up\<close>

lemma own_lookup:
  assumes I: "heapInv h U" "objOk h U obj" and key: "canonicalKey key"
  shows "lookup (shapeOf h obj) key = Some slot \<longleftrightarrow> slotOf (propsOf h obj) key slot"
  using lookup_slot [OF own_wf(1) [OF I] key] own_wf(4) [OF I] propsOf_at [OF I(2), of h] by simp

lemma own_none:
  assumes I: "heapInv h U" "objOk h U obj" and key: "canonicalKey key"
  shows "lookup (shapeOf h obj) key = None \<longleftrightarrow> map_of (absObj h obj) key = None"
proof -
  have "lookup (shapeOf h obj) key = None \<longleftrightarrow> key \<notin> spKey ` set (propsOf h obj)"
    using lookup_none [OF own_wf(1) [OF I] key] own_wf(4) [OF I] propsOf_at [OF I(2), of h] by simp
  also have "spKey ` set (propsOf h obj) = fst ` set (absObj h obj)"
    using absObj_keys [of h obj] by (metis list.set_map)
  finally show ?thesis by (simp add: map_of_eq_None_iff)
qed

lemma own_some:
  assumes I: "heapInv h U" "objOk h U obj" and s: "slotOf (propsOf h obj) key slot"
  shows "map_of (absObj h obj) key = Some (spAttrs (propsOf h obj ! slot), absVal (propsOf h obj ! slot) (slotGetRaw h obj slot))"
proof (rule map_of_is_SomeI)
  show "distinct (map fst (absObj h obj))" using own_wf(3) [OF I] by (simp add: absObj_keys)
  have "absObj h obj ! slot \<in> set (absObj h obj)" using s by (simp add: slotOf_def)
  then show "(key, spAttrs (propsOf h obj ! slot), absVal (propsOf h obj ! slot) (slotGetRaw h obj slot)) \<in> set (absObj h obj)"
    using s by (simp add: absObj_nth slotOf_def)
qed

lemma own_attrs:
  assumes I: "heapInv h U" "objOk h U obj" and s: "slot < length (propsOf h obj)"
  shows "attrsAt (shapeOf h obj) slot = spAttrs (propsOf h obj ! slot)"
    "propAt (shapeOf h obj) slot = Some (propsOf h obj ! slot)"
  using s own_wf(4) [OF I] propsOf_at [OF I(2), of h] by (simp_all add: attrsAt_def propAt_def)

lemma slotGet_plain: "noLazy h obj \<Longrightarrow> slotGet force h obj i = (obj, slotGetRaw h obj i)"
  unfolding noLazy_def by (drule spec [of _ i]) (auto simp: slotGet_def slotGetRaw_def Let_def)

lemma readSlots_plain: "noLazy h obj \<Longrightarrow> readSlots force h obj is = (obj, map (slotGetRaw h obj) is)"
  by (induction "is") (simp_all add: slotGet_plain)

lemma writeSlots_fields [simp]: "oShape (writeSlots h obj i vs) = oShape obj" "addrOf (writeSlots h obj i vs) = addrOf obj"
  "oExtensible (writeSlots h obj i vs) = oExtensible obj" "oUsedAsProto (writeSlots h obj i vs) = oUsedAsProto obj"
  "oProto (writeSlots h obj i vs) = oProto obj" "length (oInobj (writeSlots h obj i vs)) = length (oInobj obj)"
  "propsOf h' (writeSlots h obj i vs) = propsOf h' obj" "inobjLimit h' (writeSlots h obj i vs) = inobjLimit h' obj"
  "noteLayoutChange h' (writeSlots h obj i vs) = noteLayoutChange h' obj"
  by (induction vs arbitrary: obj i) simp_all

lemma writeSlots_raw:
  assumes "inobjLimit h obj \<le> length (oInobj obj)"
  shows "slotGetRaw h (writeSlots h obj slot vs) i =
    (if slot \<le> i \<and> i < slot + length vs then vs ! (i - slot) else slotGetRaw h obj i)"
  using assms
proof (induction vs arbitrary: obj slot)
  case (Cons v vs)
  have "inobjLimit h (slotSet h obj slot v) \<le> length (oInobj (slotSet h obj slot v))" using Cons.prems by simp
  from Cons.IH [OF this] show ?case
    by (auto simp: slotGetRaw_set [OF Cons.prems] nth_Cons' Suc_diff_le)
qed auto

section \<open>The methods, as operations on the list of own properties\<close>

lemma keys_inj: "strKey s = strKey t \<longleftrightarrow> s = t" "symKey i = symKey j \<longleftrightarrow> i = j" "strKey s \<noteq> symKey i"
  by (simp_all add: strKey_def symKey_def)

fun deleteSpec :: "aprop list \<Rightarrow> propKey \<Rightarrow> aprop list \<times> bool" where
  "deleteSpec ps key =
     (case map_of ps key of
        None \<Rightarrow> (ps, True)
      | Some (attrs, d) \<Rightarrow> if attrs AND attrConfigurable = 0 then (ps, False) else (dropProp ps key, True))"

fun setSpec :: "bool \<Rightarrow> aprop list \<Rightarrow> propKey \<Rightarrow> u64 \<Rightarrow> aprop list \<times> bool" where
  "setSpec extensible ps key v =
     (case map_of ps key of
        None \<Rightarrow> if extensible then (putProp ps (key, attrDefault, DataVal v), True) else (ps, False)
      | Some (attrs, DataVal _) \<Rightarrow>
          if attrs AND attrWritable = 0 then (ps, False) else (putProp ps (key, attrs, DataVal v), True)
      | Some (attrs, AccVal g s) \<Rightarrow> (ps, attrs AND attrWritable \<noteq> 0))"

definition attrsSpec :: "aprop list \<Rightarrow> propKey \<Rightarrow> u8 \<Rightarrow> aprop list" where
  "attrsSpec ps key attrs = map (\<lambda>(k, a, d). if k = key then (k, attrs, d) else (k, a, d)) ps"

text \<open>Writing the slot of a property that is there.\<close>

lemma absObj_slot:
  assumes I: "heapInv h U" "objOk h U obj" and s: "slotOf (propsOf h obj) key slot"
  shows "absObj h (slotSet h obj slot v) =
    putProp (absObj h obj) (key, spAttrs (propsOf h obj ! slot), absVal (propsOf h obj ! slot) v)"
proof -
  have l: "inobjLimit h obj \<le> length (oInobj obj)" by (rule objOk_limit [OF I(2)])
  have "putProp (absObj h obj) (key, spAttrs (propsOf h obj ! slot), absVal (propsOf h obj ! slot) v) =
      (absObj h obj)[slot := (key, spAttrs (propsOf h obj ! slot), absVal (propsOf h obj ! slot) v)]"
    by (rule putProp_at) (use s own_wf(3) [OF I] in \<open>simp_all add: absObj_keys absObj_nth slotOf_def\<close>)
  also have "\<dots> = absObj h (slotSet h obj slot v)"
    by (rule nth_equalityI) (use s in \<open>auto simp: absObj_nth nth_list_update slotGetRaw_set [OF l] slotOf_def\<close>)
  finally show ?thesis by simp
qed

lemma putProp_same: "map_of ps key = Some ad \<Longrightarrow> putProp ps (key, ad) = ps"
  by (induction ps) (auto split: if_splits)

lemma setOwn_step:
  assumes I: "heapInv h U" "objOk h U obj"
  obtains h' obj' ok where "setOwn h obj key v = (h', obj', ok)" "objStep U h obj h' obj'"
    "(absObj h' obj', ok) = setSpec (oExtensible obj) (absObj h obj) (strKey key) v"
    "noLazy h obj \<Longrightarrow> \<not> isLazy v \<Longrightarrow> noLazy h' obj'"
proof (cases "lookup (shapeOf h obj) (strKey key)")
  case None
  then have m: "map_of (absObj h obj) (strKey key) = None" using own_none [OF I] by simp
  show thesis
  proof (cases "oExtensible obj")
    case True
    obtain h' obj' where d: "defineDataAt (addKeyTr h (oShape obj) (strKey key) attrDefault) obj v = (h', obj', True)"
      "objStep U h obj h' obj'" "absObj h' obj' = putProp (absObj h obj) (strKey key, attrDefault, DataVal v)"
      "noLazy h obj \<Longrightarrow> \<not> isLazy v \<Longrightarrow> noLazy h' obj'"
      by (rule defineData_step [OF I, of "strKey key" attrDefault v]) simp_all
    have "setOwn h obj key v = (h', obj', True)"
      using None True d(1) by (simp add: setOwn_def lookupInterned_def defineOwn_def addInternedTr_def)
    then show thesis by (rule that) (use d m True in simp_all)
  next
    case False
    then show thesis
      using that [of h obj False] None m objStep_refl [OF I] by (simp add: setOwn_def lookupInterned_def)
  qed
next
  case (Some slot)
  then have s: "slotOf (propsOf h obj) (strKey key) slot" using own_lookup [OF I] by simp
  then have sl: "slot < length (propsOf h obj)" by (simp add: slotOf_def)
  note m = own_some [OF I s] and at = own_attrs(1) [OF I sl] and put = absObj_slot [OF I s, of v]
  show thesis
  proof (cases "spAttrs (propsOf h obj ! slot) AND attrWritable = 0")
    case True
    show thesis
      by (rule that [of h obj False])
        (use Some True at m objStep_refl [OF I] in \<open>simp_all add: setOwn_def lookupInterned_def absVal_def\<close>)
  next
    case False
    have eq: "setOwn h obj key v = (h, slotSet h obj slot v, True)"
      using Some False at by (simp add: setOwn_def lookupInterned_def)
    show thesis
    proof (rule that [OF eq])
      show "objStep U h obj h (slotSet h obj slot v)" by (rule objStep_slot [OF I(2) objStep_refl [OF I]])
      show "(absObj h (slotSet h obj slot v), True) = setSpec (oExtensible obj) (absObj h obj) (strKey key) v"
        using m put False putProp_same [OF m] by (cases "spAccessor (propsOf h obj ! slot)") (simp_all add: absVal_def)
      show "noLazy h obj \<Longrightarrow> \<not> isLazy v \<Longrightarrow> noLazy h (slotSet h obj slot v)"
        by (rule noLazy_set [OF objOk_limit [OF I(2)]])
    qed
  qed
qed

lemma getOwn_spec:
  assumes I: "heapInv h U" "objOk h U obj" and n: "noLazy h obj" and key: "canonicalKey key"
  shows "getOwnKey force h obj key =
    (case map_of (absObj h obj) key of
       None \<Rightarrow> (obj, mkundef, False)
     | Some (attrs, DataVal v) \<Rightarrow> (obj, v, True)
     | Some (attrs, AccVal g s) \<Rightarrow> (obj, slotGetRaw h obj (the (lookup (shapeOf h obj) key)), True))"
proof (cases "lookup (shapeOf h obj) key")
  case None
  then show ?thesis using own_none [OF I key] by (simp add: getOwnKey_def)
next
  case (Some slot)
  then have s: "slotOf (propsOf h obj) key slot" using own_lookup [OF I key] by simp
  show ?thesis using own_some [OF I s] Some slotGet_plain [OF n] by (simp add: getOwnKey_def absVal_def)
qed


lemma dropSlot_filter:
  assumes "distinct (map fst xs)" "i < length xs"
  shows "dropSlot i xs = filter (\<lambda>p. fst p \<noteq> fst (xs ! i)) xs"
  using assms
proof (induction xs arbitrary: i)
  case (Cons x xs)
  show ?case
  proof (cases i)
    case 0
    have "\<forall>p\<in>set xs. fst p \<noteq> fst x" using Cons.prems(1) by (metis distinct.simps(2) image_eqI list.set_map list.simps(9))
    with 0 show ?thesis by (simp add: dropSlot_def)
  next
    case (Suc j)
    with Cons.prems have "fst (xs ! j) \<in> fst ` set xs" by simp
    with Cons.prems(1) have "fst x \<noteq> fst (xs ! j)" by (metis distinct.simps(2) list.set_map list.simps(9))
    with Cons Suc show ?thesis by (simp add: dropSlot_def)
  qed
qed simp

lemma removeProp_fields:
  "shProps (removeProp s i) = dropSlot i (shProps s)" "shParent (removeProp s i) = shParent s"
  "shRefCount (removeProp s i) = shRefCount s" "shChildren (removeProp s i) = shChildren s"
  "shTrChild (removeProp s i) = None" "shInobjLimit (removeProp s i) = shInobjLimit s"
  by (simp_all add: removeProp_def Let_def)

lemma absObj_drop:
  assumes slot: "slot < length (propsOf h obj)" and p: "propsOf h' obj' = dropSlot slot (propsOf h obj)"
    and v: "\<And>i. i < length (propsOf h obj) - 1 \<Longrightarrow>
        slotGetRaw h' obj' i = slotGetRaw h obj (if i < slot then i else Suc i)"
  shows "absObj h' obj' = dropSlot slot (absObj h obj)"
proof (rule nth_equalityI)
  have l: "length (propsOf h' obj') = length (propsOf h obj) - 1" using p slot by (simp add: dropSlot_length)
  then show "length (absObj h' obj') = length (dropSlot slot (absObj h obj))" using slot by (simp add: dropSlot_length)
  fix i
  assume "i < length (absObj h' obj')"
  then have i: "i < length (propsOf h obj) - 1" "i < length (dropSlot slot (propsOf h obj))"
    "i < length (dropSlot slot (absObj h obj))"
    using l slot p by (simp_all add: dropSlot_length)
  have q: "propsOf h' obj' ! i = propsOf h obj ! (if i < slot then i else Suc i)"
    using dropSlot_nth [OF slot i(2)] p by simp
  have "dropSlot slot (absObj h obj) ! i = absObj h obj ! (if i < slot then i else Suc i)"
    using dropSlot_nth [OF _ i(3)] slot by simp
  then show "absObj h' obj' ! i = dropSlot slot (absObj h obj) ! i"
    using i(1) l q v [OF i(1)] by (simp add: absObj_nth)
qed

lemma deleteSlot_step:
  assumes I: "heapInv h U" "objOk h U obj" and n: "noLazy h obj" and key: "canonicalKey key"
  obtains h' obj' ok where "deleteSlot force h obj (lookup (shapeOf h obj) key) = (h', obj', ok)"
    "objStep U h obj h' obj'" "(absObj h' obj', ok) = deleteSpec (absObj h obj) key" "noLazy h' obj'"
proof (cases "lookup (shapeOf h obj) key")
  case None
  then show thesis
    using that [of h obj True] own_none [OF I key] objStep_refl [OF I] n by simp
next
  case (Some slot)
  then have s: "slotOf (propsOf h obj) key slot" using own_lookup [OF I key] by simp
  then have sl: "slot < length (propsOf h obj)" "spKey (propsOf h obj ! slot) = key" by (simp_all add: slotOf_def)
  note m = own_some [OF I s] and at = own_attrs(1) [OF I sl(1)]
  show thesis
  proof (cases "spAttrs (propsOf h obj ! slot) AND attrConfigurable = 0")
    case True
    show thesis by (rule that [of h obj False]) (use Some True at m n objStep_refl [OF I] in simp_all)
  next
    case False
    obtain h1 n' where k: "ensureUniqueShape h obj = (h1, obj\<lparr>oShape := Some n'\<rparr>)"
      "objStep U h obj h1 (obj\<lparr>oShape := Some n'\<rparr>)" "propsAt h1 n' = propsOf h obj" "\<not> inTree h1 n'"
      by (rule ensureUnique_step [OF I])
    define obj1 where "obj1 = obj\<lparr>oShape := Some n'\<rparr>"
    define U1 where "U1 = userStep U obj obj1"
    have a: "addrOf obj1 = n'" "oShape obj1 = Some n'" by (simp_all add: obj1_def addrOf_def)
    have I1: "heapInv h1 U1" "objOk h1 U1 obj1" using k(2) by (simp_all add: objStep_def obj1_def U1_def)
    have p1: "propsOf h1 obj1 = propsOf h obj" using k(3) propsOf_at [OF I1(2), of h1] a by simp
    have lim1: "inobjLimit h1 obj1 = inobjLimit h obj" using k(2) by (simp add: objStep_def obj1_def)
    have raw1: "slotGetRaw h1 obj1 i = slotGetRaw h obj i" for i
      by (rule slotGetRaw_cong [OF lim1]) (simp_all add: obj1_def)
    have n1: "noLazy h1 obj1" using n raw1 by (simp add: noLazy_def)
    have u: "1 \<le> U1 (addrOf obj1)" using I1(2) by (simp add: objOk_def)
    have t: "\<not> inTree h1 (addrOf obj1)" using k(4) a by simp
    note P = private_shape [OF I1(1) u t]
    have rawf: "slotGetRaw h1 obj1 = slotGetRaw h obj" by (rule ext) (rule raw1)
    define len where "len = length (propsOf h obj)"
    define sh where "sh = removeProp (hpShape h1 n') slot"
    define tail where "tail = map (slotGetRaw h obj) [slot + 1..<len]"
    obtain e where e: "icEpochBump (setShape h1 n' sh) = setShape h1 n' sh\<lparr>hpEpoch := e\<rparr>" using bump_epoch by blast
    define h2 where "h2 = setShape h1 n' sh\<lparr>hpEpoch := e\<rparr>"
    have w: "wfShape sh" unfolding sh_def by (rule wf_remove) (use P(5) a k(3) sl in simp_all)
    have E: "objStep U1 h1 obj1 h2 obj1" "propsOf h2 obj1 = shProps sh"
      using private_edit [OF I1 t w, of e] P a by (simp_all add: h2_def sh_def removeProp_fields)
    have st: "objStep U h obj h2 obj1"
      by (rule objStep_trans [OF I(2) k(2)]) (use E(1) in \<open>simp add: U1_def obj1_def\<close>)
    define obj3 where "obj3 = writeSlots h2 obj1 slot tail"
    obtain e' where e': "noteLayoutChange h2 obj3 = h2\<lparr>hpEpoch := e'\<rparr>" using noteLayout_epoch by blast
    have rs: "removeSlot h1 (Some n') slot = (h2, True)" using k(3) sl e by (simp add: h2_def sh_def)
    have cnt: "countProps (shapeOf h1 obj1) = len" using a k(3) by (simp add: countProps_def deref_def len_def)
    have eq: "deleteSlot force h obj (lookup (shapeOf h obj) key) = (h2\<lparr>hpEpoch := e'\<rparr>, obj3, True)"
      using Some False at k(1) e' rs cnt a
      by (simp add: readSlots_plain [OF n1] Let_def rawf tail_def obj3_def obj1_def [symmetric] del: removeSlot.simps)
    have lim2: "inobjLimit h2 obj1 = inobjLimit h1 obj1" using E(1) by (simp add: objStep_def)
    have l: "inobjLimit h2 obj1 \<le> length (oInobj obj1)" by (rule objOk_limit [OF I1(2)])
    have raw: "slotGetRaw h2 obj3 i = slotGetRaw h obj (if i < slot then i else Suc i)" if "i < len - 1" for i
    proof -
      have "slotGetRaw h2 obj1 i = slotGetRaw h obj i" using slotGetRaw_cong [OF lim2, of i] raw1 by simp
      with that sl(1) show ?thesis
        unfolding obj3_def writeSlots_raw [OF l] by (simp add: tail_def len_def nth_append)
    qed
    have abs: "absObj h2 obj3 = dropSlot slot (absObj h obj)"
      by (rule absObj_drop [OF sl(1)])
        (use raw E(2) k(3) in \<open>simp_all add: obj3_def sh_def removeProp_fields len_def\<close>)
    have "dropSlot slot (absObj h obj) = dropProp (absObj h obj) key"
      using dropSlot_filter [of "absObj h obj" slot] own_wf(3) [OF I] sl by (simp add: absObj_keys absObj_nth dropProp_def)
    moreover have "objStep U h obj h2 obj3"
      using st by (simp add: objStep_def objOk_def userStep_def obj3_def)
    moreover have "noLazy h2 obj3"
      unfolding noLazy_def
    proof
      fix i
      have "\<forall>v\<in>set tail. \<not> isLazy v" using n by (auto simp: tail_def noLazy_def)
      then have "slot \<le> i \<Longrightarrow> i < slot + length tail \<Longrightarrow> \<not> isLazy (tail ! (i - slot))" by (simp add: less_diff_conv2)
      moreover have "\<not> isLazy (slotGetRaw h2 obj1 i)"
        using n1 slotGetRaw_cong [OF lim2, of i] by (simp add: noLazy_def)
      ultimately show "\<not> isLazy (slotGetRaw h2 obj3 i)" unfolding obj3_def writeSlots_raw [OF l] by simp
    qed
    ultimately show thesis
      by (intro that [OF eq]) (use abs m False in simp_all)
  qed
qed

lemma setAttrsOwn_step:
  assumes I: "heapInv h U" "objOk h U obj"
  obtains h' obj' where "setAttrsOwn h obj key attrs = (h', obj')" "objStep U h obj h' obj'"
    "absObj h' obj' = attrsSpec (absObj h obj) (strKey key) attrs" "noLazy h obj \<Longrightarrow> noLazy h' obj'"
proof -
  obtain h1 n where k: "ensureUniqueShape h obj = (h1, obj\<lparr>oShape := Some n\<rparr>)"
    "objStep U h obj h1 (obj\<lparr>oShape := Some n\<rparr>)" "propsAt h1 n = propsOf h obj" "\<not> inTree h1 n"
    by (rule ensureUnique_step [OF I])
  define obj1 where "obj1 = obj\<lparr>oShape := Some n\<rparr>"
  define U1 where "U1 = userStep U obj obj1"
  have a: "addrOf obj1 = n" "oShape obj1 = Some n" by (simp_all add: obj1_def addrOf_def)
  have I1: "heapInv h1 U1" "objOk h1 U1 obj1" using k(2) by (simp_all add: objStep_def obj1_def U1_def)
  have p1: "propsOf h1 obj1 = propsOf h obj" using k(3) propsOf_at [OF I1(2), of h1] a by simp
  have lim1: "inobjLimit h1 obj1 = inobjLimit h obj" using k(2) by (simp add: objStep_def obj1_def)
  have raw1: "slotGetRaw h1 obj1 i = slotGetRaw h obj i" for i
    by (rule slotGetRaw_cong [OF lim1]) (simp_all add: obj1_def)
  have abs1: "absObj h1 obj1 = absObj h obj" using p1 raw1 by (simp add: absObj_def)
  have u: "1 \<le> U1 (addrOf obj1)" using I1(2) by (simp add: objOk_def)
  have t: "\<not> inTree h1 (addrOf obj1)" using k(4) a by simp
  note P = private_shape [OF I1(1) u t]
  show thesis
  proof (cases "lookup (shapeOf h1 obj1) (strKey key)")
    case None
    obtain e where e: "noteLayoutChange h1 obj1 = h1\<lparr>hpEpoch := e\<rparr>" using noteLayout_epoch by blast
    have "map_of (absObj h obj) (strKey key) = None" using None own_none [OF I1] abs1 by simp
    then have same: "attrsSpec (absObj h obj) (strKey key) attrs = absObj h obj"
      by (auto simp: attrsSpec_def map_of_eq_None_iff intro!: map_idI) (metis fst_conv image_eqI)
    have "setAttrsOwn h obj key attrs = (h1\<lparr>hpEpoch := e\<rparr>, obj1)"
      using None e k(1) by (simp add: setAttrsOwn_def obj1_def [symmetric] a deref_def)
    then show thesis by (rule that) (use k(2) same abs1 raw1 in \<open>simp_all add: obj1_def noLazy_def\<close>)
  next
    case (Some slot)
    then have s: "slotOf (propsOf h obj) (strKey key) slot" using own_lookup [OF I1] p1 by simp
    then have sl: "slot < length (propsOf h obj)" "spKey (propsOf h obj ! slot) = strKey key" by (simp_all add: slotOf_def)
    define sh where "sh = (hpShape h1 n)\<lparr>shProps := (propsOf h obj)[slot := (propsOf h obj ! slot)\<lparr>spAttrs := attrs\<rparr>]\<rparr>"
    obtain e where e: "icEpochBump (setShape h1 n sh) = setShape h1 n sh\<lparr>hpEpoch := e\<rparr>" using bump_epoch by blast
    define h2 where "h2 = setShape h1 n sh\<lparr>hpEpoch := e\<rparr>"
    obtain e' where e': "noteLayoutChange h2 obj1 = h2\<lparr>hpEpoch := e'\<rparr>" using noteLayout_epoch by blast
    have w: "wfShape sh"
      unfolding sh_def using wf_update [of "hpShape h1 n" "(propsOf h obj ! slot)\<lparr>spAttrs := attrs\<rparr>" slot] P(5) a k(3) by simp
    have E: "objStep U1 h1 obj1 h2 obj1" "propsOf h2 obj1 = shProps sh"
      using private_edit [OF I1 t w, of e] P a by (simp_all add: h2_def sh_def)
    have st: "objStep U h obj h2 obj1"
      by (rule objStep_trans [OF I(2) k(2)]) (use E(1) in \<open>simp add: U1_def obj1_def\<close>)
    have eq: "setAttrsOwn h obj key attrs = (h2\<lparr>hpEpoch := e'\<rparr>, obj1)"
      using Some e e' k(1,3) by (simp add: setAttrsOwn_def obj1_def [symmetric] a deref_def Let_def
          sh_def [symmetric] h2_def [symmetric])
    have lim2: "inobjLimit h2 obj1 = inobjLimit h1 obj1" using E(1) by (simp add: objStep_def)
    have raw: "slotGetRaw h2 obj1 i = slotGetRaw h obj i" for i using slotGetRaw_cong [OF lim2, of i] raw1 by simp
    have other: "i < length (propsOf h obj) \<Longrightarrow> i \<noteq> slot \<Longrightarrow> spKey (propsOf h obj ! i) \<noteq> strKey key" for i
      using nth_eq_iff_index_eq [OF own_wf(3) [OF I], of i slot] sl by auto
    have "absObj h2 obj1 = attrsSpec (absObj h obj) (strKey key) attrs"
    proof (rule nth_equalityI)
      show "length (absObj h2 obj1) = length (attrsSpec (absObj h obj) (strKey key) attrs)"
        using E(2) by (simp add: attrsSpec_def sh_def)
      fix i
      assume "i < length (absObj h2 obj1)"
      then have i: "i < length (propsOf h obj)" using E(2) by (simp add: sh_def)
      show "absObj h2 obj1 ! i = attrsSpec (absObj h obj) (strKey key) attrs ! i"
        using i E(2) raw other [OF i] sl
        by (cases "i = slot") (simp_all add: attrsSpec_def absObj_nth sh_def absVal_def)
    qed
    with eq st raw show thesis by (intro that [OF eq]) (simp_all add: noLazy_def)
  qed
qed

end
