(* ===== verification/Runtime_Objects.thy ===== *)
theory Runtime_Objects
  imports Objects_Laws
begin

text \<open>
  The objects of a runtime under any sequence of operations. \<open>runOp\<close> runs a method of
  \<open>object.go\<close> on one of the objects; \<open>specOp\<close> is the same operation on objects that are ordered
  lists of properties and share nothing. The refinement: the shapes the objects share are never seen.
\<close>

datatype objOp =
    NewObject u64
  | DefineOwn nat string u64 u8
  | DefineOwnSymbol nat u32 u64 u8
  | DefineAccessor nat string u64 u64 bool bool u8
  | DefineAccessorSymbol nat u32 u64 u64 bool bool u8
  | SetOwn nat string u64
  | DeleteOwn nat string
  | DeleteOwnSymbol nat u32
  | SetAttrs nat string u8

definition validObj :: "runtime \<Rightarrow> nat \<Rightarrow> bool" where
  "validObj rt i \<longleftrightarrow> 0 < i \<and> i < rtNext rt"

definition onValid :: "(heap \<Rightarrow> jsObject \<Rightarrow> heap \<times> jsObject \<times> bool) \<Rightarrow> runtime \<Rightarrow> nat \<Rightarrow> runtime \<times> bool" where
  "onValid f rt i = (if validObj rt i then onObject f rt i else (rt, False))"

fun runOp :: "forceFun \<Rightarrow> objOp \<Rightarrow> runtime \<Rightarrow> runtime \<times> bool" where
  "runOp force (NewObject proto) rt = (fst (newObject rt proto), True)"
| "runOp force (DefineOwn i key v attrs) rt = onValid (\<lambda>h obj. defineOwn h obj key v attrs) rt i"
| "runOp force (DefineOwnSymbol i off v attrs) rt = onValid (\<lambda>h obj. defineOwnSymbol h obj off v attrs) rt i"
| "runOp force (DefineAccessor i key g s hg hs attrs) rt =
     onValid (\<lambda>h obj. defineAccessor h obj key g s hg hs attrs) rt i"
| "runOp force (DefineAccessorSymbol i off g s hg hs attrs) rt =
     onValid (\<lambda>h obj. defineAccessorSymbol h obj off g s hg hs attrs) rt i"
| "runOp force (SetOwn i key v) rt = onValid (\<lambda>h obj. setOwn h obj key v) rt i"
| "runOp force (DeleteOwn i key) rt = onValid (\<lambda>h obj. deleteOwn force h obj key) rt i"
| "runOp force (DeleteOwnSymbol i off) rt = onValid (\<lambda>h obj. deleteOwnSymbol force h obj off) rt i"
| "runOp force (SetAttrs i key attrs) rt =
     onValid (\<lambda>h obj. case setAttrsOwn h obj key attrs of (h', obj') \<Rightarrow> (h', obj', True)) rt i"

fun runOps :: "forceFun \<Rightarrow> objOp list \<Rightarrow> runtime \<Rightarrow> runtime \<times> bool list" where
  "runOps force [] rt = (rt, [])"
| "runOps force (op # ops) rt =
     (let (rt1, r) = runOp force op rt; (rt2, rs) = runOps force ops rt1 in (rt2, r # rs))"

definition emptyRuntime :: runtime where
  "emptyRuntime = \<lparr>rtHeap = \<lparr>hpShape = (\<lambda>_. newShapeRec 0 0), hpNext = 0, hpEpoch = 1, hpRoots = Map.empty\<rparr>,
     rtObjs = (\<lambda>_. \<lparr>oShape = None, oInobj = replicate inobjMaxSlots 0, oOverflow = [], oExtensible = True,
                     oUsedAsProto = False, oImmutableProto = False, oIsProxy = False, oProto = 0\<rparr>),
     rtNext = 1\<rparr>"

text \<open>The specification: a list of objects, each the list of its properties.\<close>

definition specOn :: "(aprop list \<Rightarrow> aprop list \<times> bool) \<Rightarrow> aprop list list \<Rightarrow> nat \<Rightarrow> aprop list list \<times> bool" where
  "specOn f w i =
     (if 0 < i \<and> i \<le> length w then (case f (w ! (i - 1)) of (ps, r) \<Rightarrow> (w[i - 1 := ps], r)) else (w, False))"

fun specOp :: "objOp \<Rightarrow> aprop list list \<Rightarrow> aprop list list \<times> bool" where
  "specOp (NewObject proto) w = (w @ [[]], True)"
| "specOp (DefineOwn i key v attrs) w = specOn (\<lambda>ps. (putProp ps (strKey key, attrs, DataVal v), True)) w i"
| "specOp (DefineOwnSymbol i off v attrs) w = specOn (\<lambda>ps. (putProp ps (symKey off, attrs, DataVal v), True)) w i"
| "specOp (DefineAccessor i key g s hg hs attrs) w =
     specOn (\<lambda>ps. (putProp ps (strKey key, attrs, AccVal (if hg then Some g else None) (if hs then Some s else None)), True)) w i"
| "specOp (DefineAccessorSymbol i off g s hg hs attrs) w =
     specOn (\<lambda>ps. (putProp ps (symKey off, attrs, AccVal (if hg then Some g else None) (if hs then Some s else None)), True)) w i"
| "specOp (SetOwn i key v) w = specOn (\<lambda>ps. setSpec True ps (strKey key) v) w i"
| "specOp (DeleteOwn i key) w = specOn (\<lambda>ps. deleteSpec ps (strKey key)) w i"
| "specOp (DeleteOwnSymbol i off) w = specOn (\<lambda>ps. deleteSpec ps (symKey off)) w i"
| "specOp (SetAttrs i key attrs) w = specOn (\<lambda>ps. (attrsSpec ps (strKey key) attrs, True)) w i"

fun specOps :: "objOp list \<Rightarrow> aprop list list \<Rightarrow> aprop list list \<times> bool list" where
  "specOps [] w = (w, [])"
| "specOps (op # ops) w = (let (w1, r) = specOp op w; (w2, rs) = specOps ops w1 in (w2, r # rs))"

text \<open>The operations that write a value write one that is not a placeholder of the lazy JSON reader.\<close>

fun plainOp :: "objOp \<Rightarrow> bool" where
  "plainOp (DefineOwn i key v attrs) \<longleftrightarrow> \<not> isLazy v"
| "plainOp (DefineOwnSymbol i off v attrs) \<longleftrightarrow> \<not> isLazy v"
| "plainOp (SetOwn i key v) \<longleftrightarrow> \<not> isLazy v"
| "plainOp _ \<longleftrightarrow> True"

definition absWorld :: "runtime \<Rightarrow> aprop list list" where
  "absWorld rt = map (\<lambda>i. absObj (rtHeap rt) (rtObjs rt i)) [1..<rtNext rt]"

section \<open>The invariant of a runtime\<close>

definition users :: "runtime \<Rightarrow> nat \<Rightarrow> nat" where
  "users rt a = card {i. validObj rt i \<and> oShape (rtObjs rt i) = Some a}"

definition plainObj :: "heap \<Rightarrow> jsObject \<Rightarrow> bool" where
  "plainObj h obj \<longleftrightarrow> oShape obj \<noteq> None \<and> length (oInobj obj) = inobjMaxSlots \<and> oExtensible obj \<and> noLazy h obj"

definition rtInv :: "runtime \<Rightarrow> bool" where
  "rtInv rt \<longleftrightarrow> 1 \<le> rtNext rt \<and> heapInv (rtHeap rt) (users rt) \<and>
     (\<forall>i. validObj rt i \<longrightarrow> plainObj (rtHeap rt) (rtObjs rt i)) \<and>
     (\<forall>x. isRoot (rtHeap rt) x \<longrightarrow> unat (shRefCount (hpShape (rtHeap rt) x)) \<le> rtNext rt) \<and>
     (\<forall>c. hpRoots (rtHeap rt) c \<noteq> None \<longrightarrow> c = inobjMaxSlots) \<and>
     (\<forall>x. isRoot (rtHeap rt) x \<longrightarrow> propsAt (rtHeap rt) x = [] \<and> limitAt (rtHeap rt) x = inobjMaxSlots)"

lemma finite_users: "finite {i. validObj rt i \<and> P i}"
  by (rule finite_subset [of _ "{..<rtNext rt}"]) (auto simp: validObj_def)

lemma rtInv_obj:
  assumes "rtInv rt" "validObj rt i"
  shows "objOk (rtHeap rt) (users rt) (rtObjs rt i)" "plainObj (rtHeap rt) (rtObjs rt i)"
proof -
  show p: "plainObj (rtHeap rt) (rtObjs rt i)" using assms by (simp add: rtInv_def)
  then have s: "oShape (rtObjs rt i) = Some (addrOf (rtObjs rt i))" by (auto simp: plainObj_def addrOf_def)
  have "i \<in> {j. validObj rt j \<and> oShape (rtObjs rt j) = Some (addrOf (rtObjs rt i))}" using assms(2) s by simp
  then have "1 \<le> users rt (addrOf (rtObjs rt i))"
    unfolding users_def using finite_users by (metis One_nat_def Suc_leI card_gt_0_iff empty_iff)
  with p show "objOk (rtHeap rt) (users rt) (rtObjs rt i)" by (simp add: objOk_def plainObj_def)
qed

lemma users_update:
  assumes i: "validObj rt i" and s: "oShape (rtObjs rt i) = Some a" "oShape obj' = Some a'"
  shows "users (rt\<lparr>rtHeap := h', rtObjs := (rtObjs rt)(i := obj')\<rparr>) = moveUser (users rt) a a'"
proof
  fix b
  define X where "X = {j. (validObj rt j \<and> oShape (rtObjs rt j) = Some b) \<and> j \<noteq> i}"
  have f: "finite X" "i \<notin> X"
    using finite_users [of rt "\<lambda>j. oShape (rtObjs rt j) = Some b \<and> j \<noteq> i"] by (simp_all add: X_def conj_assoc)
  have "{j. validObj rt j \<and> oShape (rtObjs rt j) = Some b} = (if b = a then insert i X else X)"
    using i s(1) by (auto simp: X_def)
  then have old: "users rt b = card X + (if b = a then 1 else 0)" using f by (simp add: users_def)
  have v: "validObj (rt\<lparr>rtHeap := h', rtObjs := (rtObjs rt)(i := obj')\<rparr>) j \<longleftrightarrow> validObj rt j" for j by (simp add: validObj_def)
  have "{j. validObj rt j \<and> oShape (((rtObjs rt)(i := obj')) j) = Some b} = (if b = a' then insert i X else X)"
    using i s(2) by (auto simp: X_def)
  then have "users (rt\<lparr>rtHeap := h', rtObjs := (rtObjs rt)(i := obj')\<rparr>) b = card X + (if b = a' then 1 else 0)"
    using f by (simp add: users_def v)
  with old show "users (rt\<lparr>rtHeap := h', rtObjs := (rtObjs rt)(i := obj')\<rparr>) b = moveUser (users rt) a a' b"
    by (auto simp: moveUser_def)
qed

lemma other_user:
  assumes "rtInv rt" "validObj rt i" "validObj rt j" "i \<noteq> j"
  shows "0 < others (users rt) (rtObjs rt i) (addrOf (rtObjs rt j))"
proof (cases "addrOf (rtObjs rt j) = addrOf (rtObjs rt i)")
  case False
  then show ?thesis using rtInv_obj(1) [OF assms(1,3)] by (simp add: others_def objOk_def)
next
  case True
  have "{i, j} \<subseteq> {k. validObj rt k \<and> oShape (rtObjs rt k) = Some (addrOf (rtObjs rt i))}"
    using assms(2,3) objOk_addr [OF rtInv_obj(1) [OF assms(1,2)]] objOk_addr [OF rtInv_obj(1) [OF assms(1,3)]] True by simp
  then have "card {i, j} \<le> users rt (addrOf (rtObjs rt i))" unfolding users_def by (rule card_mono [OF finite_users])
  with assms(4) True show ?thesis by (simp add: others_def)
qed


lemma raw_same:
  "oShape obj = Some a \<Longrightarrow> propsAt h' a = propsAt h a \<Longrightarrow> limitAt h' a = limitAt h a \<Longrightarrow>
    slotGetRaw h' obj i = slotGetRaw h obj i \<and> absObj h' obj = absObj h obj"
proof -
  assume a: "oShape obj = Some a" "propsAt h' a = propsAt h a" "limitAt h' a = limitAt h a"
  have "slotGetRaw h' obj = slotGetRaw h obj"
    by (rule ext, rule slotGetRaw_cong) (use a in \<open>simp_all add: inobjLimit_def deref_def getInobjLimit_def\<close>)
  with a show ?thesis by (simp add: absObj_def propsOf_def deref_def)
qed

text \<open>A method of one object keeps the invariant and does not touch the others.\<close>

lemma rt_step:
  assumes I: "rtInv rt" "validObj rt i"
    and f: "f (rtHeap rt) (rtObjs rt i) = (h', obj', r)"
    and s: "objStep (users rt) (rtHeap rt) (rtObjs rt i) h' obj'" "noLazy h' obj'"
    and rt': "rt' = rt\<lparr>rtHeap := h', rtObjs := (rtObjs rt)(i := obj')\<rparr>"
  shows "onValid f rt i = (rt', r)" "rtInv rt'"
    "absWorld rt' = (absWorld rt)[i - 1 := absObj h' obj']"
proof -
  show "onValid f rt i = (rt', r)" using I(2) f by (simp add: onValid_def onObject_def rt')
  have v: "validObj rt' j \<longleftrightarrow> validObj rt j" for j by (simp add: validObj_def rt')
  note O = rtInv_obj [OF I]
  have a: "oShape (rtObjs rt i) = Some (addrOf (rtObjs rt i))" by (rule objOk_addr [OF O(1)])
  have s': "objOk h' (userStep (users rt) (rtObjs rt i) obj') obj'" using s(1) by (simp add: objStep_def)
  have U: "users rt' = userStep (users rt) (rtObjs rt i) obj'"
    unfolding rt' userStep_def by (rule users_update [OF I(2) a objOk_addr [OF s']])
  have frame: "propsAt h' (addrOf (rtObjs rt j)) = propsAt (rtHeap rt) (addrOf (rtObjs rt j)) \<and>
      limitAt h' (addrOf (rtObjs rt j)) = limitAt (rtHeap rt) (addrOf (rtObjs rt j))" if "validObj rt j" "j \<noteq> i" for j
    using s(1) other_user [OF I that(1)] that(2) by (simp add: objStep_def sameFor_def)
  have same: "slotGetRaw h' (rtObjs rt j) k = slotGetRaw (rtHeap rt) (rtObjs rt j) k \<and>
      absObj h' (rtObjs rt j) = absObj (rtHeap rt) (rtObjs rt j)" if "validObj rt j" "j \<noteq> i" for j k
    by (rule raw_same [OF objOk_addr [OF rtInv_obj(1) [OF I(1) that(1)]]]) (use frame [OF that] in simp_all)
  have rl: "rootsLe (rtHeap rt) h'" using s(1) by (simp add: objStep_def)
  have plain: "plainObj h' (rtObjs rt' j)" if "validObj rt j" for j
  proof (cases "j = i")
    case True
    with s s' O(2) show ?thesis by (simp add: rt' plainObj_def objStep_def objOk_def)
  next
    case False
    have "plainObj (rtHeap rt) (rtObjs rt j)" by (rule rtInv_obj(2) [OF I(1) that])
    with False same [OF that False] show ?thesis by (simp add: rt' plainObj_def noLazy_def)
  qed
  have roots: "isRoot h' x \<longleftrightarrow> isRoot (rtHeap rt) x" for x using rl by (simp add: rootsLe_def isRoot_def)
  show "rtInv rt'"
    unfolding rtInv_def
  proof (intro conjI allI impI)
    show "1 \<le> rtNext rt'" using I(1) by (simp add: rt' rtInv_def)
    show "heapInv (rtHeap rt') (users rt')" using s(1) unfolding U by (simp add: objStep_def rt')
    show "validObj rt' j \<Longrightarrow> plainObj (rtHeap rt') (rtObjs rt' j)" for j using plain v by (simp add: rt')
    show "hpRoots (rtHeap rt') c \<noteq> None \<Longrightarrow> c = inobjMaxSlots" for c
      using I(1) rl by (simp add: rt' rtInv_def rootsLe_def)
    fix x
    assume "isRoot (rtHeap rt') x"
    then have x: "isRoot (rtHeap rt) x" using roots by (simp add: rt')
    then have "shRefCount (hpShape h' x) \<le> shRefCount (hpShape (rtHeap rt) x)" using rl by (simp add: rootsLe_def)
    then show "unat (shRefCount (hpShape (rtHeap rt') x)) \<le> rtNext rt'"
      using I(1) x by (auto simp: rt' rtInv_def word_le_nat_alt intro: order_trans)
    show "propsAt (rtHeap rt') x = []" "limitAt (rtHeap rt') x = inobjMaxSlots"
      using I(1) x rl by (simp_all add: rt' rtInv_def rootsLe_def)
  qed
  show "absWorld rt' = (absWorld rt)[i - 1 := absObj h' obj']"
  proof (rule nth_equalityI)
    show "length (absWorld rt') = length ((absWorld rt)[i - 1 := absObj h' obj'])" by (simp add: absWorld_def rt')
    fix k
    assume "k < length (absWorld rt')"
    then have k: "k < rtNext rt - 1" by (simp add: absWorld_def rt')
    then have vk: "validObj rt (Suc k)" by (auto simp: validObj_def)
    have i: "i - 1 = k \<longleftrightarrow> Suc k = i" using I(2) by (auto simp: validObj_def)
    show "absWorld rt' ! k = (absWorld rt)[i - 1 := absObj h' obj'] ! k"
      using k same [OF vk] i by (cases "Suc k = i") (auto simp: absWorld_def rt' nth_list_update)
  qed
qed

lemma onValid_spec:
  assumes I: "rtInv rt"
    and f: "\<And>h U obj. heapInv h U \<Longrightarrow> objOk h U obj \<Longrightarrow> noLazy h obj \<Longrightarrow> oExtensible obj \<Longrightarrow>
        \<exists>h' obj' r. f h obj = (h', obj', r) \<and> objStep U h obj h' obj' \<and> noLazy h' obj' \<and> (absObj h' obj', r) = g (absObj h obj)"
  shows "rtInv (fst (onValid f rt i)) \<and> rtNext (fst (onValid f rt i)) = rtNext rt \<and>
    (absWorld (fst (onValid f rt i)), snd (onValid f rt i)) = specOn g (absWorld rt) i"
proof (cases "validObj rt i")
  case False
  then have "\<not> (0 < i \<and> i \<le> length (absWorld rt))" by (auto simp: validObj_def absWorld_def)
  with False I show ?thesis by (auto simp: onValid_def specOn_def)
next
  case True
  note O = rtInv_obj [OF I True]
  have "heapInv (rtHeap rt) (users rt)" using I by (simp add: rtInv_def)
  with f [of "rtHeap rt" "users rt" "rtObjs rt i"] O obtain h' obj' r where
    e: "f (rtHeap rt) (rtObjs rt i) = (h', obj', r)" "objStep (users rt) (rtHeap rt) (rtObjs rt i) h' obj'"
      "noLazy h' obj'" "(absObj h' obj', r) = g (absObj (rtHeap rt) (rtObjs rt i))"
    by (auto simp: plainObj_def)
  note S = rt_step [where f = f, OF I True e(1-3) refl]
  have i: "0 < i \<and> i \<le> length (absWorld rt)" "absWorld rt ! (i - 1) = absObj (rtHeap rt) (rtObjs rt i)"
    using True by (auto simp: validObj_def absWorld_def)
  show ?thesis using S i e(4) [symmetric] by (simp add: specOn_def)
qed

section \<open>A new object\<close>

lemma newRoot_inv:
  assumes H: "heapInv h U" and C: "\<And>c. hpRoots h c \<noteq> None \<Longrightarrow> c = inobjMaxSlots" and none: "hpRoots h inobjMaxSlots = None"
    and h1: "h1 = h\<lparr>hpShape := (hpShape h)(hpNext h := newShapeRec 1 inobjMaxSlots), hpNext := hpNext h + 1,
      hpRoots := (hpRoots h)(inobjMaxSlots \<mapsto> hpNext h)\<rparr>"
  shows "heapInv h1 U"
proof -
  define a where "a = hpNext h"
  have noroot: "\<not> isRoot h x" for x
  proof
    assume "isRoot h x"
    then obtain c where "hpRoots h c = Some x" by (auto simp: isRoot_def)
    with C [of c] none show False by simp
  qed
  have at: "hpShape h1 a = newShapeRec 1 inobjMaxSlots" "x \<noteq> a \<Longrightarrow> hpShape h1 x = hpShape h x" for x
    by (simp_all add: h1 a_def)
  have root: "isRoot h1 x \<longleftrightarrow> x = a" for x using noroot by (auto simp: isRoot_def h1 a_def)
  have tree: "x \<noteq> a \<Longrightarrow> inTree h1 x \<longleftrightarrow> inTree h x" for x using noroot root at by (simp add: inTree_def)
  have nodes: "nodeOk h1 x" if "x < hpNext h1" for x
  proof (cases "x = a")
    case True
    then show ?thesis by (intro nodeOkI) (simp_all add: at wf_new, simp_all add: newShapeRec_def)
  next
    case False
    then have x: "x < hpNext h" using that by (simp add: h1 a_def)
    have Nx: "nodeOk h x" by (rule heapInv_node [OF H x])
    have e: "edgeOk h x ck b \<Longrightarrow> edgeOk h1 x ck b" for ck b
      using root at False by (auto simp: edgeOk_def a_def h1)
    have b: "edgeOk h x ck b \<Longrightarrow> b \<noteq> a" for ck b by (auto simp: edgeOk_def a_def)
    show ?thesis
    proof (rule nodeOkI)
      show "wfShape (hpShape h1 x)" using nodeOk_wf [OF Nx] at(2) [OF False] by simp
      show "shChildren (hpShape h1 x) ck = Some c \<Longrightarrow> inTree h1 x \<and> edgeOk h1 x ck c" for ck c
        using nodeOk_child [OF Nx, of ck c] e at(2) [OF False] tree [OF False] by simp
      show "shTrChild (hpShape h1 x) = Some c \<Longrightarrow> shChildren (hpShape h1 x) (shTrKey (hpShape h1 x)) = Some c \<and>
        slotOf (propsAt h1 c) (fst (shTrKey (hpShape h1 x))) (shTrSlot (hpShape h1 x))" for c
        using nodeOk_trSlot [OF Nx, of c] nodeOk_trChild [OF Nx, of c] b at(2) [of c] at(2) [OF False] by auto
    qed
  qed
  have ua: "U a = 0" using H by (simp add: heapInv_def a_def)
  have priv: "U x \<le> 1 \<and> shRefCount (hpShape h1 x) = 1" if x: "x < hpNext h1" "\<not> inTree h1 x" for x
  proof -
    have "x \<noteq> a" using x root by (auto simp: inTree_def)
    moreover from this have "x < hpNext h" using x(1) by (simp add: h1 a_def)
    ultimately show ?thesis using H x(2) tree at(2) by (simp add: heapInv_def)
  qed
  have ra: "shParent (hpShape h1 a) = None" "shRefCount (hpShape h1 a) = 1" "a < hpNext h1"
    by (simp_all add: at newShapeRec_def) (simp add: h1 a_def)
  have "hpNext h1 \<le> x \<Longrightarrow> U x = 0" for x using H by (simp add: heapInv_def h1)
  then show ?thesis using nodes priv root ua ra by (simp add: heapInv_def)
qed

lemma heapInv_addUser:
  assumes H: "heapInv h U" and a: "isRoot h a" "unat (shRefCount (hpShape h a)) < 2 ^ 32 - 1"
    and h': "h' = setShape h a ((hpShape h a)\<lparr>shRefCount := shRefCount (hpShape h a) + 1\<rparr>)"
  shows "heapInv h' (U(a := U a + 1))" "unat (shRefCount (hpShape h' a)) = unat (shRefCount (hpShape h a)) + 1"
    "sameNodes h h'"
proof -
  show w: "unat (shRefCount (hpShape h' a)) = unat (shRefCount (hpShape h a)) + 1"
    using a(2) by (simp add: h' setShape_def unat_word_ariths)
  have f: "shProps (hpShape h' x) = shProps (hpShape h x)" "shIndex (hpShape h' x) = shIndex (hpShape h x)"
    "shParent (hpShape h' x) = shParent (hpShape h x)" "shInobjLimit (hpShape h' x) = shInobjLimit (hpShape h x)"
    "shChildren (hpShape h' x) = shChildren (hpShape h x)" "shTrChild (hpShape h' x) = shTrChild (hpShape h x)"
    "shTrKey (hpShape h' x) = shTrKey (hpShape h x)" "shTrSlot (hpShape h' x) = shTrSlot (hpShape h x)" for x
    by (simp_all add: h' setShape_def)
  have o: "x \<noteq> a \<Longrightarrow> hpShape h' x = hpShape h x" for x by (simp add: h' setShape_def)
  show sn: "sameNodes h h'" using f by (simp add: sameNodes_def) (simp add: h' setShape_def)
  have nx: "hpNext h' = hpNext h" by (simp add: h' setShape_def)
  show "heapInv h' (U(a := U a + 1))"
  proof (rule heapInv_refs [OF H sn nx])
    show "isRoot h x \<Longrightarrow> (U(a := U a + 1)) x < unat (shRefCount (hpShape h' x))" for x
      using H w o [of x] by (cases "x = a") (simp_all add: heapInv_def)
    show "x < hpNext h \<Longrightarrow> \<not> inTree h x \<Longrightarrow> (U(a := U a + 1)) x \<le> 1 \<and> shRefCount (hpShape h' x) = 1" for x
      using H a(1) o [of x] by (cases "x = a") (simp_all add: heapInv_def inTree_def)
    show "hpNext h \<le> x \<Longrightarrow> (U(a := U a + 1)) x = 0" for x using H a(1) by (auto simp: heapInv_def)
    show "x < hpNext h \<Longrightarrow> nodeOk h' x" for x using nodeOk_same [OF heapInv_node [OF H] _ sn] f by simp
  qed
qed


lemma users_new:
  assumes "1 \<le> rtNext rt" "oShape obj = Some a"
  shows "users (rt\<lparr>rtHeap := h', rtObjs := (rtObjs rt)(rtNext rt := obj), rtNext := rtNext rt + 1\<rparr>) =
    (users rt)(a := users rt a + 1)" (is "users ?rt = _")
proof
  fix b
  define X where "X = {j. validObj rt j \<and> oShape (rtObjs rt j) = Some b}"
  have f: "finite X" "rtNext rt \<notin> X" using finite_users by (auto simp: X_def validObj_def)
  have "{j. validObj ?rt j \<and> oShape (rtObjs ?rt j) = Some b} = (if b = a then insert (rtNext rt) X else X)"
    using assms by (auto simp: X_def validObj_def less_Suc_eq)
  then have "users ?rt b = (if b = a then card (insert (rtNext rt) X) else card X)" unfolding users_def by simp
  moreover have "users rt b = card X" by (simp add: users_def X_def)
  ultimately show "users ?rt b = ((users rt)(a := users rt a + 1)) b" using f by (cases "b = a") simp_all
qed

text \<open>\<open>newShape\<close>: the root of the runtime, created on first use, with one more reference.\<close>

lemma newShape_inv:
  assumes I: "rtInv rt" "rtNext rt < 2 ^ 32 - 1"
  obtains h2 a where "newShape (rtHeap rt) = (h2, a)" "heapInv h2 ((users rt)(a := users rt a + 1))"
    "\<forall>x < hpNext (rtHeap rt). propsAt h2 x = propsAt (rtHeap rt) x \<and> limitAt h2 x = limitAt (rtHeap rt) x"
    "\<forall>x. isRoot h2 x \<longrightarrow> unat (shRefCount (hpShape h2 x)) \<le> rtNext rt + 1 \<and> propsAt h2 x = [] \<and> limitAt h2 x = inobjMaxSlots"
    "\<forall>c. hpRoots h2 c \<noteq> None \<longrightarrow> c = inobjMaxSlots" "propsAt h2 a = []" "limitAt h2 a = inobjMaxSlots"
proof -
  define h where "h = rtHeap rt"
  define U where "U = users rt"
  have H: "heapInv h U" and R: "\<And>x. isRoot h x \<Longrightarrow> unat (shRefCount (hpShape h x)) \<le> rtNext rt"
    and C: "\<And>c. hpRoots h c \<noteq> None \<Longrightarrow> c = inobjMaxSlots"
    and E: "\<And>x. isRoot h x \<Longrightarrow> propsAt h x = [] \<and> limitAt h x = inobjMaxSlots" and N1: "1 \<le> rtNext rt"
    using I(1) by (auto simp: rtInv_def h_def U_def)
  define hr where "hr = (case hpRoots h inobjMaxSlots of
      Some a \<Rightarrow> (h, a)
    | None \<Rightarrow> (h\<lparr>hpShape := (hpShape h)(hpNext h := newShapeRec 1 inobjMaxSlots), hpNext := hpNext h + 1,
                 hpRoots := (hpRoots h)(inobjMaxSlots \<mapsto> hpNext h)\<rparr>, hpNext h))"
  obtain h1 a where ha: "hr = (h1, a)" by (cases hr)
  have H1: "heapInv h1 U \<and> hpRoots h1 inobjMaxSlots = Some a \<and> (\<forall>c. hpRoots h1 c \<noteq> None \<longrightarrow> c = inobjMaxSlots) \<and>
      (\<forall>x < hpNext h. hpShape h1 x = hpShape h x) \<and> hpNext h \<le> hpNext h1 \<and>
      unat (shRefCount (hpShape h1 a)) \<le> rtNext rt \<and> propsAt h1 a = [] \<and> limitAt h1 a = inobjMaxSlots"
  proof (cases "hpRoots h inobjMaxSlots")
    case (Some b)
    then have "h1 = h" "a = b" "isRoot h b" using ha by (auto simp: hr_def isRoot_def)
    then show ?thesis using H C R E Some by auto
  next
    case None
    have h1: "h1 = h\<lparr>hpShape := (hpShape h)(hpNext h := newShapeRec 1 inobjMaxSlots), hpNext := hpNext h + 1,
        hpRoots := (hpRoots h)(inobjMaxSlots \<mapsto> hpNext h)\<rparr>" and a: "a = hpNext h" using ha None unfolding hr_def by auto
    have "heapInv h1 U" by (rule newRoot_inv [OF H C None h1])
    moreover have "c \<noteq> inobjMaxSlots \<Longrightarrow> hpRoots h c = None" for c using C by blast
    ultimately show ?thesis using N1 by (auto simp: newShapeRec_def h1 a clampInobjLimit_def split: if_splits)
  qed
  define h2 where "h2 = setShape h1 a ((hpShape h1 a)\<lparr>shRefCount := shRefCount (hpShape h1 a) + 1\<rparr>)"
  have eq: "newShape h = (h2, a)"
    using ha by (auto simp: newShape_def newShapeWithLimit_def hr_def h2_def allocShape_def clampInobjLimit_def Let_def
        split: option.splits)
  have ra: "isRoot h1 a" using H1 by (auto simp: isRoot_def)
  have lt: "unat (shRefCount (hpShape h1 a)) < 2 ^ 32 - 1" using H1 I(2) by linarith
  have H1': "heapInv h1 U" using H1 by simp
  note A = heapInv_addUser [OF H1' ra lt h2_def]
  have sm: "propsAt h2 x = propsAt h1 x \<and> limitAt h2 x = limitAt h1 x" for x by (simp add: h2_def setShape_def)
  have rt2: "hpRoots h2 = hpRoots h1" by (simp add: h2_def setShape_def)
  have ona: "isRoot h2 x \<Longrightarrow> x = a" for x
  proof -
    assume "isRoot h2 x"
    then obtain c where c: "hpRoots h1 c = Some x" by (auto simp: isRoot_def rt2)
    with H1 have "c = inobjMaxSlots" by blast
    with c H1 show "x = a" by simp
  qed
  show thesis
  proof (rule that [of h2 a])
    show "newShape (rtHeap rt) = (h2, a)" using eq by (simp add: h_def)
    show "heapInv h2 ((users rt)(a := users rt a + 1))" using A(1) by (simp add: U_def)
    show "\<forall>x < hpNext (rtHeap rt). propsAt h2 x = propsAt (rtHeap rt) x \<and> limitAt h2 x = limitAt (rtHeap rt) x"
      using H1 sm by (simp add: h_def [symmetric])
    show "\<forall>x. isRoot h2 x \<longrightarrow> unat (shRefCount (hpShape h2 x)) \<le> rtNext rt + 1 \<and> propsAt h2 x = [] \<and> limitAt h2 x = inobjMaxSlots"
      using ona A(2) H1 sm by auto
    show "\<forall>c. hpRoots h2 c \<noteq> None \<longrightarrow> c = inobjMaxSlots" using H1 rt2 by simp
    show "propsAt h2 a = []" "limitAt h2 a = inobjMaxSlots" using H1 sm by simp_all
  qed
qed

lemma newObject_inv:
  assumes I: "rtInv rt" "rtNext rt < 2 ^ 32 - 1"
  shows "rtInv (fst (newObject rt proto)) \<and> rtNext (fst (newObject rt proto)) = rtNext rt + 1 \<and>
    absWorld (fst (newObject rt proto)) = absWorld rt @ [[]] \<and> snd (newObject rt proto) = rtNext rt"
proof -
  obtain h2 a where N: "newShape (rtHeap rt) = (h2, a)" "heapInv h2 ((users rt)(a := users rt a + 1))"
    "\<forall>x < hpNext (rtHeap rt). propsAt h2 x = propsAt (rtHeap rt) x \<and> limitAt h2 x = limitAt (rtHeap rt) x"
    "\<forall>x. isRoot h2 x \<longrightarrow> unat (shRefCount (hpShape h2 x)) \<le> rtNext rt + 1 \<and> propsAt h2 x = [] \<and> limitAt h2 x = inobjMaxSlots"
    "\<forall>c. hpRoots h2 c \<noteq> None \<longrightarrow> c = inobjMaxSlots" "propsAt h2 a = []" "limitAt h2 a = inobjMaxSlots"
    by (rule newShape_inv [OF I])
  define obj where "obj = \<lparr>oShape = Some a, oInobj = replicate inobjMaxSlots 0, oOverflow = [],
                 oExtensible = True, oUsedAsProto = False, oImmutableProto = False, oIsProxy = False,
                 oProto = proto\<rparr>"
  define rt' where "rt' = rt\<lparr>rtHeap := h2, rtObjs := (rtObjs rt)(rtNext rt := obj), rtNext := rtNext rt + 1\<rparr>"
  have eq: "newObject rt proto = (rt', rtNext rt)" using N(1) by (simp add: newObject_def rt'_def obj_def)
  have n1: "1 \<le> rtNext rt" and H: "heapInv (rtHeap rt) (users rt)" using I(1) by (simp_all add: rtInv_def)
  have v: "validObj rt' j \<longleftrightarrow> validObj rt j \<or> j = rtNext rt" for j using n1 by (auto simp: validObj_def rt'_def)
  have U: "users rt' = (users rt)(a := users rt a + 1)" unfolding rt'_def by (rule users_new [OF n1]) (simp add: obj_def)
  have same: "slotGetRaw h2 (rtObjs rt j) k = slotGetRaw (rtHeap rt) (rtObjs rt j) k \<and>
      absObj h2 (rtObjs rt j) = absObj (rtHeap rt) (rtObjs rt j)" if "validObj rt j" for j k
  proof -
    note O = rtInv_obj(1) [OF I(1) that]
    have "1 \<le> users rt (addrOf (rtObjs rt j))" using O by (simp add: objOk_def)
    then have "addrOf (rtObjs rt j) < hpNext (rtHeap rt)" by (rule user_in [OF H])
    then show ?thesis using N(3) by (intro raw_same [OF objOk_addr [OF O]]) simp_all
  qed
  have lim: "inobjLimit h2 obj = inobjMaxSlots" using N(7) by (simp add: inobjLimit_def deref_def obj_def getInobjLimit_def)
  have zero: "\<not> isLazy 0" by code_simp
  have plainobj: "plainObj h2 obj"
    unfolding plainObj_def noLazy_def
  proof (intro conjI allI)
    fix i
    show "\<not> isLazy (slotGetRaw h2 obj i)"
      using lim zero by (simp add: slotGetRaw_def Let_def) (simp add: obj_def)
  qed (simp_all add: obj_def)
  have absobj: "absObj h2 obj = []" using N(6) by (simp add: absObj_def propsOf_def deref_def obj_def)
  have old: "validObj rt j \<Longrightarrow> j \<noteq> rtNext rt" for j by (simp add: validObj_def)
  have "rtInv rt'"
    unfolding rtInv_def
  proof (intro conjI allI impI)
    show "1 \<le> rtNext rt'" by (simp add: rt'_def)
    show "heapInv (rtHeap rt') (users rt')" using N(2) U by (simp add: rt'_def)
    show "validObj rt' j \<Longrightarrow> plainObj (rtHeap rt') (rtObjs rt' j)" for j
      using plainobj rtInv_obj(2) [OF I(1), of j] same [of j] v [of j] old [of j]
      by (auto simp: rt'_def plainObj_def noLazy_def)
    show "hpRoots (rtHeap rt') c \<noteq> None \<Longrightarrow> c = inobjMaxSlots" for c using N(5) by (simp add: rt'_def)
    fix x
    assume "isRoot (rtHeap rt') x"
    then show "unat (shRefCount (hpShape (rtHeap rt') x)) \<le> rtNext rt'"
      "propsAt (rtHeap rt') x = []" "limitAt (rtHeap rt') x = inobjMaxSlots"
      using N(4) by (simp_all add: rt'_def)
  qed
  moreover have "absWorld rt' = absWorld rt @ [[]]"
  proof -
    have "map (\<lambda>i. absObj h2 (((rtObjs rt)(rtNext rt := obj)) i)) [1..<rtNext rt] =
        map (\<lambda>i. absObj (rtHeap rt) (rtObjs rt i)) [1..<rtNext rt]"
      using same by (auto simp: validObj_def)
    then show ?thesis using n1 absobj by (simp add: absWorld_def rt'_def)
  qed
  ultimately show ?thesis using eq by (simp add: rt'_def)
qed

section \<open>Refinement\<close>

lemma runOp_refines:
  assumes I: "rtInv rt" "rtNext rt < 2 ^ 32 - 1" and p: "plainOp op"
  shows "rtInv (fst (runOp force op rt)) \<and> rtNext (fst (runOp force op rt)) \<le> rtNext rt + 1 \<and>
    (absWorld (fst (runOp force op rt)), snd (runOp force op rt)) = specOp op (absWorld rt)"
proof -
  have step: "rtInv (fst (onValid f rt i)) \<and> rtNext (fst (onValid f rt i)) \<le> rtNext rt + 1 \<and>
      (absWorld (fst (onValid f rt i)), snd (onValid f rt i)) = specOn g (absWorld rt) i"
    if "\<And>h U obj. heapInv h U \<Longrightarrow> objOk h U obj \<Longrightarrow> noLazy h obj \<Longrightarrow> oExtensible obj \<Longrightarrow>
        \<exists>h' obj' r. f h obj = (h', obj', r) \<and> objStep U h obj h' obj' \<and> noLazy h' obj' \<and> (absObj h' obj', r) = g (absObj h obj)"
    for f g i
    using onValid_spec [OF I(1) that, of i] by simp
  show ?thesis
  proof (cases op)
    case (NewObject proto)
    then show ?thesis using newObject_inv [OF I, of proto] by simp
  next
    case (DefineOwn i key v attrs)
    show ?thesis unfolding DefineOwn runOp.simps specOp.simps
    proof (rule step)
      fix h U obj
      assume a: "heapInv h U" "objOk h U obj" "noLazy h obj"
      show "\<exists>h' obj' r. defineOwn h obj key v attrs = (h', obj', r) \<and> objStep U h obj h' obj' \<and> noLazy h' obj' \<and>
          (absObj h' obj', r) = (putProp (absObj h obj) (strKey key, attrs, DataVal v), True)"
        using p a(3) unfolding defineOwn_def addInternedTr_def DefineOwn
        by (rule_tac defineData_step [OF a(1,2), of "strKey key" attrs v]) auto
    qed
  next
    case (DefineOwnSymbol i off v attrs)
    show ?thesis unfolding DefineOwnSymbol runOp.simps specOp.simps
    proof (rule step)
      fix h U obj
      assume a: "heapInv h U" "objOk h U obj" "noLazy h obj"
      show "\<exists>h' obj' r. defineOwnSymbol h obj off v attrs = (h', obj', r) \<and> objStep U h obj h' obj' \<and> noLazy h' obj' \<and>
          (absObj h' obj', r) = (putProp (absObj h obj) (symKey off, attrs, DataVal v), True)"
        using p a(3) unfolding defineOwnSymbol_def addSymbolTr_def DefineOwnSymbol
        by (rule_tac defineData_step [OF a(1,2), of "symKey off" attrs v]) auto
    qed
  next
    case (DefineAccessor i key g s hg hs attrs)
    show ?thesis unfolding DefineAccessor runOp.simps specOp.simps
    proof (rule step)
      fix h U obj
      assume a: "heapInv h U" "objOk h U obj" "noLazy h obj"
      show "\<exists>h' obj' r. defineAccessor h obj key g s hg hs attrs = (h', obj', r) \<and> objStep U h obj h' obj' \<and> noLazy h' obj' \<and>
          (absObj h' obj', r) = (putProp (absObj h obj) (strKey key, attrs,
             AccVal (if hg then Some g else None) (if hs then Some s else None)), True)"
        using a(3) unfolding defineAccessor_def addInternedTr_def
        by (rule_tac defineAccessor_step [OF a(1,2), of "strKey key" attrs g s hg hs]) auto
    qed
  next
    case (DefineAccessorSymbol i off g s hg hs attrs)
    show ?thesis unfolding DefineAccessorSymbol runOp.simps specOp.simps
    proof (rule step)
      fix h U obj
      assume a: "heapInv h U" "objOk h U obj" "noLazy h obj"
      show "\<exists>h' obj' r. defineAccessorSymbol h obj off g s hg hs attrs = (h', obj', r) \<and> objStep U h obj h' obj' \<and> noLazy h' obj' \<and>
          (absObj h' obj', r) = (putProp (absObj h obj) (symKey off, attrs,
             AccVal (if hg then Some g else None) (if hs then Some s else None)), True)"
        using a(3) unfolding defineAccessorSymbol_def addSymbolTr_def
        by (rule_tac defineAccessor_step [OF a(1,2), of "symKey off" attrs g s hg hs]) auto
    qed
  next
    case (SetOwn i key v)
    show ?thesis unfolding SetOwn runOp.simps specOp.simps
    proof (rule step)
      fix h U obj
      assume a: "heapInv h U" "objOk h U obj" "noLazy h obj" "oExtensible obj"
      show "\<exists>h' obj' r. setOwn h obj key v = (h', obj', r) \<and> objStep U h obj h' obj' \<and> noLazy h' obj' \<and>
          (absObj h' obj', r) = setSpec True (absObj h obj) (strKey key) v"
        using p a(3,4) unfolding SetOwn
        by (rule_tac setOwn_step [OF a(1,2), of key v]) auto
    qed
  next
    case (DeleteOwn i key)
    show ?thesis unfolding DeleteOwn runOp.simps specOp.simps
    proof (rule step)
      fix h U obj
      assume a: "heapInv h U" "objOk h U obj" "noLazy h obj"
      show "\<exists>h' obj' r. deleteOwn force h obj key = (h', obj', r) \<and> objStep U h obj h' obj' \<and> noLazy h' obj' \<and>
          (absObj h' obj', r) = deleteSpec (absObj h obj) (strKey key)"
        unfolding deleteOwn_def lookupInterned_def
        by (rule deleteSlot_step [OF a, of "strKey key" force]) auto
    qed
  next
    case (DeleteOwnSymbol i off)
    show ?thesis unfolding DeleteOwnSymbol runOp.simps specOp.simps
    proof (rule step)
      fix h U obj
      assume a: "heapInv h U" "objOk h U obj" "noLazy h obj"
      show "\<exists>h' obj' r. deleteOwnSymbol force h obj off = (h', obj', r) \<and> objStep U h obj h' obj' \<and> noLazy h' obj' \<and>
          (absObj h' obj', r) = deleteSpec (absObj h obj) (symKey off)"
        unfolding deleteOwnSymbol_def lookupSymbol_def
        by (rule deleteSlot_step [OF a, of "symKey off" force]) auto
    qed
  next
    case (SetAttrs i key attrs)
    show ?thesis unfolding SetAttrs runOp.simps specOp.simps
    proof (rule step)
      fix h U obj
      assume a: "heapInv h U" "objOk h U obj" "noLazy h obj"
      show "\<exists>h' obj' r. (case setAttrsOwn h obj key attrs of (h', obj') \<Rightarrow> (h', obj', True)) = (h', obj', r) \<and>
          objStep U h obj h' obj' \<and> noLazy h' obj' \<and> (absObj h' obj', r) = (attrsSpec (absObj h obj) (strKey key) attrs, True)"
        using a(3) by (rule_tac setAttrsOwn_step [OF a(1,2), of key attrs]) auto
    qed
  qed
qed

lemma emptyRuntime_inv: "rtInv emptyRuntime" "absWorld emptyRuntime = []" "rtNext emptyRuntime = 1"
  by (simp_all add: rtInv_def emptyRuntime_def heapInv_def validObj_def users_def isRoot_def absWorld_def)


lemma runOps_refines_from:
  assumes "rtInv rt" "rtNext rt + length ops < 2 ^ 32" "\<forall>op \<in> set ops. plainOp op"
  shows "rtInv (fst (runOps force ops rt)) \<and>
    (absWorld (fst (runOps force ops rt)), snd (runOps force ops rt)) = specOps ops (absWorld rt)"
  using assms
proof (induction ops arbitrary: rt)
  case (Cons op ops)
  have "rtNext rt < 2 ^ 32 - 1" "plainOp op" using Cons.prems by simp_all
  note R = runOp_refines [OF Cons.prems(1) this, of force]
  have n: "rtNext (fst (runOp force op rt)) + length ops < 2 ^ 32" using R Cons.prems(2) by simp
  have I: "rtInv (fst (runOp force op rt))" using R by simp
  note IH = Cons.IH [OF I n]
  show ?case using IH R Cons.prems(3) by (auto simp: split_beta Let_def prod_eq_iff)
qed simp

lemma runOps_world:
  assumes "length ops \<le> 2 ^ 32 - 2" "\<forall>op \<in> set ops. plainOp op"
  obtains rt where "rtInv rt" "absWorld rt = fst (specOps ops [])"
proof -
  have "rtNext emptyRuntime + length ops < 2 ^ 32" using assms(1) emptyRuntime_inv(3) by simp
  from runOps_refines_from [OF emptyRuntime_inv(1) this assms(2)] emptyRuntime_inv(2) that show thesis
    by (metis fst_conv)
qed

lemma absWorld_valid: "1 \<le> i \<Longrightarrow> i \<le> length (absWorld rt) \<Longrightarrow> validObj rt i"
  by (auto simp: absWorld_def validObj_def)

end
