(* ===== verification/Own_Keys.thy ===== *)
theory Own_Keys
  imports Runtime_Objects "HOL-Library.Multiset"
begin

text \<open>The order of own keys: array indices first, ascending, then the other names as they were defined.\<close>

lemma digitsFold_val:
  "digitsFold n s = (if list_all is_digit s then Some (foldl (\<lambda>a c. 10 * a + digit_val c) n s) else None)"
  by (induction s arbitrary: n) (simp_all add: mult.commute)

lemma canonicalIndex_iff:
  "canonicalIndex s = Some n \<longleftrightarrow> s = ndigits (unat n) \<and> unat n < 2 ^ 32 - 1"
proof
  assume a: "canonicalIndex s = Some n"
  then have s: "s \<noteq> []" "1 < length s \<longrightarrow> hd s \<noteq> CHR ''0''" "list_all is_digit s"
    and v: "digits_val s < 0xFFFFFFFF" "n = of_nat (digits_val s)"
    by (auto simp: canonicalIndex_def digitsFold_val digits_val_def split: if_splits)
  have "unat n = digits_val s" using v by (simp add: unat_of_nat)
  then show "s = ndigits (unat n) \<and> unat n < 2 ^ 32 - 1" using digits_back [OF s(1,3,2)] v by simp
next
  assume a: "s = ndigits (unat n) \<and> unat n < 2 ^ 32 - 1"
  then have l: "length s \<le> 10" using ndigits_length [of "unat n" 9] by simp
  have h: "\<not> (1 < length s \<and> hd s = CHR ''0'')"
  proof (cases "unat n = 0")
    case True
    moreover have "ndigits 0 = ''0''" by code_simp
    ultimately show ?thesis using a by simp
  next
    case False
    then show ?thesis using a ndigits_hd_nonzero [of "unat n"] by simp
  qed
  have "digitsFold 0 s = Some (unat n)"
    using a ndigits_digits [of "unat n"] digits_val_ndigits [of "unat n"] by (simp add: digitsFold_val digits_val_def)
  with a l h show "canonicalIndex s = Some n" by (auto simp: canonicalIndex_def)
qed

lemma indexOfKey_inj:
  assumes "canonicalIndex k \<noteq> None" "canonicalIndex l \<noteq> None" "indexOfKey k = indexOfKey l"
  shows "k = l"
proof -
  obtain n m where n: "canonicalIndex k = Some n" "canonicalIndex l = Some m" using assms(1,2) by blast
  with assms(3) have "n = m" by (simp add: indexOfKey_def)
  with n show ?thesis using canonicalIndex_iff by metis
qed

lemma orderOwnKeys_parts:
  "orderOwnKeys keys = sort_key indexOfKey (filter (\<lambda>k. canonicalIndex k \<noteq> None) keys) @ filter (\<lambda>k. canonicalIndex k = None) keys"
proof (cases "list_ex (\<lambda>k. canonicalIndex k \<noteq> None) keys")
  case False
  then have "\<forall>k \<in> set keys. canonicalIndex k = None" by (auto simp: list_ex_iff)
  then have "filter (\<lambda>k. canonicalIndex k \<noteq> None) keys = []" "filter (\<lambda>k. canonicalIndex k = None) keys = keys"
    by (simp_all add: filter_empty_conv filter_id_conv)
  with False show ?thesis by (simp add: orderOwnKeys_def)
qed (simp add: orderOwnKeys_def)

lemma orderOwnKeys_mset: "mset (orderOwnKeys keys) = mset keys"
proof -
  have "mset keys = filter_mset (\<lambda>k. canonicalIndex k \<noteq> None) (mset keys) + filter_mset (\<lambda>k. \<not> canonicalIndex k \<noteq> None) (mset keys)"
    by (rule multiset_partition)
  then show ?thesis by (simp add: orderOwnKeys_parts)
qed

lemma orderOwnKeys_sorted:
  assumes "distinct keys"
  shows "sorted_wrt (<) (map indexOfKey (sort_key indexOfKey (filter (\<lambda>k. canonicalIndex k \<noteq> None) keys)))"
proof -
  let ?xs = "sort_key indexOfKey (filter (\<lambda>k. canonicalIndex k \<noteq> None) keys)"
  have "inj_on indexOfKey (set ?xs)" using indexOfKey_inj by (auto simp: inj_on_def)
  then have "distinct (map indexOfKey ?xs)" using assms by (simp add: distinct_map)
  then show ?thesis using sorted_sort_key [of indexOfKey] by (simp add: strict_sorted_iff)
qed

text \<open>What the key listings read off the list of own properties.\<close>

definition stringNames :: "aprop list \<Rightarrow> string list" where
  "stringNames ps = map (\<lambda>p. pkStr (fst p)) (filter (\<lambda>p. \<not> pkSym (fst p)) ps)"

lemma filter_map_key: "map f (filter (\<lambda>p. P (spKey p)) ps) = map f (filter (P \<circ> spKey) ps)"
  by (simp add: comp_def)

lemma names_of_abs:
  "map (\<lambda>p. pkStr (spKey p)) (filter (\<lambda>p. \<not> pkSym (spKey p)) (propsOf h obj)) = stringNames (absObj h obj)"
proof -
  have "map (\<lambda>p. pkStr (spKey p)) (filter (\<lambda>p. \<not> pkSym (spKey p)) (propsOf h obj)) =
      map pkStr (filter (\<lambda>k. \<not> pkSym k) (map spKey (propsOf h obj)))" by (simp add: filter_map comp_def)
  also have "\<dots> = stringNames (absObj h obj)"
    unfolding absObj_keys [symmetric] by (simp add: stringNames_def filter_map comp_def)
  finally show ?thesis .
qed

lemma ownKeys_abs: "ownKeys h obj = orderOwnKeys (stringNames (absObj h obj))"
  by (simp add: ownKeys_def names_of_abs)

lemma stringNames_distinct:
  assumes "heapInv h U" "objOk h U obj"
  shows "distinct (stringNames (absObj h obj))"
proof -
  have d: "distinct (map spKey (propsOf h obj))" and c: "list_all canonicalKey (map spKey (propsOf h obj))"
    using own_wf [OF assms] by simp_all
  have i: "inj_on pkStr {k. k \<in> spKey ` set (propsOf h obj) \<and> \<not> pkSym k}"
  proof (rule inj_onI)
    fix k l
    assume "k \<in> {k. k \<in> spKey ` set (propsOf h obj) \<and> \<not> pkSym k}" "l \<in> {k. k \<in> spKey ` set (propsOf h obj) \<and> \<not> pkSym k}"
      "pkStr k = pkStr l"
    moreover from this have "canonicalKey k" "canonicalKey l" using c by (auto simp: list_all_iff)
    ultimately show "k = l" by (cases k; cases l) (simp add: canonicalKey_def)
  qed
  have "distinct (map pkStr (filter (\<lambda>k. \<not> pkSym k) (map spKey (propsOf h obj))))"
    using d i by (subst distinct_map) (auto intro: inj_on_subset)
  then show ?thesis by (simp add: stringNames_def absObj_keys [symmetric] filter_map comp_def)
qed

end
