(* ===== verification/Prototypes.thy ===== *)
theory Prototypes
  imports Own_Keys
begin

text \<open>
  Prototype chains (\<open>object.go\<close>, with \<open>sameValue\<close> of \<open>coercion.go\<close>): changing a prototype,
  walking a chain, and reading through it. The walk of \<open>ordinarySetProto\<close> has no bound of its own; it is
  a partial function here, and the invariant that chains have no cycle makes it return.

  \<open>strGo\<close> and \<open>bigIntVal\<close> are the contents of the string and big-integer pools: the text of a string
  value and the number of a BigInt value.
\<close>

type_synonym pools = "(u64 \<Rightarrow> string) \<times> (u64 \<Rightarrow> int option)"

definition is_zero_bits :: "u64 \<Rightarrow> bool" where
  "is_zero_bits b \<longleftrightarrow> b = 0 \<or> b = 0x8000000000000000"

text \<open>\<open>==\<close> of two floats on their bit patterns.\<close>

definition float_eq :: "u64 \<Rightarrow> u64 \<Rightarrow> bool" where
  "float_eq a b \<longleftrightarrow> \<not> is_nan_bits a \<and> \<not> is_nan_bits b \<and> (a = b \<or> is_zero_bits a \<and> is_zero_bits b)"

definition signbit :: "u64 \<Rightarrow> bool" where "signbit b \<longleftrightarrow> bit b 63"

definition sameValueNonNumber :: "pools \<Rightarrow> u64 \<Rightarrow> u64 \<Rightarrow> bool" where
  "sameValueNonNumber ps a b =
     (if valueType a \<noteq> valueType b then False
      else if valueType a = TStr then fst ps a = fst ps b
      else if valueType a = TBigInt
      then (case (snd ps a, snd ps b) of (Some x, Some y) \<Rightarrow> x = y | _ \<Rightarrow> False)
      else a = b)"

definition sameValue :: "pools \<Rightarrow> u64 \<Rightarrow> u64 \<Rightarrow> bool" where
  "sameValue ps a b =
     (if valueType a = TNum \<and> valueType b = TNum
      then (let da = valueNumber a; db = valueNumber b
            in if is_nan_bits da \<and> is_nan_bits db then True
               else if float_eq da 0 \<and> float_eq db 0 then signbit da = signbit db
               else float_eq da db)
      else sameValueNonNumber ps a b)"

definition sameValueZero :: "pools \<Rightarrow> u64 \<Rightarrow> u64 \<Rightarrow> bool" where
  "sameValueZero ps a b =
     (if valueType a = TNum \<and> valueType b = TNum
      then (let da = valueNumber a; db = valueNumber b
            in if is_nan_bits da \<and> is_nan_bits db then True else float_eq da db)
      else sameValueNonNumber ps a b)"

text \<open>The cycle check of \<open>ordinarySetProto\<close>: None where it does not return, else whether the change may go on.\<close>

partial_function (option) protoFree :: "runtime \<Rightarrow> nat \<Rightarrow> u64 \<Rightarrow> bool option" where
  "protoFree rt i p =
     (if IsNull p then Some True
      else case objPtr rt p of
             None \<Rightarrow> Some True
           | Some j \<Rightarrow>
               if oIsProxy (rtObjs rt j) then Some True
               else if j = i then Some False
               else protoFree rt i (oProto (rtObjs rt j)))"

definition ordinarySetProto :: "pools \<Rightarrow> runtime \<Rightarrow> nat \<Rightarrow> u64 \<Rightarrow> (runtime \<times> bool) option" where
  "ordinarySetProto ps rt i v =
     (let obj = rtObjs rt i
      in if sameValue ps (oProto obj) v then Some (rt, True)
         else if oImmutableProto obj \<or> \<not> oExtensible obj then Some (rt, False)
         else Option.bind (protoFree rt i v) (\<lambda>ok.
           if \<not> ok then Some (rt, False)
           else (let obj' = obj\<lparr>oProto := v\<rparr>
                 in Some (rt\<lparr>rtObjs := (rtObjs rt)(i := obj'), rtHeap := noteLayoutChange (rtHeap rt) obj'\<rparr>, True))))"

fun inChain :: "nat \<Rightarrow> runtime \<Rightarrow> u64 \<Rightarrow> u64 \<Rightarrow> bool" where
  "inChain 0 rt proto cur = False"
| "inChain (Suc n) rt proto cur =
     (if cur = proto then True
      else case objPtr rt cur of
             None \<Rightarrow> False
           | Some j \<Rightarrow> inChain n rt proto (oProto (rtObjs rt j)))"

definition hasInProtoChain :: "runtime \<Rightarrow> u64 \<Rightarrow> u64 \<Rightarrow> bool" where
  "hasInProtoChain rt v proto =
     (case objPtr rt v of
        None \<Rightarrow> False
      | Some i \<Rightarrow> inChain maxProtoChainDepth rt proto (oProto (rtObjs rt i)))"

text \<open>\<open>setProp\<close> of an object that is not a mapped arguments object.\<close>

definition setProp :: "runtime \<Rightarrow> u64 \<Rightarrow> string \<Rightarrow> u64 \<Rightarrow> runtime \<times> bool" where
  "setProp rt receiver key v =
     (case objPtr rt receiver of
        None \<Rightarrow> (rt, False)
      | Some ro \<Rightarrow>
          (let create = (if \<not> oExtensible (rtObjs rt ro) then (rt, False)
                         else onObject (\<lambda>h obj. defineOwn h obj key v attrDefault) rt ro)
           in case resolveProp rt receiver key of
                None \<Rightarrow> create
              | Some (holder, slot) \<Rightarrow>
                  if isAccessorSlot (rtHeap rt) (rtObjs rt holder) slot then (rt, True)
                  else if attrsAt (shapeOf (rtHeap rt) (rtObjs rt holder)) slot AND attrWritable = 0 then (rt, False)
                  else if holder = ro
                  then (rt\<lparr>rtObjs := (rtObjs rt)(ro := slotSet (rtHeap rt) (rtObjs rt ro) slot v)\<rparr>, True)
                  else create))"

section \<open>Comparing values\<close>

definition knownBigInts :: "pools \<Rightarrow> u64 \<Rightarrow> bool" where
  "knownBigInts ps v \<longleftrightarrow> (valueType v = TBigInt \<longrightarrow> snd ps v \<noteq> None)"

lemma zero_not_nan: "is_zero_bits b \<Longrightarrow> \<not> is_nan_bits b"
  by (auto simp: is_zero_bits_def is_nan_bits_def)

lemma float_eq_zero: "float_eq b 0 \<longleftrightarrow> is_zero_bits b"
  using zero_not_nan [of b] by (auto simp: float_eq_def) (auto simp: is_zero_bits_def is_nan_bits_def)

lemma zero_sign: "is_zero_bits a \<Longrightarrow> is_zero_bits b \<Longrightarrow> signbit a = signbit b \<longleftrightarrow> a = b"
  by (auto simp: is_zero_bits_def signbit_def bit_numeral_rec)

lemma sameValue_numbers:
  "valueType a = TNum \<Longrightarrow> valueType b = TNum \<Longrightarrow> sameValue ps a b \<longleftrightarrow> is_nan_bits a \<and> is_nan_bits b \<or> a = b"
  using zero_sign [of a b] zero_not_nan
  by (auto simp: sameValue_def valueNumber_def tod_def float_eq_zero Let_def) (auto simp: float_eq_def)


text \<open>What two values have in common when they are the same.\<close>

definition valueKey :: "pools \<Rightarrow> u64 \<Rightarrow> u8 \<times> bool \<times> string \<times> int option \<times> u64" where
  "valueKey ps v =
     (let t = valueType v
      in (t, t = TNum \<and> is_nan_bits v, if t = TStr then fst ps v else [], if t = TBigInt then snd ps v else None,
          if t = TStr \<or> t = TBigInt \<or> t = TNum \<and> is_nan_bits v then 0 else v))"

lemma sameValue_key:
  assumes "knownBigInts ps a" "knownBigInts ps b"
  shows "sameValue ps a b \<longleftrightarrow> valueKey ps a = valueKey ps b"
proof (cases "valueType a = valueType b")
  case False
  then show ?thesis by (auto simp: sameValue_def sameValueNonNumber_def valueKey_def Let_def)
next
  case True
  consider "valueType a = TNum" | "valueType a = TStr" | "valueType a = TBigInt"
    | "valueType a \<noteq> TNum" "valueType a \<noteq> TStr" "valueType a \<noteq> TBigInt" by blast
  then show ?thesis
  proof cases
    case 1
    then show ?thesis using True sameValue_numbers [of a b ps] by (auto simp: valueKey_def Let_def type_tags)
  next
    case 2
    then show ?thesis using True by (simp add: sameValue_def sameValueNonNumber_def valueKey_def type_tags)
  next
    case 3
    then show ?thesis using True assms
      by (auto simp: sameValue_def sameValueNonNumber_def valueKey_def knownBigInts_def type_tags)
  next
    case 4
    then show ?thesis using True by (simp add: sameValue_def sameValueNonNumber_def valueKey_def)
  qed
qed

section \<open>Chains without a cycle\<close>

definition protoStep :: "runtime \<Rightarrow> (nat \<times> nat) set" where
  "protoStep rt = {(i, j). validObj rt i \<and> \<not> oIsProxy (rtObjs rt i) \<and> objPtr rt (oProto (rtObjs rt i)) = Some j}"

definition chainOk :: "runtime \<Rightarrow> bool" where "chainOk rt \<longleftrightarrow> acyclic (protoStep rt)"

lemma objPtr_valid: "objPtr rt v = Some j \<Longrightarrow> validObj rt j"
  by (auto simp: objPtr_def validObj_def Let_def split: if_splits)

lemma null_no_object: "IsNull v \<Longrightarrow> objPtr rt v = None"
  by (auto simp: IsNull_def objPtr_def type_mask_tests type_tags)

lemma finite_protoStep: "finite (protoStep rt)"
  by (rule finite_subset [of _ "{..<rtNext rt} \<times> {..<rtNext rt}"])
    (auto simp: protoStep_def validObj_def dest: objPtr_valid)

lemma protoFree_returns:
  assumes "chainOk rt"
  shows "\<exists>b. protoFree rt i p = Some b"
proof (cases "objPtr rt p")
  case None
  then show ?thesis by (subst protoFree.simps) auto
next
  case (Some j)
  have "wf ((protoStep rt)\<inverse>)" using assms finite_protoStep by (simp add: chainOk_def finite_acyclic_wf_converse)
  then show ?thesis using Some
  proof (induction j arbitrary: p)
    case (less j)
    show ?case
    proof (cases "objPtr rt (oProto (rtObjs rt j)) = None \<or> oIsProxy (rtObjs rt j)")
      case True
      have "protoFree rt i (oProto (rtObjs rt j)) = Some True" if "objPtr rt (oProto (rtObjs rt j)) = None"
        using that by (subst protoFree.simps) simp
      with True less.prems show ?thesis by (subst protoFree.simps) auto
    next
      case False
      then obtain k where k: "objPtr rt (oProto (rtObjs rt j)) = Some k" "\<not> oIsProxy (rtObjs rt j)" by auto
      then have "(j, k) \<in> protoStep rt" using objPtr_valid [OF less.prems] by (simp add: protoStep_def)
      then have "\<exists>b. protoFree rt i (oProto (rtObjs rt j)) = Some b" using less.IH [of k] k(1) by simp
      with less.prems show ?thesis by (subst protoFree.simps) auto
    qed
  qed
qed

lemma protoFree_true:
  assumes "(j, i) \<in> (protoStep rt)\<^sup>*" "objPtr rt p = Some j" "\<not> oIsProxy (rtObjs rt i)"
  shows "protoFree rt i p \<noteq> Some True"
  using assms(1,2)
proof (induction arbitrary: p rule: converse_rtrancl_induct)
  case base
  then have "\<not> IsNull p" using null_no_object by fastforce
  with base assms(3) show ?case by (subst protoFree.simps) simp
next
  case (step j k)
  then have n: "\<not> IsNull p" using null_no_object by fastforce
  have k: "objPtr rt (oProto (rtObjs rt j)) = Some k" "\<not> oIsProxy (rtObjs rt j)" using step.hyps(1) by (auto simp: protoStep_def)
  from step.IH [OF k(1)] n k(2) step.prems show ?case by (subst protoFree.simps) simp
qed

lemma protoFree_false:
  assumes "protoFree rt i p = Some False"
  shows "\<exists>j. objPtr rt p = Some j \<and> (j, i) \<in> (protoStep rt)\<^sup>*"
proof -
  have "\<not> False \<longrightarrow> (\<exists>j. objPtr rt p = Some j \<and> (j, i) \<in> (protoStep rt)\<^sup>*)"
  proof (rule protoFree.raw_induct [of "\<lambda>rt i p b. \<not> b \<longrightarrow> (\<exists>j. objPtr rt p = Some j \<and> (j, i) \<in> (protoStep rt)\<^sup>*)", OF _ assms], intro impI)
    fix f rt i p and b :: bool
    assume ih: "\<And>rt i p b. f rt i p = Some b \<Longrightarrow> \<not> b \<longrightarrow> (\<exists>j. objPtr rt p = Some j \<and> (j, i) \<in> (protoStep rt)\<^sup>*)"
      and b: "\<not> b"
      and body: "(if IsNull p then Some True
        else case objPtr rt p of None \<Rightarrow> Some True
          | Some j \<Rightarrow> if oIsProxy (rtObjs rt j) then Some True else if j = i then Some False
              else f rt i (oProto (rtObjs rt j))) = Some b"
    then obtain j where j: "objPtr rt p = Some j" "\<not> oIsProxy (rtObjs rt j)" "j = i \<or> f rt i (oProto (rtObjs rt j)) = Some b"
      by (auto split: if_splits option.splits)
    show "\<exists>j. objPtr rt p = Some j \<and> (j, i) \<in> (protoStep rt)\<^sup>*"
    proof (cases "j = i")
      case False
      then obtain k where k: "objPtr rt (oProto (rtObjs rt j)) = Some k" "(k, i) \<in> (protoStep rt)\<^sup>*"
        using ih j(3) b by blast
      then have "(j, k) \<in> protoStep rt" using j objPtr_valid by (simp add: protoStep_def)
      with k(2) j(1) show ?thesis by (meson converse_rtrancl_into_rtrancl)
    qed (use j in auto)
  qed
  then show ?thesis by simp
qed

lemma setProto_steps:
  assumes i: "validObj rt i" and rt': "rt' = rt\<lparr>rtObjs := (rtObjs rt)(i := (rtObjs rt i)\<lparr>oProto := v\<rparr>), rtHeap := h\<rparr>"
  shows "protoStep rt' \<subseteq> (case objPtr rt v of None \<Rightarrow> protoStep rt
    | Some j \<Rightarrow> if oIsProxy (rtObjs rt i) then protoStep rt else insert (i, j) (protoStep rt))"
proof -
  have "objPtr rt' = objPtr rt" "validObj rt' = validObj rt" by (auto simp: rt' objPtr_def validObj_def fun_eq_iff)
  then show ?thesis by (auto simp: protoStep_def rt' split: option.splits if_splits)
qed

lemma ordinarySetProto_chain:
  assumes c: "chainOk rt" and i: "validObj rt i"
  obtains rt' ok where "ordinarySetProto ps rt i v = Some (rt', ok)" "chainOk rt'"
    "rt' = rt \<and> (ok \<longrightarrow> sameValue ps (oProto (rtObjs rt i)) v) \<or> ok \<and> (\<exists>h. h = noteLayoutChange (rtHeap rt) ((rtObjs rt i)\<lparr>oProto := v\<rparr>) \<and>
       rt' = rt\<lparr>rtObjs := (rtObjs rt)(i := (rtObjs rt i)\<lparr>oProto := v\<rparr>), rtHeap := h\<rparr>)"
    "ok \<longleftrightarrow> sameValue ps (oProto (rtObjs rt i)) v \<or> \<not> oImmutableProto (rtObjs rt i) \<and> oExtensible (rtObjs rt i) \<and>
       protoFree rt i v = Some True"
proof -
  obtain b where b: "protoFree rt i v = Some b" using protoFree_returns [OF c] by blast
  show thesis
  proof (cases "sameValue ps (oProto (rtObjs rt i)) v")
    case True
    then show thesis using that [of rt True] c by (simp add: ordinarySetProto_def)
  next
    case same: False
    show thesis
    proof (cases "\<not> oImmutableProto (rtObjs rt i) \<and> oExtensible (rtObjs rt i) \<and> b")
      case False
      then show thesis using that [of rt False] c b same by (auto simp: ordinarySetProto_def Let_def)
    next
      case True
      define h where "h = noteLayoutChange (rtHeap rt) ((rtObjs rt i)\<lparr>oProto := v\<rparr>)"
      define rt' where "rt' = rt\<lparr>rtObjs := (rtObjs rt)(i := (rtObjs rt i)\<lparr>oProto := v\<rparr>), rtHeap := h\<rparr>"
      have eq: "ordinarySetProto ps rt i v = Some (rt', True)"
        using True b same by (simp add: ordinarySetProto_def Let_def rt'_def h_def)
      have "acyclic (case objPtr rt v of None \<Rightarrow> protoStep rt
          | Some j \<Rightarrow> if oIsProxy (rtObjs rt i) then protoStep rt else insert (i, j) (protoStep rt))"
        using c b True protoFree_true [of _ i rt v] by (auto simp: chainOk_def acyclic_insert split: option.split)
      then have "chainOk rt'" unfolding chainOk_def using setProto_steps [OF i rt'_def] acyclic_subset by blast
      then show thesis by (rule that [OF eq]) (use True b rt'_def h_def in auto)
    qed
  qed
qed

section \<open>Reading through a chain\<close>

inductive chainOf :: "runtime \<Rightarrow> u64 \<Rightarrow> nat list \<Rightarrow> bool" for rt where
  chain_end: "objPtr rt v = None \<Longrightarrow> chainOf rt v []"
| chain_link: "objPtr rt v = Some i \<Longrightarrow> chainOf rt (oProto (rtObjs rt i)) is \<Longrightarrow> chainOf rt v (i # is)"

inductive_cases chain_nilE: "chainOf rt v []"
inductive_cases chain_consE: "chainOf rt v (i # is)"

definition ownSlot :: "runtime \<Rightarrow> string \<Rightarrow> nat \<Rightarrow> nat option" where
  "ownSlot rt key i = lookupInterned (shapeOf (rtHeap rt) (rtObjs rt i)) key"

lemma resolveFrom_chain:
  "chainOf rt v is \<Longrightarrow> resolveFrom n rt v key =
     Option.bind (find (\<lambda>i. ownSlot rt key i \<noteq> None) (take n is)) (\<lambda>i. map_option (Pair i) (ownSlot rt key i))"
proof (induction n arbitrary: v "is")
  case (Suc n)
  show ?case
  proof (cases "is")
    case Nil
    with Suc.prems have "objPtr rt v = None" by (auto elim: chain_nilE)
    with Nil show ?thesis by simp
  next
    case (Cons i js)
    with Suc.prems have c: "objPtr rt v = Some i" "chainOf rt (oProto (rtObjs rt i)) js" by (auto elim: chain_consE)
    show ?thesis using c(1) Suc.IH [OF c(2)] by (simp add: Cons ownSlot_def split: option.split)
  qed
qed simp


section \<open>Writing through a chain\<close>

lemma rtInv_epoch: "rtInv (rt\<lparr>rtHeap := (rtHeap rt)\<lparr>hpEpoch := e\<rparr>\<rparr>) \<longleftrightarrow> rtInv rt"
proof -
  have "users (rt\<lparr>rtHeap := (rtHeap rt)\<lparr>hpEpoch := e\<rparr>\<rparr>) = users rt"
    "validObj (rt\<lparr>rtHeap := (rtHeap rt)\<lparr>hpEpoch := e\<rparr>\<rparr>) = validObj rt"
    by (simp_all add: users_def validObj_def fun_eq_iff)
  then show ?thesis by (simp add: rtInv_def plainObj_def isRoot_def)
qed

text \<open>Changing the prototype of an object, and the epoch, is not seen in the properties.\<close>

lemma rtInv_proto:
  assumes "rtInv rt" "rt' = rt\<lparr>rtObjs := (rtObjs rt)(i := (rtObjs rt i)\<lparr>oProto := v\<rparr>), rtHeap := (rtHeap rt)\<lparr>hpEpoch := e\<rparr>\<rparr>"
  shows "rtInv rt'" "absWorld rt' = absWorld rt"
proof -
  have o: "oShape (rtObjs rt' j) = oShape (rtObjs rt j)" "oInobj (rtObjs rt' j) = oInobj (rtObjs rt j)"
    "oOverflow (rtObjs rt' j) = oOverflow (rtObjs rt j)" "oExtensible (rtObjs rt' j) = oExtensible (rtObjs rt j)" for j
    by (simp_all add: assms(2))
  have h: "rtHeap rt' = (rtHeap rt)\<lparr>hpEpoch := e\<rparr>" "rtNext rt' = rtNext rt" by (simp_all add: assms(2))
  have v: "validObj rt' = validObj rt" by (simp add: validObj_def fun_eq_iff h)
  have u: "users rt' = users rt" by (simp add: users_def fun_eq_iff v o)
  have p: "propsOf (rtHeap rt) (rtObjs rt' j) = propsOf (rtHeap rt) (rtObjs rt j)"
    "inobjLimit (rtHeap rt) (rtObjs rt' j) = inobjLimit (rtHeap rt) (rtObjs rt j)" for j
    by (simp_all add: propsOf_def inobjLimit_def o)
  have r: "slotGetRaw (rtHeap rt) (rtObjs rt' j) k = slotGetRaw (rtHeap rt) (rtObjs rt j) k" for j k
    by (rule slotGetRaw_cong) (simp_all add: p o)
  show "rtInv rt'" using assms(1) by (simp add: rtInv_def u v h plainObj_def noLazy_def o r isRoot_def)
  show "absWorld rt' = absWorld rt" by (simp add: absWorld_def h absObj_def p r)
qed

text \<open>\<open>setProp\<close> on lists of properties, given what the chain lookup found.\<close>

definition setPropSpec :: "aprop list list \<Rightarrow> nat \<Rightarrow> nat option \<Rightarrow> string \<Rightarrow> u64 \<Rightarrow> aprop list list \<times> bool" where
  "setPropSpec w ro holder key v =
     (let own = w ! (ro - 1); create = (w[ro - 1 := putProp own (strKey key, attrDefault, DataVal v)], True)
      in case holder of
           None \<Rightarrow> create
         | Some i \<Rightarrow>
             (case map_of (w ! (i - 1)) (strKey key) of
                None \<Rightarrow> create
              | Some (attrs, AccVal g s) \<Rightarrow> (w, True)
              | Some (attrs, DataVal _) \<Rightarrow>
                  if attrs AND attrWritable = 0 then (w, False)
                  else if i = ro then (w[ro - 1 := putProp own (strKey key, attrs, DataVal v)], True)
                  else create))"

lemma absWorld_at: "validObj rt i \<Longrightarrow> absWorld rt ! (i - 1) = absObj (rtHeap rt) (rtObjs rt i)"
  by (auto simp: absWorld_def validObj_def)

lemma resolveFrom_slot:
  "resolveFrom n rt v key = Some (i, slot) \<Longrightarrow> validObj rt i \<and> ownSlot rt key i = Some slot"
  by (induction n arbitrary: v) (auto simp: ownSlot_def dest: objPtr_valid split: option.splits)

lemma setProp_refines:
  assumes I: "rtInv rt" and ro: "objPtr rt receiver = Some ro" and v: "\<not> isLazy v"
  shows "rtInv (fst (setProp rt receiver key v))"
    "(absWorld (fst (setProp rt receiver key v)), snd (setProp rt receiver key v)) =
      setPropSpec (absWorld rt) ro (map_option fst (resolveProp rt receiver key)) key v"
proof -
  have V: "validObj rt ro" by (rule objPtr_valid [OF ro])
  note O = rtInv_obj [OF I V]
  have H: "heapInv (rtHeap rt) (users rt)" using I by (simp add: rtInv_def)
  have len: "ro - 1 < length (absWorld rt)" using V by (auto simp: validObj_def absWorld_def)
  let ?create = "onObject (\<lambda>h obj. defineOwn h obj key v attrDefault) rt ro"
  obtain h' obj' where d: "defineDataAt (addKeyTr (rtHeap rt) (oShape (rtObjs rt ro)) (strKey key) attrDefault) (rtObjs rt ro) v = (h', obj', True)"
    "objStep (users rt) (rtHeap rt) (rtObjs rt ro) h' obj'"
    "absObj h' obj' = putProp (absObj (rtHeap rt) (rtObjs rt ro)) (strKey key, attrDefault, DataVal v)"
    "noLazy (rtHeap rt) (rtObjs rt ro) \<Longrightarrow> \<not> isLazy v \<Longrightarrow> noLazy h' obj'"
    by (rule defineData_step [OF H O(1), of "strKey key" attrDefault v]) simp_all
  have de: "defineOwn (rtHeap rt) (rtObjs rt ro) key v attrDefault = (h', obj', True)"
    using d(1) by (simp add: defineOwn_def addInternedTr_def)
  have nl: "noLazy h' obj'" using d(4) O(2) v by (simp add: plainObj_def)
  note S = rt_step [where f = "\<lambda>h obj. defineOwn h obj key v attrDefault", OF I V de d(2) nl refl]
  have C: "?create = (rt\<lparr>rtHeap := h', rtObjs := (rtObjs rt)(ro := obj')\<rparr>, True)" using de by (simp add: onObject_def)
  have create: "rtInv (fst ?create)" "(absWorld (fst ?create), snd ?create) =
      ((absWorld rt)[ro - 1 := putProp (absWorld rt ! (ro - 1)) (strKey key, attrDefault, DataVal v)], True)"
    unfolding C using S(2,3) d(3) absWorld_at [OF V] by simp_all
  have ext: "oExtensible (rtObjs rt ro)" using O(2) by (simp add: plainObj_def)
  have "rtInv (fst (setProp rt receiver key v)) \<and> (absWorld (fst (setProp rt receiver key v)), snd (setProp rt receiver key v)) =
      setPropSpec (absWorld rt) ro (map_option fst (resolveProp rt receiver key)) key v"
  proof (cases "resolveProp rt receiver key")
    case None
    then show ?thesis using create ro ext by (simp add: setProp_def setPropSpec_def Let_def)
  next
    case (Some hs)
    then obtain i slot where rs: "resolveProp rt receiver key = Some (i, slot)" by (cases hs) auto
    from resolveFrom_slot [OF rs [unfolded resolveProp_def]] have i: "validObj rt i"
      "lookup (shapeOf (rtHeap rt) (rtObjs rt i)) (strKey key) = Some slot" by (auto simp: ownSlot_def lookupInterned_def)
    note Oi = rtInv_obj [OF I i(1)]
    have s: "slotOf (propsOf (rtHeap rt) (rtObjs rt i)) (strKey key) slot" using own_lookup [OF H Oi(1)] i(2) by simp
    then have sl: "slot < length (propsOf (rtHeap rt) (rtObjs rt i))" by (simp add: slotOf_def)
    note m = own_some [OF H Oi(1) s] and at = own_attrs [OF H Oi(1) sl]
    have acc: "isAccessorSlot (rtHeap rt) (rtObjs rt i) slot \<longleftrightarrow> spAccessor (propsOf (rtHeap rt) (rtObjs rt i) ! slot)"
      by (simp add: isAccessorSlot_def at(2))
    show ?thesis
    proof (cases "spAccessor (propsOf (rtHeap rt) (rtObjs rt i) ! slot)")
      case True
      then show ?thesis using I ro rs acc m absWorld_at [OF i(1)]
        by (simp add: setProp_def setPropSpec_def Let_def absVal_def)
    next
      case data: False
      show ?thesis
      proof (cases "spAttrs (propsOf (rtHeap rt) (rtObjs rt i) ! slot) AND attrWritable = 0")
        case True
        then show ?thesis using I ro rs acc m at(1) absWorld_at [OF i(1)] data
          by (simp add: setProp_def setPropSpec_def Let_def absVal_def)
      next
        case w: False
        show ?thesis
        proof (cases "i = ro")
          case False
          then show ?thesis using create ro rs acc m at(1) absWorld_at [OF i(1)] data w ext
            by (simp add: setProp_def setPropSpec_def Let_def absVal_def)
        next
          case True
          define obj2 where "obj2 = slotSet (rtHeap rt) (rtObjs rt ro) slot v"
          have st: "objStep (users rt) (rtHeap rt) (rtObjs rt ro) (rtHeap rt) obj2" "noLazy (rtHeap rt) obj2"
            unfolding obj2_def using objStep_slot [OF O(1) objStep_refl [OF H O(1)]]
              noLazy_set [OF objOk_limit [OF O(1)]] v O(2) by (simp_all add: plainObj_def)
          have ab: "absObj (rtHeap rt) obj2 = putProp (absObj (rtHeap rt) (rtObjs rt ro))
              (strKey key, spAttrs (propsOf (rtHeap rt) (rtObjs rt i) ! slot), DataVal v)"
            unfolding obj2_def using absObj_slot [OF H O(1) s [unfolded True], of v] data True by (simp add: absVal_def)
          have "(\<lambda>h obj. (h, slotSet h obj slot v, True)) (rtHeap rt) (rtObjs rt ro) = (rtHeap rt, obj2, True)" by (simp add: obj2_def)
          note T = rt_step [where f = "\<lambda>h obj. (h, slotSet h obj slot v, True)", OF I V this st refl]
          have rt: "rt\<lparr>rtHeap := rtHeap rt, rtObjs := (rtObjs rt)(ro := obj2)\<rparr> = rt\<lparr>rtObjs := (rtObjs rt)(ro := obj2)\<rparr>" by simp
          show ?thesis using T ro rs acc m at(1) absWorld_at [OF i(1)] data w True ab
            unfolding rt by (simp add: setProp_def setPropSpec_def Let_def absVal_def obj2_def)
        qed
      qed
    qed
  qed
  then show "rtInv (fst (setProp rt receiver key v))"
    "(absWorld (fst (setProp rt receiver key v)), snd (setProp rt receiver key v)) =
      setPropSpec (absWorld rt) ro (map_option fst (resolveProp rt receiver key)) key v" by blast+
qed

end
