(* ===== verification/Temporal_Calendar_Laws.thy ===== *)
theory Temporal_Calendar_Laws
  imports Temporal_Calendar
begin

text \<open>
  What the calendar bridge of Temporal_Calendar computes. The locale \<open>calendar_bridge\<close> adds to the laws of a calendar
  what the bridge relies on besides: a month code names the month it came from and no other, and moves
  to any other year, if need be by way of the month that stands in for it. Every identifier but the
  two lunisolar ones satisfies it.
\<close>

section \<open>Counting months\<close>

text \<open>
  The number of months before a month, counted from the first month of year 0: what adding months
  moves along.
\<close>

definition month_index :: "calendar \<Rightarrow> int \<Rightarrow> int \<Rightarrow> int" where
  "month_index cal y m =
     (if 0 \<le> y then (\<Sum>k<nat y. monthsInYear cal (int k))
      else - (\<Sum>k<nat (- y). monthsInYear cal (- 1 - int k))) + m - 1"

lemma month_index_year: "month_index cal (y + 1) m = month_index cal y (m + monthsInYear cal y)"
proof -
  consider "0 \<le> y" | "y = - 1" | "y < - 1" by linarith
  then show ?thesis
  proof cases
    case 1
    then have "nat (y + 1) = Suc (nat y)" by simp
    with 1 show ?thesis by (simp add: month_index_def)
  next
    case 2
    then show ?thesis by (simp add: month_index_def)
  next
    case 3
    then have "nat (- y) = Suc (nat (- (y + 1)))" by simp
    with 3 show ?thesis by (simp add: month_index_def)
  qed
qed

lemma month_index_month: "month_index cal y (m + k) = month_index cal y m + k"
  by (simp add: month_index_def)

context calendar_laws
begin

lemma month_index_before: "y < y' \<Longrightarrow> m \<le> monthsInYear cal y \<Longrightarrow> 1 \<le> m' \<Longrightarrow>
  month_index cal y m < month_index cal y' m'"
proof -
  assume a: "y < y'" "m \<le> monthsInYear cal y" "1 \<le> m'"
  have "month_index cal y (monthsInYear cal y) < month_index cal (y + 1 + int n) 1" for n
  proof (induction n)
    case 0
    then show ?case
      using month_index_month [of cal y 1 "monthsInYear cal y"] month_index_month [of cal y 0 "monthsInYear cal y"]
        month_index_month [of cal y 0 1]
      by (simp add: month_index_year)
  next
    case (Suc n)
    have "month_index cal (y + 1 + int n + 1) 1 = month_index cal (y + 1 + int n) 1 + monthsInYear cal (y + 1 + int n)"
      by (simp only: month_index_year month_index_month)
    with Suc months_pos [of "y + 1 + int n"] show ?case by (simp add: algebra_simps)
  qed
  from this [of "nat (y' - y - 1)"] a
  have "month_index cal y (monthsInYear cal y) < month_index cal y' 1" by simp
  then show ?thesis
    using a month_index_month [of cal y 0 m] month_index_month [of cal y 0 "monthsInYear cal y"]
      month_index_month [of cal y' 0 m'] month_index_month [of cal y' 0 1] by simp
qed

lemma month_index_less:
  assumes "1 \<le> m" "m \<le> monthsInYear cal y" "1 \<le> m'" "m' \<le> monthsInYear cal y'"
  shows "month_index cal y m < month_index cal y' m' \<longleftrightarrow> y < y' \<or> y = y' \<and> m < m'"
proof -
  have same: "month_index cal y m < month_index cal y m' \<longleftrightarrow> m < m'"
    using month_index_month [of cal y 0 m] month_index_month [of cal y 0 m'] by simp
  consider "y < y'" | "y = y'" | "y' < y" by linarith
  then show ?thesis
    using month_index_before [of y y' m m'] month_index_before [of y' y m' m] assms same
    by cases auto
qed

lemma month_index_inject:
  assumes "1 \<le> m" "m \<le> monthsInYear cal y" "1 \<le> m'" "m' \<le> monthsInYear cal y'"
    "month_index cal y m = month_index cal y' m'"
  shows "y = y' \<and> m = m'"
  using month_index_less [OF assms(1-4)] month_index_less [OF assms(3,4,1,2)] assms(5) by auto

lemma monthsUp_spec:
  "\<exists>y' m'. monthsUp cal y m = Some (y', m') \<and> m' \<le> monthsInYear cal y' \<and>
    month_index cal y' m' = month_index cal y m"
proof (induction "nat m" arbitrary: y m rule: less_induct)
  case less
  show ?case
  proof (cases "m \<le> monthsInYear cal y")
    case True
    then show ?thesis by (subst monthsUp.simps) simp
  next
    case False
    with months_pos [of y] have "nat (m - monthsInYear cal y) < nat m" by linarith
    from less [OF this, of "y + 1"] False show ?thesis
      by (subst monthsUp.simps) (simp add: month_index_year)
  qed
qed

lemma monthsDown_spec:
  assumes "m \<le> monthsInYear cal y"
  shows "\<exists>y' m'. monthsDown cal y m = Some (y', m') \<and> 1 \<le> m' \<and> m' \<le> monthsInYear cal y' \<and>
    month_index cal y' m' = month_index cal y m"
  using assms
proof (induction "nat (1 - m)" arbitrary: y m rule: less_induct)
  case less
  show ?case
  proof (cases "m < 1")
    case True
    have p: "1 \<le> monthsInYear cal (y - 1)" by (rule months_pos)
    then have "nat (1 - (m + monthsInYear cal (y - 1))) < nat (1 - m)" using True by linarith
    from less(1) [OF this, of "y - 1"] True
    obtain y' m' where "monthsDown cal (y - 1) (m + monthsInYear cal (y - 1)) = Some (y', m')" "1 \<le> m'"
      "m' \<le> monthsInYear cal y'" "month_index cal y' m' = month_index cal (y - 1) (m + monthsInYear cal (y - 1))"
      by auto
    with True show ?thesis
      using month_index_year [of cal "y - 1" m] by (subst monthsDown.simps) simp
  next
    case False
    with less show ?thesis by (subst monthsDown.simps) simp
  qed
qed

lemma carryMonths_spec:
  obtains y' m' where "carryMonths cal y m = Some (y', m')" "1 \<le> m'" "m' \<le> monthsInYear cal y'"
    "month_index cal y' m' = month_index cal y m"
proof -
  obtain y1 m1 where u: "monthsUp cal y m = Some (y1, m1)" "m1 \<le> monthsInYear cal y1"
    "month_index cal y1 m1 = month_index cal y m"
    using monthsUp_spec [of y m] by blast
  from monthsDown_spec [OF u(2)] u(1,3) that show thesis by (auto simp: carryMonths_def)
qed

lemma carryMonths_here: "1 \<le> m \<Longrightarrow> m \<le> monthsInYear cal y \<Longrightarrow> carryMonths cal y m = Some (y, m)"
  by (simp add: carryMonths_def monthsUp.simps [of cal y m] monthsDown.simps [of cal y m])

text \<open>Later months begin later.\<close>

lemma month_index_day:
  assumes "cal_valid cal y m d" "cal_valid cal y' m' d'"
    "month_index cal y m < month_index cal y' m'"
  shows "dayFromDate cal y m d < dayFromDate cal y' m' d'"
  by (rule day_of_later_date [OF assms(1,2)])
    (use assms month_index_less [of m y m' y'] in \<open>auto simp: cal_valid_def ymd_less_def\<close>)

end

section \<open>The contract of the bridge\<close>

locale calendar_bridge = calendar_codes +
  fixes ident :: string
  assumes lookup: "- (2 ^ 63) \<le> y \<Longrightarrow> y < 2 ^ 63 \<Longrightarrow> monthFromCode cal (itoa y) c = Some m \<Longrightarrow>
      1 \<le> m \<and> m \<le> monthsInYear cal y \<and> monthCode cal y m = c"
    and code_moves: "1 \<le> m \<Longrightarrow> m \<le> monthsInYear cal y \<Longrightarrow> - (2 ^ 63) \<le> y' \<Longrightarrow> y' < 2 ^ 63 \<Longrightarrow>
      monthFromCode cal (itoa y') (monthCode cal y m) = None \<Longrightarrow>
      \<exists>fb. leapMonthFallback ident (monthCode cal y m) = Some fb \<and> monthFromCode cal (itoa y') fb \<noteq> None"
    and year_zero: "\<bar>dayFromDate cal 0 1 1\<bar> \<le> 4000000"

lemma bridge_fixed:
  assumes "calendar_codes cal" "monthFromCode cal = fixedMonthFromCode lim" "lim \<le> 13"
    "\<And>y. monthsInYear cal y = lim" "\<And>y m. monthCode cal y m = simpleMonthCode m"
    "\<bar>dayFromDate cal 0 1 1\<bar> \<le> 4000000"
  shows "calendar_bridge cal ident"
proof (intro calendar_bridge.intro calendar_bridge_axioms.intro assms(1,6))
  fix y c m
  show "monthFromCode cal (itoa y) c = Some m \<Longrightarrow> 1 \<le> m \<and> m \<le> monthsInYear cal y \<and> monthCode cal y m = c"
    using assms(2,4,5) by (simp add: fixed_lookup)
  fix y'
  show "1 \<le> m \<Longrightarrow> m \<le> monthsInYear cal y \<Longrightarrow> monthFromCode cal (itoa y') (monthCode cal y m) = None \<Longrightarrow>
      \<exists>fb. leapMonthFallback ident (monthCode cal y m) = Some fb \<and> monthFromCode cal (itoa y') fb \<noteq> None"
    using assms(2-5) by simp
qed

interpretation greg_bridge: calendar_bridge "gregorianCalendar flag" ident
  by (rule bridge_fixed [OF greg.calendar_codes_axioms]) (simp_all, code_simp)

interpretation offset_bridge: calendar_bridge "offsetCalendar 543 ''be'' []" ident
  by (rule bridge_fixed [OF offset.calendar_codes_axioms]) (simp_all, code_simp)

interpretation roc_bridge: calendar_bridge "offsetCalendar (- 1911) ''roc'' ''broc''" ident
  by (rule bridge_fixed [OF offset.calendar_codes_axioms]) (simp_all, code_simp)

interpretation japanese_bridge: calendar_bridge japaneseCalendar ident
  by (rule bridge_fixed [OF japanese.calendar_codes_axioms]) (simp_all, code_simp)

interpretation coptic_bridge: calendar_bridge "copticCalendar copticEpoch ''am'' 0" ident
  by (rule bridge_fixed [OF coptic.calendar_codes_axioms]) (simp_all, code_simp)

interpretation ethiopic_bridge: calendar_bridge ethiopicCalendar ident
  by (rule bridge_fixed [OF ethiopic.calendar_codes_axioms]) (simp_all add: ethiopicBase_def, code_simp)

interpretation ethioaa_bridge: calendar_bridge "copticCalendar ethiopicEpoch ''aa'' 5500" ident
  by (rule bridge_fixed [OF coptic.calendar_codes_axioms]) (simp_all, code_simp)

interpretation indian_bridge: calendar_bridge indianCalendar ident
  by (rule bridge_fixed [OF indian.calendar_codes_axioms]) (simp_all, code_simp)

interpretation persian_bridge: calendar_bridge persianCalendar ident
  by (rule bridge_fixed [OF persian.calendar_codes_axioms]) (simp_all, code_simp)

interpretation civil_bridge: calendar_bridge "islamicCalendar islamicCivilEpoch ''islamic-civil''" ident
  by (rule bridge_fixed [OF islamic.calendar_codes_axioms]) (simp_all, code_simp)

interpretation tbla_bridge: calendar_bridge "islamicCalendar (islamicCivilEpoch - 1) ''islamic-tbla''" ident
  by (rule bridge_fixed [OF islamic.calendar_codes_axioms]) (simp_all, code_simp)

interpretation umalqura_bridge: calendar_bridge umalquraCalendar ident
  by (rule bridge_fixed [OF umalqura.calendar_codes_axioms]) (simp_all, code_simp)

interpretation hebrew_bridge: calendar_bridge hebrewCalendar "''hebrew''"
proof (intro calendar_bridge.intro calendar_bridge_axioms.intro hebrew.calendar_codes_axioms)
  show "\<bar>dayFromDate hebrewCalendar 0 1 1\<bar> \<le> 4000000" by code_simp
next
  fix y c m
  assume y: "- (2 ^ 63) \<le> y" "y < 2 ^ 63" and f: "monthFromCode hebrewCalendar (itoa y) c = Some m"
  from atoi_itoa [OF y] f obtain n leap where p: "parseMonthCode c = Some (n, leap)"
    by (auto simp: hebrewMonthFromCode_def split: option.splits)
  have e: "simpleMonthCode 5 = ''M05''" by code_simp
  from p f atoi_itoa [OF y] parseMonthCode_code [OF p] e
  show "1 \<le> m \<and> m \<le> monthsInYear hebrewCalendar y \<and> monthCode hebrewCalendar y m = c"
    by (auto simp: hebrewMonthFromCode_def hebrewMonthsInYear_def hebrewMonthCode_def split: if_splits)
next
  fix y m y'
  assume m: "1 \<le> m" "m \<le> monthsInYear hebrewCalendar y" and y: "- (2 ^ 63) \<le> y'" "y' < 2 ^ 63"
    and n: "monthFromCode hebrewCalendar (itoa y') (monthCode hebrewCalendar y m) = None"
  have p: "parseMonthCode ''M05L'' = Some (5, True)" "parseMonthCode ''M06'' = Some (6, False)" by code_simp+
  have e: "simpleMonthCode 6 = ''M06''" by code_simp
  have "monthCode hebrewCalendar y m = ''M05L''"
    using m n atoi_itoa [OF y] month_code_back [of m] month_code_back [of "m - 1"]
    by (auto simp: hebrewMonthFromCode_def hebrewMonthsInYear_def hebrewMonthCode_def split: if_splits)
  then show "\<exists>fb. leapMonthFallback ''hebrew'' (monthCode hebrewCalendar y m) = Some fb \<and>
      monthFromCode hebrewCalendar (itoa y') fb \<noteq> None"
    using atoi_itoa [OF y] by (simp add: leapMonthFallback_def p e hebrewMonthFromCode_def)
qed


lemma calendarFor_bridge:
  assumes "\<not> lunisolar_ident ident"
  shows "calendar_bridge (calendarFor l ident) ident"
proof (cases "ident = ''hebrew''")
  case True
  then have "calendarFor l ident = hebrewCalendar" by (simp add: calendarFor_def)
  with True show ?thesis using hebrew_bridge.calendar_bridge_axioms by simp
next
  case False
  have n: "ident \<noteq> ''chinese''" "ident \<noteq> ''dangi''" using assms by (auto simp: lunisolar_ident_def)
  show ?thesis
    unfolding calendarFor_def if_not_P [OF n(1)] if_not_P [OF n(2)] if_not_P [OF False]
    by (simp only: greg_bridge.calendar_bridge_axioms offset_bridge.calendar_bridge_axioms
        roc_bridge.calendar_bridge_axioms japanese_bridge.calendar_bridge_axioms
        coptic_bridge.calendar_bridge_axioms ethiopic_bridge.calendar_bridge_axioms
        ethioaa_bridge.calendar_bridge_axioms indian_bridge.calendar_bridge_axioms
        persian_bridge.calendar_bridge_axioms civil_bridge.calendar_bridge_axioms
        tbla_bridge.calendar_bridge_axioms umalqura_bridge.calendar_bridge_axioms simp_thms split: if_split)
qed

lemma got_bits: 
  "fMonthCode OR fDay = 48" "got f fEra = bit (fsHas f) 0" "got f fEraYear = bit (fsHas f) 1" "got f fYear = bit (fsHas f) 2"
  "got f fMonth = bit (fsHas f) 3" "got f fMonthCode = bit (fsHas f) 4" "got f fDay = bit (fsHas f) 5"
proof -
  have b: "fsHas f AND 2 ^ n \<noteq> 0 \<longleftrightarrow> bit (fsHas f) n" for n
    by (simp add: and_exp_eq_0_iff_not_bit)
  show "fMonthCode OR fDay = 48" by (simp add: field_bits)
  show "got f fEra = bit (fsHas f) 0" "got f fEraYear = bit (fsHas f) 1" "got f fYear = bit (fsHas f) 2"
  "got f fMonth = bit (fsHas f) 3" "got f fMonthCode = bit (fsHas f) 4" "got f fDay = bit (fsHas f) 5"
    using b [of 0] b [of 1] b [of 2] b [of 3] b [of 4] b [of 5] by (simp_all add: got_def field_bits)
qed

context calendar_bridge
begin

lemma year_start_bound:
  "0 \<le> y \<Longrightarrow> dayFromDate cal 0 1 1 + y \<le> dayFromDate cal y 1 1"
  "y \<le> 0 \<Longrightarrow> dayFromDate cal y 1 1 \<le> dayFromDate cal 0 1 1 + y"
proof -
  have "dayFromDate cal 0 1 1 + int n \<le> dayFromDate cal (int n) 1 1" for n
  proof (induction n)
    case (Suc n)
    then show ?case using year_start_less [of "int n" "int (Suc n)"] by simp
  qed simp
  from this [of "nat y"] show "0 \<le> y \<Longrightarrow> dayFromDate cal 0 1 1 + y \<le> dayFromDate cal y 1 1" by simp
  have "dayFromDate cal (- int n) 1 1 \<le> dayFromDate cal 0 1 1 - int n" for n
  proof (induction n)
    case (Suc n)
    then show ?case using year_start_less [of "- int (Suc n)" "- int n"] by simp
  qed simp
  from this [of "nat (- y)"] show "y \<le> 0 \<Longrightarrow> dayFromDate cal y 1 1 \<le> dayFromDate cal 0 1 1 + y" by simp
qed

lemma year_of_day_bound: "\<bar>cdYear (dateFromDay cal dy)\<bar> \<le> \<bar>dy\<bar> + 4000001"
proof -
  define y where "y = cdYear (dateFromDay cal dy)"
  have "dayFromDate cal y 1 1 \<le> dy" "dy < dayFromDate cal (y + 1) 1 1"
    using in_year [OF date_valid [of dy]] day_of_date_of_day [of dy] by (simp_all add: y_def)
  then show ?thesis
    using year_start_bound [of y] year_start_bound [of "y + 1"] year_zero unfolding y_def [symmetric]
    by linarith
qed

lemma year_fits: "\<bar>dy\<bar> \<le> 10 ^ 18 \<Longrightarrow> - (2 ^ 63) \<le> cdYear (dateFromDay cal dy) \<and> cdYear (dateFromDay cal dy) < 2 ^ 63"
  using year_of_day_bound [of dy] by auto

text \<open>A resolved month exists in its year, and is the month asked for unless it was constrained.\<close>

lemma resolved_month:
  assumes "resolveCalendarMonth ident cal y f overflow = Inr m" "- (2 ^ 63) \<le> y" "y < 2 ^ 63"
  shows "1 \<le> m \<and> m \<le> monthsInYear cal y"
  using assms months_pos [of y] lookup [OF assms(2,3)]
  by (auto simp: resolveCalendarMonth_def Let_def split: if_splits option.splits sum.splits)

lemma resolved_month_reject:
  assumes "resolveCalendarMonth ident cal y f ''reject'' = Inr m" "- (2 ^ 63) \<le> y" "y < 2 ^ 63"
  shows "(got f fMonth \<longrightarrow> fsMonth f = m) \<and> (got f fMonthCode \<longrightarrow> fsMonthCode f = monthCode cal y m)"
  using assms lookup [OF assms(2,3)]
  by (auto simp: resolveCalendarMonth_def Let_def split: if_splits option.splits sum.splits)

text \<open>What reading a whole date out of fields comes to, when it succeeds.\<close>

lemma view_of_day:
  assumes "1 \<le> m" "m \<le> monthsInYear cal y" "1 \<le> d" "d \<le> daysInMonth cal y m"
    "i = epochDaysToISODate (dayFromDate cal y m d)" "c = dateFromDay cal (epochDays i)"
  shows "valid_date i \<and> cdYear c = y \<and> cdMonth c = m \<and> cdDay c = d \<and> cdCode c = monthCode cal y m"
proof -
  have v: "cal_valid cal y m d" using assms by (simp add: cal_valid_def)
  have e: "epochDays i = dayFromDate cal y m d" "valid_date i" using assms by (simp_all add: epochDaysToISODate_spec)
  show ?thesis
    using date_of_day_of_date [OF v] of_day [of "dayFromDate cal y m d"] e assms(6) by (simp add: cal_names_def)
qed

end

lemma date_from_fields_spec:
  assumes id: "\<not> lunisolar_ident ident" and r: "calendarDateFromFields lun ident f overflow = Inr i"
    and y: "resolveCalendarYear (calendarFor lun ident) f = Inr y" "- (2 ^ 63) \<le> y" "y < 2 ^ 63"
    and v: "v = calendarViewOf lun ident i"
  obtains m where "resolveCalendarMonth ident (calendarFor lun ident) y f overflow = Inr m"
    "valid_date i" "isoDateWithinLimits i" "vYear v = y" "vMonth v = m"
    "vMonthCode v = monthCode (calendarFor lun ident) y m"
    "vDay v = min (fsDay f) (vDaysInMonth v)" "overflow = ''reject'' \<Longrightarrow> vDay v = fsDay f"
proof -
  define cal where "cal = calendarFor lun ident"
  have br: "calendar_bridge cal ident" using calendarFor_bridge id by (simp add: cal_def)
  have law: "calendar_laws cal" using calendarFor_laws id by (simp add: cal_def)
  obtain m where m: "resolveCalendarMonth ident cal y f overflow = Inr m"
    using r y(1) by (auto simp: calendarDateFromFields_def cal_def Let_def split: if_splits sum.splits)
  note mr = calendar_bridge.resolved_month [OF br m y(2,3)]
  define d where "d = min (fsDay f) (daysInMonth cal y m)"
  have s: "1 \<le> fsDay f" "i = epochDaysToISODate (dayFromDate cal y m d)" "isoDateWithinLimits i"
    "overflow = ''reject'' \<Longrightarrow> d = fsDay f"
    using r y(1) m unfolding calendarDateFromFields_def cal_def [symmetric]
    by (auto simp: d_def min_def Let_def split: if_splits)
  have d: "1 \<le> d" "d \<le> daysInMonth cal y m"
    using s(1) mr calendar_laws.month_len_pos [OF law, of m y] by (auto simp: d_def)
  from calendar_bridge.view_of_day [OF br conjunct1 [OF mr] conjunct2 [OF mr] d s(2) refl]
  show thesis using that [of m] m s(3,4) v
    by (simp add: calendarViewOf_def Let_def cal_def [symmetric] d_def)
qed



lemma within_days: "isoDateWithinLimits d \<Longrightarrow> \<bar>epochDays d\<bar> \<le> 10 ^ 18"
  by (auto simp: isoDateWithinLimits_def isoDateTimeWithinLimits_def Let_def split: if_splits)

text \<open>A set of fields that says what a view of a date says, whichever of its fields are present.\<close>

definition fields_match :: "calFieldSet \<Rightarrow> calendarView \<Rightarrow> bool" where
  "fields_match f v \<longleftrightarrow>
     got f fDay \<and> fsDay f = vDay v \<and>
     got f fEra = got f fEraYear \<and>
     (got f fEra \<longrightarrow> fsEra f = vEra v \<and> fsEraYear f = vEraYear v) \<and>
     (got f fYear \<longrightarrow> fsYear f = vYear v) \<and> (got f fYear \<or> got f fEra) \<and>
     (got f fMonth \<longrightarrow> fsMonth f = vMonth v) \<and>
     (got f fMonthCode \<longrightarrow> fsMonthCode f = vMonthCode v) \<and> (got f fMonth \<or> got f fMonthCode)"

lemma date_from_matching_fields:
  assumes id: "\<not> lunisolar_ident ident" "got f fEra \<Longrightarrow> ident \<noteq> ''iso8601''"
    and i: "valid_date i" "isoDateWithinLimits i"
    and m: "fields_match f (calendarViewOf lun ident i)"
  shows "calendarDateFromFields lun ident f overflow = Inr i"
proof -
  define cal where "cal = calendarFor lun ident"
  define c where "c = dateFromDay cal (epochDays i)"
  have laws: "calendar_bridge cal ident" "calendar_codes cal" "calendar_laws cal" 
    using calendarFor_bridge calendarFor_codes calendarFor_laws id(1) by (auto simp: cal_def)
  note b = calendar_bridge.year_fits [OF laws(1) within_days [OF i(2)], folded c_def]
  have v: "1 \<le> cdMonth c" "cdMonth c \<le> monthsInYear cal (cdYear c)" "1 \<le> cdDay c"
    "cdDay c \<le> daysInMonth cal (cdYear c) (cdMonth c)"
    using calendar_laws.date_valid [OF laws(3), of "epochDays i"] by (auto simp: c_def cal_valid_def)
  have y: "resolveCalendarYear cal f = Inr (cdYear c)"
  proof (cases "got f fEra")
    case True
    then have "calendar_eras cal" using calendarFor_eras id by (simp add: cal_def)
    from calendar_eras.date_era_back [OF this, of "epochDays i"] True m show ?thesis
      by (auto simp: resolveCalendarYear_def fields_match_def calendarViewOf_def Let_def c_def cal_def)
  next
    case False
    with m show ?thesis
      by (auto simp: resolveCalendarYear_def fields_match_def calendarViewOf_def Let_def c_def cal_def)
  qed
  have "monthFromCode cal (itoa (cdYear c)) (cdCode c) = Some (cdMonth c)"
    using calendar_codes.date_code_back [OF laws(2)] b by (simp add: c_def)
  then have mo: "resolveCalendarMonth ident cal (cdYear c) f overflow = Inr (cdMonth c)"
    using m v by (auto simp: resolveCalendarMonth_def fields_match_def calendarViewOf_def Let_def c_def cal_def)
  have d: "got f fDay" "fsDay f = cdDay c"
    using m by (auto simp: fields_match_def calendarViewOf_def Let_def c_def cal_def)
  have e: "dayFromDate cal (cdYear c) (cdMonth c) (cdDay c) = epochDays i"
    using calendar_laws.day_of_date_of_day [OF laws(3)] by (simp add: c_def)
  show ?thesis
    unfolding calendarDateFromFields_def cal_def [symmetric] Let_def y mo sum.case d
    using v e i d by (simp add: epochDaysToISODate_of_epochDays)
qed

section \<open>Views\<close>

lemma view_ranges:
  assumes "\<not> lunisolar_ident ident" "v = calendarViewOf lun ident i"
  shows "1 \<le> vDayOfWeek v \<and> vDayOfWeek v \<le> 7 \<and> 1 \<le> vDayOfYear v \<and> vDayOfYear v \<le> vDaysInYear v \<and>
    1 \<le> vMonth v \<and> vMonth v \<le> vMonthsInYear v \<and> 1 \<le> vDay v \<and> vDay v \<le> vDaysInMonth v"
proof -
  define cal where "cal = calendarFor lun ident"
  define c where "c = dateFromDay cal (epochDays i)"
  have law: "calendar_laws cal" using calendarFor_laws assms(1) by (simp add: cal_def)
  have cv: "cal_valid cal (cdYear c) (cdMonth c) (cdDay c)"
    "dayFromDate cal (cdYear c) (cdMonth c) (cdDay c) = epochDays i"
    using calendar_laws.date_valid [OF law] calendar_laws.day_of_date_of_day [OF law] by (simp_all add: c_def)
  have y: "dayFromDate cal (cdYear c) 1 1 \<le> epochDays i"
    "epochDays i < dayFromDate cal (cdYear c) 1 1 + daysInYear cal (cdYear c)"
    using calendar_laws.in_year [OF law cv(1)] calendar_laws.year_len [OF law, of "cdYear c"] cv(2)
    by simp_all
  have w: "0 \<le> (epochDays i + 3) mod 7" "(epochDays i + 3) mod 7 < 7" by simp_all
  from y w cv(1) show ?thesis
    unfolding assms(2) calendarViewOf_def cal_def [symmetric] Let_def
    by (simp add: c_def [symmetric] cal_valid_def)
qed

text \<open>The week a date is in, by the day number of its Thursday.\<close>

definition thursdayOf :: "int \<Rightarrow> int" where
  "thursdayOf dy = dy - (dy + 3) mod 7 + 3"

lemma thursday_week: "(thursdayOf dy + 3) mod 7 = 3" "\<bar>thursdayOf dy - dy\<bar> \<le> 3"
proof -
  define q r where "q = (dy + 3) div 7" and "r = (dy + 3) mod 7"
  have "dy + 3 = 7 * q + r" by (simp add: q_def r_def)
  then have t: "thursdayOf dy + 3 = 7 * q + 3" unfolding thursdayOf_def r_def [symmetric] by linarith
  show "(thursdayOf dy + 3) mod 7 = 3" by (rule int_mod_pos_eq [where q = q]) (use t in simp_all)
  have "0 \<le> r" "r < 7" by (simp_all add: r_def)
  then show "\<bar>thursdayOf dy - dy\<bar> \<le> 3" unfolding thursdayOf_def r_def [symmetric] by linarith
qed

lemma week_value:
  assumes "isoWeekOfYear d = (w, y)"
  shows "y = fst (isoDate (thursdayOf (epochDays d)))"
    "w = (thursdayOf (epochDays d) - isoDay y 1 1) div 7 + 1"
    "isoDay y 1 1 \<le> thursdayOf (epochDays d)" "thursdayOf (epochDays d) < isoDay (y + 1) 1 1"
proof -
  define t where "t = thursdayOf (epochDays d)"
  have law: "calendar_laws (gregorianCalendar True)" by (rule greg.calendar_laws_axioms)
  have y: "y = fst (isoDate t)" and w: "w = (t - isoDay y 1 1) sdiv 7 + 1"
    using assms by (auto simp: isoWeekOfYear_def Let_def t_def thursdayOf_def)
  have "cdYear (dateFromDay (gregorianCalendar True) t) = y"
    by (cases "isoDate t") (simp add: gregorianDateFromDay_def Let_def y)
  with calendar_laws.in_year [OF law calendar_laws.date_valid [OF law], of t]
    calendar_laws.day_of_date_of_day [OF law, of t]
  have b: "isoDay y 1 1 \<le> t" "t < isoDay (y + 1) 1 1" by simp_all
  then show "isoDay y 1 1 \<le> thursdayOf (epochDays d)" "thursdayOf (epochDays d) < isoDay (y + 1) 1 1"
    by (simp_all add: t_def)
  show "y = fst (isoDate (thursdayOf (epochDays d)))" using y by (simp add: t_def)
  show "w = (thursdayOf (epochDays d) - isoDay y 1 1) div 7 + 1"
    using w b by (simp add: go_arith t_def [symmetric])
qed

lemma year_len_bound: "isoDay (y + 1) 1 1 \<le> isoDay y 1 1 + 366"
  using greg.year_len [of True y] by (simp add: isoLeapYear_def split: if_splits)

lemma week_number_range: "isoWeekOfYear d = (w, y) \<Longrightarrow> 1 \<le> w \<and> w \<le> 53"
proof -
  assume a: "isoWeekOfYear d = (w, y)"
  note b = week_value [OF a]
  define k where "k = thursdayOf (epochDays d) - isoDay y 1 1"
  have "0 \<le> k" "k \<le> 365" using b(3,4) year_len_bound [of y] by (simp_all add: k_def)
  then have "0 \<le> k div 7" "k div 7 \<le> 365 div 7" using zdiv_mono1 [of k 365 7] by simp_all
  then show ?thesis using b(2) by (simp add: k_def)
qed

text \<open>Two dates have the same week exactly when they have the same Thursday.\<close>

lemma week_same: "isoWeekOfYear a = isoWeekOfYear b \<longleftrightarrow> thursdayOf (epochDays a) = thursdayOf (epochDays b)"
proof
  assume e: "isoWeekOfYear a = isoWeekOfYear b"
  obtain w y where a: "isoWeekOfYear a = (w, y)" by fastforce
  with e have b: "isoWeekOfYear b = (w, y)" by simp
  define s t j where "s = thursdayOf (epochDays a)" and "t = thursdayOf (epochDays b)" and "j = isoDay y 1 1"
  have d: "(s - j) div 7 = (t - j) div 7" using week_value(2) [OF a] week_value(2) [OF b] by (simp add: s_def t_def j_def)
  have "(s + 3) mod 7 = (t + 3) mod 7" using thursday_week(1) by (simp add: s_def t_def)
  then have "(s - j) mod 7 = (t - j) mod 7" by (metis add.commute add_diff_cancel_left diff_add_eq mod_diff_left_eq)
  with d have "s - j = t - j" by (metis mult_div_mod_eq)
  then show "thursdayOf (epochDays a) = thursdayOf (epochDays b)" by (simp add: s_def t_def)
qed (simp add: isoWeekOfYear_def Let_def thursdayOf_def)

section \<open>Adding to a date\<close>

lemma add_days_only:
  "ddYears dur = 0 \<Longrightarrow> ddMonths dur = 0 \<Longrightarrow> calendarDateAdd lun ident i dur overflow =
    (let out = epochDaysToISODate (epochDays i + (ddWeeks dur * 7 + ddDays dur))
     in Some (if isoDateWithinLimits out then Inr out else Inl (errCalendarRange out)))"
  by (simp add: calendarDateAdd_def Let_def)

context calendar_bridge
begin

text \<open>The start month of an addition is the month of the same code, or the one standing in for it.\<close>

lemma start_month:
  assumes "addMonthStart ident cal y code overflow = Inr m" "- (2 ^ 63) \<le> y" "y < 2 ^ 63"
  shows "1 \<le> m \<and> m \<le> monthsInYear cal y"
  using assms lookup [OF assms(2,3)] by (auto simp: addMonthStart_def split: option.splits if_splits)

lemma start_month_constrain:
  assumes "- (2 ^ 63) \<le> y" "y < 2 ^ 63"
  shows "\<exists>m. addMonthStart ident cal y (cdCode (dateFromDay cal dy)) ''constrain'' = Inr m"
proof -
  have c: "cdCode (dateFromDay cal dy) = monthCode cal (cdYear (dateFromDay cal dy)) (cdMonth (dateFromDay cal dy))"
    and v: "1 \<le> cdMonth (dateFromDay cal dy)" "cdMonth (dateFromDay cal dy) \<le> monthsInYear cal (cdYear (dateFromDay cal dy))"
    using of_day [of dy] by (auto simp: cal_names_def cal_valid_def)
  from code_moves [OF v assms] show ?thesis
    by (cases "monthFromCode cal (itoa y) (cdCode (dateFromDay cal dy))") (auto simp: addMonthStart_def c)
qed

text \<open>Moving by years and months: the month count moves by the months, the day is constrained.\<close>

lemma addYearsMonths_spec:
  assumes start: "addMonthStart ident cal (cdYear c + ddYears dur) (cdCode c) overflow = Inr m0"
    and c: "c = dateFromDay cal epoch"
  obtains y m where "1 \<le> m" "m \<le> monthsInYear cal y"
    "month_index cal y m = month_index cal (cdYear c + ddYears dur) m0 + ddMonths dur"
    "addYearsMonths ident cal epoch dur overflow =
       Some (if daysInMonth cal y m < cdDay c \<and> overflow = ''reject'' then Inl errCalendarOverflow
             else Inr (dayFromDate cal y m (min (cdDay c) (daysInMonth cal y m))))"
proof -
  obtain y m where s: "carryMonths cal (cdYear c + ddYears dur) (m0 + ddMonths dur) = Some (y, m)"
    "1 \<le> m" "m \<le> monthsInYear cal y"
    "month_index cal y m = month_index cal (cdYear c + ddYears dur) (m0 + ddMonths dur)"
    using carryMonths_spec by blast
  from s(2-4) have "addYearsMonths ident cal epoch dur overflow =
      Some (if daysInMonth cal y m < cdDay c \<and> overflow = ''reject'' then Inl errCalendarOverflow
             else Inr (dayFromDate cal y m (min (cdDay c) (daysInMonth cal y m))))"
    using start unfolding addYearsMonths_def c [symmetric] by (simp add: s(1) Let_def min_def)
  with that s(2-4) show thesis by (simp add: month_index_month)
qed

lemma addYearsMonths_ends: "addYearsMonths ident cal epoch dur overflow \<noteq> None"
proof (cases "addMonthStart ident cal (cdYear (dateFromDay cal epoch) + ddYears dur) (cdCode (dateFromDay cal epoch)) overflow")
  case (Inl e)
  then show ?thesis by (simp add: addYearsMonths_def)
next
  case (Inr m0)
  from addYearsMonths_spec [OF this refl] show ?thesis by (metis option.distinct(1))
qed

end

lemma date_add_ends:
  assumes "\<not> lunisolar_ident ident"
  shows "\<exists>r. calendarDateAdd lun ident i dur overflow = Some r"
  using calendar_bridge.addYearsMonths_ends [OF calendarFor_bridge [OF assms], of lun "epochDays i" dur overflow]
  by (auto simp: calendarDateAdd_def Let_def split: sum.splits)

lemma date_add_result:
  assumes "calendarDateAdd lun ident i dur overflow = Some (Inr j)"
  shows "valid_date j" "isoDateWithinLimits j"
proof -
  define moved where "moved = (if ddYears dur \<noteq> 0 \<or> ddMonths dur \<noteq> 0
    then addYearsMonths ident (calendarFor lun ident) (epochDays i) dur overflow else Some (Inr (epochDays i)))"
  obtain e where e: "moved = Some (Inr e)"
    using assms unfolding calendarDateAdd_def Let_def moved_def [symmetric]
    by (cases moved) (auto split: sum.splits)
  from assms have "j = epochDaysToISODate (e + (ddWeeks dur * 7 + ddDays dur)) \<and> isoDateWithinLimits j"
    unfolding calendarDateAdd_def Let_def moved_def [symmetric] by (auto simp: e split: if_splits)
  then show "valid_date j" "isoDateWithinLimits j" using epochDaysToISODate_spec(1) by auto
qed

lemma date_add_months:
  assumes id: "\<not> lunisolar_ident ident" and cal: "cal = calendarFor lun ident"
    and c: "c = dateFromDay cal (epochDays i)"
    and start: "addMonthStart ident cal (cdYear c + ddYears dur) (cdCode c) overflow = Inr m0"
    and some: "ddYears dur \<noteq> 0 \<or> ddMonths dur \<noteq> 0"
  obtains y m where "1 \<le> m" "m \<le> monthsInYear cal y"
    "month_index cal y m = month_index cal (cdYear c + ddYears dur) m0 + ddMonths dur"
    "calendarDateAdd lun ident i dur overflow =
       Some (if daysInMonth cal y m < cdDay c \<and> overflow = ''reject'' then Inl errCalendarOverflow
             else (let out = epochDaysToISODate (dayFromDate cal y m (min (cdDay c) (daysInMonth cal y m)) +
                               (ddWeeks dur * 7 + ddDays dur))
                   in if isoDateWithinLimits out then Inr out else Inl (errCalendarRange out)))"
proof -
  have "calendar_bridge cal ident" by (simp add: cal calendarFor_bridge id)
  from calendar_bridge.addYearsMonths_spec [OF this start c]
  obtain y m where s: "1 \<le> m" "m \<le> monthsInYear cal y"
    "month_index cal y m = month_index cal (cdYear c + ddYears dur) m0 + ddMonths dur"
    "addYearsMonths ident cal (epochDays i) dur overflow =
       Some (if daysInMonth cal y m < cdDay c \<and> overflow = ''reject'' then Inl errCalendarOverflow
             else Inr (dayFromDate cal y m (min (cdDay c) (daysInMonth cal y m))))"
    by blast
  with that [OF s(1-3)] some show thesis by (simp add: calendarDateAdd_def cal [symmetric] Let_def)
qed

section \<open>The difference of two dates\<close>

text \<open>The two search loops end, and where they end.\<close>

lemma stepBack_spec:
  assumes "sign = 1 \<or> sign = - 1" "0 \<le> sign * n" "\<And>k. over k \<noteq> None"
  obtains k where "stepBack over sign n = Some k" "0 \<le> sign * k" "sign * k \<le> sign * n"
    "k = 0 \<or> over k = Some False"
proof -
  have "\<exists>k. stepBack over sign n = Some k \<and> 0 \<le> sign * k \<and> sign * k \<le> sign * n \<and> (k = 0 \<or> over k = Some False)"
    using assms(2)
  proof (induction "nat (sign * n)" arbitrary: n rule: less_induct)
    case less
    obtain b where b: "over n = Some b" using assms(3) by blast
    show ?case
    proof (cases "n \<noteq> 0 \<and> b")
      case True
      then have "0 \<le> sign * (n - sign)" "sign * (n - sign) < sign * n" using less.prems assms(1) by auto
      with less.hyps [of "n - sign"] True b show ?thesis by (subst stepBack.simps) fastforce
    next
      case False
      with b less.prems show ?thesis by (subst stepBack.simps) auto
    qed
  qed
  with that show thesis by blast
qed

lemma stepOn_spec:
  assumes "sign = 1 \<or> sign = - 1" "\<And>k. over k \<noteq> None"
  obtains k where "stepOn over sign limit n = Some k" "sign * n \<le> sign * k" "k = n \<or> over k = Some False"
proof -
  have "\<exists>k. stepOn over sign limit n = Some k \<and> sign * n \<le> sign * k \<and> (k = n \<or> over k = Some False)"
  proof (induction "nat (limit + 1 - sign * n)" arbitrary: n rule: less_induct)
    case less
    obtain b where b: "over (n + sign) = Some b" using assms(2) by blast
    consider "b" | "\<not> b" "limit < n + sign \<or> n + sign < - limit" | "\<not> b" "\<not> (limit < n + sign \<or> n + sign < - limit)"
      by blast
    then show ?case
    proof cases
      case 1
      with b show ?thesis by (subst stepOn.simps) simp
    next
      case 2
      with b assms(1) show ?thesis by (subst stepOn.simps) auto
    next
      case 3
      then have "nat (limit + 1 - sign * (n + sign)) < nat (limit + 1 - sign * n)" using assms(1) by auto
      from less [OF this] obtain k where "stepOn over sign limit (n + sign) = Some k"
        "sign * (n + sign) \<le> sign * k" "k = n + sign \<or> over k = Some False" by blast
      with 3 b assms(1) show ?thesis by (subst stepOn.simps) auto
    qed
  qed
  with that show thesis by blast
qed

context calendar_bridge
begin

lemma carryMonths_total: "carryMonths cal y m \<noteq> None"
  by (rule carryMonths_spec [of y m]) simp

lemma untilPast_total: "untilPast ident cal c1 c2 sign years months \<noteq> None"
  by (simp only: untilPast_def untilCandidate_def Let_def option.map_disc_iff carryMonths_total simp_thms)

text \<open>A step that does not overshoot ends between the two dates.\<close>

lemma step_between:
  assumes c1: "c1 = dateFromDay cal e1" "c2 = dateFromDay cal e2"
    and y: "- (2 ^ 63) \<le> cdYear c1" "cdYear c1 < 2 ^ 63"
      "- (2 ^ 63) \<le> cdYear c1 + ddYears dur" "cdYear c1 + ddYears dur < 2 ^ 63"
    and s: "sign = 1 \<or> sign = - 1" "0 \<le> sign * ddYears dur" "0 \<le> sign * ddMonths dur"
    and np: "untilPast ident cal c1 c2 sign (ddYears dur) (ddMonths dur) = Some False"
  obtains e where "addYearsMonths ident cal e1 dur ''constrain'' = Some (Inr e)"
    "sign * e1 \<le> sign * e" "sign * e \<le> sign * e2"
proof -
  define y0 where "y0 = cdYear c1 + ddYears dur"
  obtain m0 where m0: "addMonthStart ident cal y0 (cdCode c1) ''constrain'' = Inr m0"
    using start_month_constrain [of y0 e1] y c1 by (auto simp: y0_def)
  note mv = start_month [OF m0 y(3,4) [folded y0_def]]
  obtain y1 m1 where k: "carryMonths cal y0 (m0 + ddMonths dur) = Some (y1, m1)" "1 \<le> m1" "m1 \<le> monthsInYear cal y1"
    "month_index cal y1 m1 = month_index cal y0 m0 + ddMonths dur"
    using carryMonths_spec [of y0 "m0 + ddMonths dur"] by (auto simp: month_index_month)
  define d where "d = min (cdDay c1) (daysInMonth cal y1 m1)"
  define e where "e = dayFromDate cal y1 m1 d"
  have add: "addYearsMonths ident cal e1 dur ''constrain'' = Some (Inr e)"
    unfolding addYearsMonths_def Let_def c1(1) [symmetric] y0_def [symmetric] m0
    by (simp add: k(1) e_def d_def min_def)
  obtain ex where cand: "untilCandidate ident cal c1 (ddYears dur) (ddMonths dur) = Some (y1, m1, cdDay c1, ex)"
    using m0 k(1) unfolding untilCandidate_def Let_def y0_def [symmetric]
    by (auto simp: addMonthStart_def split: option.splits)
  have v1: "cal_valid cal (cdYear c1) (cdMonth c1) (cdDay c1)" "dayFromDate cal (cdYear c1) (cdMonth c1) (cdDay c1) = e1"
    and v2: "cal_valid cal (cdYear c2) (cdMonth c2) (cdDay c2)" "dayFromDate cal (cdYear c2) (cdMonth c2) (cdDay c2) = e2"
    using date_valid day_of_date_of_day c1 by simp_all
  have ve: "cal_valid cal y1 m1 d"
    using k(2,3) v1(1) month_len_pos [of m1 y1] by (auto simp: cal_valid_def d_def)
  have far: "sign * e \<le> sign * e2"
    using np unfolding untilPast_def cand e_def v2(2) [symmetric]
    using day_order [OF ve v2(1)] day_order [OF v2(1) ve] s(1) v2(1)
    by (auto simp: Let_def sign64_def ymd_less_def d_def cal_valid_def split: if_splits)
  have near: "sign * e1 \<le> sign * e"
  proof (cases "ddYears dur = 0 \<and> ddMonths dur = 0")
    case True
    have "monthFromCode cal (itoa (cdYear c1)) (cdCode c1) = Some (cdMonth c1)"
      using date_code_back y c1 by simp
    with True m0 have "m0 = cdMonth c1" by (simp add: addMonthStart_def y0_def)
    with True k carryMonths_here [of m0 y0] mv v1 have "e = e1"
      by (simp add: e_def d_def y0_def cal_valid_def min_def)
    then show ?thesis by simp
  next
    case False
    have m1: "1 \<le> cdMonth c1" "cdMonth c1 \<le> monthsInYear cal (cdYear c1)" using v1(1) by (auto simp: cal_valid_def)
    have "sign * month_index cal (cdYear c1) (cdMonth c1) < sign * month_index cal y1 m1"
    proof (cases "ddYears dur = 0")
      case True
      have "monthFromCode cal (itoa (cdYear c1)) (cdCode c1) = Some (cdMonth c1)"
        using date_code_back y c1 by simp
      with True m0 have "m0 = cdMonth c1" by (simp add: addMonthStart_def y0_def)
      with True False s(1,3) k(4) show ?thesis by (auto simp: y0_def)
    next
      case False
      then have "if sign = 1 then cdYear c1 < y0 else y0 < cdYear c1" using s(1,2) by (auto simp: y0_def)
      with month_index_less [OF conjunct1 [OF mv] conjunct2 [OF mv] m1]
        month_index_less [OF m1 conjunct1 [OF mv] conjunct2 [OF mv]] k(4) s(1,3)
      show ?thesis by (auto split: if_splits)
    qed
    with month_index_day [OF v1(1) ve] month_index_day [OF ve v1(1)] s(1) v1(2) show ?thesis
      by (auto simp: e_def)
  qed
  from that [OF add near far] show thesis .
qed

end


lemma untilPastISO_total:
  assumes "\<not> lunisolar_ident ident"
  shows "untilPastISO lun ident one two sign years months \<noteq> None"
  using date_add_ends [OF assms] by (simp add: untilPastISO_def)

text \<open>
  Whatever the loops end with, adding the years and months found lands on a representable date, and
  the days left lead from it to the second date.
\<close>

lemma until_step_lands:
  assumes id: "\<not> lunisolar_ident ident" and cal: "cal = calendarFor lun ident"
    and lim: "valid_date one" "isoDateWithinLimits one" "isoDateWithinLimits two"
    and c: "c1 = dateFromDay cal (epochDays one)" "c2 = dateFromDay cal (epochDays two)"
    and s: "sign = 1 \<or> sign = - 1" "0 \<le> sign * years" "0 \<le> sign * months"
      "sign * years \<le> sign * (cdYear c2 - cdYear c1)"
    and np: "years = 0 \<and> months = 0 \<or>
      (if ident = ''iso8601'' then untilPastISO lun ident one two sign else untilPast ident cal c1 c2 sign)
        years months = Some False"
  shows "\<exists>mid. calendarDateAdd lun ident one
    \<lparr>ddYears = years, ddMonths = months, ddWeeks = 0, ddDays = 0\<rparr> ''constrain'' = Some (Inr mid)"
proof (cases "years = 0 \<and> months = 0")
  case True
  with lim show ?thesis by (simp add: add_days_only Let_def epochDaysToISODate_of_epochDays)
next
  case False
  define dur where "dur = \<lparr>ddYears = years, ddMonths = months, ddWeeks = 0, ddDays = 0\<rparr>"
  show ?thesis
  proof (cases "ident = ''iso8601''")
    case True
    with np False have "untilPastISO lun ident one two sign years months = Some False" by simp
    then obtain r where "calendarDateAdd lun ident one dur ''constrain'' = Some r"
      "\<not> (case r of Inl e \<Rightarrow> True | Inr mid \<Rightarrow> 0 < sign * compareISODate mid two)"
      by (auto simp: untilPastISO_def dur_def)
    then show ?thesis by (cases r) (simp_all add: dur_def)
  next
    case not_iso: False
    have br: "calendar_bridge cal ident" by (simp add: cal calendarFor_bridge id)
    have y: "- (2 ^ 63) \<le> cdYear c1" "cdYear c1 < 2 ^ 63" "- (2 ^ 63) \<le> cdYear c2" "cdYear c2 < 2 ^ 63"
      using calendar_bridge.year_fits [OF br within_days [OF lim(2)]]
        calendar_bridge.year_fits [OF br within_days [OF lim(3)]] c by simp_all
    have y': "- (2 ^ 63) \<le> cdYear c1 + ddYears dur" "cdYear c1 + ddYears dur < 2 ^ 63"
      using y s by (auto simp: dur_def)
    have "untilPast ident cal c1 c2 sign (ddYears dur) (ddMonths dur) = Some False"
      using np False not_iso by (simp add: dur_def)
    from calendar_bridge.step_between [OF br c y(1,2) y' s(1) _ _ this] s
    obtain e where e: "addYearsMonths ident cal (epochDays one) dur ''constrain'' = Some (Inr e)"
      "sign * epochDays one \<le> sign * e" "sign * e \<le> sign * epochDays two" by (auto simp: dur_def)
    have "isoDateWithinLimits (epochDaysToISODate e)"
      using e(2,3) s(1) lim(2,3) by (auto simp: dateWithinLimits_days epochDaysToISODate_spec)
    with e(1) False show ?thesis
      by (simp add: calendarDateAdd_def Let_def cal [symmetric] dur_def)
  qed
qed


lemma date_until_order:
  assumes "calendar_laws cal" "c1 = dateFromDay cal e1" "c2 = dateFromDay cal e2" "e1 \<le> e2"
  shows "cdYear c1 \<le> cdYear c2"
  using calendar_laws.day_order [OF assms(1) calendar_laws.date_valid [OF assms(1), of e2]
      calendar_laws.date_valid [OF assms(1), of e1]]
    calendar_laws.day_of_date_of_day [OF assms(1), of e1] calendar_laws.day_of_date_of_day [OF assms(1), of e2]
    assms(2-4)
  by (auto simp: ymd_less_def)

lemma untilYearsMonths_spec:
  assumes s: "sign = 1 \<or> sign = - 1" "0 \<le> sign * yearDiff" and tot: "\<And>y m. over y m \<noteq> None"
  obtains years months where "untilYearsMonths over sign yearDiff largestUnit = Some (years, months)"
    "0 \<le> sign * years" "0 \<le> sign * months" "sign * years \<le> sign * yearDiff"
    "years = 0 \<and> months = 0 \<or> over years months = Some False"
proof (cases "largestUnit = unitMonth")
  case True
  have p: "0 \<le> sign * (yearDiff * 12)" using s(2) by (simp add: mult.assoc [symmetric])
  obtain m2 where m2: "stepBack (over 0) sign (yearDiff * 12) = Some m2" "0 \<le> sign * m2"
    "m2 = 0 \<or> over 0 m2 = Some False"
    using stepBack_spec [OF s(1) p, of "over 0"] tot by metis
  obtain m3 where m3: "stepOn (over 0) sign 1000000 m2 = Some m3" "sign * m2 \<le> sign * m3"
    "m3 = m2 \<or> over 0 m3 = Some False"
    using stepOn_spec [OF s(1), of "over 0"] tot by metis
  have n: "\<not> (0 < sign \<and> yearDiff * 12 < 0 \<or> sign < 0 \<and> 0 < yearDiff * 12)"
    using p s(1) by auto
  have "untilYearsMonths over sign yearDiff largestUnit = Some (0, m3)"
    unfolding untilYearsMonths_def True Let_def if_not_P [OF n] using m2 m3 by simp
  from that [OF this] m2 m3 s(2) show thesis by auto
next
  case False
  obtain y2 where y2: "stepBack (\<lambda>y. over y 0) sign yearDiff = Some y2" "0 \<le> sign * y2"
    "sign * y2 \<le> sign * yearDiff" "y2 = 0 \<or> over y2 0 = Some False"
    using stepBack_spec [OF s, of "\<lambda>y. over y 0"] tot by metis
  obtain m3 where m3: "stepOn (over y2) sign 10000 0 = Some m3" "0 \<le> sign * m3"
    "m3 = 0 \<or> over y2 m3 = Some False"
    using stepOn_spec [OF s(1), of "over y2" 10000 0] tot by (metis mult_zero_right)
  have "untilYearsMonths over sign yearDiff largestUnit = Some (y2, m3)"
    using y2(1) m3(1) False by (simp add: untilYearsMonths_def)
  from that [OF this] y2 m3 show thesis by auto
qed

text \<open>Moving on by days from where the years and months lead.\<close>

lemma date_add_days_more:
  assumes "calendarDateAdd lun ident one \<lparr>ddYears = y, ddMonths = m, ddWeeks = 0, ddDays = 0\<rparr> overflow = Some (Inr mid)"
    and "valid_date two" "isoDateWithinLimits two"
  shows "calendarDateAdd lun ident one
    \<lparr>ddYears = y, ddMonths = m, ddWeeks = 0, ddDays = epochDays two - epochDays mid\<rparr> overflow = Some (Inr two)"
proof -
  define moved where "moved = (if y \<noteq> 0 \<or> m \<noteq> 0
    then addYearsMonths ident (calendarFor lun ident) (epochDays one)
      \<lparr>ddYears = y, ddMonths = m, ddWeeks = 0, ddDays = 0\<rparr> overflow else Some (Inr (epochDays one)))"
  have same: "addYearsMonths ident cal e \<lparr>ddYears = y, ddMonths = m, ddWeeks = 0, ddDays = k\<rparr> ov =
      addYearsMonths ident cal e \<lparr>ddYears = y, ddMonths = m, ddWeeks = 0, ddDays = 0\<rparr> ov" for cal e k ov
    unfolding addYearsMonths_def dateDuration.simps ..
  obtain e where e: "moved = Some (Inr e)"
    using assms(1) unfolding calendarDateAdd_def Let_def dateDuration.simps moved_def [symmetric]
    by (cases moved) (auto split: sum.splits)
  have mid: "mid = epochDaysToISODate e"
    using assms(1) unfolding calendarDateAdd_def Let_def dateDuration.simps moved_def [symmetric]
    by (simp add: e split: if_splits)
  show ?thesis
    unfolding calendarDateAdd_def Let_def dateDuration.simps same [of _ _ "epochDays two - epochDays mid"]
      moved_def [symmetric] e
    using assms(2,3) by (simp add: mid epochDaysToISODate_spec epochDaysToISODate_of_epochDays)
qed

lemma date_until_days:
  assumes "compareISODate one two \<noteq> 0" "largestUnit = unitDay \<or> largestUnit = unitWeek"
  obtains dur where "calendarDateUntil lun ident one two largestUnit = Some dur"
    "ddYears dur = 0" "ddMonths dur = 0" "ddWeeks dur * 7 + ddDays dur = epochDays two - epochDays one"
proof -
  have k: "(epochDays two - epochDays one) sdiv 7 * 7 + (epochDays two - epochDays one) smod 7 =
      epochDays two - epochDays one" by (rule sdiv_mult_smod_eq)
  then show thesis
    using assms that by (auto simp: calendarDateUntil_def Let_def noDateDuration_def unitDay_def unitWeek_def)
qed

lemma date_until_add:
  assumes id: "\<not> lunisolar_ident ident"
    and v: "valid_date one" "valid_date two" "isoDateWithinLimits one" "isoDateWithinLimits two"
  shows "\<exists>dur. calendarDateUntil lun ident one two largestUnit = Some dur \<and>
    calendarDateAdd lun ident one dur ''constrain'' = Some (Inr two)"
proof -
  define sign where "sign = - compareISODate one two"
  have sg: "sign = sgn (epochDays two - epochDays one)"
    using compareISODate_epochDays [OF v(1,2)] by (simp add: sign_def sgn_if)
  note bk = epochDaysToISODate_of_epochDays [OF v(1)] epochDaysToISODate_of_epochDays [OF v(2)]
  consider "sign = 0" | "sign \<noteq> 0" "largestUnit = unitDay \<or> largestUnit = unitWeek"
    | "sign \<noteq> 0" "\<not> (largestUnit = unitDay \<or> largestUnit = unitWeek)" by blast
  then show ?thesis
  proof cases
    case 1
    then have "epochDays one = epochDays two" using sg by (simp add: sgn_if split: if_splits)
    then have "one = two" using bk by metis
    moreover have "compareISODate one two = 0" using 1 by (simp add: sign_def)
    ultimately show ?thesis using v bk
      by (auto simp: calendarDateUntil_def add_days_only noDateDuration_def)
  next
    case 2
    have "compareISODate one two \<noteq> 0" using 2 by (simp add: sign_def)
    from date_until_days [OF this 2(2)] obtain dur where
      "calendarDateUntil lun ident one two largestUnit = Some dur"
      "ddYears dur = 0" "ddMonths dur = 0" "ddWeeks dur * 7 + ddDays dur = epochDays two - epochDays one" .
    with v bk show ?thesis by (simp add: add_days_only)
  next
    case 3
    define cal where "cal = calendarFor lun ident"
    define c1 c2 where "c1 = dateFromDay cal (epochDays one)" and "c2 = dateFromDay cal (epochDays two)"
    define ovr where "ovr = (if ident = ''iso8601'' then untilPastISO lun ident one two sign
      else untilPast ident cal c1 c2 sign)"
    have br: "calendar_bridge cal ident" by (simp add: cal_def calendarFor_bridge id)
    have law: "calendar_laws cal" using calendarFor_laws id by (simp add: cal_def)
    have s: "sign = 1 \<or> sign = - 1" using 3(1) sg by (auto simp: sgn_if split: if_splits)
    have ord: "0 \<le> sign * (cdYear c2 - cdYear c1)"
      using date_until_order [OF law c1_def c2_def] date_until_order [OF law c2_def c1_def] sg s
      by (auto simp: sgn_if split: if_splits)
    have tot: "ovr y m \<noteq> None" for y m
      using calendar_bridge.untilPast_total [OF br, of c1 c2 sign y m]
        untilPastISO_total [OF id, of lun one two sign y m] by (cases "ident = ''iso8601''") (simp_all add: ovr_def)
    from untilYearsMonths_spec [OF s ord, of ovr] tot obtain years months where
      l: "untilYearsMonths ovr sign (cdYear c2 - cdYear c1) largestUnit = Some (years, months)"
      and r: "0 \<le> sign * years" "0 \<le> sign * months" "sign * years \<le> sign * (cdYear c2 - cdYear c1)"
        "years = 0 \<and> months = 0 \<or> ovr years months = Some False" by metis
    from until_step_lands [OF id cal_def v(1,3,4) c1_def c2_def s r(1,2,3)] r(4)
    obtain mid where mid: "calendarDateAdd lun ident one
      \<lparr>ddYears = years, ddMonths = months, ddWeeks = 0, ddDays = 0\<rparr> ''constrain'' = Some (Inr mid)"
      by (auto simp: ovr_def)
    then have "calendarDateUntil lun ident one two largestUnit =
      Some \<lparr>ddYears = years, ddMonths = months, ddWeeks = 0, ddDays = epochDays two - epochDays mid\<rparr>"
      using 3 l unfolding calendarDateUntil_def Let_def sign_def [symmetric] cal_def [symmetric]
        c1_def [symmetric] c2_def [symmetric] ovr_def [symmetric] by simp
    with date_add_days_more [OF mid v(2,4)] show ?thesis by blast
  qed
qed

section \<open>Month-days\<close>

lemma searchBackward_found:
  "searchBackward cal code d first y = Some i \<Longrightarrow>
    \<exists>k. first \<le> k \<and> k \<le> y \<and> tryMonthDay cal code d k = Some i \<and> year i \<le> monthDayRefDay"
proof (induction cal code d first y rule: searchBackward.induct)
  case (1 cal code d first y)
  have le: "\<not> y < first" using "1.prems" by (subst (asm) searchBackward.simps) (simp split: if_splits)
  show ?case
  proof (cases "tryMonthDay cal code d y")
    case None
    then have "searchBackward cal code d first (y - 1) = Some i"
      using "1.prems" le by (subst (asm) searchBackward.simps) simp
    from "1.IH"(1) [OF le None this] show ?thesis by force
  next
    case (Some j)
    show ?thesis
    proof (cases "year j \<le> monthDayRefDay")
      case True
      with Some le "1.prems" have "j = i" by (subst (asm) searchBackward.simps) simp
      with Some True le show ?thesis by (intro exI [of _ y]) simp
    next
      case False
      with Some have "searchBackward cal code d first (y - 1) = Some i"
        using "1.prems" le by (subst (asm) searchBackward.simps) simp
      from "1.IH"(2) [OF le Some False this] show ?thesis by force
    qed
  qed
qed

lemma searchForward_found:
  "searchForward cal code d end_y y = Some i \<Longrightarrow>
    \<exists>k. y \<le> k \<and> k \<le> end_y \<and> tryMonthDay cal code d k = Some i"
proof (induction cal code d end_y y rule: searchForward.induct)
  case (1 cal code d end_y y)
  have "y \<le> end_y" using "1.prems" by (subst (asm) searchForward.simps) (simp split: if_splits)
  show ?case
  proof (cases "tryMonthDay cal code d y")
    case None
    then have "searchForward cal code d end_y (y + 1) = Some i"
      using "1.prems" \<open>y \<le> end_y\<close> by (subst (asm) searchForward.simps) simp
    with "1.IH" [OF _ None] \<open>y \<le> end_y\<close> obtain k where "y + 1 \<le> k" "k \<le> end_y" "tryMonthDay cal code d k = Some i"
      by auto
    then show ?thesis by (intro exI [of _ k]) simp
  next
    case (Some j)
    then show ?thesis using "1.prems" \<open>y \<le> end_y\<close> by (subst (asm) searchForward.simps) auto
  qed
qed

lemma search_days: "\<bar>isoDay monthDayRefDay 12 31\<bar> \<le> 10 ^ 18" "\<bar>isoDay monthDaySearchLo 1 1\<bar> \<le> 10 ^ 18"
  "\<bar>isoDay monthDaySearchHi 12 31\<bar> \<le> 10 ^ 18"
  by code_simp+

context calendar_bridge
begin

lemma search_found:
  assumes "searchMonthDayReference cal code d = Some i" "1 \<le> d" "c = dateFromDay cal (epochDays i)"
  shows "valid_date i" "cdCode c = code" "cdDay c = d"
proof -
  define first last_y end_y where "first = cdYear (dateFromDay cal (isoDay monthDaySearchLo 1 1))"
    and "last_y = cdYear (dateFromDay cal (isoDay monthDayRefDay 12 31))"
    and "end_y = cdYear (dateFromDay cal (isoDay monthDaySearchHi 12 31))"
  note fits = year_fits [OF search_days(1), folded last_y_def] year_fits [OF search_days(2), folded first_def]
    year_fits [OF search_days(3), folded end_y_def]
  obtain y where y: "tryMonthDay cal code d y = Some i" "- (2 ^ 63) \<le> y" "y < 2 ^ 63"
  proof (cases "searchBackward cal code d first last_y")
    case None
    then have "searchForward cal code d end_y (last_y + 1) = Some i"
      using assms(1) by (simp add: searchMonthDayReference_def Let_def first_def last_y_def end_y_def)
    from searchForward_found [OF this] fits that show thesis by force
  next
    case (Some j)
    then have "j = i"
      using assms(1) by (simp add: searchMonthDayReference_def Let_def first_def last_y_def end_y_def)
    with searchBackward_found [OF Some] fits that show thesis by force
  qed
  then obtain m where m: "monthFromCode cal (itoa y) code = Some m" "d \<le> daysInMonth cal y m"
    "i = epochDaysToISODate (dayFromDate cal y m d)"
    by (auto simp: tryMonthDay_def split: option.splits if_splits)
  from lookup [OF y(2,3) m(1)] have l: "1 \<le> m" "m \<le> monthsInYear cal y" "monthCode cal y m = code" by simp_all
  from view_of_day [OF l(1,2) assms(2) m(2,3) assms(3)] l(3)
  show "valid_date i" "cdCode c = code" "cdDay c = d" by simp_all
qed

end

text \<open>Where a month-day read with \<open>reject\<close> comes from.\<close>

lemma month_day_reject_source:
  assumes "calendarMonthDayFromFields lun ident f ''reject'' = Inr i"
  obtains code d where "monthDayFromCode ident (calendarFor lun ident) code d ''reject'' = Inr i"
    "\<not> has_year f \<Longrightarrow> d = fsDay f \<and> monthDayCode ident (calendarFor lun ident) f ''reject'' = Inr code"
proof -
  have base: "\<exists>code. monthDayFromCode ident (calendarFor lun ident) code (fsDay g) ''reject'' = Inr i \<and>
      monthDayCode ident (calendarFor lun ident) g ''reject'' = Inr code"
    if "calendarMonthDayFromFields lun ident g ''reject'' = Inr i" "\<not> has_year g" for g
    using that by (subst (asm) calendarMonthDayFromFields.simps) (auto simp: Let_def split: if_splits sum.splits)
  show thesis
  proof (cases "has_year f")
    case False
    with base [OF assms] that show thesis by blast
  next
    case True
    define again where "again i = (let cd = dateFromDay (calendarFor lun ident) (epochDays i) in
      \<lparr>fsEra = '''', fsEraYear = 0, fsYear = 0, fsMonth = 0, fsMonthCode = cdCode cd,
                      fsDay = cdDay cd, fsHas = fMonthCode OR fDay\<rparr>)" for i
    have n: "\<not> has_year (again j)" for j by (simp add: again_def Let_def has_year_def got_def field_bits)
    from assms True have "\<exists>j. calendarMonthDayFromFields lun ident (again j) ''reject'' = Inr i"
      by (subst (asm) calendarMonthDayFromFields.simps)
        (auto simp: Let_def again_def split: if_splits sum.splits calErr.splits)
    then obtain j where "calendarMonthDayFromFields lun ident (again j) ''reject'' = Inr i" by blast
    from base [OF this n] True that show thesis by blast
  qed
qed

lemma month_day_reject:
  assumes id: "\<not> lunisolar_ident ident"
    and r: "calendarMonthDayFromFields lun ident f ''reject'' = Inr i"
    and c: "c = dateFromDay (calendarFor lun ident) (epochDays i)"
  shows "valid_date i"
    and "\<not> has_year f \<Longrightarrow> cdDay c = fsDay f \<and> (got f fMonthCode \<longrightarrow> cdCode c = fsMonthCode f)"
    and "calendarMonthDayFromFields lun ident \<lparr>fsEra = '''', fsEraYear = 0, fsYear = 0, fsMonth = 0,
           fsMonthCode = cdCode c, fsDay = cdDay c, fsHas = fMonthCode OR fDay\<rparr> overflow = Inr i"
proof -
  define cal where "cal = calendarFor lun ident"
  have br: "calendar_bridge cal ident" using calendarFor_bridge id by (simp add: cal_def)
  from month_day_reject_source [OF r, folded cal_def] obtain code d where
    s: "monthDayFromCode ident cal code d ''reject'' = Inr i"
    and f: "\<not> has_year f \<Longrightarrow> d = fsDay f \<and> monthDayCode ident cal f ''reject'' = Inr code" by blast
  have d: "1 \<le> d" "searchMonthDayReference cal code d = Some i"
    using s by (auto simp: monthDayFromCode_def Let_def split: if_splits option.splits)
  note k = calendar_bridge.search_found [OF br d(2,1) c [folded cal_def]]
  show "valid_date i" by (rule k)
  show "\<not> has_year f \<Longrightarrow> cdDay c = fsDay f \<and> (got f fMonthCode \<longrightarrow> cdCode c = fsMonthCode f)"
    using f k by (auto simp: monthDayCode_def split: if_splits option.splits)
  have "monthDayFromCode ident cal code d overflow = Inr i"
    using s d by (auto simp: monthDayFromCode_def Let_def split: if_splits option.splits)
  then show "calendarMonthDayFromFields lun ident \<lparr>fsEra = '''', fsEraYear = 0, fsYear = 0, fsMonth = 0,
           fsMonthCode = cdCode c, fsDay = cdDay c, fsHas = fMonthCode OR fDay\<rparr> overflow = Inr i"
    using k by (subst calendarMonthDayFromFields.simps)
      (simp add: Let_def has_year_def got_def field_bits monthDayCode_def cal_def)
qed


lemma thursday_same_week: "thursdayOf a = thursdayOf b \<longleftrightarrow> (a + 3) div 7 = (b + 3) div 7"
proof -
  have "thursdayOf x = 7 * ((x + 3) div 7)" for x
    unfolding thursdayOf_def using mult_div_mod_eq [of 7 "x + 3"] by linarith
  then show ?thesis by simp
qed

lemma maxDaysLoop_best: "best \<le> maxDaysLoop cal code stop y best"
proof (induction cal code stop y best rule: maxDaysLoop.induct)
  case (1 cal code stop y best)
  then show ?case by (subst maxDaysLoop.simps) (fastforce simp: Let_def split: option.splits if_splits)
qed

text \<open>The month that is measured is as long as it is in any year the loop looks at.\<close>

lemma maxDaysLoop_month:
  "stop < k \<Longrightarrow> k \<le> y \<Longrightarrow> monthFromCode cal (itoa k) code = Some m \<Longrightarrow>
    daysInMonth cal k m \<le> maxDaysLoop cal code stop y best"
proof (induction cal code stop y best rule: maxDaysLoop.induct)
  case (1 cal code stop y best)
  define best' where "best' = (case monthFromCode cal (itoa y) code of
    Some m \<Rightarrow> (let n = daysInMonth cal y m in if best < n then n else best) | None \<Rightarrow> best)"
  have s: "maxDaysLoop cal code stop y best = maxDaysLoop cal code stop (y - 1) best'"
    using 1(2,3) by (subst maxDaysLoop.simps) (simp add: best'_def)
  show ?case
  proof (cases "k = y")
    case True
    then have "daysInMonth cal k m \<le> best'" using 1(4) by (simp add: best'_def Let_def)
    with maxDaysLoop_best [of best' cal code stop "y - 1"] s show ?thesis by linarith
  next
    case False
    with 1 s show ?thesis by (simp add: best'_def)
  qed
qed

lemma monthDayFromCode_found:
  assumes "\<not> lunisolarID ident" "parseMonthCode code \<noteq> None" "1 \<le> d"
    and "searchMonthDayReference cal code d = Some i" "d \<le> maxDaysOfMonthCode cal code"
  shows "monthDayFromCode ident cal code d overflow = Inr i"
  using assms by (auto simp: monthDayFromCode_def Let_def)

end
