(* ===== verification/Spec2Isabelle.thy ===== *)
theory Spec2Isabelle
  imports Base64_Laws Duration_Text Lexer_Names Lexer_Number_Laws Lexer_Operators Lexer_Space_Laws Pools Prototypes Temporal_Calendar_Laws
begin

text \<open>
  goant is a JavaScript engine in Go. Its core, \<open>src/internal/engine\<close>, parses a script,
  compiles it to bytecode, runs it in an interpreter with an optional JIT, and implements the
  built-in library. This development models the parts of that core whose correctness rests on
  data structures and arithmetic, and proves what the rest of the engine relies on.

  \<^bold>\<open>The parts and how they fit together.\<close> Every JavaScript value is a 64-bit word
  (\<open>value.go\<close>). A heap value carries a handle into a pool of cells (\<open>pools.go\<close>). An object
  cell holds slots, and its shape, a node of a shared transition tree (\<open>shapes.go\<close>), says which
  property is in which slot; the methods of \<open>object.go\<close> read and change properties through the shape
  and walk prototype chains. In front of the parser stands the lexer (\<open>lexer.go\<close>, \<open>token.go\<close>), which
  the parser calls for one token after another; its numbers become values at once. Independently of these, the Temporal library computes dates: ISO dates and
  times (\<open>temporal_iso.go\<close>), sixteen calendars behind one interface (\<open>calendar.go\<close>), the
  bridge between the two (\<open>temporal_calendar.go\<close>), durations (\<open>temporal_duration.go\<close>) and the
  reader of the text formats of all of these (\<open>temporal_parse.go\<close>). Beside them stand the codecs
  between bytes and text (\<open>builtin_u8base64.go\<close>).

  \<^bold>\<open>Theories, from the bottom.\<close>

  \<^item> \<open>Prelude\<close>: Go's truncating division, decimal text, word types, month loops.
  \<^item> \<open>Values\<close> (\<open>value.go\<close>): the encoding as functions on \<open>64 word\<close>. A float is its
    bit pattern. Lemmas: boxing is lossless, no double is read as a tagged value, the sentinels are apart.
  \<^item> \<open>Pools\<close> (\<open>pools.go\<close>): a pool is a record of cells by chunk and slot, the free list, the
    allocator's mark and the poisoned handles; \<open>alloc\<close>, \<open>free\<close>, \<open>poolTruncate\<close> and
    \<open>sweep\<close> return the pool they leave. Lemmas: the invariant \<open>poolInv\<close>, what each operation does to
    each cell, and generations over runs of operations.
  \<^item> \<open>Shapes\<close> and \<open>Shapes_Laws\<close> (\<open>shapes.go\<close>): shapes live in a store, pointers are
    addresses, and every operation passes the store. \<open>heapInv\<close> is the invariant of the store with
    the number of objects at each shape; a shape of the tree is never changed, any other belongs to one
    object. \<open>addKeyTr\<close> and its parts keep it.
  \<^item> \<open>Objects\<close> and \<open>Objects_Laws\<close> (\<open>object.go\<close>): the slots and own properties of an
    object. \<open>absObj\<close> reads an object as the ordered list of its properties; each method is shown to do to
    that list what its specification does, and \<open>objStep\<close> says what it leaves alone.
  \<^item> \<open>Runtime_Objects\<close>: all objects of a runtime under sequences of operations, and the
    refinement of the specification in which objects share nothing. \<open>Own_Keys\<close>: the order of keys.
    \<open>Prototypes\<close>: lookup, write and change of prototypes, and SameValue (\<open>coercion.go\<close>).
  \<^item> \<open>Utf8\<close> and \<open>Number_Text\<close>: what Go's library does for the lexer, decoding runes and
    finding the double nearest to a literal; the latter with \<open>parseRadixString\<close> (\<open>numbers.go\<close>) and the proof
    that no double is nearer. \<open>Tokens\<close> (\<open>token.go\<close>): kinds and tables.
  \<^item> \<open>Lexer_Chars\<close>, \<open>Lexer_Numbers\<close>, \<open>Lexer_Strings\<close>, \<open>Lexer_Spaces\<close>, \<open>Lexer\<close>
    (\<open>lexer.go\<close>): the text is a list of bytes, a scanner takes it with a position and answers widths, and the
    methods pass the lexer along as a record. \<open>Lexer_Laws\<close>: tokens tile the text and end.
    \<open>Lexer_Operators\<close>, \<open>Lexer_Names\<close>, \<open>Lexer_String_Laws\<close>, \<open>Lexer_Number_Laws\<close>,
    \<open>Lexer_Space_Laws\<close>: each kind of token against its specification, a table, a grammar as an inductive
    relation, or the line terminators in the text.
  \<^item> \<open>ISO_Days\<close>, \<open>Calendar_Interface\<close>, \<open>Calendars\<close>, \<open>Calendars_Arith\<close>,
    \<open>Calendars_Islamic\<close>, \<open>Calendar_Umalqura\<close>, \<open>Calendar_Hebrew\<close>, \<open>Calendar_For\<close>
    (\<open>calendar.go\<close>, \<open>calendar_umalqura.go\<close>): the Go interface \<open>calendar\<close> is a record of
    methods, its contract the locale \<open>calendar_laws\<close> (days and dates are inverse, in order, years are
    sums of months), interpreted for each calendar.
  \<^item> \<open>Temporal_ISO\<close> (\<open>temporal_iso.go\<close>): records, balancing, limits, comparison, rounding,
    formatting.
  \<^item> \<open>Temporal_Calendar\<close>, \<open>Temporal_Calendar_Laws\<close> (\<open>temporal_calendar.go\<close>): fields to dates
    and back, month-days, ISO weeks, adding to and differences of dates. The locale \<open>calendar_bridge\<close>
    extends \<open>calendar_laws\<close> by what the bridge needs and is interpreted for the same calendars.
  \<^item> \<open>Doubles\<close>: the part of \<open>float64\<close> the durations use, doubles that hold whole numbers:
    rounding an integer to the nearest double, arithmetic, and printing with \<open>strconv\<close>.
    \<open>Temporal_Duration\<close> (\<open>temporal_duration.go\<close>): duration records, validity, balancing, the
    count of nanoseconds. A field is the integer its double holds; the sign of a zero is not kept, which no
    function of the file reads.
  \<^item> \<open>Temporal_Parse\<close>, \<open>Temporal_Parse_Laws\<close> (\<open>temporal_parse.go\<close>): the cursor over the
    text is a position passed along; every reader returns an option or the next position. The laws say what
    each reader does on a text that starts with what its writer wrote, and that what is read is in range.
    \<open>Duration_Text\<close>: writing and reading durations.
  \<^item> \<open>Base64\<close>, \<open>Base64_Laws\<close> (\<open>builtin_u8base64.go\<close>): the base64 and hexadecimal codecs over
    lists of \<open>8 word\<close>.

  \<^bold>\<open>Errors, loops and bounds.\<close> A Go error or panic is a branch of an option, a sum or a
  datatype. Loops are recursion with a measure where one is apparent; a loop whose end depends on the
  calendar or on the prototype chains is a partial function into option, and that it returns is proved. Integers
  of dates are mathematical integers: the code keeps years within the limits of Temporal before it
  computes, and the largest intermediate value, nanoseconds of an instant, uses \<open>big.Int\<close> in the
  source. Reference counts, generations, the cache epoch, values and mark bits keep their width. Handles and slot numbers are
  natural numbers; a pool of 2^32 cells does not fit in memory. The one count a long run can wrap,
  the reference count of the root shape, is a hypothesis of the refinement and the subject of a
  theorem of its own.

  \<^bold>\<open>Parameters.\<close> \<open>forceSlot\<close> of the lazy JSON reader is the parameter \<open>force\<close>; the
  two lunisolar calendars, which compute the moon in floating point, are the parameter \<open>lun\<close> of
  \<open>calendarFor\<close>; the contents of the string and big-integer pools are arguments of \<open>sameValue\<close>;
  the tables of general categories of Go's package \<open>unicode\<close> are \<open>uc\<close> of the lexer, with nothing assumed of them;
  what Go makes of a float outside the range of \<open>int64\<close> is \<open>toI64\<close>, and the table of calendar
  aliases, generated from CLDR, is \<open>alias\<close>.

  \<^bold>\<open>Not modelled.\<close> The parser, compiler, interpreter and JIT: the bytecode machine calls
  into every built-in, and a faithful model of part of it would have to make up the rest. The inline
  caches and the translation cache of handles, which only memoise. The collector's tracing, which
  follows Go pointers by reflection. Proxies, accessor calls, arrays and other exotic objects. Floating-point
  code beyond whole numbers (number formatting, the lunisolar calendars). The JavaScript side of the base64 and
  Temporal built-ins, which reads options and calls back into the interpreter. The regular-expression engine, which is vendored. Tables generated
  from CLDR. The command-line tools and the embedding interface.
\<close>

text \<open>
  C1: Objects that share hidden classes behave as if each were its own ordered list of properties:
  any sequence of up to 2^32 - 2 operations on a fresh runtime (new objects, data and accessor
  definitions under string and symbol keys, writes, deletions, attribute changes) returns the
  results of the specification, leaves exactly the property lists of the specification, and keeps
  the invariant of the shape store. No operation on one object is ever seen through another.
\<close>

theorem objects_refine_lists:
  assumes "length ops \<le> 2 ^ 32 - 2" "\<forall>op \<in> set ops. plainOp op"
  shows "rtInv (fst (runOps force ops emptyRuntime)) \<and>
    (absWorld (fst (runOps force ops emptyRuntime)), snd (runOps force ops emptyRuntime)) = specOps ops []"
proof -
  have "rtNext emptyRuntime + length ops < 2 ^ 32" using assms(1) emptyRuntime_inv(3) by simp
  from runOps_refines_from [OF emptyRuntime_inv(1) this assms(2), of force] emptyRuntime_inv(2)
  show ?thesis by simp
qed

theorem objects_refine_lists_witness:
  "absWorld (fst (runOps (\<lambda>obj i v. (obj, v))
      [NewObject mknull, NewObject mknull, DefineOwn 1 ''x'' mktrue 7, DefineOwn 2 ''x'' mkfalse 7,
       DefineOwn 2 ''y'' mknull 3, SetAttrs 1 ''x'' 1, DeleteOwn 2 ''x'', DeleteOwn 1 ''x''] emptyRuntime)) =
    [[(strKey ''x'', 1, DataVal mktrue)], [(strKey ''y'', 3, DataVal mknull)]]"
proof -
  let ?ops = "[NewObject mknull, NewObject mknull, DefineOwn 1 ''x'' mktrue 7, DefineOwn 2 ''x'' mkfalse 7,
       DefineOwn 2 ''y'' mknull 3, SetAttrs 1 ''x'' 1, DeleteOwn 2 ''x'', DeleteOwn 1 ''x'']"
  have p: "\<forall>op \<in> set ?ops. plainOp op" "length ?ops \<le> 2 ^ 32 - 2"
    using not_lazy(3) [of TBool] not_lazy(3) [of TNull] by (simp_all add: mktrue_def mkfalse_def mknull_def type_tags)
  have s: "fst (specOps ?ops []) = [[(strKey ''x'', 1, DataVal mktrue)], [(strKey ''y'', 3, DataVal mknull)]]"
    by code_simp
  from objects_refine_lists [OF p(2,1), of "\<lambda>obj i v. (obj, v)"] s show ?thesis by (metis fst_conv)
qed

text \<open>
  C2: Reading after any sequence of operations: hasOwn, getOwn and getOwnSymbol on an object
  answer what the object's property list holds under that key (the value of a data property,
  absence as undefined), whatever shape it shares and wherever the slot is.
\<close>

theorem own_property_reads:
  assumes "rtInv rt" "validObj rt i" "ps = absWorld rt ! (i - 1)" "obj = rtObjs rt i" "h = rtHeap rt"
  shows "(hasOwn h obj s \<longleftrightarrow> map_of ps (strKey s) \<noteq> None) \<and>
    (map_of ps (strKey s) = None \<longrightarrow> getOwn force h obj s = (obj, mkundef, False)) \<and>
    (map_of ps (strKey s) = Some (attrs, DataVal v) \<longrightarrow> getOwn force h obj s = (obj, v, True)) \<and>
    (map_of ps (symKey off) = None \<longrightarrow> getOwnSymbol force h obj off = (obj, mkundef, False)) \<and>
    (map_of ps (symKey off) = Some (attrs, DataVal v) \<longrightarrow> getOwnSymbol force h obj off = (obj, v, True))"
proof -
  have ps: "ps = absObj h obj" using assms(2-5) by (auto simp: absWorld_def validObj_def)
  note O = rtInv_obj [OF assms(1,2), folded assms(4,5)]
  have H: "heapInv h (users rt)" and n: "noLazy h obj" using assms(1,5) O(2) by (simp_all add: rtInv_def plainObj_def)
  show ?thesis
    unfolding ps hasOwn_def lookupInterned_def getOwn_def getOwnSymbol_def
    using own_none [OF H O(1), of "strKey s"] getOwn_spec [OF H O(1) n, of "strKey s" force]
      getOwn_spec [OF H O(1) n, of "symKey off" force] by simp
qed

theorem own_property_reads_witness:
  "\<exists>rt :: runtime. hasOwn (rtHeap rt) (rtObjs rt 1) ''a'' \<and> snd (getOwn (\<lambda>obj i v. (obj, v)) (rtHeap rt) (rtObjs rt 1) ''a'') = (mktrue, True)"
proof -
  let ?ops = "[NewObject mknull, DefineOwn 1 ''a'' mktrue 7]"
  have "length ?ops \<le> 2 ^ 32 - 2" "\<forall>op \<in> set ?ops. plainOp op"
    using not_lazy(3) [of TBool] by (simp_all add: mktrue_def type_tags)
  then obtain rt where r: "rtInv rt" "absWorld rt = fst (specOps ?ops [])" by (rule runOps_world)
  have s: "fst (specOps ?ops []) = [[(strKey ''a'', 7, DataVal mktrue)]]" by code_simp
  have w: "absWorld rt = [[(strKey ''a'', 7, DataVal mktrue)]]" using r(2) s by simp
  have v: "validObj rt 1" by (rule absWorld_valid) (simp_all add: w)
  from own_property_reads [OF r(1) v refl refl refl, of "''a''" "\<lambda>obj i v. (obj, v)" 7 mktrue 0]
  show ?thesis unfolding w by (intro exI [of _ rt]) simp
qed

text \<open>
  C3: The own keys of an object are its string names, each once: first the array indices in
  ascending numeric order, then every other name in the order it was defined.
\<close>

theorem own_keys_in_order:
  assumes "rtInv rt" "validObj rt i" "names = stringNames (absWorld rt ! (i - 1))"
  shows "\<exists>idx. ownKeys (rtHeap rt) (rtObjs rt i) = idx @ filter (\<lambda>k. canonicalIndex k = None) names \<and>
    set idx = {k \<in> set names. canonicalIndex k \<noteq> None} \<and> sorted_wrt (<) (map indexOfKey idx) \<and>
    mset (ownKeys (rtHeap rt) (rtObjs rt i)) = mset names \<and> distinct names"
proof -
  let ?idx = "sort_key indexOfKey (filter (\<lambda>k. canonicalIndex k \<noteq> None) names)"
  have n: "names = stringNames (absObj (rtHeap rt) (rtObjs rt i))"
    using assms(2,3) by (auto simp: absWorld_def validObj_def)
  have "heapInv (rtHeap rt) (users rt)" using assms(1) by (simp add: rtInv_def)
  then have d: "distinct names" unfolding n by (rule stringNames_distinct [OF _ rtInv_obj(1) [OF assms(1,2)]])
  have k: "ownKeys (rtHeap rt) (rtObjs rt i) = orderOwnKeys names" by (simp add: n ownKeys_abs)
  show ?thesis
    unfolding k using orderOwnKeys_parts [of names] orderOwnKeys_sorted [OF d] orderOwnKeys_mset [of names] d
    by (intro exI [of _ ?idx]) simp
qed

theorem own_keys_in_order_witness:
  "\<exists>(rt :: runtime) idx. ownKeys (rtHeap rt) (rtObjs rt 1) = idx @ [''b'', ''01''] \<and> set idx = {''10'', ''7''} \<and>
    sorted_wrt (<) (map indexOfKey idx)"
proof -
  let ?ops = "[NewObject mknull, DefineOwn 1 ''b'' mktrue 7, DefineOwn 1 ''10'' mktrue 7, DefineOwn 1 ''01'' mktrue 7,
    DefineOwn 1 ''7'' mktrue 7]"
  have "length ?ops \<le> 2 ^ 32 - 2" "\<forall>op \<in> set ?ops. plainOp op"
    using not_lazy(3) [of TBool] by (simp_all add: mktrue_def type_tags)
  then obtain rt where r: "rtInv rt" "absWorld rt = fst (specOps ?ops [])" by (rule runOps_world)
  have s: "fst (specOps ?ops []) = [[(strKey ''b'', 7, DataVal mktrue), (strKey ''10'', 7, DataVal mktrue),
      (strKey ''01'', 7, DataVal mktrue), (strKey ''7'', 7, DataVal mktrue)]]" by code_simp
  have w: "absWorld rt = [[(strKey ''b'', 7, DataVal mktrue), (strKey ''10'', 7, DataVal mktrue),
      (strKey ''01'', 7, DataVal mktrue), (strKey ''7'', 7, DataVal mktrue)]]" using r(2) s by simp
  have v: "validObj rt 1" by (rule absWorld_valid) (simp_all add: w)
  have n: "stringNames (absWorld rt ! (1 - 1)) = [''b'', ''10'', ''01'', ''7'']"
    by (simp add: w stringNames_def strKey_def)
  have c: "canonicalIndex ''b'' = None" "canonicalIndex ''10'' = Some 10" "canonicalIndex ''01'' = None"
    "canonicalIndex ''7'' = Some 7" by (simp_all add: canonicalIndex_def is_digit_def digit_val_def)
  have e: "filter (\<lambda>k. canonicalIndex k = None) [''b'', ''10'', ''01'', ''7''] = [''b'', ''01'']"
    "{k \<in> set [''b'', ''10'', ''01'', ''7'']. canonicalIndex k \<noteq> None} = {''10'', ''7''}"
    using c by auto
  show ?thesis using own_keys_in_order [OF r(1) v refl] unfolding n e by blast
qed





text \<open>
  C6: A read finds the first object of the prototype chain that has the name, among the first 256:
  on a chain of objects, resolveProp returns that object and its slot, and nothing when none of
  those has it, even if an object further on does.
\<close>

theorem reads_follow_the_chain:
  assumes "chainOf rt v chain"
  shows "resolveProp rt v key = Option.bind (find (\<lambda>i. ownSlot rt key i \<noteq> None) (take 256 chain))
    (\<lambda>i. map_option (Pair i) (ownSlot rt key i))"
  using resolveFrom_chain [OF assms, of maxProtoChainDepth key] by (simp add: resolveProp_def maxProtoChainDepth_def)

theorem reads_follow_the_chain_witness: "resolveProp emptyRuntime mknull ''x'' = None"
proof -
  have "IsNull mknull" by code_simp
  then have "chainOf emptyRuntime mknull []" by (intro chain_end null_no_object)
  from reads_follow_the_chain [OF this, of "''x''"] show ?thesis by simp
qed

text \<open>
  C7: A weak reference never comes back to life as another object: if a handle and its generation
  name a live cell before a run of fewer than 2^32 pool operations (allocations, frees, region
  reclamations, sweeps) and after it, they named that live cell at every moment in between.
\<close>

theorem weak_references:
  assumes "poolInv p" "poolRun z ops p = Some q" "alive p h g" "alive q h g" "length ops < 2 ^ 32" "n \<le> length ops"
  shows "\<exists>r. poolRun z (take n ops) p = Some r \<and> alive r h g"
  using assms by (rule poolRun_alive)

theorem weak_references_witness:
  "\<exists>p q r :: nat pool. poolRun 0 [PAlloc, PFree 2] p = Some q \<and> alive q 1 0 \<and>
     poolRun 0 (take 1 [PAlloc, PFree 2]) p = Some r \<and> alive r 1 0"
proof -
  obtain p :: "nat pool" where p: "poolRun 0 [PAlloc] (newPool 0) = Some p" "alive p 1 0" "poolInv p" "alive (the (poolRun 0 [PAlloc, PFree 2] p)) 1 0"
      "poolRun 0 [PAlloc, PFree 2] p \<noteq> None"
    by (rule pool_example)
  then obtain q where q: "poolRun 0 [PAlloc, PFree 2] p = Some q" "alive q 1 0" by auto
  from weak_references [OF p(3) q(1) p(2) q(2), of 1] obtain r where
    "poolRun 0 (take 1 [PAlloc, PFree 2]) p = Some r" "alive r 1 0" by auto
  with q show ?thesis by blast
qed



text \<open>
  C9: From a lexer whose position lies in the text, the next token lies in the text too: it begins
  at or after the position, the new position is its end, and it is not empty unless it is the end
  of the text or the lexer ran into an open comment, where every token is an error. The
  end-of-text token is given exactly at the end. The previous end is that of the token left
  behind, and the text and the mode never change.
\<close>

theorem tokens_tile_the_source:
  assumes "lsPos (lxSt l) \<le> length (lxCode l)" "lsToff (lxSt l) + lsTlen (lxSt l) \<le> length (lxCode l)"
    "lexNext uc (consume l) = (l', t)"
  shows "lsPos (lxSt l) \<le> lsToff (lxSt l') \<and> lsPos (lxSt l') = lsToff (lxSt l') + lsTlen (lxSt l') \<and>
    lsPos (lxSt l') \<le> length (lxCode l) \<and> t = lsTok (lxSt l') \<and>
    lsPrevEnd (lxSt l') = lsToff (lxSt l) + lsTlen (lxSt l) \<and>
    (lxCommentErr l' \<longrightarrow> t = TokErr \<and> lsTlen (lxSt l') = 0) \<and>
    (\<not> lxCommentErr l' \<longrightarrow> (t = TokEOF \<longleftrightarrow> lsToff (lxSt l') = length (lxCode l)) \<and> (t = TokEOF \<longleftrightarrow> lsTlen (lxSt l') = 0)) \<and>
    lxCode l' = lxCode l \<and> lxStrict l' = lxStrict l \<and> lxModule l' = lxModule l"
proof -
  have "steppedFrom l l' t \<and> lsPrevEnd (lxSt l') = lsToff (lxSt l) + lsTlen (lxSt l)"
    using assms by (intro lexNext_spec) (simp_all add: lexOk_def)
  then show ?thesis by (auto simp: steppedFrom_def lexOk_def split: if_splits)
qed

theorem tokens_tile_the_source_witness: "\<exists>l' t. lexNext sampleTables (consume (newLexer ''a+b'' False)) = (l', t) \<and> lsPos (lxSt l') \<le> 3 \<and> t = lsTok (lxSt l')"
proof -
  obtain l' t where e: "lexNext sampleTables (consume (newLexer ''a+b'' False)) = (l', t)" by (metis prod.exhaust)
  show ?thesis using tokens_tile_the_source [OF _ _ e] e by (simp add: newLexer_def freshState_def)
qed

text \<open>
  C10: The tokens of every text come to an end: taking and consuming tokens from a new lexer,
  whatever the text, the mode and the Unicode tables, reaches within as many tokens as the text
  has bytes, and one more, the end of the text or an unterminated comment, at which the parser
  stops.
\<close>

theorem every_text_has_an_end:
  "\<exists>k. k \<le> length code \<and> atEnd (nthLexer uc ((newLexer code strict)\<lparr>lxModule := isModule, lxNoHTMLClose := noClose\<rparr>) k)"
  using tokens_end [of "(newLexer code strict)\<lparr>lxModule := isModule, lxNoHTMLClose := noClose\<rparr>" uc]
  by (auto simp: lexOk_def newLexer_def freshState_def)



text \<open>
  C12: An ASCII name that nothing continues is read whole, as one token of its length. The token
  is the keyword that the table has for the spelling and the identifier token otherwise, it lies
  in the band of name-like tokens the parser tests for, and no two spellings have the same
  keyword.
\<close>

theorem names_and_keywords:
  assumes "drop off code = s @ rest" "asciiName s" "nameEnd rest"
  shows "parseIdent uc code off = (parseKeyword s, length s, False) \<and> isIdentLike (parseKeyword s) \<and>
    (parseKeyword s = t \<and> t \<noteq> TokIdentifier \<longleftrightarrow> (s, t) \<in> set keywordTable) \<and>
    distinct (map fst keywordTable) \<and> distinct (map snd keywordTable)"
  using parseIdent_name [OF assms] parseKeyword_identLike parseKeyword_table [of s t] keywordTable_apart by blast

theorem names_and_keywords_witness: "parseIdent sampleTables ''x = instanceof;'' 4 = (TokInstanceof, 10, False)"
proof -
  have "parseKeyword ''instanceof'' = TokInstanceof" "asciiName ''instanceof''" "nameEnd '';''" by code_simp+
  then show ?thesis using names_and_keywords [of 4 "''x = instanceof;''" "''instanceof''" "'';''" sampleTables TokInstanceof] by simp
qed

text \<open>
  C13: The scanner of string literals accepts a literal, with its width, exactly when the grammar
  derives what stands between the quotes: bytes other than the quote, a backslash and a line
  terminator, and escapes, among which hexadecimal and Unicode escapes are complete and name a
  code point, a carriage return takes a line feed with it, and strict mode has no legacy octal
  escape.
\<close>

theorem string_literals:
  assumes "drop off code = q # s" "q \<noteq> backslash" "q \<noteq> LF" "q \<noteq> CR"
  shows "scanString strict code off q = (TokString, n) \<longleftrightarrow>
    (\<exists>body tail'. s = body @ q # tail' \<and> n = length body + 2 \<and> strBody strict q tail' body)"
  using string_literal [of q strict s n] assms by (simp add: scanString_def isQuote_def)

theorem string_literals_witness: "scanString True (CHR 0x27 # ''ab'' @ CHR 0x27 # ''c'') 0 CHR 0x27 = (TokString, 4)"
proof -
  have "strBody True CHR 0x27 ''c'' ''ab''" by (intro strBody.intros) simp_all
  then show ?thesis
    using string_literals [of 0 "CHR 0x27 # ''ab'' @ CHR 0x27 # ''c''" "CHR 0x27" "''ab'' @ CHR 0x27 # ''c''" True 4] by fastforce
qed

text \<open>
  C14: The decimal text of a natural number, where no point or name follows, is one number token
  of its length, with the suffix n a BigInt token; so is 0x with hexadecimal digits. The value of
  the token is the bits of a double to which no finite double is closer, or an infinity.
\<close>

theorem integer_literals:
  assumes "drop off (lxCode l) = ndigits n @ rest" "\<not> numberHasInvalidTail uc rest 0" "rest = [] \<or> hd rest \<noteq> CHR ''.''"
    and "drop off (lxCode m) = ndigits n @ CHR ''n'' # rest"
    and "hs \<noteq> []" "list_all isXDigitByte hs" "rest' = [] \<or> \<not> isXDigitByte (hd rest') \<and> hd rest' \<noteq> CHR ''_''"
    and "0 \<le> b" "b < 2047 * 2 ^ 52"
  shows "parseNumber uc l off = setTok (setVal l (ratioBits n 1)) TokNumber (length (ndigits n)) \<and>
    parseNumber uc m off = setTok (setVal m (ratioBits n 1)) TokBigInt (length (ndigits n) + 1) \<and>
    scanNumber strict (''0x'' @ hs @ rest') = NumOk (2 + length hs) (ratioBits (hexNumber hs) 1) False True \<and>
    lsTval (lxSt (setVal l (ratioBits n 1))) = ratioBits n 1 \<and>
    (ratioBits n 1 = infBits \<or>
      \<bar>int n * 2 ^ 1074 - unitsOf (uint (ratioBits n 1))\<bar> \<le> \<bar>int n * 2 ^ 1074 - unitsOf b\<bar>)"
proof -
  have "ratioBits n 1 = infBits \<or>
      \<bar>int n * 2 ^ 1074 - unitsOf (uint (ratioBits n 1))\<bar> \<le> \<bar>int n * 2 ^ 1074 - unitsOf b\<bar>"
  proof (cases "roundedBits n 1 < 2047 * 2 ^ 52")
    case True
    then have "uint (ratioBits n 1) = roundedBits n 1" by (intro ratioBits_uint) simp_all
    then show ?thesis using roundedBits_nearest [of 1 b n] assms(8) by simp
  qed (simp add: ratioBits_def)
  moreover have "lsTval (lxSt (setVal l (ratioBits n 1))) = ratioBits n 1" by (simp add: setVal_def tov_ratio)
  ultimately show ?thesis
    using parseNumber_decimal(1) [OF assms(1-3)] parseNumber_decimal(2) [OF assms(4) refl assms(2)] scanNumber_hex [OF assms(5-7)] by simp
qed

theorem integer_literals_witness:
  "lsTok (lxSt (parseNumber sampleTables (newLexer ''42;'' False) 0)) = TokNumber"
proof -
  have n: "ndigits 42 = ''42''" by code_simp
  have x: "isXDigitByte CHR ''F''" by code_simp
  have i: "\<not> numberHasInvalidTail sampleTables '';'' 0" by (simp add: numberHasInvalidTail_def charType_def)
  have "parseNumber sampleTables (newLexer ''42;'' False) 0 = setTok (setVal (newLexer ''42;'' False) (ratioBits 42 1)) TokNumber (length (ndigits 42))"
    using integer_literals [of 0 "newLexer ''42;'' False" 42 "'';''" sampleTables "newLexer ''42n;'' False" "''F''" "[]" 0 False] n i x
    by (simp add: newLexer_def)
  then show ?thesis by (simp add: setTok_def)
qed

text \<open>
  C15: White space and comments, where no comment is left open: the next token begins at a byte
  that starts no white space and no comment. If the lexer says that it passed a line terminator,
  there is one between the old position and the token; in a module the converse holds as well, so
  that semicolons are inserted where they should be. In a script it does not: an HTML-like comment
  hides a carriage return, and what follows it on the next line.
\<close>

theorem comments_and_newlines:
  assumes "skipToNext l n = (l', p, nl)" "\<not> lxCommentErr l'"
  shows "nothingLeft (lxCode l) p \<and> (nl \<longrightarrow> lineTermIn (lxCode l) n p) \<and> (lxModule l \<longrightarrow> (nl \<longleftrightarrow> lineTermIn (lxCode l) n p)) \<and>
    snd (skipToNext (newLexer (''<!--'' @ CR # ''x()'') False) 0) = (8, False)"
proof -
  have "snd (skipToNext (newLexer (''<!--'' @ CR # ''x()'') False) 0) = (8, False)" by code_simp
  then show ?thesis using skipToNext_newlines [OF assms] by simp
qed

theorem comments_and_newlines_witness: "\<exists>l' nl. skipToNext (newLexer ''/**/a'' False) 0 = (l', 4, nl) \<and> nothingLeft ''/**/a'' 4"
proof -
  obtain l' p nl where e: "skipToNext (newLexer ''/**/a'' False) 0 = (l', p, nl)" by (metis prod_cases3)
  have c: "lxCommentErr (fst (skipToNext (newLexer ''/**/a'' False) 0)) = False" "fst (snd (skipToNext (newLexer ''/**/a'' False) 0)) = 4"
    by code_simp+
  then have "\<not> lxCommentErr l'" "p = 4" using e by simp_all
  then show ?thesis using comments_and_newlines [OF e] e by (simp add: newLexer_def)
qed





text \<open>
  C18: In a calendar with eras, the era and the year in it that a date reports name the year of
  that date, and so does the era of any year.
\<close>

theorem calendar_era_years:
  assumes "\<not> lunisolar_ident ident" "ident \<noteq> ''iso8601''" "cal = calendarFor lun ident"
  shows "yearFromEra cal (cdEra (dateFromDay cal n)) (cdEraYear (dateFromDay cal n)) =
      Some (cdYear (dateFromDay cal n)) \<and>
    yearFromEra cal (fst (eraOf cal y)) (snd (eraOf cal y)) = Some y"
  using calendarFor_eras [OF assms(1,2), of lun]
  by (simp_all add: assms(3) calendar_eras.date_era_back calendar_eras.era_back)

theorem calendar_era_years_witness:
  "yearFromEra japaneseCalendar (cdEra (dateFromDay japaneseCalendar (isoDay 2019 4 30)))
     (cdEraYear (dateFromDay japaneseCalendar (isoDay 2019 4 30))) =
   Some (cdYear (dateFromDay japaneseCalendar (isoDay 2019 4 30)))"
  using calendar_era_years [of "''japanese''" japaneseCalendar "\<lambda>z i. gregorianCalendar False"]
  by (simp add: lunisolar_ident_def calendarFor_def)


text \<open>
  C20: The date and time that an instant has at an offset, turned back, is the instant; a valid
  date and time, turned into an instant and back, is itself; and the date and time of an instant
  are always valid.
\<close>

theorem instant_and_local_time:
  "isoDateTimeToEpochNanoseconds (getISODateTimeFor off n) off = n \<and>
   valid_date (dtDate (getISODateTimeFor off n)) \<and> valid_time (dtTime (getISODateTimeFor off n)) \<and>
   (valid_date (dtDate dt) \<and> valid_time (dtTime dt) \<longrightarrow>
      getISODateTimeFor off (isoDateTimeToEpochNanoseconds dt off) = dt)"
  using instant_roundtrip isoDateTime_roundtrip by blast

theorem instant_and_local_time_witness:
  "getISODateTimeFor 0 (isoDateTimeToEpochNanoseconds
      \<lparr>dtDate = \<lparr>year = 2024, month = 2, day = 29\<rparr>, dtTime = midnightTime\<rparr> 0) =
    \<lparr>dtDate = \<lparr>year = 2024, month = 2, day = 29\<rparr>, dtTime = midnightTime\<rparr>"
proof -
  have "valid_date \<lparr>year = 2024, month = 2, day = 29\<rparr>" "valid_time midnightTime" by code_simp+
  with instant_and_local_time [where dt = "\<lparr>dtDate = \<lparr>year = 2024, month = 2, day = 29\<rparr>, dtTime = midnightTime\<rparr>"]
  show ?thesis by simp
qed

text \<open>
  C21: Comparing two valid dates and times field by field gives the sign of the difference of
  their instants.
\<close>

theorem instants_compare:
  assumes "valid_date (dtDate a)" "valid_time (dtTime a)" "valid_date (dtDate b)" "valid_time (dtTime b)"
  shows "compareISODateTime a b = sgn (isoDateTimeToEpochNanoseconds a 0 - isoDateTimeToEpochNanoseconds b 0)"
  using assms by (rule compareISODateTime_epochNs)

theorem instants_compare_witness:
  "compareISODateTime \<lparr>dtDate = \<lparr>year = 2024, month = 2, day = 29\<rparr>, dtTime = midnightTime\<rparr>
     \<lparr>dtDate = \<lparr>year = 2024, month = 2, day = 29\<rparr>, dtTime = noonTime\<rparr> =
   sgn (isoDateTimeToEpochNanoseconds \<lparr>dtDate = \<lparr>year = 2024, month = 2, day = 29\<rparr>, dtTime = midnightTime\<rparr> 0 -
     isoDateTimeToEpochNanoseconds \<lparr>dtDate = \<lparr>year = 2024, month = 2, day = 29\<rparr>, dtTime = noonTime\<rparr> 0)"
proof -
  have "valid_date \<lparr>year = 2024, month = 2, day = 29\<rparr>" "valid_time midnightTime" "valid_time noonTime" by code_simp+
  then show ?thesis by (intro instants_compare) simp_all
qed



text \<open>
  C23: Adding a duration to a date ends in every calendar but the lunisolar ones, and a date it
  gives is valid and representable.
\<close>

theorem date_add_always_ends:
  assumes "\<not> lunisolar_ident ident"
  shows "\<exists>r. calendarDateAdd lun ident i dur overflow = Some r \<and>
    (\<forall>j. r = Inr j \<longrightarrow> valid_date j \<and> isoDateWithinLimits j)"
  using date_add_ends [OF assms] date_add_result by metis

theorem date_add_always_ends_witness:
  "\<exists>r. calendarDateAdd (\<lambda>z i. gregorianCalendar False) ''hebrew'' \<lparr>year = 2024, month = 2, day = 29\<rparr>
     \<lparr>ddYears = 1, ddMonths = - 40, ddWeeks = 3, ddDays = 0\<rparr> ''constrain'' = Some r"
  using date_add_always_ends [of "''hebrew''" "\<lambda>z i. gregorianCalendar False"] by (simp add: lunisolar_ident_def) metis



text \<open>
  C25: The difference of two representable dates, in any largest unit and any calendar but the
  lunisolar ones, is found (every search loop ends), and adding it to the first date gives the
  second.
\<close>

theorem date_until_then_add:
  assumes "\<not> lunisolar_ident ident"
    and "valid_date one" "valid_date two" "isoDateWithinLimits one" "isoDateWithinLimits two"
  shows "\<exists>dur. calendarDateUntil lun ident one two largestUnit = Some dur \<and>
    calendarDateAdd lun ident one dur ''constrain'' = Some (Inr two)"
  using assms by (rule date_until_add)

theorem date_until_then_add_witness:
  "\<exists>dur. calendarDateUntil (\<lambda>z i. gregorianCalendar False) ''hebrew'' \<lparr>year = 2024, month = 2, day = 29\<rparr>
       \<lparr>year = 1999, month = 12, day = 31\<rparr> unitYear = Some dur \<and>
    calendarDateAdd (\<lambda>z i. gregorianCalendar False) ''hebrew'' \<lparr>year = 2024, month = 2, day = 29\<rparr> dur ''constrain'' =
      Some (Inr \<lparr>year = 1999, month = 12, day = 31\<rparr>)"
  by (rule date_until_then_add) code_simp+







text \<open>
  C29: The text of a date and time of a six-digit year is read back as that date and time, on its
  own, with a Z, and with any offset of less than a day, down to the nanosecond; the offset comes
  back both as a number and as the text it was written as.
\<close>

theorem date_time_text_round_trip:
  assumes "valid_date (dtDate dt)" "\<bar>year (dtDate dt)\<bar> < 1000000" "valid_time (dtTime dt)" "\<bar>off\<bar> < nsPerDay"
  shows "parseISODateTime (formatISODateTime dt (- 1)) = Some (dateTimeOf dt) \<and>
    parseISODateTime (formatISODateTime dt (- 1) @ ''Z'') = Some ((dateTimeOf dt)\<lparr>rZ := True\<rparr>) \<and>
    parseISODateTime (formatISODateTime dt (- 1) @ formatOffsetNanoseconds off) =
      Some ((dateTimeOf dt)\<lparr>rHasOffset := True, rOffsetNs := off, rOffsetStr := formatOffsetNanoseconds off\<rparr>)"
  using formatISODateTime_read [OF assms(1-3)] assms(4) by blast

theorem date_time_text_round_trip_witness:
  "parseISODateTime (formatISODateTime \<lparr>dtDate = \<lparr>year = - 1, month = 2, day = 28\<rparr>, dtTime = noonTime\<rparr> (- 1) @
      formatOffsetNanoseconds (- 19800000000000)) \<noteq> None"
proof -
  let ?dt = "\<lparr>dtDate = \<lparr>year = - 1, month = 2, day = 28\<rparr>, dtTime = noonTime\<rparr>"
  have "valid_date (dtDate ?dt)" by code_simp
  moreover have "valid_time (dtTime ?dt)" using noon_valid(1) by simp
  ultimately show ?thesis
    using date_time_text_round_trip [of ?dt "- 19800000000000"] by (simp add: ns_defs)
qed

text \<open>
  C30: Whatever string is read, the fields that come back are in range: years of six digits,
  two-digit months and days, an hour, minute and second that exist (or the leap second 60), parts
  of a second under a thousand and an offset of less than a day, never both a Z and an offset, and
  neither without a time. The readers for dates, instants and zoned times return only dates that
  exist.
\<close>

theorem read_fields_in_range:
  "(parseISODateTime s = Some r \<longrightarrow> readFields r) \<and>
   (parseTemporalDateString s = Some r \<longrightarrow> readFields r \<and> \<not> rZ r \<and> valid_date \<lparr>year = rYear r, month = rMonth r, day = rDay r\<rparr>) \<and>
   (parseTemporalInstantString s = Some r \<longrightarrow> readFields r \<and> rHasTime r \<and> (rZ r \<or> rHasOffset r) \<and>
      valid_date \<lparr>year = rYear r, month = rMonth r, day = rDay r\<rparr>) \<and>
   (parseTemporalZonedDateTimeString s = Some r \<longrightarrow> readFields r \<and> rHasTZ r \<and>
      valid_date \<lparr>year = rYear r, month = rMonth r, day = rDay r\<rparr>)"
  using parseISODateTime_range [of s]
  by (auto simp: parseTemporalDateString_def parseTemporalInstantString_def parseTemporalZonedDateTimeString_def
      valid_date_def split: option.splits if_splits)

theorem read_fields_in_range_witness:
  "\<exists>r. parseISODateTime (formatISODateTime \<lparr>dtDate = \<lparr>year = 2024, month = 2, day = 29\<rparr>, dtTime = noonTime\<rparr> (- 1)) = Some r \<and> readFields r"
proof -
  let ?dt = "\<lparr>dtDate = \<lparr>year = 2024, month = 2, day = 29\<rparr>, dtTime = noonTime\<rparr>"
  have "valid_date (dtDate ?dt)" by code_simp
  then have r: "parseISODateTime (formatISODateTime ?dt (- 1)) = Some (dateTimeOf ?dt)"
    using formatISODateTime_read(1) [of ?dt] noon_valid(1) by simp
  then have "readFields (dateTimeOf ?dt)" using read_fields_in_range by blast
  with r show ?thesis by blast
qed



text \<open>
  C32: The text of a valid duration is read back as a valid duration of the same value: years to
  minutes unchanged, and the seconds and what is under them as the same number of nanoseconds,
  carried into the seconds. The digits are accumulated in a double and the whole numbers written
  from one, and no digit is lost.
\<close>

theorem duration_text_round_trip:
  assumes "durationFields d = map FInt [y, mo, w, D, h, mi, s, f_ms, f_us, f_ns]" "isValidDuration (durationFields d)"
  shows "\<exists>str s' ms' us' ns'. formatTemporalDuration d (- 1) = Some str \<and>
    parseTemporalDurationString str = Some (map FInt [y, mo, w, D, h, mi, s', ms', us', ns']) \<and>
    exactNs 0 0 0 s' ms' us' ns' = exactNs 0 0 0 s f_ms f_us f_ns \<and>
    \<bar>ms'\<bar> < 1000 \<and> \<bar>us'\<bar> < 1000 \<and> \<bar>ns'\<bar> < 1000 \<and>
    isValidDuration (map FInt [y, mo, w, D, h, mi, s', ms', us', ns'])"
  using assms by (rule duration_text_roundtrip)

theorem duration_text_round_trip_witness:
  "\<exists>str s' ms' us' ns'. formatTemporalDuration (durationFromFields (map FInt [0, 0, 0, - 1, 0, 0, - 59, - 1500, 0, - 7])) (- 1) = Some str \<and>
    parseTemporalDurationString str = Some (map FInt [0, 0, 0, - 1, 0, 0, s', ms', us', ns']) \<and>
    exactNs 0 0 0 s' ms' us' ns' = - 60500000007"
proof -
  let ?d = "durationFromFields (map FInt [0, 0, 0, - 1, 0, 0, - 59, - 1500, 0, - 7])"
  have f: "durationFields ?d = map FInt [0, 0, 0, - 1, 0, 0, - 59, - 1500, 0, - 7]"
    by (simp add: durationFields_def durationFromFields_def)
  have "isValidDuration (durationFields ?d)"
    unfolding f isValidDuration_iff by (simp add: sameSign_def exactNs_def ns_defs)
  from duration_text_round_trip [OF f this] show ?thesis by (auto simp: exactNs_def ns_defs)
qed

text \<open>
  C33: Bytes written as text decode to themselves and use the whole text: in base64 with either
  alphabet and any limit that admits them, with padding under every treatment of the last chunk,
  without it unless that treatment is strict or stops before a partial chunk; in hexadecimal with
  any limit, of which the decoder takes as many bytes as it admits.
\<close>

theorem byte_text_round_trip:
  assumes "length b \<le> m" "length b mod 3 = 0 \<or> \<not> omit \<or> (lastChunk \<noteq> ''stop-before-partial'' \<and> lastChunk \<noteq> ''strict'')"
  shows "fromBase64 (encodeBase64 b url omit) url lastChunk m = (b, length (encodeBase64 b url omit), False) \<and>
    fromHex (encodeHex b) k = (take k b, 2 * min k (length b), False)"
  using base64_roundtrip [of b m omit lastChunk url] hex_roundtrip [of b k] assms by (simp add: endsChunk_def)

theorem byte_text_round_trip_witness:
  "fromBase64 (encodeBase64 [255, 0, 7, 8] True False) True ''strict'' b64NoLimit = ([255, 0, 7, 8], 8, False)"
  using byte_text_round_trip [of "[255, 0, 7, 8]" b64NoLimit False "''strict''" True 0]
  by (simp add: b64NoLimit_def encodeBase64_def Let_def)



text \<open>
  C35: The 32-bit reference count of the root shape is a limit of the sharing argument: with the
  count at its maximum, making one more object wraps it to zero, the shared root no longer counts
  as shared, and defining a property on the new object changes the root itself, in place, for
  every object that still has it.
\<close>

theorem root_reference_wraps:
  assumes "hpRoots h inobjMaxSlots = Some a" "shRefCount (hpShape h a) = - 1" "shParent (hpShape h a) = None"
    and "wfShape (hpShape h a)" "canonicalKey key" "newShape h = (h', a')"
  shows "a' = a \<and> shRefCount (hpShape h' a) = 0 \<and> \<not> isInTree (deref h' (Some a)) \<and>
    fst (snd (addKeyTr h' (Some a) key attrs)) = Some a \<and>
    propsAt (fst (addKeyTr h' (Some a) key attrs)) a = withKey (propsAt h a) key attrs"
proof -
  have n: "a' = a" "h' = setShape h a ((hpShape h a)\<lparr>shRefCount := 0\<rparr>)"
    using assms(1,2,6) by (auto simp: newShape_def newShapeWithLimit_def clampInobjLimit_def Let_def)
  have t: "\<not> isInTree (Some (hpShape h' a))" using assms(3) by (simp add: n setShape_def isInTree_def)
  have w: "wfShape (hpShape (icEpochBump h') a)"
    using assms(4) wf_cong [of "hpShape h' a" "hpShape h a"] by (simp add: n setShape_def icEpochBump_def Let_def)
  obtain s slot e where k: "addKey (icEpochBump h') (Some a) key attrs =
      (setShape (icEpochBump h') a s\<lparr>hpEpoch := e\<rparr>, Some slot)" "shProps s = withKey (propsAt (icEpochBump h') a) key attrs"
    by (rule addKey_shape [OF w assms(5), of attrs])
  have "addKeyTr h' (Some a) key attrs = (setShape (icEpochBump h') a s\<lparr>hpEpoch := e\<rparr>, Some a, Some slot)"
    using t k(1) by (simp add: addKeyTr.simps Let_def)
  moreover have "propsAt (icEpochBump h') a = propsAt h a" by (simp add: n setShape_def icEpochBump_def Let_def)
  moreover have "shRefCount (hpShape h' a) = 0" by (simp add: n setShape_def)
  ultimately show ?thesis using t k(2) n(1) by (simp add: deref_def) (simp add: setShape_def)
qed

theorem root_reference_wraps_witness:
  "\<exists>h. \<not> isInTree (deref (fst (newShape h)) (Some 0)) \<and> hpRoots h inobjMaxSlots = Some 0 \<and> isInTree (deref h (Some 0))"
proof -
  define h where "h = \<lparr>hpShape = (\<lambda>_. newShapeRec (- 1) 4), hpNext = 1, hpEpoch = 1, hpRoots = [inobjMaxSlots \<mapsto> 0]\<rparr>"
  obtain h' where n: "newShape h = (h', 0)"
    by (simp add: h_def newShape_def newShapeWithLimit_def clampInobjLimit_def Let_def)
  have "\<not> isInTree (deref h' (Some 0))"
    using root_reference_wraps [OF _ _ _ _ canonical_keys(1) n, of 0] wf_new [of "- 1" 4] by (simp add: h_def newShapeRec_def)
  moreover have max_count: "(1 :: u32) < - 1" by code_simp
  moreover have "isInTree (deref h (Some 0))" by (simp add: h_def deref_def isInTree_def newShapeRec_def) (rule max_count)
  ultimately show ?thesis using n by (intro exI [of _ h]) (simp add: h_def)
qed

text \<open>
  C36: Boxing loses nothing: a value made of a five-bit type and 47 bits of data is tagged and
  gives both back, as does its 32-bit handle; the only pattern that is not tagged is the one of
  the first type with no data, which is minus infinity.
\<close>

theorem boxed_values:
  assumes "t < 32" "d < 2 ^ 47"
  shows "valueData (mkval t d) = d \<and> handle (mkval t d) = ucast d \<and>
    (t \<noteq> 0 \<or> d \<noteq> 0 \<longrightarrow> isTagged (mkval t d) \<and> valueType (mkval t d) = t) \<and>
    (t = 0 \<and> d = 0 \<longrightarrow> mkval t d = nanboxPrefix \<and> valueType (mkval t d) = TNum)"
proof -
  have "take_bit 47 (unat d) = unat d" using assms(2) by (intro take_bit_nat_eq_self) (simp add: word_less_nat_alt)
  then have m: "d AND mask 47 = d"
    by (simp only: take_bit_eq_mask [symmetric] word_unat_eq_iff unsigned_take_bit_eq)
  have v: "valueData (mkval t d) = d" using mkval_bits(1) [OF assms(1), of d] m by simp
  have z: "mkval 0 0 = nanboxPrefix" "valueType nanboxPrefix = TNum" by code_simp+
  show ?thesis
    using v z mkval_tagged [OF assms(1), of d] mkval_type [OF assms(1), of d] m by (auto simp: handle_def)
qed

theorem boxed_values_witness: "valueType (mkval TStr 42) = TStr \<and> valueData (mkval TStr 42) = 42"
  using boxed_values [of TStr 42] by (simp add: TStr_def)

text \<open>
  C37: Every double boxes to an untagged value of type number: its bits are kept unless it is a
  NaN, a NaN stays a NaN, and no NaN pattern is ever taken for a tagged value.
\<close>

theorem numbers_stay_numbers:
  "IsNumber (mknum b) \<and> valueType (mknum b) = TNum \<and> (\<not> is_nan_bits b \<longrightarrow> tod (mknum b) = b) \<and>
    (is_nan_bits b \<longrightarrow> is_nan_bits (tod (mknum b))) \<and> \<not> isLazy (mknum b)"
  using tov_untagged [of b] tov_number [of b] not_lazy(1) [of "tov b"]
  by (simp add: mknum_def IsNumber_def valueType_def tod_def)

theorem numbers_stay_numbers_witness: "tod (mknum 0x3FF0000000000000) = 0x3FF0000000000000"
proof -
  have "\<not> is_nan_bits 0x3FF0000000000000" by code_simp
  then show ?thesis using numbers_stay_numbers [of "0x3FF0000000000000"] by simp
qed

text \<open>
  C38: SameValue compares values by what they stand for: it is equality of a key made of the type,
  the text of a string, the number of a BigInt and otherwise the bits, with all NaNs alike and the
  two zeros apart, hence an equivalence; sameValueZero is weaker and differs from it on the two
  zeros only.
\<close>

theorem same_value_is_equivalence:
  assumes "knownBigInts ps a" "knownBigInts ps b"
  shows "(sameValue ps a b \<longleftrightarrow> valueKey ps a = valueKey ps b) \<and> sameValue ps a a \<and>
    (sameValueZero ps a b \<longleftrightarrow> sameValue ps a b \<or>
       valueType a = TNum \<and> valueType b = TNum \<and> is_zero_bits a \<and> is_zero_bits b)"
proof -
  have "sameValueZero ps a b \<longleftrightarrow> sameValue ps a b \<or> valueType a = TNum \<and> valueType b = TNum \<and> is_zero_bits a \<and> is_zero_bits b"
  proof (cases "valueType a = TNum \<and> valueType b = TNum")
    case True
    then show ?thesis using sameValue_numbers [of a b ps] zero_not_nan
      by (auto simp: sameValueZero_def valueNumber_def tod_def Let_def float_eq_def)
  next
    case False
    then show ?thesis by (auto simp: sameValueZero_def sameValue_def)
  qed
  then show ?thesis using sameValue_key [OF assms] sameValue_key [OF assms(1,1)] by simp
qed

theorem same_value_is_equivalence_witness: "sameValue (\<lambda>_. [], \<lambda>_. None) canonicalNaN canonicalNaN"
  using same_value_is_equivalence [of "(\<lambda>_. [], \<lambda>_. None)" canonicalNaN canonicalNaN]
proof -
  have "valueType canonicalNaN \<noteq> TBigInt" by code_simp
  then show ?thesis
    using same_value_is_equivalence [of "(\<lambda>_. [], \<lambda>_. None)" canonicalNaN canonicalNaN] by (simp add: knownBigInts_def)
qed

text \<open>
  C39: A sweep frees exactly the live cells that are not marked, counts them, bumps their
  generations and touches nothing else, in both modes; and marking is a set: setting a handle adds
  that handle only, and reports whether it was there or lies outside the snapshot.
\<close>

theorem sweep_frees_the_unmarked:
  assumes "poolInv p" "sweep poison z m p = (q, n)"
  shows "poolInv q \<and> n = card {k. 0 < k \<and> pcLive (cellAt p k) \<and> \<not> markHas m k} \<and>
    (0 < k \<longrightarrow> cellAt q k = (if pcLive (cellAt p k) \<and> \<not> markHas m k
       then (cellAt p k)\<lparr>pcLive := False, pcGen := pcGen (cellAt p k) + 1, pcElem := z\<rparr> else cellAt p k)) \<and>
    (markHas (fst (markSetBit m h)) k \<longleftrightarrow> markHas m k \<or> k = h \<and> h div 64 < length m) \<and>
    (snd (markSetBit m h) \<longleftrightarrow> markHas m h \<or> length m \<le> h div 64) \<and> \<not> markHas (newMarks p) k"
  using sweep_spec(1,5) [OF assms] sweep_spec(4) [OF assms, of k] markSetBit_spec(1) [of m h "fst (markSetBit m h)" "snd (markSetBit m h)" k]
    markSetBit_spec(2) [of m h "fst (markSetBit m h)" "snd (markSetBit m h)"] newMarks_empty [of p k]
  by (simp add: killed_def)

theorem sweep_frees_the_unmarked_witness: "\<exists>q. sweep False (0 :: nat) [] (newPool 0) = (q, 0) \<and> poolInv q"
proof -
  obtain q n where s: "sweep False (0 :: nat) [] (newPool 0) = (q, n)" by (cases "sweep False (0 :: nat) [] (newPool 0)")
  have "{k. 0 < k \<and> pcLive (cellAt (newPool (0 :: nat)) k) \<and> \<not> markHas [] k} = {}" by (simp add: newPool_def cellAt_def zeroCell_def)
  with sweep_frees_the_unmarked [OF newPool_inv s, where h = 1 and k = 1] s show ?thesis by simp
qed

text \<open>
  C40: Region reclamation: truncating at a handle leaves every cell below it as it was, makes
  every cell from it up dead with its generation bumped, rewinds the allocator to it, and keeps
  the invariant, so no handle at or above it can be on the free list.
\<close>

theorem regions_are_reclaimed:
  assumes "poolInv p" "h0 \<le> plNext p"
  shows "poolInv (poolTruncate z p h0) \<and> plNext (poolTruncate z p h0) = max 1 h0 \<and>
    (\<forall>k. k < max 1 h0 \<longrightarrow> cellAt (poolTruncate z p h0) k = cellAt p k) \<and>
    (\<forall>k g. max 1 h0 \<le> k \<longrightarrow> \<not> alive (poolTruncate z p h0) k g) \<and>
    (\<forall>k. max 1 h0 \<le> k \<and> k < plNext p \<longrightarrow> pcGen (cellAt (poolTruncate z p h0) k) = pcGen (cellAt p k) + 1) \<and>
    (\<forall>k \<in> set (plFreeList (poolTruncate z p h0)). k < max 1 h0)"
proof -
  note T = truncate_spec [OF assms(1) refl refl assms(2), of z]
  have c: "cellAt (poolTruncate z p h0) k = (if max 1 h0 \<le> k \<and> k < plNext p then killed z (cellAt p k) else cellAt p k)" for k
    by (rule T(4))
  have "\<not> alive (poolTruncate z p h0) k g" if "max 1 h0 \<le> k" for k g
    using that dead_above [OF T(1), of k] T(2) alive_iff [OF T(1)] by simp
  moreover have "\<forall>k \<in> set (plFreeList (poolTruncate z p h0)). k < max 1 h0" using T(1,2) by (simp add: poolInv_def)
  moreover have "\<forall>k. k < max 1 h0 \<longrightarrow> cellAt (poolTruncate z p h0) k = cellAt p k"
    using c by (auto simp del: max_less_iff_conj)
  ultimately show ?thesis using T(1,2) c by (intro conjI) simp_all
qed

theorem regions_are_reclaimed_witness: "plNext (poolTruncate (0 :: nat) (newPool 0) 0) = 1"
  using regions_are_reclaimed [OF newPool_inv [of "0 :: nat"], of 0 0] by simp

section \<open>Further theorems\<close>

text \<open>
  The length a calendar gives for a year is the sum of the lengths of its months, and is the
  distance between two new years.
\<close>

theorem calendar_year_length:
  assumes "\<not> lunisolar_ident ident" "cal = calendarFor lun ident"
  shows "daysInYear cal y = (\<Sum>k<nat (monthsInYear cal y). daysInMonth cal y (1 + int k)) \<and>
    daysInYear cal y = dayFromDate cal (y + 1) 1 1 - dayFromDate cal y 1 1"
proof -
  have "calendar_laws cal" using calendarFor_laws assms by simp
  then show ?thesis using calendar_laws.year_is_sum_of_months calendar_laws.year_len by blast
qed

theorem calendar_year_length_witness:
  "daysInYear persianCalendar 1403 = dayFromDate persianCalendar 1404 1 1 - dayFromDate persianCalendar 1403 1 1"
  using calendar_year_length [of "''persian''" persianCalendar "\<lambda>z i. gregorianCalendar False" 1403]
  by (simp add: lunisolar_ident_def calendarFor_def)

text \<open>
  The ISO text of a date of a four-digit year has ten characters, and its year, month and day are
  read back from their places in it.
\<close>

theorem formatted_dates:
  assumes "valid_date d" "0 \<le> year d" "year d \<le> 9999"
  shows "length (formatISODate d) = 10 \<and> udigits (take 4 (formatISODate d)) = Some (year d) \<and>
    udigits (take 2 (drop 5 (formatISODate d))) = Some (month d) \<and> udigits (drop 8 (formatISODate d)) = Some (day d)"
  using formatISODate_fields [OF assms] by blast

theorem formatted_dates_witness: "udigits (take 4 (formatISODate \<lparr>year = 987, month = 6, day = 5\<rparr>)) = Some 987"
proof -
  have "valid_date \<lparr>year = 987, month = 6, day = 5\<rparr>" by code_simp
  from formatted_dates [OF this] show ?thesis by simp
qed

text \<open>
  The spans of a lazily parsed document cannot be confused with values: every offset below 2^46 is
  boxed as a span and read back, and no double, no value of another type and not the hole of an
  array is a span.
\<close>

theorem lazy_spans_apart:
  assumes "0 \<le> off" "off < 2 ^ 46" "t < 31"
  shows "isLazy (mklazy off) \<and> lazyOffset (mklazy off) = off \<and> mklazy off \<noteq> tEmpty \<and>
    \<not> isLazy (mkval t d) \<and> \<not> isLazy (mknum b)"
  using lazy_offset [OF assms(1,2)] not_lazy(2) not_lazy(3) [OF assms(3)] numbers_are_plain by metis

theorem lazy_spans_apart_witness: "lazyOffset (mklazy 4096) = 4096"
  using lazy_spans_apart [of 4096 0] by simp

text \<open>
  The bit-mask tests of the value types are the set memberships they stand for, on every 64-bit
  pattern.
\<close>

theorem type_predicates:
  "(IsObjectType v \<longleftrightarrow> valueType v \<in> {TObj, TArr, TFunc, TPromise, TGenerator}) \<and>
   (IsSpecialObject v \<longleftrightarrow> valueType v \<in> {TObj, TArr}) \<and>
   (IsNonNumeric v \<longleftrightarrow> valueType v \<in> {TStr, TArr, TFunc, TCFunc, TObj, TGenerator}) \<and>
   (IsNullish v \<longleftrightarrow> IsUndefined v \<or> IsNull v)"
  using type_mask_tests by (simp add: IsNullish_def IsUndefined_def IsNull_def Let_def)

text \<open>
  A property name is an array index exactly when it is the decimal text of a number below 2^32 -
  1, and the index is that number: no leading zeros, no sign, no overflow on ten-digit names.
\<close>

theorem array_index_names:
  "canonicalIndex s = Some n \<longleftrightarrow> s = ndigits (unat n) \<and> unat n < 2 ^ 32 - 1"
  by (rule canonicalIndex_iff)

text \<open>
  Month codes and months correspond: the code of a month of a year is looked up as that month, and
  a code that is looked up as a month is the code of that month, which exists in the year.
\<close>

theorem calendar_month_codes:
  assumes "\<not> lunisolar_ident ident" "cal = calendarFor lun ident" "- (2 ^ 63) \<le> y" "y < 2 ^ 63"
  shows "monthFromCode cal (itoa y) c = Some m \<longleftrightarrow> 1 \<le> m \<and> m \<le> monthsInYear cal y \<and> monthCode cal y m = c"
  using calendar_bridge.lookup [OF calendarFor_bridge [OF assms(1)]]
    calendar_codes.code_back [OF calendarFor_codes [OF assms(1)]] assms(2-4)
  by metis

theorem calendar_month_codes_witness: "monthFromCode hebrewCalendar (itoa 5784) ''M05L'' = Some 6"
proof -
  have c: "calendarFor (\<lambda>z i. gregorianCalendar False) ''hebrew'' = hebrewCalendar" by (simp add: calendarFor_def)
  have "6 \<le> monthsInYear hebrewCalendar 5784 \<and> monthCode hebrewCalendar 5784 6 = ''M05L''" by code_simp
  with calendar_month_codes [of "''hebrew''" hebrewCalendar "\<lambda>z i. gregorianCalendar False" 5784 "''M05L''" 6] c
  show ?thesis by (simp add: lunisolar_ident_def)
qed

text \<open>
  Rounding to an increment gives a multiple of it, less than one increment away, on the side the
  mode names; the half modes go to a nearest multiple, and half-even to the even one on a tie.
\<close>

theorem rounding_to_increment:
  assumes "0 < inc"
  shows "inc dvd roundNumberToIncrement x inc mode \<and> \<bar>roundNumberToIncrement x inc mode - x\<bar> < inc \<and>
    x \<le> roundNumberToIncrement x inc ''ceil'' \<and> roundNumberToIncrement x inc ''floor'' \<le> x \<and>
    \<bar>x\<bar> \<le> \<bar>roundNumberToIncrement x inc ''expand''\<bar> \<and> \<bar>roundNumberToIncrement x inc ''trunc''\<bar> \<le> \<bar>x\<bar> \<and>
    (mode \<notin> {''ceil'', ''floor'', ''expand'', ''trunc''} \<longrightarrow> 2 * \<bar>roundNumberToIncrement x inc mode - x\<bar> \<le> inc) \<and>
    (2 * (x mod inc) = inc \<longrightarrow> even (roundNumberToIncrement x inc ''halfEven'' div inc))"
  using round_is_multiple [of inc x mode] round_near [OF assms, of x mode] round_modes [OF assms, of x]
    round_half_nearest [OF assms, of mode x] round_half_even_tie [OF assms, of x] by blast

theorem rounding_to_increment_witness:
  "2 * \<bar>roundNumberToIncrement (- 25) 10 ''halfEven'' - (- 25)\<bar> \<le> 10"
  using rounding_to_increment [of 10 "- 25" "''halfEven''"] by simp

text \<open>
  Reading a date out of the fields a calendar gives for it (year or era and era year or both,
  month or month code or both, and day) gives back the date, under either overflow rule.
\<close>

theorem date_from_own_fields:
  assumes "\<not> lunisolar_ident ident" "got f fEra \<longrightarrow> ident \<noteq> ''iso8601''"
    and "valid_date i" "isoDateWithinLimits i" "fields_match f (calendarViewOf lun ident i)"
  shows "calendarDateFromFields lun ident f overflow = Inr i"
  using assms by (intro date_from_matching_fields) simp_all

theorem date_from_own_fields_witness:
  "calendarDateFromFields (\<lambda>z i. gregorianCalendar False) ''hebrew''
     \<lparr>fsEra = ''am'', fsEraYear = 5784, fsYear = 0, fsMonth = 0, fsMonthCode = ''M05L'', fsDay = 20, fsHas = 51\<rparr>
     ''reject'' = Inr \<lparr>year = 2024, month = 2, day = 29\<rparr>"
  by (rule date_from_own_fields) code_simp+

text \<open>
  What a calendar says of a date is in range: the weekday from 1 to 7, the day of the year within
  the year, the month and the day of the month within theirs.
\<close>

theorem date_views:
  assumes "\<not> lunisolar_ident ident" "v = calendarViewOf lun ident i"
  shows "1 \<le> vDayOfWeek v \<and> vDayOfWeek v \<le> 7 \<and> 1 \<le> vDayOfYear v \<and> vDayOfYear v \<le> vDaysInYear v \<and>
    1 \<le> vMonth v \<and> vMonth v \<le> vMonthsInYear v \<and> 1 \<le> vDay v \<and> vDay v \<le> vDaysInMonth v"
  using assms by (rule view_ranges)

theorem date_views_witness:
  "vDayOfYear (calendarViewOf (\<lambda>z i. gregorianCalendar False) ''roc'' \<lparr>year = 2024, month = 12, day = 31\<rparr>) \<le>
    vDaysInYear (calendarViewOf (\<lambda>z i. gregorianCalendar False) ''roc'' \<lparr>year = 2024, month = 12, day = 31\<rparr>)"
  using date_views [OF _ refl, of "''roc''" "\<lambda>z i. gregorianCalendar False" "\<lparr>year = 2024, month = 12, day = 31\<rparr>"]
  by (simp add: lunisolar_ident_def)

text \<open>
  The ISO week number is from 1 to 53, and two dates have the same week and week year exactly when
  they lie in the same Monday-to-Sunday week.
\<close>

theorem iso_weeks:
  "1 \<le> fst (isoWeekOfYear a) \<and> fst (isoWeekOfYear a) \<le> 53 \<and>
   (isoWeekOfYear a = isoWeekOfYear b \<longleftrightarrow> (epochDays a + 3) div 7 = (epochDays b + 3) div 7)"
  using week_number_range [of a "fst (isoWeekOfYear a)" "snd (isoWeekOfYear a)"] week_same [of a b]
    thursday_same_week [of "epochDays a" "epochDays b"] by simp

text \<open>
  The representable ISO dates are those from -271821-04-19 to 275760-09-13, and a year-month is
  representable exactly when a day of it is.
\<close>

theorem representable_dates:
  "(valid_date d \<longrightarrow> (isoDateWithinLimits d \<longleftrightarrow>
      \<not> ymd_less (year d, month d, day d) (- 271821, 4, 19) \<and> \<not> ymd_less (275760, 9, 13) (year d, month d, day d))) \<and>
   (1 \<le> month d \<and> month d \<le> 12 \<longrightarrow> (isoYearMonthWithinLimits d \<longleftrightarrow>
      (\<exists>k. valid_date (d\<lparr>day := k\<rparr>) \<and> isoDateWithinLimits (d\<lparr>day := k\<rparr>))))"
  using dateWithinLimits_ymd [of d] yearMonthWithinLimits_iff [of d] by blast

theorem representable_dates_witness:
  "isoYearMonthWithinLimits \<lparr>year = - 271821, month = 4, day = 1\<rparr> \<and>
   (isoYearMonthWithinLimits \<lparr>year = - 271821, month = 4, day = 1\<rparr> \<longleftrightarrow>
     (\<exists>k. valid_date \<lparr>year = - 271821, month = 4, day = k\<rparr> \<and> isoDateWithinLimits \<lparr>year = - 271821, month = 4, day = k\<rparr>))"
  using representable_dates [of "\<lparr>year = - 271821, month = 4, day = 1\<rparr>"]
  by (simp add: isoYearMonthWithinLimits_def)

text \<open>
  The decoders keep to their limits on every text: they never give more bytes than asked for nor
  claim to have read past the end; a base64 decode that fails keeps whole chunks of three bytes
  only; a hexadecimal decode reads exactly the digits of the bytes it gives, gives nothing of a
  text of odd length, and stops without an error only at the end of the text or at the limit.
\<close>

theorem decoders_keep_limits:
  assumes "fromBase64 s url lastChunk m = (bytes, used, bad)" "fromHex t m = (bytes', used', bad')"
  shows "length bytes \<le> m \<and> used \<le> length s \<and> (bad \<longrightarrow> length bytes mod 3 = 0) \<and>
    length bytes' \<le> m \<and> used' = 2 * length bytes' \<and> used' \<le> length t \<and>
    (length t mod 2 \<noteq> 0 \<longrightarrow> bad' \<and> bytes' = []) \<and> (\<not> bad' \<longrightarrow> used' = length t \<or> length bytes' = m)"
  using base64_limits [OF assms(1)] hex_limits [OF assms(2)] by blast

theorem decoders_keep_limits_witness: "\<exists>bytes used bad. fromBase64 ''AAEC!'' False ''loose'' 9 = (bytes, used, bad) \<and> length bytes \<le> 9 \<and> used \<le> 5"
proof -
  obtain bytes used bad where a: "fromBase64 ''AAEC!'' False ''loose'' 9 = (bytes, used, bad)" by (metis prod_cases3)
  obtain bytes' used' bad' where b: "fromHex ''0'' 9 = (bytes', used', bad')" by (metis prod_cases3)
  show ?thesis using decoders_keep_limits [OF a b] a by simp
qed

end
